(* ===== verification/Prelude.thy ===== *)
theory Prelude
  imports Complex_Main "HOL-Library.Multiset" "HOL-Library.AList" "HOL-Library.Word"
    "HOL-Library.Product_Lexorder"
begin

text \<open>
  Shared vocabulary of the development: Python exceptions as values, the result type every
  fallible operation returns, sequencing of fallible steps, Python slices and ranges over
  natural numbers, the test ``sorted and unique'' the code writes as
  \<open>xs == tuple(sorted(set(xs)))\<close>, and insertion-ordered dictionaries (\<open>dict\<close> and
  \<open>OrderedDict\<close>) as association lists with distinct keys.
\<close>

section \<open>Exceptions and results\<close>

datatype py_exc =
    ValueError string
  | TypeError string
  | KeyError string
  | IndexError string
  | RuntimeError string
  | AssertionError string
  | OverflowError string
  | ZeroDivisionError
  | StopIteration

type_synonym 'a res = "py_exc + 'a"

type_synonym byte = "8 word"

type_synonym bytes = "byte list"

named_theorems res_simps \<open>unfolding of sequenced fallible steps\<close>

fun bind_res :: "'a res \<Rightarrow> ('a \<Rightarrow> 'b res) \<Rightarrow> 'b res" where
  "bind_res (Inl e) f = Inl e"
| "bind_res (Inr x) f = f x"

definition check_res :: "bool \<Rightarrow> py_exc \<Rightarrow> unit res" where
  "check_res ok e = (if ok then Inr () else Inl e)"

fun map_res :: "('a \<Rightarrow> 'b res) \<Rightarrow> 'a list \<Rightarrow> 'b list res" where
  "map_res f [] = Inr []"
| "map_res f (x # xs) = bind_res (f x) (\<lambda>y. bind_res (map_res f xs) (\<lambda>ys. Inr (y # ys)))"

fun fold_res :: "('a \<Rightarrow> 's \<Rightarrow> 's res) \<Rightarrow> 'a list \<Rightarrow> 's \<Rightarrow> 's res" where
  "fold_res f [] s = Inr s"
| "fold_res f (x # xs) s = bind_res (f x s) (fold_res f xs)"

definition is_ok :: "'a res \<Rightarrow> bool" where
  "is_ok r = (case r of Inl _ \<Rightarrow> False | Inr _ \<Rightarrow> True)"

lemma bind_res_assoc: "bind_res (bind_res r f) g = bind_res r (\<lambda>x. bind_res (f x) g)"
  by (cases r) auto

lemma bind_res_eq_Inr [simp]: "bind_res r f = Inr y \<longleftrightarrow> (\<exists>x. r = Inr x \<and> f x = Inr y)"
  by (cases r) auto

lemma bind_res_eq_Inl: "bind_res r f = Inl e \<longleftrightarrow> r = Inl e \<or> (\<exists>x. r = Inr x \<and> f x = Inl e)"
  by (cases r) auto

lemma check_res_eq_Inr [simp]: "check_res ok e = Inr u \<longleftrightarrow> ok"
  by (simp add: check_res_def)

lemma check_res_eq_Inl [simp]: "check_res ok e = Inl e' \<longleftrightarrow> \<not> ok \<and> e' = e"
  by (auto simp: check_res_def)

lemma check_res_True [simp]: "check_res True e = Inr ()"
  by (simp add: check_res_def)

lemma check_res_False [simp]: "check_res False e = Inl e"
  by (simp add: check_res_def)

lemma bind_check_res: "bind_res (check_res ok e) f = (if ok then f () else Inl e)"
  by (simp add: check_res_def)

lemma is_ok_simps [simp]: "is_ok (Inr x)" "\<not> is_ok (Inl e)"
  by (simp_all add: is_ok_def)

lemma is_ok_iff: "is_ok r \<longleftrightarrow> (\<exists>x. r = Inr x)"
  by (cases r) auto

lemma map_res_Inr_iff:
  "map_res f xs = Inr ys \<longleftrightarrow> list_all2 (\<lambda>x y. f x = Inr y) xs ys"
  by (induction xs arbitrary: ys) (auto simp: list_all2_Cons1)

lemma map_res_length: "map_res f xs = Inr ys \<Longrightarrow> length ys = length xs"
  by (auto simp: map_res_Inr_iff dest: list_all2_lengthD)

lemma map_res_total: "(\<And>x. x \<in> set xs \<Longrightarrow> f x = Inr (g x)) \<Longrightarrow> map_res f xs = Inr (map g xs)"
  by (induction xs) auto

lemma map_res_ok: "(\<exists>ys. map_res f xs = Inr ys) \<longleftrightarrow> (\<forall>x \<in> set xs. \<exists>y. f x = Inr y)"
  by (induction xs) auto

lemma fold_res_append:
  "fold_res f (xs @ ys) s = bind_res (fold_res f xs s) (fold_res f ys)"
proof (induction xs arbitrary: s)
  case (Cons x xs)
  then show ?case by (cases "f x s") simp_all
qed simp

lemma fold_res_inv:
  assumes "fold_res f xs s = Inr s'" and "I s"
    and "\<And>x s t. x \<in> set xs \<Longrightarrow> I s \<Longrightarrow> f x s = Inr t \<Longrightarrow> I t"
  shows "I s'"
  using assms by (induction xs arbitrary: s) auto

lemmas [res_simps] = bind_check_res bind_res_assoc bind_res_eq_Inl

text \<open>A computation that may also fail to return.\<close>

type_synonym 'a run = "'a res option"

fun bind_run :: "'a run \<Rightarrow> ('a \<Rightarrow> 'b run) \<Rightarrow> 'b run" where
  "bind_run None f = None"
| "bind_run (Some (Inl e)) f = Some (Inl e)"
| "bind_run (Some (Inr x)) f = f x"

fun map_run :: "('a \<Rightarrow> 'b run) \<Rightarrow> 'a list \<Rightarrow> 'b list run" where
  "map_run f [] = Some (Inr [])"
| "map_run f (x # xs) = bind_run (f x) (\<lambda>y. bind_run (map_run f xs) (\<lambda>ys. Some (Inr (y # ys))))"

lemma bind_run_ok [simp]: "bind_run r f = Some (Inr y) \<longleftrightarrow> (\<exists>x. r = Some (Inr x) \<and> f x = Some (Inr y))"
  by (cases r; cases "the r") auto

lemma map_run_total: "(\<And>x. x \<in> set xs \<Longrightarrow> f x = Some (Inr (g x))) \<Longrightarrow> map_run f xs = Some (Inr (map g xs))"
  by (induction xs) auto

lemma map_run_ok: "(\<And>x. x \<in> set xs \<Longrightarrow> \<exists>y. f x = Some (Inr y)) \<Longrightarrow> \<exists>ys. map_run f xs = Some (Inr ys)"
proof (induction xs)
  case (Cons x xs)
  then obtain y ys where "f x = Some (Inr y)" "map_run f xs = Some (Inr ys)" by (meson list.set_intros)
  then show ?case by simp
qed simp

lemma map_run_Inr_iff: "map_run f xs = Some (Inr ys) \<longleftrightarrow> list_all2 (\<lambda>x y. f x = Some (Inr y)) xs ys"
  by (induction xs arbitrary: ys) (auto simp: list_all2_Cons1)

section \<open>Minimum and maximum by key\<close>

text \<open>Python's \<open>min(xs, key=f)\<close> and \<open>max(xs, key=f)\<close> keep the first of several extremal elements.\<close>

fun py_min_by :: "('a \<Rightarrow> 'k::linorder) \<Rightarrow> 'a list \<Rightarrow> 'a res" where
  "py_min_by key [] = Inl (ValueError ''min() arg is an empty sequence'')"
| "py_min_by key (x # xs) = Inr (fold (\<lambda>y best. if key y < key best then y else best) xs x)"

fun py_max_by :: "('a \<Rightarrow> 'k::linorder) \<Rightarrow> 'a list \<Rightarrow> 'a res" where
  "py_max_by key [] = Inl (ValueError ''max() arg is an empty sequence'')"
| "py_max_by key (x # xs) = Inr (fold (\<lambda>y best. if key best < key y then y else best) xs x)"

lemma fold_best:
  fixes less :: "'a \<Rightarrow> 'a \<Rightarrow> bool"
  assumes "\<And>x. \<not> less x x" and "\<And>x y z. \<not> less x y \<Longrightarrow> \<not> less y z \<Longrightarrow> \<not> less x z"
    and asym: "\<And>x y. less x y \<Longrightarrow> \<not> less y x"
  shows "fold (\<lambda>y best. if less y best then y else best) xs x \<in> insert x (set xs) \<and>
    (\<forall>y \<in> insert x (set xs). \<not> less y (fold (\<lambda>y best. if less y best then y else best) xs x))"
proof (induction xs arbitrary: x)
  case (Cons a xs)
  show ?case
  proof (cases "less a x")
    case True
    with Cons[of a] assms(2)[of x a] asym show ?thesis by auto
  next
    case False
    with Cons[of x] assms(2)[of a x] show ?thesis by auto
  qed
qed (simp add: assms(1))

lemma py_min_by_ok:
  assumes "py_min_by key xs = Inr y"
  shows "y \<in> set xs \<and> (\<forall>x \<in> set xs. key y \<le> key x)"
proof (cases xs)
  case (Cons a as)
  have "y = fold (\<lambda>y best. if (\<lambda>x y. key x < key y) y best then y else best) as a" using assms Cons by simp
  with fold_best[of "\<lambda>x y. key x < key y" as a] Cons show ?thesis by (simp add: not_less)
qed (use assms in simp)

lemma py_max_by_ok:
  assumes "py_max_by key xs = Inr y"
  shows "y \<in> set xs \<and> (\<forall>x \<in> set xs. key x \<le> key y)"
proof (cases xs)
  case (Cons a as)
  have "y = fold (\<lambda>y best. if (\<lambda>x y. key y < key x) y best then y else best) as a" using assms Cons by simp
  with fold_best[of "\<lambda>x y. key y < key x" as a] Cons show ?thesis by (simp add: not_less)
qed (use assms in simp)

lemma py_min_by_total: "(\<exists>y. py_min_by key xs = Inr y) \<longleftrightarrow> xs \<noteq> []"
  by (cases xs) auto

lemma py_max_by_total: "(\<exists>y. py_max_by key xs = Inr y) \<longleftrightarrow> xs \<noteq> []"
  by (cases xs) auto

section \<open>Slices\<close>

text \<open>\<open>slice i j xs\<close> is Python's \<open>xs[i:j]\<close> for \<open>0 \<le> i\<close> and \<open>0 \<le> j\<close>.\<close>

definition slice :: "nat \<Rightarrow> nat \<Rightarrow> 'a list \<Rightarrow> 'a list" where
  "slice i j xs = take (j - i) (drop i xs)"

lemma length_slice [simp]: "length (slice i j xs) = min (j - i) (length xs - i)"
  by (simp add: slice_def)

lemma slice_nth: "k < j - i \<Longrightarrow> i + k < length xs \<Longrightarrow> slice i j xs ! k = xs ! (i + k)"
  by (simp add: slice_def)

lemma slice_eq_iff:
  assumes "i + n \<le> length xs" and "j + n \<le> length ys"
  shows "slice i (i + n) xs = slice j (j + n) ys \<longleftrightarrow> (\<forall>k<n. xs ! (i + k) = ys ! (j + k))"
proof
  assume eq: "slice i (i + n) xs = slice j (j + n) ys"
  show "\<forall>k<n. xs ! (i + k) = ys ! (j + k)"
  proof (intro allI impI)
    fix k assume "k < n"
    with assms have "xs ! (i + k) = slice i (i + n) xs ! k" and "ys ! (j + k) = slice j (j + n) ys ! k"
      by (simp_all add: slice_nth)
    with eq show "xs ! (i + k) = ys ! (j + k)" by simp
  qed
next
  assume "\<forall>k<n. xs ! (i + k) = ys ! (j + k)"
  with assms show "slice i (i + n) xs = slice j (j + n) ys"
    by (intro nth_equalityI) (auto simp: slice_nth)
qed

lemma slice_0: "slice 0 n xs = take n xs"
  by (simp add: slice_def)

lemma set_slice: "set (slice i j xs) \<subseteq> set xs"
  by (auto simp: slice_def dest: in_set_takeD in_set_dropD)

lemma upt_split: "i \<le> j \<Longrightarrow> j \<le> k \<Longrightarrow> [i..<k] = [i..<j] @ [j..<k]"
  by (metis le_Suc_ex upt_add_eq_append)

lemma filter_upt_ge: "filter (\<lambda>k. m \<le> k) [0..<n] = [m..<n]"
  by (induction n) auto

lemma sorted_filter_upt: "sorted (filter P [i..<j])"
  using sorted_wrt_filter[of "(\<le>)" "[i..<j]" P] by simp

lemma in_set_tlD: "x \<in> set (tl xs) \<Longrightarrow> x \<in> set xs"
  by (cases xs) auto

lemma div_block_le:
  fixes k n b :: nat
  assumes "k < n div b"
  shows "k * b + b \<le> n"
proof -
  have "Suc k * b \<le> n div b * b" using assms by (intro mult_le_mono1) simp
  also have "\<dots> \<le> n" by simp
  finally show ?thesis by simp
qed

lemma ceil_div_le:
  fixes n b k :: nat
  assumes "0 < b"
  shows "(n + b - 1) div b \<le> k \<longleftrightarrow> n \<le> k * b"
proof -
  have "(n + b - 1) div b \<le> k \<longleftrightarrow> n + b - 1 < Suc k * b"
    using assms by (simp add: div_less_iff_less_mult less_Suc_eq_le[symmetric])
  then show ?thesis using assms by auto
qed

lemma div_block_less:
  fixes k n b :: nat
  assumes "k * b + b \<le> n" "0 < b"
  shows "k < n div b"
proof -
  have "Suc k * b \<le> n" using assms(1) by simp
  then have "Suc k \<le> n div b" using assms(2) by (simp add: less_eq_div_iff_mult_less_eq)
  then show ?thesis by simp
qed

text \<open>\<open>range(a, b, s)\<close> for a positive step.\<close>

definition range_step :: "nat \<Rightarrow> nat \<Rightarrow> nat \<Rightarrow> nat list" where
  "range_step a b s = map (\<lambda>k. a + k * s) [0..<(b - a + s - 1) div s]"

lemma range_step_mult:
  assumes "0 < s"
  shows "range_step (m * s) (n * s) s = map (\<lambda>k. k * s) [m..<n]"
proof -
  have "(n * s - m * s + s - 1) div s = n - m"
  proof -
    have "n * s - m * s + s - 1 = (n - m) * s + (s - 1)"
      using assms by (simp add: diff_mult_distrib)
    also have "\<dots> div s = (n - m) + (s - 1) div s" using assms by (intro div_mult_self3) simp
    finally show ?thesis using assms by simp
  qed
  moreover have "map (\<lambda>k. m * s + k * s) [0..<n - m] = map (\<lambda>k. k * s) [m..<n]"
    by (rule nth_equalityI) (simp_all add: algebra_simps)
  ultimately show ?thesis by (simp add: range_step_def)
qed

lemma set_range_step:
  assumes "0 < s"
  shows "x \<in> set (range_step a b s) \<longleftrightarrow> a \<le> x \<and> x < b \<and> s dvd (x - a)"
proof
  assume "x \<in> set (range_step a b s)"
  then obtain k where k': "x = a + k * s" "k \<in> {0..<(b - a + s - 1) div s}"
    unfolding range_step_def set_map set_upt by blast
  then have k: "x = a + k * s" "k < (b - a + s - 1) div s" by simp_all
  have "k * s + s \<le> b - a + s - 1" using div_block_le[OF k(2)] .
  then have "k * s < b - a" using assms by linarith
  then show "a \<le> x \<and> x < b \<and> s dvd (x - a)" by (simp add: k(1))
next
  assume x: "a \<le> x \<and> x < b \<and> s dvd (x - a)"
  then obtain k where k: "x - a = k * s" by (metis dvd_div_mult_self)
  have "k * s + s \<le> b - a + s - 1" using x assms k by linarith
  then have "k < (b - a + s - 1) div s" using assms by (rule div_block_less)
  moreover have "x = a + k * s" using x k by linarith
  ultimately show "x \<in> set (range_step a b s)" by (auto simp: range_step_def)
qed

lemma map_filter_full:
  assumes "length (List.map_filter g xs) = length xs"
  shows "list_all2 (\<lambda>x y. g x = Some y) xs (List.map_filter g xs)"
  using assms
proof (induction xs)
  case (Cons x xs)
  have "length (List.map_filter g xs) \<le> length xs"
    using length_filter_le by (simp add: map_filter_def)
  with Cons show ?case by (cases "g x") (auto simp: map_filter_simps)
qed (simp add: map_filter_simps)

lemma map_filter_all2: "list_all2 (\<lambda>x y. g x = Some y) xs ys \<Longrightarrow> List.map_filter g xs = ys"
  by (induction rule: list_all2_induct) (simp_all add: map_filter_simps)

lemma map_filter_id_map: "List.map_filter id (map g xs) = List.map_filter g xs"
proof (induction xs)
  case (Cons x xs)
  then show ?case by (cases "g x") (simp_all add: map_filter_simps)
qed (simp add: map_filter_simps)

lemma count_list_distinct: "distinct xs \<Longrightarrow> count_list xs x = (if x \<in> set xs then 1 else 0)"
  by (induction xs) auto

section \<open>Sorted sequences without repetition\<close>

definition sorted_unique :: "'a::linorder list \<Rightarrow> bool" where
  "sorted_unique xs \<longleftrightarrow> xs = sorted_list_of_set (set xs)"

lemma sorted_unique_iff: "sorted_unique xs \<longleftrightarrow> sorted xs \<and> distinct xs"
  unfolding sorted_unique_def
  by (metis List.finite_set sorted_list_of_set.distinct_sorted_key_list_of_set
      sorted_list_of_set.idem_if_sorted_distinct sorted_list_of_set.sorted_sorted_key_list_of_set
      list.map_ident)

lemma sorted_unique_strict: "sorted_unique xs \<longleftrightarrow> sorted_wrt (<) xs"
  by (simp add: sorted_unique_iff strict_sorted_iff)

lemma sorted_unique_sorted_list_of_set [simp]: "sorted_unique (sorted_list_of_set A)"
  by (simp add: sorted_unique_iff)

section \<open>Insertion-ordered dictionaries\<close>

type_synonym ('k, 'v) odict = "('k \<times> 'v) list"

abbreviation od_get :: "('k, 'v) odict \<Rightarrow> 'k \<Rightarrow> 'v option" where
  "od_get d k \<equiv> map_of d k"

abbreviation od_keys :: "('k, 'v) odict \<Rightarrow> 'k list" where
  "od_keys d \<equiv> map fst d"

text \<open>
  Assignment keeps the position of an existing key and appends a new one; \<open>od_pop\<close> is
  \<open>pop(key, None)\<close>'s effect; \<open>od_move_to_end\<close> re-appends an existing entry;
  \<open>popitem(last=False)\<close> is the case split on the first entry.
\<close>

abbreviation od_set :: "'k \<Rightarrow> 'v \<Rightarrow> ('k, 'v) odict \<Rightarrow> ('k, 'v) odict" where
  "od_set \<equiv> AList.update"

abbreviation od_pop :: "'k \<Rightarrow> ('k, 'v) odict \<Rightarrow> ('k, 'v) odict" where
  "od_pop \<equiv> AList.delete"

definition od_move_to_end :: "'k \<Rightarrow> ('k, 'v) odict \<Rightarrow> ('k, 'v) odict" where
  "od_move_to_end k d = (case od_get d k of None \<Rightarrow> d | Some v \<Rightarrow> od_pop k d @ [(k, v)])"

abbreviation od_dom :: "('k, 'v) odict \<Rightarrow> 'k set" where
  "od_dom d \<equiv> fst ` set d"

lemma od_dom_set [simp]: "od_dom (od_set k v d) = insert k (od_dom d)"
  by (simp add: dom_update)

lemma od_set_subset: "set (od_set k v d) \<subseteq> insert (k, v) (set d)"
  by (induction d) auto

lemma od_set_new: "k \<notin> od_dom d \<Longrightarrow> od_set k v d = d @ [(k, v)]"
  by (induction d) auto

lemma od_get_set [simp]: "od_get (od_set k v d) = (od_get d)(k \<mapsto> v)"
  by (simp add: update_conv' fun_eq_iff)

lemma od_get_pop [simp]: "od_get (od_pop k d) = (od_get d)(k := None)"
  by (simp add: delete_conv' fun_eq_iff)

lemma distinct_od_set [simp]: "distinct (od_keys d) \<Longrightarrow> distinct (od_keys (od_set k v d))"
  by (rule distinct_update)

lemma distinct_od_pop [simp]: "distinct (od_keys d) \<Longrightarrow> distinct (od_keys (od_pop k d))"
  by (rule distinct_delete)

lemma od_dom_pop [simp]: "od_dom (od_pop k d) = od_dom d - {k}"
  by (induction d) auto

lemma od_get_None_iff: "od_get d k = None \<longleftrightarrow> k \<notin> od_dom d"
  by (simp add: map_of_eq_None_iff)

lemma od_get_Some_dom: "od_get d k = Some v \<Longrightarrow> k \<in> od_dom d"
  by (metis od_get_None_iff option.distinct(1))

lemma od_move_to_end_get [simp]: "od_get (od_move_to_end k d) = od_get d"
  by (rule ext) (auto simp: od_move_to_end_def map_add_def split: option.splits)

lemma distinct_od_move_to_end [simp]:
  "distinct (od_keys d) \<Longrightarrow> distinct (od_keys (od_move_to_end k d))"
  by (cases "od_get d k") (simp_all add: od_move_to_end_def)

lemma od_dom_move_to_end [simp]: "od_dom (od_move_to_end k d) = od_dom d"
  by (cases "od_get d k") (simp_all add: od_move_to_end_def insert_absorb od_get_Some_dom)

lemma length_od_dom: "distinct (od_keys d) \<Longrightarrow> length d = card (od_dom d)"
  by (metis distinct_card length_map set_map)

lemma length_od_move_to_end [simp]:
  "distinct (od_keys d) \<Longrightarrow> length (od_move_to_end k d) = length d"
  by (simp add: length_od_dom)

lemma length_od_set:
  assumes "distinct (od_keys d)"
  shows "length (od_set k v d) = (if k \<in> od_dom d then length d else Suc (length d))"
proof -
  have "length (od_set k v d) = card (od_dom (od_set k v d))"
    using assms by (intro length_od_dom) simp
  then show ?thesis using assms by (simp add: insert_absorb card_insert_if length_od_dom)
qed

text \<open>A dictionary of objects by a key they carry.\<close>

lemma od_table:
  assumes "distinct (map f xs)"
  shows "od_get (fold (\<lambda>x. od_set (f x) x) xs d) k = Some x \<longleftrightarrow>
    (x \<in> set xs \<and> f x = k) \<or> (k \<notin> f ` set xs \<and> od_get d k = Some x)"
  using assms
proof (induction xs arbitrary: d)
  case (Cons y xs)
  then show ?case by (auto simp: image_iff)
qed simp

section \<open>Bisection\<close>

text \<open>\<open>bisect.bisect_left(xs, x, key=key)\<close> between \<open>lo\<close> and \<open>hi\<close>.\<close>

function bisect_left :: "('a \<Rightarrow> int) \<Rightarrow> 'a list \<Rightarrow> int \<Rightarrow> nat \<Rightarrow> nat \<Rightarrow> nat" where
  "bisect_left key xs x lo hi =
     (if lo < hi
      then let mid = (lo + hi) div 2
           in if key (xs ! mid) < x then bisect_left key xs x (mid + 1) hi else bisect_left key xs x lo mid
      else lo)"
  by pat_completeness auto
termination by (relation "measure (\<lambda>(key, xs, x, lo, hi). hi - lo)") auto

declare bisect_left.simps [simp del]

lemma bisect_left_ok:
  assumes "sorted (map key xs)" "hi \<le> length xs" "lo \<le> hi"
  shows "lo \<le> bisect_left key xs x lo hi \<and> bisect_left key xs x lo hi \<le> hi \<and>
    (\<forall>i. lo \<le> i \<longrightarrow> i < bisect_left key xs x lo hi \<longrightarrow> key (xs ! i) < x) \<and>
    (\<forall>i. bisect_left key xs x lo hi \<le> i \<longrightarrow> i < hi \<longrightarrow> x \<le> key (xs ! i))"
  using assms(2,3)
proof (induction "hi - lo" arbitrary: lo hi rule: less_induct)
  case less
  have mono: "i \<le> j \<Longrightarrow> j < length xs \<Longrightarrow> key (xs ! i) \<le> key (xs ! j)" for i j
    using assms(1) by (auto simp: sorted_iff_nth_mono)
  show ?case
  proof (cases "lo < hi")
    case True
    let ?mid = "(lo + hi) div 2"
    have mid: "lo \<le> ?mid" "?mid < hi" using True by auto
    show ?thesis
    proof (cases "key (xs ! ?mid) < x")
      case up: True
      then have eq: "bisect_left key xs x lo hi = bisect_left key xs x (?mid + 1) hi"
        using True by (simp add: bisect_left.simps[of key xs x lo hi] Let_def)
      have IH: "?mid + 1 \<le> bisect_left key xs x (?mid + 1) hi \<and> bisect_left key xs x (?mid + 1) hi \<le> hi \<and>
        (\<forall>i. ?mid + 1 \<le> i \<longrightarrow> i < bisect_left key xs x (?mid + 1) hi \<longrightarrow> key (xs ! i) < x) \<and>
        (\<forall>i. bisect_left key xs x (?mid + 1) hi \<le> i \<longrightarrow> i < hi \<longrightarrow> x \<le> key (xs ! i))"
        using mid less.prems by (intro less.hyps) auto
      have "key (xs ! i) < x" if "lo \<le> i" "i < bisect_left key xs x (?mid + 1) hi" for i
      proof (cases "i \<le> ?mid")
        case True
        then show ?thesis using mono[of i ?mid] up mid less.prems by linarith
      qed (use IH that in auto)
      with IH mid show ?thesis unfolding eq by auto
    next
      case down: False
      then have eq: "bisect_left key xs x lo hi = bisect_left key xs x lo ?mid"
        using True by (simp add: bisect_left.simps[of key xs x lo hi] Let_def)
      have IH: "lo \<le> bisect_left key xs x lo ?mid \<and> bisect_left key xs x lo ?mid \<le> ?mid \<and>
        (\<forall>i. lo \<le> i \<longrightarrow> i < bisect_left key xs x lo ?mid \<longrightarrow> key (xs ! i) < x) \<and>
        (\<forall>i. bisect_left key xs x lo ?mid \<le> i \<longrightarrow> i < ?mid \<longrightarrow> x \<le> key (xs ! i))"
        using mid less.prems by (intro less.hyps) auto
      have "x \<le> key (xs ! i)" if "bisect_left key xs x lo ?mid \<le> i" "i < hi" for i
      proof (cases "?mid \<le> i")
        case True
        then show ?thesis using mono[of ?mid i] down that(2) less.prems by linarith
      qed (use IH that in auto)
      with IH mid show ?thesis unfolding eq by auto
    qed
  next
    case False
    then have "bisect_left key xs x lo hi = lo" by (simp add: bisect_left.simps[of key xs x lo hi])
    then show ?thesis using False less.prems by simp
  qed
qed

end
