(* ===== verification/FreeQueue.thy ===== *)
theory FreeQueue
  imports Prelude
begin

text \<open>
  \<open>KVCacheBlock\<close> and \<open>FreeKVCacheBlockQueue\<close> of
  \<^verbatim>\<open>vllm/v1/core/kv_cache_utils.py\<close>: the block metadata, and the doubly linked
  list of free blocks threaded through the blocks' own \<open>prev_free_block\<close> and
  \<open>next_free_block\<close> fields.  A block object is a reference into an explicit heap, so the
  pointer surgery of every operation is written as the code does it.  \<open>fq_repr q xs\<close> says
  that the list threaded through the heap is \<open>xs\<close>; every operation is shown to be the
  corresponding list operation, and the contract is the locale \<open>free_list\<close>.
\<close>

section \<open>Blocks and the heap\<close>

text \<open>
  The fake head and the fake tail of the queue are block objects of their own (both carry
  \<open>block_id = -1\<close>); the pool's blocks are \<open>Blk 0, Blk 1, \<dots>\<close>.
\<close>

datatype bref = FakeHead | FakeTail | Blk nat

record kv_block =
  block_id :: int
  ref_cnt :: int
  block_hash :: "bytes option"
  block_hash_num_tokens :: "int option"
  prev_free_block :: "bref option"
  next_free_block :: "bref option"
  is_null :: bool

definition new_block :: "int \<Rightarrow> kv_block" where
  "new_block i = \<lparr>block_id = i, ref_cnt = 0, block_hash = None, block_hash_num_tokens = None,
     prev_free_block = None, next_free_block = None, is_null = False\<rparr>"

definition set_block_hash :: "bytes \<Rightarrow> int option \<Rightarrow> kv_block \<Rightarrow> kv_block res" where
  "set_block_hash key num_tokens b =
     (if block_hash b = None \<and> block_hash_num_tokens b = None
      then Inr (b\<lparr>block_hash := Some key, block_hash_num_tokens := num_tokens\<rparr>)
      else Inl (AssertionError ''The block already has a hash. This should not happen.''))"

definition reset_hash :: "kv_block \<Rightarrow> kv_block" where
  "reset_hash b = b\<lparr>block_hash := None, block_hash_num_tokens := None\<rparr>"

type_synonym heap = "bref \<Rightarrow> kv_block"

record free_queue =
  heap :: heap
  num_free_blocks :: int

definition set_prev :: "bref \<Rightarrow> bref option \<Rightarrow> heap \<Rightarrow> heap" where
  "set_prev b r h = h(b := (h b)\<lparr>prev_free_block := r\<rparr>)"

definition set_next :: "bref \<Rightarrow> bref option \<Rightarrow> heap \<Rightarrow> heap" where
  "set_next b r h = h(b := (h b)\<lparr>next_free_block := r\<rparr>)"

section \<open>The operations of the queue\<close>

text \<open>The loop of \<open>__init__\<close> that links consecutive blocks, one index per step.\<close>

definition link_step :: "bref list \<Rightarrow> nat \<Rightarrow> heap \<Rightarrow> heap" where
  "link_step bs i h =
     (let h1 = (if 0 < i then set_prev (bs ! i) (Some (bs ! (i - 1))) h else h)
      in if i + 1 < length bs then set_next (bs ! i) (Some (bs ! (i + 1))) h1 else h1)"

definition fq_init :: "bref list \<Rightarrow> heap \<Rightarrow> free_queue" where
  "fq_init bs h0 =
     (let h1 = fold (link_step bs) [0..<length bs] h0;
          h2 = h1(FakeHead := new_block (-1), FakeTail := new_block (-1));
          h3 = (if bs \<noteq> []
                then set_next (last bs) (Some FakeTail)
                       (set_prev FakeTail (Some (last bs))
                         (set_prev (hd bs) (Some FakeHead)
                           (set_next FakeHead (Some (hd bs)) h2)))
                else set_prev FakeTail (Some FakeHead) (set_next FakeHead (Some FakeTail) h2))
      in \<lparr>heap = h3, num_free_blocks = int (length bs)\<rparr>)"

definition fq_popleft :: "'a free_queue_scheme \<Rightarrow> (bref \<times> 'a free_queue_scheme) res" where
  "fq_popleft q =
     (let no_block = (if num_free_blocks q = 0
                      then Inl (ValueError ''No free blocks available'')
                      else Inl (AssertionError ''num_free_blocks is out of sync with the free list''))
      in case next_free_block (heap q FakeHead) of
           None \<Rightarrow> no_block
         | Some first \<Rightarrow>
             if first = FakeTail then no_block
             else case next_free_block (heap q first) of
                    None \<Rightarrow> Inl (RuntimeError ''Invalid block found in popleft()'')
                  | Some second \<Rightarrow>
                      Inr (first, q\<lparr>heap := set_next first None (set_prev first None
                                            (set_prev second (Some FakeHead)
                                              (set_next FakeHead (Some second) (heap q)))),
                                   num_free_blocks := num_free_blocks q - 1\<rparr>))"

fun pop_loop :: "nat \<Rightarrow> bref option \<Rightarrow> heap \<Rightarrow> (bref list \<times> bref option \<times> heap) res" where
  "pop_loop 0 cur h = Inr ([], cur, h)"
| "pop_loop (Suc k) None h = Inl (AssertionError ''curr_block is not None'')"
| "pop_loop (Suc k) (Some b) h =
     bind_res (pop_loop k (next_free_block (h b)) (set_next b None (set_prev b None h)))
       (\<lambda>(ret, cur, h'). Inr (b # ret, cur, h'))"

definition fq_popleft_n :: "int \<Rightarrow> 'a free_queue_scheme \<Rightarrow> (bref list \<times> 'a free_queue_scheme) res" where
  "fq_popleft_n n q =
     (if n = 0 then Inr ([], q)
      else bind_res (check_res (n \<le> num_free_blocks q) (AssertionError ''num_free_blocks >= n''))
        (\<lambda>_. bind_res (pop_loop (nat n) (next_free_block (heap q FakeHead)) (heap q))
          (\<lambda>(ret, cur, h). Inr (ret,
             q\<lparr>heap := (case cur of None \<Rightarrow> h
                        | Some c \<Rightarrow> set_prev c (Some FakeHead) (set_next FakeHead (Some c) h)),
               num_free_blocks := num_free_blocks q - n\<rparr>))))"

definition fq_remove :: "bref \<Rightarrow> 'a free_queue_scheme \<Rightarrow> 'a free_queue_scheme res" where
  "fq_remove b q =
     (case (prev_free_block (heap q b), next_free_block (heap q b)) of
        (Some p, Some n) \<Rightarrow>
          Inr (q\<lparr>heap := set_next b None (set_prev b None
                          (set_prev n (Some p) (set_next p (Some n) (heap q)))),
                 num_free_blocks := num_free_blocks q - 1\<rparr>)
      | _ \<Rightarrow> Inl (RuntimeError ''remove() called on an invalid block''))"

definition fq_append :: "bref \<Rightarrow> 'a free_queue_scheme \<Rightarrow> 'a free_queue_scheme res" where
  "fq_append b q =
     (case prev_free_block (heap q FakeTail) of
        None \<Rightarrow> Inl (RuntimeError ''prev_free_block of fake_free_list_tail should always exist'')
      | Some l \<Rightarrow>
          Inr (q\<lparr>heap := set_prev FakeTail (Some b) (set_next b (Some FakeTail)
                          (set_prev b (Some l) (set_next l (Some b) (heap q)))),
                 num_free_blocks := num_free_blocks q + 1\<rparr>))"

text \<open>
  The loop shared by \<open>prepend_n\<close> and \<open>append_n\<close>: connect each block after the previous
  one and return the last.
\<close>

fun link_run :: "bref \<Rightarrow> bref list \<Rightarrow> heap \<Rightarrow> bref \<times> heap" where
  "link_run p [] h = (p, h)"
| "link_run p (b # bs) h = link_run b bs (set_next p (Some b) (set_prev b (Some p) h))"

definition fq_prepend_n :: "bref list \<Rightarrow> 'a free_queue_scheme \<Rightarrow> 'a free_queue_scheme res" where
  "fq_prepend_n bs q =
     (if bs = [] then Inr q
      else case next_free_block (heap q FakeHead) of
        None \<Rightarrow> Inl (AssertionError ''next_free_block of fake_free_list_head should always exist'')
      | Some first \<Rightarrow>
          (case link_run FakeHead bs (heap q) of (l, h) \<Rightarrow>
             Inr (q\<lparr>heap := set_prev first (Some l) (set_next l (Some first) h),
                    num_free_blocks := num_free_blocks q + int (length bs)\<rparr>)))"

definition fq_append_n :: "bref list \<Rightarrow> 'a free_queue_scheme \<Rightarrow> 'a free_queue_scheme res" where
  "fq_append_n bs q =
     (if bs = [] then Inr q
      else case prev_free_block (heap q FakeTail) of
        None \<Rightarrow> Inl (AssertionError ''prev_free_block of fake_free_list_tail should always exist'')
      | Some l0 \<Rightarrow>
          (case link_run l0 bs (heap q) of (l, h) \<Rightarrow>
             Inr (q\<lparr>heap := set_prev FakeTail (Some l) (set_next l (Some FakeTail) h),
                    num_free_blocks := num_free_blocks q + int (length bs)\<rparr>)))"

text \<open>
  \<open>get_all_free_blocks\<close> follows the \<open>next\<close> pointers until one is missing; on a cyclic
  heap the loop would not end, which is the value \<open>None\<close>.
\<close>

partial_function (option) walk :: "heap \<Rightarrow> bref \<Rightarrow> bref list option" where
  "walk h cur =
     (case next_free_block (h cur) of
        None \<Rightarrow> Some []
      | Some n \<Rightarrow> Option.bind (walk h n) (\<lambda>ret. Some (cur # ret)))"

definition fq_get_all_free_blocks :: "'a free_queue_scheme \<Rightarrow> bref list res option" where
  "fq_get_all_free_blocks q =
     (case next_free_block (heap q FakeHead) of
        None \<Rightarrow> Some (Inl (RuntimeError ''next_free_block of fake_free_list_head should always exist''))
      | Some c \<Rightarrow> map_option Inr (walk (heap q) c))"

partial_function (option) iter_from :: "heap \<Rightarrow> bref option \<Rightarrow> bref list option" where
  "iter_from h cur =
     (case cur of
        None \<Rightarrow> Some []
      | Some c \<Rightarrow> if c = FakeTail then Some []
                  else Option.bind (iter_from h (next_free_block (h c))) (\<lambda>ret. Some (c # ret)))"

definition fq_iter_blocks_after :: "bref option \<Rightarrow> 'a free_queue_scheme \<Rightarrow> bref list option" where
  "fq_iter_blocks_after cursor q =
     iter_from (heap q) (next_free_block (heap q (case cursor of None \<Rightarrow> FakeHead | Some c \<Rightarrow> c)))"

section \<open>The list a heap holds\<close>

fun links :: "heap \<Rightarrow> bref list \<Rightarrow> bool" where
  "links h (p # q # r) \<longleftrightarrow>
     next_free_block (h p) = Some q \<and> prev_free_block (h q) = Some p \<and> links h (q # r)"
| "links h _ \<longleftrightarrow> True"

definition detached :: "heap \<Rightarrow> bref \<Rightarrow> bool" where
  "detached h b \<longleftrightarrow> prev_free_block (h b) = None \<and> next_free_block (h b) = None"

definition fq_repr :: "'a free_queue_scheme \<Rightarrow> bref list \<Rightarrow> bool" where
  "fq_repr q xs \<longleftrightarrow>
     links (heap q) (FakeHead # xs @ [FakeTail]) \<and> distinct (FakeHead # FakeTail # xs) \<and>
     next_free_block (heap q FakeTail) = None \<and> num_free_blocks q = int (length xs) \<and>
     (\<forall>i. Blk i \<notin> set xs \<longrightarrow> detached (heap q) (Blk i))"

definition same_meta :: "heap \<Rightarrow> heap \<Rightarrow> bool" where
  "same_meta h h' \<longleftrightarrow> (\<forall>b. (h b)\<lparr>prev_free_block := None, next_free_block := None\<rparr> =
     (h' b)\<lparr>prev_free_block := None, next_free_block := None\<rparr>)"

lemma next_set [simp]:
  "next_free_block (set_next b r h c) = (if c = b then r else next_free_block (h c))"
  "next_free_block (set_prev b r h c) = next_free_block (h c)"
  "prev_free_block (set_prev b r h c) = (if c = b then r else prev_free_block (h c))"
  "prev_free_block (set_next b r h c) = prev_free_block (h c)"
  by (simp_all add: set_next_def set_prev_def)

lemma same_meta_refl [simp]: "same_meta h h"
  by (simp add: same_meta_def)

lemma same_meta_trans: "same_meta h1 h2 \<Longrightarrow> same_meta h2 h3 \<Longrightarrow> same_meta h1 h3"
  by (simp add: same_meta_def)

lemma same_meta_set [simp]:
  "same_meta h (set_next b r h') = same_meta h h'"
  "same_meta h (set_prev b r h') = same_meta h h'"
  by (auto simp: same_meta_def set_next_def set_prev_def)

lemma same_metaD:
  assumes "same_meta h h'"
  shows "block_id (h' b) = block_id (h b)" "ref_cnt (h' b) = ref_cnt (h b)"
    "block_hash (h' b) = block_hash (h b)"
    "block_hash_num_tokens (h' b) = block_hash_num_tokens (h b)" "is_null (h' b) = is_null (h b)"
proof -
  have eq: "(h b)\<lparr>prev_free_block := None, next_free_block := None\<rparr> =
      (h' b)\<lparr>prev_free_block := None, next_free_block := None\<rparr>"
    using assms by (simp add: same_meta_def)
  from arg_cong[OF eq, of block_id] show "block_id (h' b) = block_id (h b)" by simp
  from arg_cong[OF eq, of ref_cnt] show "ref_cnt (h' b) = ref_cnt (h b)" by simp
  from arg_cong[OF eq, of block_hash] show "block_hash (h' b) = block_hash (h b)" by simp
  from arg_cong[OF eq, of block_hash_num_tokens]
  show "block_hash_num_tokens (h' b) = block_hash_num_tokens (h b)" by simp
  from arg_cong[OF eq, of is_null] show "is_null (h' b) = is_null (h b)" by simp
qed

lemma links_append: "links h (xs @ x # ys) \<longleftrightarrow> links h (xs @ [x]) \<and> links h (x # ys)"
  by (induction xs rule: induct_list012) auto

lemma links_cong:
  assumes "\<And>p. p \<in> set (butlast ps) \<Longrightarrow> next_free_block (h p) = next_free_block (h' p)"
    and "\<And>p. p \<in> set (tl ps) \<Longrightarrow> prev_free_block (h p) = prev_free_block (h' p)"
  shows "links h ps = links h' ps"
  using assms by (induction h ps rule: links.induct) auto

lemma links_nextD: "links h (xs @ p # q # ys) \<Longrightarrow> next_free_block (h p) = Some q"
  by (induction xs rule: induct_list012) auto

lemma links_prevD: "links h (xs @ p # q # ys) \<Longrightarrow> prev_free_block (h q) = Some p"
  by (induction xs rule: induct_list012) auto

text \<open>Writing a link of a block outside the relevant part of a chain keeps the chain.\<close>

lemma links_set_next [simp]:
  "b \<notin> set (butlast ps) \<Longrightarrow> links (set_next b r h) ps = links h ps"
  by (rule links_cong) auto

lemma links_set_prev [simp]:
  "b \<notin> set (tl ps) \<Longrightarrow> links (set_prev b r h) ps = links h ps"
  by (rule links_cong) auto

lemma links_set_other [simp]:
  "b \<notin> set ps \<Longrightarrow> links (set_next b r h) ps = links h ps"
  "b \<notin> set ps \<Longrightarrow> links (set_prev b r h) ps = links h ps"
  by (auto intro!: links_cong dest: in_set_butlastD in_set_tlD)


lemma detached_set [simp]:
  "c \<noteq> b \<Longrightarrow> detached (set_next b r h) c = detached h c"
  "c \<noteq> b \<Longrightarrow> detached (set_prev b r h) c = detached h c"
  "detached (set_next b None (set_prev b None h)) b"
  by (simp_all add: detached_def)

lemma fq_reprD:
  assumes "fq_repr q xs"
  shows "links (heap q) (FakeHead # xs @ [FakeTail])" "distinct xs" "FakeHead \<notin> set xs"
    "FakeTail \<notin> set xs" "next_free_block (heap q FakeTail) = None"
    "num_free_blocks q = int (length xs)"
    "Blk i \<notin> set xs \<Longrightarrow> detached (heap q) (Blk i)"
  using assms by (auto simp: fq_repr_def)

lemma snoc_Cons_obtain:
  obtains y ys where "xs @ [z] = y # ys" "set ys \<subseteq> set (xs @ [z])"
  by (cases xs) auto

section \<open>Every operation is a list operation\<close>

lemma fq_popleft_Cons:
  assumes r: "fq_repr q (x # xs)"
  shows "\<exists>h n. fq_popleft q = Inr (x, q\<lparr>heap := h, num_free_blocks := n\<rparr>) \<and>
    fq_repr (q\<lparr>heap := h, num_free_blocks := n\<rparr>) xs \<and> same_meta (heap q) h"
proof -
  note R = fq_reprD[OF r]
  obtain s rest where s: "xs @ [FakeTail] = s # rest" by (cases xs) auto
  from R(1) have next0: "next_free_block (heap q FakeHead) = Some x"
    and nextx: "next_free_block (heap q x) = Some s" and L: "links (heap q) (s # rest)"
    by (simp_all add: s)
  have x: "x \<noteq> FakeTail" "x \<noteq> FakeHead" "x \<notin> set (s # rest)"
    using R(2,3,4) by (auto simp flip: s)
  have d: "distinct (s # rest)" "FakeHead \<notin> set (s # rest)"
    using R(2,3,4) by (auto simp flip: s)
  let ?h = "set_next x None (set_prev x None (set_prev s (Some FakeHead) (set_next FakeHead (Some s) (heap q))))"
  have sx: "s \<noteq> x" using x by auto
  have "links ?h (s # rest)"
    using L x d by simp
  then have "links ?h (FakeHead # s # rest)"
    using x d by auto
  moreover have "detached ?h (Blk i)" if "Blk i \<notin> set xs" for i
  proof (cases "Blk i = x")
    case True
    then show ?thesis by (metis detached_set(3))
  next
    case False
    then have "detached (heap q) (Blk i)" using that R(7) by auto
    moreover have "Blk i \<noteq> s" using that s by (cases xs) auto
    ultimately show ?thesis using False by simp
  qed
  moreover have "next_free_block (?h FakeTail) = None" using R(5) x by auto
  ultimately have "fq_repr (q\<lparr>heap := ?h, num_free_blocks := num_free_blocks q - 1\<rparr>) xs"
    using R by (auto simp: fq_repr_def s)
  moreover have "fq_popleft q = Inr (x, q\<lparr>heap := ?h, num_free_blocks := num_free_blocks q - 1\<rparr>)"
    using next0 nextx x by (simp add: fq_popleft_def)
  ultimately show ?thesis by (metis same_meta_refl same_meta_set)
qed

lemma fq_popleft_Nil:
  assumes "fq_repr q []"
  shows "fq_popleft q = Inl (ValueError ''No free blocks available'')"
  using fq_reprD[OF assms] by (simp add: fq_popleft_def)

lemma fq_remove_mid:
  assumes r: "fq_repr q (xs @ b # ys)"
  shows "\<exists>h n. fq_remove b q = Inr (q\<lparr>heap := h, num_free_blocks := n\<rparr>) \<and>
    fq_repr (q\<lparr>heap := h, num_free_blocks := n\<rparr>) (xs @ ys) \<and> same_meta (heap q) h"
proof -
  note R = fq_reprD[OF r]
  obtain n rest where n: "ys @ [FakeTail] = n # rest" by (cases ys) auto
  obtain init p where p: "FakeHead # xs = init @ [p]" by (metis append_butlast_last_id list.distinct(1))
  have ps: "FakeHead # (xs @ b # ys) @ [FakeTail] = init @ p # b # n # rest"
    using n p by (metis append.assoc append_Cons append_Nil)
  have L: "links (heap q) (init @ p # b # n # rest)" using R(1) ps by simp
  have D: "distinct (init @ p # b # n # rest)" using R(2,3,4) by (auto simp flip: ps)
  have nb: "next_free_block (heap q b) = Some n" and pb: "prev_free_block (heap q b) = Some p"
    using L links_nextD[of "heap q" "init @ [p]" b n rest] links_prevD[of "heap q" init p b "n # rest"]
    by simp_all
  let ?h = "set_next b None (set_prev b None (set_prev n (Some p) (set_next p (Some n) (heap q))))"
  have pin: "p \<in> set (FakeHead # xs)" and nin: "n \<in> set (ys @ [FakeTail])"
    using p n by (metis in_set_conv_decomp, metis list.set_intros(1))
  have L1: "links (heap q) (init @ [p])" and L2: "links (heap q) (n # rest)"
    using L links_append[of "heap q" init p "b # n # rest"] by simp_all
  have "links ?h (init @ [p])" using L1 D
    by auto
  moreover have "links ?h (n # rest)" using L2 D by auto
  ultimately have "links ?h (init @ p # n # rest)"
    using D links_append[of ?h init p "n # rest"] by auto
  then have "links ?h (FakeHead # (xs @ ys) @ [FakeTail])"
    using p n by (metis append.assoc append_Cons append_Nil)
  moreover have "detached ?h (Blk i)" if "Blk i \<notin> set (xs @ ys)" for i
  proof (cases "Blk i = b")
    case True
    then show ?thesis by (metis detached_set(3))
  next
    case False
    then have "detached (heap q) (Blk i)" using that R(7) by auto
    moreover have "Blk i \<noteq> n" "Blk i \<noteq> p"
      using that pin nin by auto
    ultimately show ?thesis using False by simp
  qed
  moreover have "next_free_block (?h FakeTail) = None"
    using R(4,5) pin by auto
  ultimately have "fq_repr (q\<lparr>heap := ?h, num_free_blocks := num_free_blocks q - 1\<rparr>) (xs @ ys)"
    using R by (auto simp: fq_repr_def)
  moreover have "fq_remove b q = Inr (q\<lparr>heap := ?h, num_free_blocks := num_free_blocks q - 1\<rparr>)"
    using nb pb by (simp add: fq_remove_def)
  ultimately show ?thesis by (metis same_meta_refl same_meta_set)
qed

lemma fq_remove_not_free:
  assumes "fq_repr q xs" and "Blk i \<notin> set xs"
  shows "fq_remove (Blk i) q = Inl (RuntimeError ''remove() called on an invalid block'')"
  using fq_reprD(7)[OF assms] by (simp add: fq_remove_def detached_def)


definition clear_links :: "bref list \<Rightarrow> heap \<Rightarrow> heap" where
  "clear_links bs h = fold (\<lambda>b h. set_next b None (set_prev b None h)) bs h"

lemma clear_links_Cons: "clear_links (b # bs) h = clear_links bs (set_next b None (set_prev b None h))"
  by (simp add: clear_links_def)

lemma clear_links_sel [simp]:
  "next_free_block (clear_links bs h c) = (if c \<in> set bs then None else next_free_block (h c))"
  "prev_free_block (clear_links bs h c) = (if c \<in> set bs then None else prev_free_block (h c))"
  by (induction bs arbitrary: h) (auto simp: clear_links_Cons, simp_all add: clear_links_def)

lemma same_meta_clear [simp]: "same_meta h (clear_links bs h') = same_meta h h'"
  by (induction bs arbitrary: h') (auto simp: clear_links_Cons, simp_all add: clear_links_def)

lemma links_clear [simp]: "set bs \<inter> set ps = {} \<Longrightarrow> links (clear_links bs h) ps = links h ps"
  by (rule links_cong) (auto dest: in_set_butlastD in_set_tlD)

lemma pop_loop_path:
  "links h (xs @ [z]) \<Longrightarrow> distinct (xs @ [z]) \<Longrightarrow>
   pop_loop (length xs) (Some (hd (xs @ [z]))) h = Inr (xs, Some z, clear_links xs h)"
proof (induction xs arbitrary: h)
  case Nil
  then show ?case by (simp add: clear_links_def)
next
  case (Cons x xs)
  obtain y ys where y: "xs @ [z] = y # ys" by (cases xs) auto
  have "next_free_block (h x) = Some y" and L: "links h (xs @ [z])"
    using Cons.prems(1) by (simp_all add: y)
  moreover have "links (set_next x None (set_prev x None h)) (xs @ [z])"
    using L Cons.prems(2) by auto
  ultimately show ?case
    using Cons.IH[of "set_next x None (set_prev x None h)"] Cons.prems(2)
    by (simp add: y clear_links_Cons)
qed

lemma fq_popleft_n_take:
  assumes r: "fq_repr q xs" and k: "k \<le> length xs"
  shows "\<exists>h n. fq_popleft_n (int k) q = Inr (take k xs, q\<lparr>heap := h, num_free_blocks := n\<rparr>) \<and>
    fq_repr (q\<lparr>heap := h, num_free_blocks := n\<rparr>) (drop k xs) \<and> same_meta (heap q) h"
proof (cases "k = 0")
  case True
  then show ?thesis using r
    by (intro exI[of _ "heap q"] exI[of _ "num_free_blocks q"]) (simp add: fq_popleft_n_def)
next
  case False
  note R = fq_reprD[OF r]
  let ?ys = "take k xs"
  obtain z rest where z: "drop k xs @ [FakeTail] = z # rest" by (cases "drop k xs") auto
  have split: "xs @ [FakeTail] = ?ys @ z # rest"
    using z by (metis append.assoc append_take_drop_id)
  then have L: "links (heap q) (FakeHead # ?ys @ z # rest)" using R(1) by simp
  have D: "distinct (FakeHead # ?ys @ z # rest)" using R(2-4) by (auto simp flip: split)
  have zin: "z \<in> set (drop k xs @ [FakeTail])" by (simp only: z list.set_intros)
  have L1: "links (heap q) (FakeHead # ?ys @ [z])" and L2: "links (heap q) (z # rest)"
    using L links_append[of "heap q" "FakeHead # ?ys" z rest] by simp_all
  have next0: "next_free_block (heap q FakeHead) = Some (hd (?ys @ [z]))"
    and Ly: "links (heap q) (?ys @ [z])"
    using L1 by (cases "?ys @ [z]"; simp)+
  let ?h = "set_prev z (Some FakeHead) (set_next FakeHead (Some z) (clear_links ?ys (heap q)))"
  have "pop_loop k (next_free_block (heap q FakeHead)) (heap q) =
      Inr (?ys, Some z, clear_links ?ys (heap q))"
    using pop_loop_path[OF Ly] D next0 k by (simp add: min_absorb2)
  then have eq: "fq_popleft_n (int k) q =
      Inr (?ys, q\<lparr>heap := ?h, num_free_blocks := num_free_blocks q - int k\<rparr>)"
    using False R(6) k by (simp add: fq_popleft_n_def)
  have "links ?h (z # rest)" using L2 D by auto
  then have "links ?h (FakeHead # z # rest)" using D by auto
  moreover have "detached ?h (Blk i)" if "Blk i \<notin> set (drop k xs)" for i
  proof (cases "Blk i \<in> set ?ys")
    case True
    with D have "Blk i \<noteq> z" by auto
    with True show ?thesis by (simp add: detached_def)
  next
    case False
    then have "Blk i \<notin> set xs" using that by (metis UnE append_take_drop_id set_append)
    with R(7) have "detached (heap q) (Blk i)" by blast
    moreover have "Blk i \<noteq> z" using that zin by auto
    ultimately show ?thesis using False by (simp add: detached_def)
  qed
  moreover have "next_free_block (?h FakeTail) = None" using R(5) by auto
  ultimately have "fq_repr (q\<lparr>heap := ?h, num_free_blocks := num_free_blocks q - int k\<rparr>) (drop k xs)"
    using R k by (auto simp: fq_repr_def z dest: in_set_dropD)
  then show ?thesis using eq
    by (intro exI[of _ ?h] exI[of _ "num_free_blocks q - int k"]) simp
qed

lemma link_run_spec:
  assumes "distinct (p # bs)" and "link_run p bs h = (l, h')"
  shows "l = last (p # bs)" "links h' (p # bs)" "same_meta h h'"
    "c \<notin> set (butlast (p # bs)) \<Longrightarrow> next_free_block (h' c) = next_free_block (h c)"
    "c \<notin> set bs \<Longrightarrow> prev_free_block (h' c) = prev_free_block (h c)"
    "c \<notin> set (p # bs) \<Longrightarrow> next_free_block (h' c) = next_free_block (h c)"
proof -
  have spec: "l = last (p # bs) \<and> links h' (p # bs) \<and> same_meta h h' \<and>
    (\<forall>c. c \<notin> set (butlast (p # bs)) \<longrightarrow> next_free_block (h' c) = next_free_block (h c)) \<and>
    (\<forall>c. c \<notin> set bs \<longrightarrow> prev_free_block (h' c) = prev_free_block (h c))"
    using assms
  proof (induction bs arbitrary: p h)
    case (Cons b bs)
    let ?h = "set_next p (Some b) (set_prev b (Some p) h)"
    have IH: "l = last (b # bs)" "links h' (b # bs)" "same_meta ?h h'"
      "\<And>c. c \<notin> set (butlast (b # bs)) \<Longrightarrow> next_free_block (h' c) = next_free_block (?h c)"
      "\<And>c. c \<notin> set bs \<Longrightarrow> prev_free_block (h' c) = prev_free_block (?h c)"
      using Cons.IH[of b ?h] Cons.prems by auto
    have "p \<notin> set (butlast (b # bs))" using Cons.prems(1) by (auto dest: in_set_butlastD)
    then have "next_free_block (h' p) = Some b" using IH(4)[of p] by simp
    moreover have "prev_free_block (h' b) = Some p" using IH(5)[of b] Cons.prems(1) by simp
    moreover have "same_meta h h'"
      by (rule same_meta_trans[OF _ IH(3)]) simp
    ultimately show ?case using IH by auto
  qed simp
  then show "l = last (p # bs)" "links h' (p # bs)" "same_meta h h'"
    "c \<notin> set (butlast (p # bs)) \<Longrightarrow> next_free_block (h' c) = next_free_block (h c)"
    "c \<notin> set bs \<Longrightarrow> prev_free_block (h' c) = prev_free_block (h c)"
    by blast+
  show "c \<notin> set (p # bs) \<Longrightarrow> next_free_block (h' c) = next_free_block (h c)"
    using spec in_set_butlastD[of c "p # bs"] by blast
qed

text \<open>The blocks a caller may give back: distinct, real blocks, none of them free.\<close>

definition fresh_for :: "bref list \<Rightarrow> bref list \<Rightarrow> bool" where
  "fresh_for xs bs \<longleftrightarrow> distinct bs \<and> set bs \<inter> (set xs \<union> {FakeHead, FakeTail}) = {}"

lemma fq_append_n_snoc:
  assumes r: "fq_repr q xs" and f: "fresh_for xs bs"
  shows "\<exists>h n. fq_append_n bs q = Inr (q\<lparr>heap := h, num_free_blocks := n\<rparr>) \<and>
    fq_repr (q\<lparr>heap := h, num_free_blocks := n\<rparr>) (xs @ bs) \<and> same_meta (heap q) h"
proof (cases "bs = []")
  case True
  then show ?thesis using r
    by (intro exI[of _ "heap q"] exI[of _ "num_free_blocks q"]) (simp add: fq_append_n_def)
next
  case False
  note R = fq_reprD[OF r]
  obtain init l0 where l0: "FakeHead # xs = init @ [l0]"
    by (metis append_butlast_last_id list.distinct(1))
  have l0in: "l0 \<in> set (FakeHead # xs)" and initin: "set init \<subseteq> set (FakeHead # xs)"
    by (simp_all only: l0) auto
  have L: "links (heap q) (init @ l0 # [FakeTail])"
    using R(1) l0 by (metis append.assoc append_Cons append_Nil)
  have D: "distinct (init @ [l0])" "FakeTail \<notin> set (init @ [l0])" "set bs \<inter> set (init @ [l0]) = {}"
    using R(2-4) f by (auto simp: fresh_for_def simp flip: l0)
  have FT: "FakeTail \<notin> set bs" "distinct bs" using f by (auto simp: fresh_for_def)
  have prevT: "prev_free_block (heap q FakeTail) = Some l0" using links_prevD[of _ init l0 FakeTail "[]"] L by simp
  obtain l h1 where run: "link_run l0 bs (heap q) = (l, h1)" by force
  have dl: "distinct (l0 # bs)" using D FT by auto
  note S = link_run_spec[OF dl run]
  let ?h = "set_prev FakeTail (Some l) (set_next l (Some FakeTail) h1)"
  have L0: "links (heap q) (init @ [l0])"
    using L links_append[of "heap q" init l0 "[FakeTail]"] by simp
  have ib: "c \<notin> set (butlast (l0 # bs))" if "c \<in> set init" for c
    using that D by (auto dest: in_set_butlastD split: if_splits)
  have tb: "c \<notin> set bs" if "c \<in> set (tl (init @ [l0]))" for c
    using in_set_tlD[OF that] D(3) by auto
  have "links h1 (init @ [l0])"
    using L0 by (subst links_cong[of _ _ "heap q"]) (simp_all add: S(4)[OF ib] S(5)[OF tb])
  then have "links h1 (init @ l0 # bs)" using S(2) links_append[of h1 init l0 bs] by simp
  moreover obtain m where m: "l0 # bs = m @ [l]" using S(1)
    by (metis append_butlast_last_id list.distinct(1))
  have dm: "distinct (init @ m @ [l])" using D FT by (auto simp flip: m)
  ultimately have "links h1 ((init @ m) @ [l])" by (simp add: m)
  moreover have lT: "l \<noteq> FakeTail" "FakeTail \<notin> set (init @ m)"
    using arg_cong[OF m, of set] D FT by auto
  ultimately have "links ?h ((init @ m) @ [l])" using dm by (auto simp: butlast_append)
  then have LL: "links ?h ((init @ m) @ l # [FakeTail])"
    using lT links_append[of ?h "init @ m" l "[FakeTail]"] by auto
  have E: "(init @ m) @ l # [FakeTail] = FakeHead # (xs @ bs) @ [FakeTail]"
    using l0 m by (metis append.assoc append_Cons append_Nil)
  have "links ?h (FakeHead # (xs @ bs) @ [FakeTail])" using LL by (simp only: E)
  moreover have "detached ?h (Blk i)" if i: "Blk i \<notin> set (xs @ bs)" for i
  proof -
    have "Blk i \<notin> set (l0 # bs)" using i l0in by auto
    moreover then have "Blk i \<noteq> l" using m by auto
    moreover have "detached (heap q) (Blk i)" using i R(7) by auto
    ultimately show ?thesis using S(5,6)[of "Blk i"] by (auto simp: detached_def)
  qed
  moreover have "next_free_block (?h FakeTail) = None"
    using R(5) S(6)[of FakeTail] D FT lT(1) by auto
  ultimately have "fq_repr (q\<lparr>heap := ?h, num_free_blocks := num_free_blocks q + int (length bs)\<rparr>) (xs @ bs)"
    using R f unfolding fq_repr_def fresh_for_def by simp blast
  moreover have "fq_append_n bs q = Inr (q\<lparr>heap := ?h, num_free_blocks := num_free_blocks q + int (length bs)\<rparr>)"
    using False prevT run by (simp add: fq_append_n_def)
  moreover have "same_meta (heap q) ?h" using S(3) by simp
  ultimately show ?thesis by blast
qed


lemma fq_prepend_n_front:
  assumes r: "fq_repr q xs" and f: "fresh_for xs bs"
  shows "\<exists>h n. fq_prepend_n bs q = Inr (q\<lparr>heap := h, num_free_blocks := n\<rparr>) \<and>
    fq_repr (q\<lparr>heap := h, num_free_blocks := n\<rparr>) (bs @ xs) \<and> same_meta (heap q) h"
proof (cases "bs = []")
  case True
  then show ?thesis using r
    by (intro exI[of _ "heap q"] exI[of _ "num_free_blocks q"]) (simp add: fq_prepend_n_def)
next
  case False
  note R = fq_reprD[OF r]
  obtain s rest where s: "xs @ [FakeTail] = s # rest" by (cases xs) auto
  have L: "links (heap q) (FakeHead # s # rest)" using R(1) s by simp
  have D: "distinct (s # rest)" "FakeHead \<notin> set (s # rest)" "set bs \<inter> set (s # rest) = {}"
    using R(2-4) f by (auto simp: fresh_for_def simp flip: s)
  have F: "FakeTail \<notin> set bs" "FakeHead \<notin> set bs" "distinct bs" using f by (auto simp: fresh_for_def)
  obtain l h1 where run: "link_run FakeHead bs (heap q) = (l, h1)" by force
  have dl: "distinct (FakeHead # bs)" using F by auto
  note S = link_run_spec[OF dl run]
  obtain m where m: "FakeHead # bs = m @ [l]" using S(1)
    by (metis append_butlast_last_id list.distinct(1))
  have M: "distinct (m @ [l])" "set (m @ [l]) \<inter> set (s # rest) = {}"
    using D dl by (auto simp flip: m)
  let ?h = "set_prev s (Some l) (set_next l (Some s) h1)"
  have "links (heap q) (s # rest)" using L by simp
  have "c \<notin> set (FakeHead # bs)" if "c \<in> set (s # rest)" for c
    using that D by auto
  moreover have "c \<notin> set bs" if "c \<in> set (s # rest)" for c
    using that D by auto
  ultimately have "links h1 (s # rest) = links (heap q) (s # rest)"
    by (intro links_cong) (metis S(6) in_set_butlastD, metis S(5) in_set_tlD)
  with \<open>links (heap q) (s # rest)\<close> have "links h1 (s # rest)" by simp
  then have A: "links ?h (s # rest)" using D M by auto
  have "links h1 (m @ [l])" using S(2) m by simp
  then have "links ?h (m @ [l])" using M by auto
  then have LL: "links ?h (m @ l # s # rest)"
    using A M links_append[of ?h m l "s # rest"] by auto
  have E: "m @ l # s # rest = FakeHead # (bs @ xs) @ [FakeTail]"
    using m s by (metis append.assoc append_Cons append_Nil)
  have "links ?h (FakeHead # (bs @ xs) @ [FakeTail])" using LL by (simp only: E)
  moreover have "detached ?h (Blk i)" if i: "Blk i \<notin> set (bs @ xs)" for i
  proof -
    have "Blk i \<noteq> l" using i arg_cong[OF m, of set] by auto
    moreover have "Blk i \<noteq> s" using i s by (cases xs) auto
    moreover have "detached (heap q) (Blk i)" using i R(7) by auto
    ultimately show ?thesis using i S(5,6)[of "Blk i"] by (auto simp: detached_def)
  qed
  moreover have "next_free_block (?h FakeTail) = None"
    using R(5) S(6)[of FakeTail] F arg_cong[OF m, of set] by auto
  ultimately have "fq_repr (q\<lparr>heap := ?h, num_free_blocks := num_free_blocks q + int (length bs)\<rparr>) (bs @ xs)"
    using R f unfolding fq_repr_def fresh_for_def by simp
  moreover have "fq_prepend_n bs q = Inr (q\<lparr>heap := ?h, num_free_blocks := num_free_blocks q + int (length bs)\<rparr>)"
    using False L run by (simp add: fq_prepend_n_def)
  moreover have "same_meta (heap q) ?h" using S(3) by simp
  ultimately show ?thesis by blast
qed

lemma fq_append_eq_append_n:
  assumes "fq_repr q xs"
  shows "fq_append b q = fq_append_n [b] q"
proof -
  obtain init l0 where l0: "FakeHead # xs = init @ [l0]"
    by (metis append_butlast_last_id list.distinct(1))
  have "links (heap q) (init @ l0 # [FakeTail])"
    using fq_reprD(1)[OF assms] l0 by (metis append.assoc append_Cons append_Nil)
  then have prevT: "prev_free_block (heap q FakeTail) = Some l0"
    using links_prevD[of _ init l0 FakeTail "[]"] by simp
  have "set_next l0 (Some b) (set_prev b (Some l0) (heap q)) =
      set_prev b (Some l0) (set_next l0 (Some b) (heap q))"
    by (rule ext) (simp add: set_next_def set_prev_def)
  moreover have "set_prev FakeTail x (set_next c y h) = set_prev FakeTail x (set_next c y h)" for x c y h ..
  ultimately show ?thesis using prevT by (simp add: fq_append_def fq_append_n_def)
qed

lemma fq_append_snoc:
  assumes "fq_repr q xs" and "fresh_for xs [b]"
  shows "\<exists>h n. fq_append b q = Inr (q\<lparr>heap := h, num_free_blocks := n\<rparr>) \<and>
    fq_repr (q\<lparr>heap := h, num_free_blocks := n\<rparr>) (xs @ [b]) \<and> same_meta (heap q) h"
  using fq_append_n_snoc[OF assms] by (simp add: fq_append_eq_append_n[OF assms(1)])

text \<open>Reading the queue returns the list it holds, in eviction order, and always ends.\<close>

lemma walk_path: "links h (xs @ [z]) \<Longrightarrow> next_free_block (h z) = None \<Longrightarrow>
  walk h (hd (xs @ [z])) = Some xs"
proof (induction xs)
  case Nil
  then show ?case by (simp add: walk.simps)
next
  case (Cons x xs)
  obtain y ys where y: "xs @ [z] = y # ys" by (cases xs) auto
  with Cons show ?case by (simp add: walk.simps[of h x])
qed

lemma fq_get_all_free_blocks_repr:
  assumes "fq_repr q xs"
  shows "fq_get_all_free_blocks q = Some (Inr xs)"
proof -
  note R = fq_reprD[OF assms]
  obtain y ys where y: "xs @ [FakeTail] = y # ys" by (cases xs) auto
  have L: "links (heap q) (xs @ [FakeTail])" using R(1) by (simp add: y)
  show ?thesis using walk_path[OF L R(5)] R(1) by (simp add: fq_get_all_free_blocks_def y)
qed

lemma iter_from_path: "links h (xs @ [FakeTail]) \<Longrightarrow> FakeTail \<notin> set xs \<Longrightarrow>
  iter_from h (Some (hd (xs @ [FakeTail]))) = Some xs"
proof (induction xs)
  case Nil
  then show ?case by (simp add: iter_from.simps)
next
  case (Cons x xs)
  obtain y ys where y: "xs @ [FakeTail] = y # ys" by (cases xs) auto
  have "x \<noteq> FakeTail" "FakeTail \<notin> set xs" using Cons.prems(2) by auto
  moreover have "links h (xs @ [FakeTail])" and "next_free_block (h x) = Some (hd (xs @ [FakeTail]))"
    using Cons.prems(1) by (simp_all add: y)
  ultimately show ?case using Cons.IH by (subst iter_from.simps) simp
qed

lemma fq_iter_blocks_after_repr:
  assumes "fq_repr q (xs @ ys)" and "cursor = (if xs = [] then None else Some (last xs))"
  shows "fq_iter_blocks_after cursor q = Some ys"
proof -
  note R = fq_reprD[OF assms(1)]
  obtain init p where p: "FakeHead # xs = init @ [p]"
    by (metis append_butlast_last_id list.distinct(1))
  have start: "(case cursor of None \<Rightarrow> FakeHead | Some c \<Rightarrow> c) = p"
  proof -
    have "p = last (FakeHead # xs)" unfolding p by simp
    then show ?thesis by (simp add: assms(2))
  qed
  obtain y r where y: "ys @ [FakeTail] = y # r" by (cases ys) auto
  have "links (heap q) (init @ p # y # r)"
    using R(1) p y by (metis append.assoc append_Cons append_Nil)
  then have n: "next_free_block (heap q p) = Some y" and "links (heap q) (y # r)"
    using links_append[of "heap q" init p "y # r"] by simp_all
  then have L: "links (heap q) (ys @ [FakeTail])" by (simp only: y)
  have "FakeTail \<notin> set ys" using R(4) by simp
  from iter_from_path[OF L this] show ?thesis
    by (simp add: fq_iter_blocks_after_def start n y)
qed

section \<open>Construction\<close>

text \<open>The loop writes the same links as one run over consecutive pairs.\<close>

lemma link_step_other:
  "c \<notin> set bs \<Longrightarrow> i < length bs \<Longrightarrow> link_step bs i h c = h c"
  using nth_mem[of i bs] by (cases "c = bs ! i") (simp_all add: link_step_def set_prev_def set_next_def Let_def)

lemma fold_link_step:
  assumes "distinct bs" and "n \<le> length bs"
  shows "(\<forall>i < length bs. next_free_block (fold (link_step bs) [0..<n] h (bs ! i)) =
            (if i < n \<and> i + 1 < length bs then Some (bs ! (i + 1)) else next_free_block (h (bs ! i))) \<and>
          prev_free_block (fold (link_step bs) [0..<n] h (bs ! i)) =
            (if i < n \<and> 0 < i then Some (bs ! (i - 1)) else prev_free_block (h (bs ! i)))) \<and>
     (\<forall>c. c \<notin> set bs \<longrightarrow> fold (link_step bs) [0..<n] h c = h c) \<and>
     same_meta h (fold (link_step bs) [0..<n] h)"
  using assms(2)
proof (induction n)
  case (Suc n)
  let ?g = "fold (link_step bs) [0..<n] h"
  have IH: "\<And>i. i < length bs \<Longrightarrow> next_free_block (?g (bs ! i)) =
      (if i < n \<and> i + 1 < length bs then Some (bs ! (i + 1)) else next_free_block (h (bs ! i)))"
    "\<And>i. i < length bs \<Longrightarrow> prev_free_block (?g (bs ! i)) =
      (if i < n \<and> 0 < i then Some (bs ! (i - 1)) else prev_free_block (h (bs ! i)))"
    "\<And>c. c \<notin> set bs \<Longrightarrow> ?g c = h c" "same_meta h ?g"
    using Suc by auto
  have n: "n < length bs" using Suc.prems by simp
  have eqn: "bs ! i = bs ! n \<longleftrightarrow> i = n" if "i < length bs" for i
    using assms(1) that n by (simp add: nth_eq_iff_index_eq)
  have "next_free_block (link_step bs n ?g (bs ! i)) =
      (if i < Suc n \<and> i + 1 < length bs then Some (bs ! (i + 1)) else next_free_block (h (bs ! i))) \<and>
     prev_free_block (link_step bs n ?g (bs ! i)) =
      (if i < Suc n \<and> 0 < i then Some (bs ! (i - 1)) else prev_free_block (h (bs ! i)))"
    if i: "i < length bs" for i
    using IH(1,2)[OF i] eqn[OF i] by (auto simp: link_step_def Let_def)
  moreover have "link_step bs n ?g c = h c" if "c \<notin> set bs" for c
    using that n IH(3) by (simp add: link_step_other)
  moreover have "same_meta h (link_step bs n ?g)"
    using IH(4) by (simp add: link_step_def Let_def)
  ultimately show ?case by simp
qed simp

lemma links_nth:
  "links h ps \<longleftrightarrow> (\<forall>i. Suc i < length ps \<longrightarrow>
     next_free_block (h (ps ! i)) = Some (ps ! Suc i) \<and> prev_free_block (h (ps ! Suc i)) = Some (ps ! i))"
proof (induction h ps rule: links.induct)
  case (1 h p q r)
  show ?case (is "?l = (\<forall>i. ?P i)")
  proof -
    have "(\<forall>i. ?P i) \<longleftrightarrow> ?P 0 \<and> (\<forall>i. ?P (Suc i))"
      by (metis not0_implies_Suc)
    then show ?thesis using 1 by simp
  qed
qed auto

lemma fq_init_repr:
  assumes d: "distinct bs" and f: "FakeHead \<notin> set bs" "FakeTail \<notin> set bs"
    and det: "\<And>i. Blk i \<notin> set bs \<Longrightarrow> detached h0 (Blk i)"
  shows "fq_repr (fq_init bs h0) bs"
proof -
  let ?h1 = "fold (link_step bs) [0..<length bs] h0"
  let ?h2 = "?h1(FakeHead := new_block (-1), FakeTail := new_block (-1))"
  note F = fold_link_step[OF d order_refl, of h0]
  have L1: "links ?h1 bs"
    unfolding links_nth
  proof (intro allI impI)
    fix i assume i: "Suc i < length bs"
    then have "i < length bs" by simp
    with i F show "next_free_block (?h1 (bs ! i)) = Some (bs ! Suc i) \<and>
        prev_free_block (?h1 (bs ! Suc i)) = Some (bs ! i)" by fastforce
  qed
  have L2: "links ?h2 bs"
    using L1 f by (subst links_cong[of _ _ ?h1]) (auto dest: in_set_butlastD in_set_tlD)
  have D: "detached ?h2 (Blk i)" if "Blk i \<notin> set bs" for i
    using F det[OF that] that by (simp add: detached_def)
  show ?thesis
  proof (cases "bs = []")
    case True
    with D show ?thesis by (simp add: fq_repr_def fq_init_def new_block_def)
  next
    case False
    obtain x xs where x: "bs = x # xs" using False by (cases bs) auto
    obtain m l where l: "bs = m @ [l]" using False by (metis append_butlast_last_id)
    let ?h = "set_next (last bs) (Some FakeTail) (set_prev FakeTail (Some (last bs))
      (set_prev (hd bs) (Some FakeHead) (set_next FakeHead (Some (hd bs)) ?h2)))"
    have "links (set_prev (hd bs) (Some FakeHead) (set_next FakeHead (Some (hd bs)) ?h2)) bs"
      using L2 f d by (simp add: x)
    then have "links (set_prev FakeTail (Some (last bs)) (set_prev (hd bs) (Some FakeHead)
        (set_next FakeHead (Some (hd bs)) ?h2))) bs"
      using f(2) by simp
    then have "links ?h bs"
      using d by (simp add: l)
    then have "links ?h (m @ l # [FakeTail])"
      using links_append[of ?h m l "[FakeTail]"] f by (simp add: l)
    then have "links ?h (x # (xs @ [FakeTail]))"
      using l x by (metis append.assoc append_Cons append_Nil)
    then have "links ?h (FakeHead # bs @ [FakeTail])"
      using f last_in_set[OF False] by (auto simp: x)
    moreover have "detached ?h (Blk i)" if i: "Blk i \<notin> set bs" for i
    proof -
      have "Blk i \<noteq> last bs" "Blk i \<noteq> hd bs" using i False by auto
      then show ?thesis using D[OF i] by simp
    qed
    moreover have "next_free_block (?h FakeTail) = None"
      using f last_in_set[OF False] by (auto simp: new_block_def)
    ultimately show ?thesis
      using d f False by (simp add: fq_repr_def fq_init_def Let_def del: links.simps)
  qed
qed

lemma fq_init_meta:
  assumes "distinct bs" and "FakeHead \<notin> set bs" "FakeTail \<notin> set bs"
  shows "same_meta (h0(FakeHead := heap (fq_init bs h0) FakeHead, FakeTail := heap (fq_init bs h0) FakeTail))
    (heap (fq_init bs h0))"
proof -
  let ?h1 = "fold (link_step bs) [0..<length bs] h0"
  have M: "same_meta h0 ?h1" using fold_link_step[OF assms(1) order_refl, of h0] by blast
  show ?thesis
    unfolding same_meta_def
  proof
    fix b
    have "(h0 b)\<lparr>prev_free_block := None, next_free_block := None\<rparr> =
        (heap (fq_init bs h0) b)\<lparr>prev_free_block := None, next_free_block := None\<rparr>"
      if "b \<noteq> FakeHead" "b \<noteq> FakeTail"
      using M that by (simp add: same_meta_def fq_init_def Let_def set_next_def set_prev_def)
    then show "((h0(FakeHead := heap (fq_init bs h0) FakeHead, FakeTail := heap (fq_init bs h0) FakeTail)) b)
        \<lparr>prev_free_block := None, next_free_block := None\<rparr> =
      (heap (fq_init bs h0) b)\<lparr>prev_free_block := None, next_free_block := None\<rparr>"
      by (cases "b = FakeHead"; cases "b = FakeTail") simp_all
  qed
qed

section \<open>The contract of a free list\<close>

text \<open>
  What a pool relies on: taking from the front, removing a given block, giving blocks back at
  the front (evicted first) or at the back (evicted last).
\<close>

locale free_list =
  fixes repr :: "'q \<Rightarrow> 'b list \<Rightarrow> bool"
    and popleft :: "'q \<Rightarrow> ('b \<times> 'q) res"
    and popleft_n :: "int \<Rightarrow> 'q \<Rightarrow> ('b list \<times> 'q) res"
    and remove :: "'b \<Rightarrow> 'q \<Rightarrow> 'q res"
    and prepend_n :: "'b list \<Rightarrow> 'q \<Rightarrow> 'q res"
    and append_n :: "'b list \<Rightarrow> 'q \<Rightarrow> 'q res"
    and ok :: "'b list \<Rightarrow> 'b list \<Rightarrow> bool"
  assumes popleft_Cons: "repr q (b # xs) \<Longrightarrow> \<exists>q'. popleft q = Inr (b, q') \<and> repr q' xs"
    and popleft_n_take: "repr q xs \<Longrightarrow> k \<le> length xs \<Longrightarrow>
      \<exists>q'. popleft_n (int k) q = Inr (take k xs, q') \<and> repr q' (drop k xs)"
    and remove_mid: "repr q (xs @ b # ys) \<Longrightarrow> \<exists>q'. remove b q = Inr q' \<and> repr q' (xs @ ys)"
    and prepend_n_front: "repr q xs \<Longrightarrow> ok xs bs \<Longrightarrow>
      \<exists>q'. prepend_n bs q = Inr q' \<and> repr q' (bs @ xs)"
    and append_n_snoc: "repr q xs \<Longrightarrow> ok xs bs \<Longrightarrow>
      \<exists>q'. append_n bs q = Inr q' \<and> repr q' (xs @ bs)"
    and ok_prepend: "ok xs (bs @ cs) \<Longrightarrow> ok xs bs \<and> ok (bs @ xs) cs"
begin

text \<open>Taking blocks one at a time.\<close>

primrec poplefts :: "nat \<Rightarrow> 'q \<Rightarrow> ('b list \<times> 'q) res" where
  "poplefts 0 q = Inr ([], q)"
| "poplefts (Suc k) q = bind_res (popleft q)
     (\<lambda>(b, q1). bind_res (poplefts k q1) (\<lambda>(bs, q2). Inr (b # bs, q2)))"

lemma poplefts_take:
  "repr q xs \<Longrightarrow> k \<le> length xs \<Longrightarrow>
     \<exists>q'. poplefts k q = Inr (take k xs, q') \<and> repr q' (drop k xs)"
proof (induction k arbitrary: q xs)
  case (Suc k)
  then obtain b ys where xs: "xs = b # ys" by (cases xs) auto
  obtain q1 where q1: "popleft q = Inr (b, q1)" "repr q1 ys"
    using popleft_Cons Suc.prems(1) unfolding xs by blast
  from Suc.IH[OF q1(2)] Suc.prems(2) show ?case by (auto simp: xs q1)
qed auto

text \<open>The batch operation returns the blocks single steps return, in the same order.\<close>

lemma popleft_n_eq_poplefts:
  assumes "repr q xs" and "k \<le> length xs"
  shows "\<exists>q1 q2. popleft_n (int k) q = Inr (take k xs, q1) \<and> poplefts k q = Inr (take k xs, q2) \<and>
    repr q1 (drop k xs) \<and> repr q2 (drop k xs)"
  using popleft_n_take[OF assms] poplefts_take[OF assms] by blast

text \<open>
  Blocks given back at the front are taken before everything else, blocks given back at the
  back after everything else.
\<close>

lemma give_back_order:
  assumes r: "repr q xs" and ok: "ok xs (us @ cs)"
  shows "\<exists>q1 q2 q3. prepend_n us q = Inr q1 \<and> append_n cs q1 = Inr q2 \<and>
    popleft_n (int (length us + length xs)) q2 = Inr (us @ xs, q3) \<and> repr q3 cs"
proof -
  obtain q1 where q1: "prepend_n us q = Inr q1" "repr q1 (us @ xs)"
    using prepend_n_front[OF r] ok_prepend[OF ok] by blast
  obtain q2 where q2: "append_n cs q1 = Inr q2" "repr q2 ((us @ xs) @ cs)"
    using append_n_snoc[OF q1(2)] ok_prepend[OF ok] by blast
  from popleft_n_take[OF q2(2), of "length (us @ xs)"] q1(1) q2(1) show ?thesis by auto
qed

text \<open>A removed block is not returned any more.\<close>

lemma remove_then_pop:
  assumes "repr q (xs @ b # ys)"
  shows "\<exists>q1 q2. remove b q = Inr q1 \<and>
    popleft_n (int (length xs + length ys)) q1 = Inr (xs @ ys, q2) \<and> repr q2 []"
proof -
  obtain q1 where q1: "remove b q = Inr q1" "repr q1 (xs @ ys)" using remove_mid[OF assms] by blast
  from popleft_n_take[OF q1(2), of "length (xs @ ys)"] q1(1) show ?thesis by auto
qed

end

lemma fresh_for_append:
  "fresh_for xs (bs @ cs) \<Longrightarrow> fresh_for xs bs \<and> fresh_for (bs @ xs) cs"
  by (auto simp: fresh_for_def)

interpretation fq: free_list fq_repr fq_popleft fq_popleft_n fq_remove fq_prepend_n fq_append_n fresh_for
  by unfold_locales (blast dest: fq_popleft_Cons fq_popleft_n_take fq_remove_mid fq_prepend_n_front
    fq_append_n_snoc fresh_for_append)+

end
