(* ===== verification/BlockHashMap.thy ===== *)
theory BlockHashMap
  imports FreeQueue
begin

text \<open>
  \<open>BlockHashToBlockMap\<close> of \<^verbatim>\<open>vllm/v1/core/block_pool.py\<close>: the prefix
  cache.  A key maps to one block object or, once two blocks carry the same hash, to a
  dictionary from block id to block object.  \<open>hm_refs\<close> is the abstraction (the blocks
  reachable under a key), \<open>hm_wf\<close> the representation invariant, and the contract is the
  locale \<open>block_cache\<close>.
\<close>

section \<open>The map and its operations\<close>

datatype cached_blocks = One bref | Many "(int, bref) odict"

type_synonym hash_map = "bytes \<rightharpoonup> cached_blocks"

definition hm_get_one_block :: "hash_map \<Rightarrow> bytes \<Rightarrow> bref option res" where
  "hm_get_one_block m key =
     (case m key of
        None \<Rightarrow> Inr None
      | Some (One b) \<Rightarrow> Inr (Some b)
      | Some (Many d) \<Rightarrow> (case d of [] \<Rightarrow> Inl StopIteration | (i, b) # _ \<Rightarrow> Inr (Some b)))"

text \<open>The attribute \<open>block_id\<close> of a block object is read through \<open>idof\<close>.\<close>

definition hm_contain :: "(bref \<Rightarrow> int) \<Rightarrow> hash_map \<Rightarrow> bytes \<Rightarrow> int \<Rightarrow> bool" where
  "hm_contain idof m key i =
     (case m key of
        None \<Rightarrow> False
      | Some (One b) \<Rightarrow> idof b = i
      | Some (Many d) \<Rightarrow> i \<in> set (od_keys d))"

definition hm_insert :: "(bref \<Rightarrow> int) \<Rightarrow> bytes \<Rightarrow> bref \<Rightarrow> hash_map \<Rightarrow> hash_map" where
  "hm_insert idof key b m =
     (case m key of
        None \<Rightarrow> m(key \<mapsto> One b)
      | Some (One b0) \<Rightarrow> m(key \<mapsto> Many (od_set (idof b) b [(idof b0, b0)]))
      | Some (Many d) \<Rightarrow> m(key \<mapsto> Many (od_set (idof b) b d)))"

definition hm_pop :: "(bref \<Rightarrow> int) \<Rightarrow> bytes \<Rightarrow> int \<Rightarrow> hash_map \<Rightarrow> bref option \<times> hash_map" where
  "hm_pop idof key i m =
     (let m1 = m(key := None)
      in case m key of
           None \<Rightarrow> (None, m1)
         | Some (One b) \<Rightarrow> if idof b = i then (Some b, m1) else (None, m1(key \<mapsto> One b))
         | Some (Many d) \<Rightarrow>
             (let d1 = od_pop i d
              in (od_get d i, if d1 \<noteq> [] then m1(key \<mapsto> Many d1) else m1)))"

section \<open>Representation invariant and abstraction\<close>

text \<open>Only the pool's own blocks are ever cached; their ids are distinct.\<close>

definition is_blk :: "bref \<Rightarrow> bool" where
  "is_blk b \<longleftrightarrow> (case b of Blk i \<Rightarrow> True | _ \<Rightarrow> False)"

definition hm_refs :: "hash_map \<Rightarrow> bytes \<Rightarrow> bref set" where
  "hm_refs m key =
     (case m key of None \<Rightarrow> {} | Some (One b) \<Rightarrow> {b} | Some (Many d) \<Rightarrow> snd ` set d)"

definition hm_wf :: "(bref \<Rightarrow> int) \<Rightarrow> hash_map \<Rightarrow> bool" where
  "hm_wf idof m \<longleftrightarrow> (\<forall>i j. idof (Blk i) = idof (Blk j) \<longrightarrow> i = j) \<and>
     (\<forall>key b. b \<in> hm_refs m key \<longrightarrow> is_blk b) \<and>
     (\<forall>key d. m key = Some (Many d) \<longrightarrow>
        d \<noteq> [] \<and> distinct (od_keys d) \<and> (\<forall>(i, b) \<in> set d. i = idof b))"

lemma is_blk_simps [simp]: "is_blk (Blk i)" "\<not> is_blk FakeHead" "\<not> is_blk FakeTail"
  by (simp_all add: is_blk_def)

lemma hm_wf_id:
  assumes "hm_wf idof m" "is_blk a" "is_blk b"
  shows "idof a = idof b \<longleftrightarrow> a = b"
  using assms by (cases a; cases b) (auto simp: hm_wf_def)

lemma hm_wfD:
  assumes "hm_wf idof m" and "m key = Some (Many d)"
  shows "d \<noteq> []" "distinct (od_keys d)" "(i, b) \<in> set d \<Longrightarrow> i = idof b" "(i, b) \<in> set d \<Longrightarrow> is_blk b"
proof -
  show "d \<noteq> []" "distinct (od_keys d)" "(i, b) \<in> set d \<Longrightarrow> i = idof b"
    using assms unfolding hm_wf_def by blast+
  show "(i, b) \<in> set d \<Longrightarrow> is_blk b"
    using assms unfolding hm_wf_def hm_refs_def by (force split: option.splits)
qed

lemma hm_wf_One: "hm_wf idof m \<Longrightarrow> m key = Some (One b) \<Longrightarrow> is_blk b"
  unfolding hm_wf_def hm_refs_def by (force split: option.splits)

lemma hm_wf_refs: "hm_wf idof m \<Longrightarrow> b \<in> hm_refs m key \<Longrightarrow> is_blk b"
  unfolding hm_wf_def by blast

lemma hm_wf_empty: "(\<And>i j. idof (Blk i) = idof (Blk j) \<Longrightarrow> i = j) \<Longrightarrow> hm_wf idof Map.empty"
  by (simp add: hm_wf_def hm_refs_def)

lemma hm_refs_empty [simp]: "hm_refs Map.empty key = {}"
  by (simp add: hm_refs_def)

text \<open>A dictionary from ids to blocks is determined by the set of its blocks.\<close>

definition id_dict :: "(bref \<Rightarrow> int) \<Rightarrow> (int, bref) odict \<Rightarrow> bool" where
  "id_dict idof d \<longleftrightarrow> distinct (od_keys d) \<and> (\<forall>(i, b) \<in> set d. i = idof b \<and> is_blk b)"

lemma id_dict_Many: "hm_wf idof m \<Longrightarrow> m key = Some (Many d) \<Longrightarrow> id_dict idof d"
  using hm_wfD[of idof m key d] by (auto simp: id_dict_def)

lemma id_dict_get:
  assumes "id_dict idof d" and "hm_wf idof m" and "is_blk b"
  shows "od_get d (idof b) = (if b \<in> snd ` set d then Some b else None)"
proof (cases "od_get d (idof b)")
  case None
  then have "idof b \<notin> od_dom d" by (simp add: od_get_None_iff)
  then have "b \<notin> snd ` set d" using assms(1) by (force simp: id_dict_def)
  with None show ?thesis by simp
next
  case (Some c)
  then have "(idof b, c) \<in> set d" by (rule map_of_SomeD)
  then have "c = b" using assms(1) hm_wf_id[OF assms(2,3)] by (auto simp: id_dict_def)
  with Some \<open>(idof b, c) \<in> set d\<close> show ?thesis by force
qed

lemma set_od_pop: "set (od_pop k d) = {x \<in> set d. fst x \<noteq> k}"
  by (induction d) auto

lemma id_dict_set:
  fixes idof :: "bref \<Rightarrow> int"
  assumes "id_dict idof d" and "hm_wf idof m" and "is_blk b"
  shows "id_dict idof (od_set (idof b) b d)" "snd ` set (od_set (idof b) b d) = insert b (snd ` set d)"
    "od_set (idof b) b d \<noteq> []"
proof -
  have sub: "set (od_set (idof b) b d) \<subseteq> insert (idof b, b) (set d)" by (rule od_set_subset)
  then show I: "id_dict idof (od_set (idof b) b d)"
    using assms by (fastforce simp: id_dict_def)
  have "c \<in> snd ` set (od_set (idof b) b d) \<longleftrightarrow> c \<in> insert b (snd ` set d)" if c: "is_blk c" for c
    using id_dict_get[OF I assms(2) c] id_dict_get[OF assms(1,2) c] hm_wf_id[OF assms(2) c assms(3)]
    by (auto split: if_splits)
  moreover have "is_blk c" if "c \<in> snd ` set (od_set (idof b) b d) \<union> insert b (snd ` set d)" for c
    using that I assms by (auto simp: id_dict_def)
  ultimately show "snd ` set (od_set (idof b) b d) = insert b (snd ` set d)" by blast
  show "od_set (idof b) b d \<noteq> []" by (simp add: update_nonempty)
qed

lemma id_dict_pop:
  fixes idof :: "bref \<Rightarrow> int"
  assumes "id_dict idof d" and "hm_wf idof m" and "is_blk b"
  shows "id_dict idof (od_pop (idof b) d)" "snd ` set (od_pop (idof b) d) = snd ` set d - {b}"
proof -
  show "id_dict idof (od_pop (idof b) d)" using assms(1) by (auto simp: id_dict_def set_od_pop)
  have "{x \<in> set d. fst x \<noteq> idof b} = {x \<in> set d. snd x \<noteq> b}"
  proof (intro Collect_cong conj_cong refl)
    fix x assume "x \<in> set d"
    then have "fst x = idof (snd x)" "is_blk (snd x)" using assms(1) by (auto simp: id_dict_def)
    then show "(fst x \<noteq> idof b) = (snd x \<noteq> b)" using hm_wf_id[OF assms(2) _ assms(3)] by simp
  qed
  then show "snd ` set (od_pop (idof b) d) = snd ` set d - {b}" by (auto simp: set_od_pop)
qed

lemma hm_wfI:
  assumes "\<And>i j. idof (Blk i) = idof (Blk j) \<Longrightarrow> i = j"
    and "\<And>key b. m key = Some (One b) \<Longrightarrow> is_blk b"
    and "\<And>key d. m key = Some (Many d) \<Longrightarrow> d \<noteq> [] \<and> id_dict idof d"
  shows "hm_wf idof m"
  unfolding hm_wf_def
proof (intro conjI allI impI)
  fix key b
  assume b: "b \<in> hm_refs m key"
  then obtain c where c: "m key = Some c" by (cases "m key") (simp_all add: hm_refs_def)
  show "is_blk b"
  proof (cases c)
    case (One a)
    with b c assms(2)[of key a] show ?thesis by (simp add: hm_refs_def)
  next
    case (Many d)
    with c assms(3)[of key d] have "id_dict idof d" by simp
    with b c Many show ?thesis by (auto simp: hm_refs_def id_dict_def)
  qed
next
  fix key d
  assume m: "m key = Some (Many d)"
  then have D: "d \<noteq> []" "id_dict idof d" using assms(3) by blast+
  show "d \<noteq> []" by (rule D(1))
  show "distinct (od_keys d)" using D(2) by (simp add: id_dict_def)
  show "\<forall>(i, b) \<in> set d. i = idof b" using D(2) by (auto simp: id_dict_def)
qed (rule assms(1))

lemma hm_wf_upd:
  assumes "hm_wf idof m" and "\<And>a. e = Some (One a) \<Longrightarrow> is_blk a"
    and "\<And>d. e = Some (Many d) \<Longrightarrow> d \<noteq> [] \<and> id_dict idof d"
  shows "hm_wf idof (m(key := e))"
proof (rule hm_wfI)
  show "idof (Blk i) = idof (Blk j) \<Longrightarrow> i = j" for i j using assms(1) by (auto simp: hm_wf_def)
  show "(m(key := e)) k = Some (One b) \<Longrightarrow> is_blk b" for k b
    using assms(2) hm_wf_One[OF assms(1), of k b] by (auto split: if_splits)
  show "(m(key := e)) k = Some (Many d) \<Longrightarrow> d \<noteq> [] \<and> id_dict idof d" for k d
    using assms(3)[of d] hm_wfD(1)[OF assms(1), of k d] id_dict_Many[OF assms(1), of k d]
    by (cases "k = key") simp_all
qed

section \<open>Correctness of the operations\<close>

lemma hm_get_one_correct:
  assumes "hm_wf idof m"
  shows "\<exists>r. hm_get_one_block m key = Inr r \<and> (r = None \<longleftrightarrow> hm_refs m key = {}) \<and>
    (\<forall>b. r = Some b \<longrightarrow> b \<in> hm_refs m key)"
  using hm_wfD(1)[OF assms, of key]
  by (auto simp: hm_get_one_block_def hm_refs_def split: option.splits cached_blocks.splits list.splits)

lemma hm_contain_correct:
  assumes "hm_wf idof m" and "is_blk b"
  shows "hm_contain idof m key (idof b) \<longleftrightarrow> b \<in> hm_refs m key"
proof (cases "m key")
  case (Some c)
  show ?thesis
  proof (cases c)
    case (One a)
    with Some hm_wf_id[OF assms(1) hm_wf_One[OF assms(1)] assms(2), of key a]
    show ?thesis by (auto simp: hm_contain_def hm_refs_def)
  next
    case (Many d)
    have "idof b \<in> od_dom d \<longleftrightarrow> b \<in> snd ` set d"
      using id_dict_get[OF id_dict_Many[OF assms(1)] assms, of key d] Some Many od_get_None_iff[of d "idof b"]
      by (simp split: if_splits)
    with Some Many show ?thesis by (simp add: hm_contain_def hm_refs_def)
  qed
qed (simp add: hm_contain_def hm_refs_def)

lemma hm_insert_cases:
  assumes "hm_wf idof m" and "is_blk b"
  shows "hm_insert idof key b m = m(key \<mapsto> One b) \<and> hm_refs m key = {} \<or>
    (\<exists>d. hm_insert idof key b m = m(key \<mapsto> Many d) \<and> d \<noteq> [] \<and> id_dict idof d \<and>
      snd ` set d = insert b (hm_refs m key))"
proof (cases "m key")
  case None
  then show ?thesis by (simp add: hm_insert_def hm_refs_def)
next
  case (Some c)
  define d0 where "d0 = (case c of One a \<Rightarrow> [(idof a, a)] | Many d \<Rightarrow> d)"
  have "id_dict idof d0 \<and> snd ` set d0 = hm_refs m key"
  proof (cases c)
    case (One a)
    with Some hm_wf_One[OF assms(1), of key a] show ?thesis
      by (simp add: d0_def hm_refs_def id_dict_def)
  next
    case (Many d)
    with Some id_dict_Many[OF assms(1), of key d] show ?thesis
      by (simp add: d0_def hm_refs_def)
  qed
  moreover have "hm_insert idof key b m = m(key \<mapsto> Many (od_set (idof b) b d0))"
    using Some by (simp add: hm_insert_def d0_def split: cached_blocks.splits)
  ultimately show ?thesis using id_dict_set[OF _ assms, of d0] by metis
qed

lemma hm_insert_wf:
  assumes "hm_wf idof m" and "is_blk b"
  shows "hm_wf idof (hm_insert idof key b m)"
  using hm_insert_cases[OF assms, of key]
proof (elim disjE exE conjE)
  assume "hm_insert idof key b m = m(key \<mapsto> One b)"
  then show ?thesis using assms hm_wf_upd[of idof m "Some (One b)" key] by simp
next
  fix d
  assume "hm_insert idof key b m = m(key \<mapsto> Many d)" "d \<noteq> []" "id_dict idof d"
  then show ?thesis using assms hm_wf_upd[of idof m "Some (Many d)" key] by simp
qed

lemma hm_insert_refs:
  assumes "hm_wf idof m" and "is_blk b"
  shows "hm_refs (hm_insert idof key b m) k = (if k = key then insert b (hm_refs m key) else hm_refs m k)"
  using hm_insert_cases[OF assms, of key] by (auto simp: hm_refs_def)

lemma hm_pop_correct:
  assumes "hm_wf idof m" and "is_blk b"
  shows "hm_wf idof (snd (hm_pop idof key (idof b) m)) \<and>
    fst (hm_pop idof key (idof b) m) = (if b \<in> hm_refs m key then Some b else None) \<and>
    hm_refs (snd (hm_pop idof key (idof b) m)) k = (if k = key then hm_refs m key - {b} else hm_refs m k)"
proof -
  note W = hm_wf_upd[OF assms(1), of _ key]
  show ?thesis
  proof (cases "m key")
    case None
    with W[of None] show ?thesis by (auto simp: hm_pop_def hm_refs_def)
  next
    case (Some c)
    show ?thesis
    proof (cases c)
      case (One a)
      with Some hm_wf_One[OF assms(1)] have a: "is_blk a" by simp
      show ?thesis
        using Some One W[of None] W[of "Some (One a)"] a hm_wf_id[OF assms(1) a assms(2)]
        by (auto simp: hm_pop_def hm_refs_def Let_def)
    next
      case (Many d)
      have d: "id_dict idof d" using id_dict_Many[OF assms(1)] Some Many by simp
      have E: "od_pop (idof b) d = [] \<longleftrightarrow> snd ` set d - {b} = {}"
        using id_dict_pop(2)[OF d assms] by (metis image_is_empty set_empty)
      show ?thesis
        using Some Many W[of None] W[of "Some (Many (od_pop (idof b) d))"] id_dict_pop[OF d assms]
          id_dict_get[OF d assms] E
        by (auto simp: hm_pop_def hm_refs_def Let_def)
    qed
  qed
qed

section \<open>The contract of a block cache\<close>

locale block_cache =
  fixes ok :: "'b \<Rightarrow> bool" and wf :: "'m \<Rightarrow> bool" and refs :: "'m \<Rightarrow> 'k \<Rightarrow> 'b set"
    and get_one :: "'m \<Rightarrow> 'k \<Rightarrow> 'b option res"
    and has :: "'m \<Rightarrow> 'k \<Rightarrow> 'b \<Rightarrow> bool"
    and ins :: "'k \<Rightarrow> 'b \<Rightarrow> 'm \<Rightarrow> 'm"
    and del :: "'k \<Rightarrow> 'b \<Rightarrow> 'm \<Rightarrow> 'b option \<times> 'm"
  assumes get_one: "wf m \<Longrightarrow> \<exists>r. get_one m k = Inr r \<and> (r = None \<longleftrightarrow> refs m k = {}) \<and>
      (\<forall>b. r = Some b \<longrightarrow> b \<in> refs m k)"
    and has: "wf m \<Longrightarrow> ok b \<Longrightarrow> has m k b \<longleftrightarrow> b \<in> refs m k"
    and ins_wf: "wf m \<Longrightarrow> ok b \<Longrightarrow> wf (ins k b m)"
    and ins_refs: "wf m \<Longrightarrow> ok b \<Longrightarrow>
      refs (ins k b m) k' = (if k' = k then insert b (refs m k) else refs m k')"
    and del_wf: "wf m \<Longrightarrow> ok b \<Longrightarrow> wf (snd (del k b m))"
    and del_refs: "wf m \<Longrightarrow> ok b \<Longrightarrow>
      refs (snd (del k b m)) k' = (if k' = k then refs m k - {b} else refs m k')"
    and del_result: "wf m \<Longrightarrow> ok b \<Longrightarrow> fst (del k b m) = (if b \<in> refs m k then Some b else None)"
begin

text \<open>A lookup right after an insertion hits.\<close>

lemma ins_hits:
  assumes "wf m" "ok b"
  shows "\<exists>c. get_one (ins k b m) k = Inr (Some c) \<and> c \<in> insert b (refs m k)"
  using get_one[OF ins_wf[OF assms], of k k] ins_refs[OF assms, of k k] by auto

text \<open>Deleting a freshly inserted block restores the abstract content.\<close>

lemma ins_del:
  assumes "wf m" "ok b" and "b \<notin> refs m k"
  shows "fst (del k b (ins k b m)) = Some b \<and> refs (snd (del k b (ins k b m))) = refs m"
  using assms by (auto simp: fun_eq_iff del_result ins_wf ins_refs del_refs)

text \<open>Deleting a block under a list of keys: every key loses exactly that block, and the keys
  reported are those it was stored under.\<close>

primrec del_keys :: "'b \<Rightarrow> 'k list \<Rightarrow> 'm \<Rightarrow> 'k list \<times> 'm" where
  "del_keys b [] m = ([], m)"
| "del_keys b (k # ks) m =
     (case del k b m of (r, m1) \<Rightarrow> case del_keys b ks m1 of (removed, m2) \<Rightarrow>
       (if r \<noteq> None then k # removed else removed, m2))"

lemma del_keys_correct:
  assumes "wf m" "ok b" "distinct ks"
  shows "wf (snd (del_keys b ks m)) \<and> fst (del_keys b ks m) = filter (\<lambda>k. b \<in> refs m k) ks \<and>
    (\<forall>k. refs (snd (del_keys b ks m)) k = (if k \<in> set ks then refs m k - {b} else refs m k))"
  using assms
proof (induction ks arbitrary: m)
  case (Cons k ks)
  let ?m = "snd (del k b m)"
  have w: "wf ?m" and r: "\<And>k'. refs ?m k' = (if k' = k then refs m k - {b} else refs m k')"
    using Cons.prems by (simp_all add: del_wf del_refs)
  have "filter (\<lambda>k'. b \<in> refs ?m k') ks = filter (\<lambda>k'. b \<in> refs m k') ks"
    using Cons.prems(3) r by (intro filter_cong) auto
  moreover obtain d m1 where d: "del k b m = (d, m1)" by force
  moreover have "d \<noteq> None \<longleftrightarrow> b \<in> refs m k"
    using del_result[OF Cons.prems(1,2), of k] d by (simp split: if_splits)
  moreover obtain rm m2 where "del_keys b ks m1 = (rm, m2)" by force
  moreover have "distinct ks" "k \<notin> set ks" using Cons.prems(3) by simp_all
  ultimately show ?case
    using Cons.IH[OF w Cons.prems(2) \<open>distinct ks\<close>] r by simp
qed simp

end

interpretation bc: block_cache is_blk "hm_wf idof" hm_refs hm_get_one_block
  "\<lambda>m k b. hm_contain idof m k (idof b)" "hm_insert idof" "\<lambda>k b. hm_pop idof k (idof b)"
  for idof :: "bref \<Rightarrow> int"
  by unfold_locales (simp_all add: hm_get_one_correct hm_contain_correct hm_insert_wf hm_insert_refs
    hm_pop_correct)

end
