(* ===== verification/Request.thy ===== *)
theory Request
  imports Prelude
begin

text \<open>
  \<open>Request\<close> and \<open>RequestStatus\<close> of \<^verbatim>\<open>vllm/v1/request.py\<close>: construction
  with the validation of the CacheSelect metadata carried in \<open>extra_args\<close>, the token and
  block-hash bookkeeping, the status order with its finish reasons, and the order priority
  scheduling uses.
\<close>

section \<open>Status\<close>

datatype request_status =
    WAITING | WAITING_FOR_STRUCTURED_OUTPUT_GRAMMAR | WAITING_FOR_REMOTE_KVS
  | WAITING_FOR_STREAMING_REQ | RUNNING | PREEMPTED
  | FINISHED_STOPPED | FINISHED_LENGTH_CAPPED | FINISHED_ABORTED | FINISHED_IGNORED
  | FINISHED_ERROR | FINISHED_REPETITION

datatype finish_reason =
    Reason_STOP | Reason_LENGTH | Reason_ABORT | Reason_ERROR | Reason_REPETITION

fun status_value :: "request_status \<Rightarrow> nat" where
  "status_value WAITING = 1"
| "status_value WAITING_FOR_STRUCTURED_OUTPUT_GRAMMAR = 2"
| "status_value WAITING_FOR_REMOTE_KVS = 3"
| "status_value WAITING_FOR_STREAMING_REQ = 4"
| "status_value RUNNING = 5"
| "status_value PREEMPTED = 6"
| "status_value FINISHED_STOPPED = 7"
| "status_value FINISHED_LENGTH_CAPPED = 8"
| "status_value FINISHED_ABORTED = 9"
| "status_value FINISHED_IGNORED = 10"
| "status_value FINISHED_ERROR = 11"
| "status_value FINISHED_REPETITION = 12"

lemma status_value_inj: "status_value s = status_value t \<longleftrightarrow> s = t"
  by (cases s; cases t) simp_all

instantiation request_status :: linorder
begin

definition less_eq_request_status :: "request_status \<Rightarrow> request_status \<Rightarrow> bool" where
  "less_eq_request_status s t \<longleftrightarrow> status_value s \<le> status_value t"

definition less_request_status :: "request_status \<Rightarrow> request_status \<Rightarrow> bool" where
  "less_request_status s t \<longleftrightarrow> status_value s < status_value t"

instance
  by standard (auto simp: less_eq_request_status_def less_request_status_def status_value_inj)

end

definition is_finished :: "request_status \<Rightarrow> bool" where
  "is_finished s \<longleftrightarrow> PREEMPTED < s"

fun get_finished_reason :: "request_status \<Rightarrow> finish_reason option" where
  "get_finished_reason FINISHED_STOPPED = Some Reason_STOP"
| "get_finished_reason FINISHED_LENGTH_CAPPED = Some Reason_LENGTH"
| "get_finished_reason FINISHED_ABORTED = Some Reason_ABORT"
| "get_finished_reason FINISHED_IGNORED = Some Reason_LENGTH"
| "get_finished_reason FINISHED_ERROR = Some Reason_ERROR"
| "get_finished_reason WAITING_FOR_STREAMING_REQ = Some Reason_STOP"
| "get_finished_reason FINISHED_REPETITION = Some Reason_REPETITION"
| "get_finished_reason _ = None"

lemma finished_has_reason: "is_finished s \<Longrightarrow> \<exists>r. get_finished_reason s = Some r"
  by (cases s) (simp_all add: is_finished_def less_request_status_def)

lemma reason_iff:
  "get_finished_reason s \<noteq> None \<longleftrightarrow> is_finished s \<or> s = WAITING_FOR_STREAMING_REQ"
  by (cases s) (simp_all add: is_finished_def less_request_status_def)

section \<open>Values of extra arguments\<close>

text \<open>A value found in \<open>extra_args\<close>; \<open>AOther\<close> is any other object (a dict, a float, \<dots>).\<close>

datatype arg = ANone | ABool bool | AInt int | AStr string | AOther nat

definition arg_get :: "string \<Rightarrow> (string, arg) odict \<Rightarrow> arg" where
  "arg_get k d = (case od_get d k of None \<Rightarrow> ANone | Some v \<Rightarrow> v)"

text \<open>\<open>int(s)\<close> for a string: surrounding white space, an optional sign, decimal digits with
  single underscores between them.\<close>

definition py_space :: "char \<Rightarrow> bool" where
  "py_space c \<longleftrightarrow> (let n = (of_char c :: nat) in
     (9 \<le> n \<and> n \<le> 13) \<or> (28 \<le> n \<and> n \<le> 32) \<or> n = 133 \<or> n = 160)"

fun digits_value :: "bool \<Rightarrow> int \<Rightarrow> string \<Rightarrow> int option" where
  "digits_value after_digit acc [] = (if after_digit then Some acc else None)"
| "digits_value after_digit acc (c # cs) =
     (let n = (of_char c :: nat) in
      if 48 \<le> n \<and> n \<le> 57 then digits_value True (10 * acc + (int n - 48)) cs
      else if c = CHR ''_'' \<and> after_digit then digits_value False acc cs
      else None)"

definition py_int_of_string :: "string \<Rightarrow> int option" where
  "py_int_of_string s =
     (let t = dropWhile py_space (rev (dropWhile py_space (rev s)))
      in case t of
           [] \<Rightarrow> None
         | c # cs \<Rightarrow>
             if c = CHR ''-'' then map_option uminus (digits_value False 0 cs)
             else if c = CHR ''+'' then digits_value False 0 cs
             else digits_value False 0 t)"

definition parse_counterfactual_reuse_block_index :: "arg \<Rightarrow> int option res" where
  "parse_counterfactual_reuse_block_index v =
     (let not_int = ValueError ''cacheselect_counterfactual_reuse_block_index must be an integer'';
          nonneg = (\<lambda>i. if i < 0
            then Inl (ValueError ''cacheselect_counterfactual_reuse_block_index must be non-negative'')
            else Inr (Some i))
      in case v of
           ANone \<Rightarrow> Inr None
         | AInt i \<Rightarrow> nonneg i
         | AStr s \<Rightarrow> (case py_int_of_string s of None \<Rightarrow> Inl not_int | Some i \<Rightarrow> nonneg i)
         | _ \<Rightarrow> Inl not_int)"

definition parse_cacheselect_auto_source :: "arg \<Rightarrow> bool res" where
  "parse_cacheselect_auto_source v =
     (case v of
        ANone \<Rightarrow> Inr False
      | ABool b \<Rightarrow> Inr b
      | AInt i \<Rightarrow> if i = 0 \<or> i = 1 then Inr (i \<noteq> 0)
                  else Inl (ValueError ''cacheselect_auto_source must be 0 or 1'')
      | _ \<Rightarrow> Inl (ValueError ''cacheselect_auto_source must be 0 or 1''))"

lemma parse_index_nonneg:
  "parse_counterfactual_reuse_block_index v = Inr (Some i) \<Longrightarrow> 0 \<le> i"
  by (auto simp: parse_counterfactual_reuse_block_index_def Let_def
      split: arg.splits option.splits if_splits)

section \<open>Requests\<close>

record mm_feature =
  mm_identifier :: "string option"
  mm_offset :: nat
  mm_length :: nat
  mm_is_embed :: "bool list option"

record lora_request =
  lora_name :: string
  lora_int_id :: int

record sampling_params =
  sp_max_tokens :: "int option"
  sp_extra_args :: "(string, arg) odict option"
  sp_skip_reading :: "bool option"
  sp_structured :: bool

record pooling_params =
  pp_skip_reading :: "bool option"

text \<open>
  Prompt embeddings are the raw bytes of each row.  \<open>py_id\<close> is the object's identity.  The
  fields only other subsystems write (metrics events, streaming queue, scheduler counters) are
  left out.
\<close>

record request =
  request_id :: string
  priority :: int
  arrival_time :: rat
  py_id :: int
  status :: request_status
  max_tokens :: int
  lora :: "lora_request option"
  kv_transfer_params :: arg
  ec_transfer_params :: arg
  kv_cache_report_mode :: "arg option"
  cs_request_id :: "string option"
  cs_source_request_id :: "string option"
  cs_session_id :: "string option"
  cs_transition_id :: "string option"
  cs_auto_source :: bool
  cs_source_selection :: string
  cs_counterfactual_index :: "int option"
  prompt_token_ids :: "int list option"
  prompt_embeds :: "bytes list option"
  embeds_block_hashes :: "(nat \<times> nat, bytes) odict"
  num_prompt_tokens :: nat
  output_token_ids :: "int list"
  all_token_ids :: "int list"
  cache_salt :: "string option"
  mm_features :: "mm_feature list"
  block_hashes :: "bytes list"
  skip_reading_prefix_cache :: bool
  resumable :: bool

type_synonym hasher = "request \<Rightarrow> (bytes list \<times> request) res option"

definition request_num_tokens :: "request \<Rightarrow> nat" where
  "request_num_tokens r = length (all_token_ids r)"

definition update_block_hashes :: "hasher option \<Rightarrow> request \<Rightarrow> request res option" where
  "update_block_hashes hasher r =
     (case hasher of
        None \<Rightarrow> Some (Inr r)
      | Some f \<Rightarrow> map_option (\<lambda>out. bind_res out
          (\<lambda>(new, r'). Inr (r'\<lparr>block_hashes := block_hashes r' @ new\<rparr>))) (f r))"

definition append_output_token_ids :: "hasher option \<Rightarrow> int list \<Rightarrow> request \<Rightarrow> request res option" where
  "append_output_token_ids hasher toks r =
     update_block_hashes hasher
       (r\<lparr>output_token_ids := output_token_ids r @ toks, all_token_ids := all_token_ids r @ toks\<rparr>)"

definition length_from_prompt_token_ids_or_embeds :: "int list option \<Rightarrow> bytes list option \<Rightarrow> nat res" where
  "length_from_prompt_token_ids_or_embeds toks embeds =
     (case toks of
        None \<Rightarrow> (case embeds of
            None \<Rightarrow> Inl (ValueError ''Neither prompt_token_ids nor prompt_embeds were defined.'')
          | Some e \<Rightarrow> Inr (length e))
      | Some t \<Rightarrow> (case embeds of
            None \<Rightarrow> Inr (length t)
          | Some e \<Rightarrow> if length e \<noteq> length t
              then Inl (ValueError ''Prompt token ids and prompt embeds had different lengths'')
              else Inr (length t)))"

definition get_skip_reading_prefix_cache :: "sampling_params option \<Rightarrow> pooling_params option \<Rightarrow> bool" where
  "get_skip_reading_prefix_cache sp pp =
     (case Option.bind sp sp_skip_reading of
        Some b \<Rightarrow> b
      | None \<Rightarrow> (case Option.bind pp pp_skip_reading of Some b \<Rightarrow> b | None \<Rightarrow> False))"

definition str_arg :: "string \<Rightarrow> (string, arg) odict \<Rightarrow> string option res" where
  "str_arg key ea =
     (case arg_get key ea of
        ANone \<Rightarrow> Inr None
      | AStr s \<Rightarrow> Inr (Some s)
      | _ \<Rightarrow> Inl (ValueError (key @ '' must be a string'')))"

text \<open>The part of \<open>__init__\<close> that reads \<open>extra_args\<close>.\<close>

definition read_extra_args :: "(string, arg) odict \<Rightarrow> request \<Rightarrow> request res" where
  "read_extra_args ea r =
     (let r1 = r\<lparr>kv_transfer_params := arg_get ''kv_transfer_params'' ea,
                 ec_transfer_params := arg_get ''ec_transfer_params'' ea,
                 kv_cache_report_mode := Some (case od_get ea ''kv_cache_report_mode'' of
                   None \<Rightarrow> AStr ''incremental'' | Some v \<Rightarrow> v)\<rparr>
      in bind_res (str_arg ''cacheselect_request_id'' ea) (\<lambda>rid.
         bind_res (str_arg ''cacheselect_source_request_id'' ea) (\<lambda>src.
         bind_res (str_arg ''cacheselect_session_id'' ea) (\<lambda>sess.
         bind_res (str_arg ''cacheselect_transition_id'' ea) (\<lambda>tr.
         bind_res (parse_cacheselect_auto_source (arg_get ''cacheselect_auto_source'' ea)) (\<lambda>auto.
         bind_res (parse_counterfactual_reuse_block_index
             (arg_get ''cacheselect_counterfactual_reuse_block_index'' ea)) (\<lambda>cf.
           Inr (r1\<lparr>cs_request_id := rid, cs_source_request_id := src, cs_session_id := sess,
                   cs_transition_id := tr, cs_auto_source := auto,
                   cs_counterfactual_index := cf\<rparr>))))))))"

definition read_params :: "sampling_params option \<Rightarrow> pooling_params option \<Rightarrow> request \<Rightarrow> request res" where
  "read_params sp pp r =
     (case pp of
        Some _ \<Rightarrow> Inr (r\<lparr>max_tokens := 1\<rparr>)
      | None \<Rightarrow> (case sp of
          Some s \<Rightarrow>
            (case sp_max_tokens s of
               None \<Rightarrow> Inl (AssertionError ''sampling_params.max_tokens is not None'')
             | Some m \<Rightarrow>
                 (let r1 = r\<lparr>max_tokens := m,
                             status := (if sp_structured s
                               then WAITING_FOR_STRUCTURED_OUTPUT_GRAMMAR else status r)\<rparr>
                  in case sp_extra_args s of
                       Some ea \<Rightarrow> read_extra_args ea r1
                     | None \<Rightarrow> Inr (r1\<lparr>kv_cache_report_mode := Some (AStr ''incremental'')\<rparr>)))
        | None \<Rightarrow> Inl (ValueError ''sampling_params and pooling_params can't both be unset'')))"

definition request_init ::
  "string \<Rightarrow> int \<Rightarrow> int list option \<Rightarrow> sampling_params option \<Rightarrow> pooling_params option \<Rightarrow> rat \<Rightarrow>
   bytes list option \<Rightarrow> mm_feature list \<Rightarrow> lora_request option \<Rightarrow> string option \<Rightarrow> int \<Rightarrow>
   hasher option \<Rightarrow> bool \<Rightarrow> request res option" where
  "request_init rid oid toks sp pp now embeds feats lr salt prio hasher res =
     (let r0 = \<lparr>request_id = rid, priority = prio, arrival_time = now, py_id = oid, status = WAITING,
                max_tokens = 0, lora = lr, kv_transfer_params = ANone, ec_transfer_params = ANone,
                kv_cache_report_mode = None, cs_request_id = None, cs_source_request_id = None,
                cs_session_id = None, cs_transition_id = None, cs_auto_source = False,
                cs_source_selection = ''explicit'', cs_counterfactual_index = None,
                prompt_token_ids = toks, prompt_embeds = embeds, embeds_block_hashes = [],
                num_prompt_tokens = 0, output_token_ids = [], all_token_ids = [],
                cache_salt = salt, mm_features = feats, block_hashes = [],
                skip_reading_prefix_cache = False, resumable = res\<rparr>
      in case bind_res (read_params sp pp r0) (\<lambda>r1.
                bind_res (length_from_prompt_token_ids_or_embeds toks embeds) (\<lambda>n.
                  Inr (r1\<lparr>num_prompt_tokens := n,
                          all_token_ids := (case toks of Some t \<Rightarrow> t | None \<Rightarrow> replicate n 0)\<rparr>))) of
           Inl e \<Rightarrow> Some (Inl e)
         | Inr r2 \<Rightarrow> map_option (\<lambda>out. bind_res out (\<lambda>r3.
             Inr (r3\<lparr>skip_reading_prefix_cache := get_skip_reading_prefix_cache sp pp\<rparr>)))
             (update_block_hashes hasher r2))"

text \<open>\<open>__lt__\<close>: priority, then arrival time, then request id, then object identity.\<close>

fun string_less :: "string \<Rightarrow> string \<Rightarrow> bool" where
  "string_less [] ys = (ys \<noteq> [])"
| "string_less (x # xs) [] = False"
| "string_less (x # xs) (y # ys) =
     ((of_char x :: nat) < of_char y \<or> x = y \<and> string_less xs ys)"

definition request_lt :: "request \<Rightarrow> request \<Rightarrow> bool" where
  "request_lt a b =
     (if priority a \<noteq> priority b then priority a < priority b
      else if arrival_time a \<noteq> arrival_time b then arrival_time a < arrival_time b
      else if request_id a \<noteq> request_id b then string_less (request_id a) (request_id b)
      else py_id a < py_id b)"

lemma string_less_irrefl [simp]: "\<not> string_less s s"
  by (induction s) auto

lemma string_less_trans: "string_less a b \<Longrightarrow> string_less b c \<Longrightarrow> string_less a c"
proof (induction a b arbitrary: c rule: string_less.induct)
  case (3 x xs y ys)
  then show ?case by (cases c) auto
qed (auto elim: string_less.elims)

lemma string_less_asym: "string_less a b \<Longrightarrow> \<not> string_less b a"
  using string_less_trans string_less_irrefl by blast

lemma string_less_linear: "string_less a b \<or> a = b \<or> string_less b a"
proof (induction a b rule: string_less.induct)
  case (3 x xs y ys)
  then show ?case using of_char_eq_iff[of x y, where ?'a = nat] by auto
qed auto

lemma request_lt_irrefl [simp]: "\<not> request_lt a a"
  by (simp add: request_lt_def)

lemma request_lt_trans: "request_lt a b \<Longrightarrow> request_lt b c \<Longrightarrow> request_lt a c"
  using string_less_asym[of "request_id b" "request_id c"]
  by (auto simp: request_lt_def intro: string_less_trans split: if_splits)

lemma request_lt_linear: "py_id a \<noteq> py_id b \<Longrightarrow> request_lt a b \<or> request_lt b a"
  using string_less_linear[of "request_id a" "request_id b"]
  by (auto simp: request_lt_def)

text \<open>A request with nothing but its scheduling keys.\<close>

definition demo_waiting :: "string \<Rightarrow> int \<Rightarrow> int \<Rightarrow> request" where
  "demo_waiting rid prio oid =
     \<lparr>request_id = rid, priority = prio, arrival_time = 0, py_id = oid, status = WAITING, max_tokens = 1,
      lora = None, kv_transfer_params = ANone, ec_transfer_params = ANone, kv_cache_report_mode = None,
      cs_request_id = None, cs_source_request_id = None, cs_session_id = None, cs_transition_id = None,
      cs_auto_source = False, cs_source_selection = ''explicit'', cs_counterfactual_index = None,
      prompt_token_ids = None, prompt_embeds = None, embeds_block_hashes = [], num_prompt_tokens = 0,
      output_token_ids = [], all_token_ids = [], cache_salt = None, mm_features = [], block_hashes = [],
      skip_reading_prefix_cache = False, resumable = False\<rparr>"

end
