(* ===== verification/BlockHash.thy ===== *)
theory BlockHash
  imports Request
begin

text \<open>
  Block hashes of \<^verbatim>\<open>vllm/v1/core/kv_cache_utils.py\<close>: the packed key of a block hash
  and its cache group, the extra keys (LoRA, multimodal, salt, embeddings), the chained hash of
  a request's full blocks, the block-size resolution and the coarser view
  \<open>BlockHashListWithBlockSize\<close>.  The hash function and SHA-256 are parameters.
\<close>

section \<open>Keys with a group id\<close>

definition to_bytes_be4 :: "int \<Rightarrow> bytes res" where
  "to_bytes_be4 i =
     (if i < 0 then Inl (OverflowError ''can't convert negative int to unsigned'')
      else if 2 ^ 32 \<le> i then Inl (OverflowError ''int too big to convert'')
      else Inr (map (\<lambda>k. word_of_int (i div 256 ^ k)) [3, 2, 1, 0]))"

definition from_bytes_be :: "bytes \<Rightarrow> int" where
  "from_bytes_be bs = fold (\<lambda>b acc. 256 * acc + uint b) bs 0"

definition make_block_hash_with_group_id :: "bytes \<Rightarrow> int \<Rightarrow> bytes res" where
  "make_block_hash_with_group_id h g = bind_res (to_bytes_be4 g) (\<lambda>b. Inr (h @ b))"

definition get_block_hash :: "bytes \<Rightarrow> bytes" where
  "get_block_hash key = take (length key - 4) key"

definition get_group_id :: "bytes \<Rightarrow> int" where
  "get_group_id key = from_bytes_be (drop (length key - 4) key)"

datatype external_hash = ExtBytes bytes | ExtInt int

definition maybe_convert_block_hash :: "bool \<Rightarrow> bytes \<Rightarrow> external_hash" where
  "maybe_convert_block_hash use_int h =
     (if \<not> use_int then ExtBytes h else ExtInt (take_bit 64 (from_bytes_be h)))"

lemma uint_byte: "uint (word_of_int i :: byte) = i mod 256"
  by (simp add: uint_word_of_int)

lemma div_mod_256: "256 * (j div 256) + j mod (256::int) = j"
  by (rule mult_div_mod_eq)

lemma from_to_bytes_be4:
  assumes "to_bytes_be4 i = Inr bs"
  shows "from_bytes_be bs = i" and "length bs = 4"
proof -
  have i: "0 \<le> i" "i < 2 ^ 32" using assms by (auto simp: to_bytes_be4_def split: if_splits)
  have bs: "bs = map (\<lambda>k. word_of_int (i div 256 ^ k)) [3, 2, 1, 0]"
    using assms i by (auto simp: to_bytes_be4_def)
  have "from_bytes_be bs = 256 * (256 * (256 * (i div 256 ^ 3 mod 256) + i div 256 ^ 2 mod 256)
      + i div 256 mod 256) + i mod 256"
    by (simp add: bs from_bytes_be_def uint_byte)
  also have "i div 256 ^ 3 mod 256 = i div 256 ^ 3"
  proof (rule mod_pos_pos_trivial)
    show "0 \<le> i div 256 ^ 3" using i by simp
    show "i div 256 ^ 3 < 256" using i by simp
  qed
  also have "256 * (i div 256 ^ 3) + i div 256 ^ 2 mod 256 = i div 256 ^ 2"
    using div_mod_256[of "i div 256 ^ 2"] by (simp add: zdiv_zmult2_eq[symmetric])
  also have "256 * (i div 256 ^ 2) + i div 256 mod 256 = i div 256"
    using div_mod_256[of "i div 256"] by (simp add: zdiv_zmult2_eq[symmetric])
  also have "256 * (i div 256) + i mod 256 = i" by (rule div_mod_256)
  finally show "from_bytes_be bs = i" .
  show "length bs = 4" by (simp add: bs)
qed

lemma make_block_hash_ok:
  "(\<exists>key. make_block_hash_with_group_id h g = Inr key) \<longleftrightarrow> 0 \<le> g \<and> g < 2 ^ 32"
  by (auto simp: make_block_hash_with_group_id_def to_bytes_be4_def)

lemma make_block_hash_unpack:
  assumes "make_block_hash_with_group_id h g = Inr key"
  shows "get_block_hash key = h" "get_group_id key = g"
  using assms from_to_bytes_be4[of g]
  by (auto simp: make_block_hash_with_group_id_def get_block_hash_def get_group_id_def)

section \<open>Extra keys\<close>

datatype extra_key = KStr string | KMm string int | KBytes bytes

definition need_extra_keys :: "request \<Rightarrow> bool" where
  "need_extra_keys r \<longleftrightarrow> mm_features r \<noteq> [] \<or> lora r \<noteq> None \<or> cache_salt r \<noteq> None"

fun mm_loop :: "mm_feature list \<Rightarrow> nat \<Rightarrow> nat \<Rightarrow> nat \<Rightarrow> (extra_key list \<times> nat) res" where
  "mm_loop [] idx s e = Inr ([], idx)"
| "mm_loop (f # fs) idx s e =
     (case mm_identifier f of
        None \<Rightarrow> Inl (AssertionError ''mm_feature.identifier is not None'')
      | Some name \<Rightarrow>
          (if mm_offset f < e then
             (if mm_offset f + mm_length f \<le> s then mm_loop fs (idx + 1) s e
              else
                (let key = KMm name (int (mm_offset f) - int s)
                 in if mm_offset f + mm_length f \<le> e
                    then bind_res (mm_loop fs (idx + 1) s e) (\<lambda>(ks, j). Inr (key # ks, j))
                    else Inr ([key], idx)))
           else Inr ([], idx)))"

definition gen_mm_extra_hash_keys :: "request \<Rightarrow> nat \<Rightarrow> nat \<Rightarrow> int \<Rightarrow> (extra_key list \<times> int) res" where
  "gen_mm_extra_hash_keys r s e idx =
     (let fs = mm_features r in
      if fs = [] then Inr ([], idx)
      else if mm_offset (last fs) + mm_length (last fs) \<le> s then Inr ([], idx)
      else bind_res (check_res (idx < 0 \<longrightarrow> - idx \<le> int (length fs))
                      (AssertionError ''-start_mm_idx <= len(mm_features)''))
        (\<lambda>_. let i = nat (if idx < 0 then int (length fs) + idx else idx)
             in bind_res (mm_loop (drop i fs) i s e) (\<lambda>(ks, j). Inr (ks, int j))))"

definition gen_lora_extra_hash_keys :: "request \<Rightarrow> extra_key list" where
  "gen_lora_extra_hash_keys r = (case lora r of None \<Rightarrow> [] | Some l \<Rightarrow> [KStr (lora_name l)])"

text \<open>The digest of a block's embeddings is remembered on the request.\<close>

definition gen_prompt_embeds_extra_hash_keys ::
  "(bytes \<Rightarrow> bytes) \<Rightarrow> request \<Rightarrow> nat \<Rightarrow> nat \<Rightarrow> extra_key list \<times> request" where
  "gen_prompt_embeds_extra_hash_keys sha r s e =
     (case prompt_embeds r of
        None \<Rightarrow> ([], r)
      | Some rows \<Rightarrow>
          (case od_get (embeds_block_hashes r) (s, e) of
             Some h \<Rightarrow> ([KBytes h], r)
           | None \<Rightarrow>
               (let h = sha (concat (slice s e rows))
                in ([KBytes h],
                    r\<lparr>embeds_block_hashes := od_set (s, e) h (embeds_block_hashes r)\<rparr>))))"

definition generate_block_hash_extra_keys ::
  "(bytes \<Rightarrow> bytes) \<Rightarrow> request \<Rightarrow> nat \<Rightarrow> nat \<Rightarrow> int \<Rightarrow> (extra_key list option \<times> int \<times> request) res" where
  "generate_block_hash_extra_keys sha r s e idx =
     bind_res (gen_mm_extra_hash_keys r s e idx) (\<lambda>(mm_keys, idx').
       let lora_keys = gen_lora_extra_hash_keys r;
           salt_keys = (case cache_salt r of
               Some salt \<Rightarrow> if s = 0 \<and> salt \<noteq> [] then [KStr salt] else []
             | None \<Rightarrow> []);
           (embed_keys, r') = gen_prompt_embeds_extra_hash_keys sha r s e;
           keys = lora_keys @ mm_keys @ salt_keys @ embed_keys
       in Inr (if keys = [] then None else Some keys, idx', r'))"

section \<open>The chained hash of full blocks\<close>

type_synonym block_hash_fn = "bytes \<Rightarrow> int list \<Rightarrow> extra_key list option \<Rightarrow> bytes"

definition hash_block_tokens ::
  "block_hash_fn \<Rightarrow> bytes \<Rightarrow> bytes option \<Rightarrow> int list \<Rightarrow> extra_key list option \<Rightarrow> bytes" where
  "hash_block_tokens H none_hash parent toks extra =
     H (case parent of None \<Rightarrow> none_hash | Some p \<Rightarrow> if p = [] then none_hash else p) toks extra"

partial_function (option) hasher_loop ::
  "block_hash_fn \<Rightarrow> bytes \<Rightarrow> (bytes \<Rightarrow> bytes) \<Rightarrow> nat \<Rightarrow> nat \<Rightarrow> nat \<Rightarrow> int \<Rightarrow> bytes option \<Rightarrow> request \<Rightarrow>
   (bytes list \<times> request) res option" where
  "hasher_loop H none_hash sha hbs num_tokens start idx prev r =
     (if num_tokens < start + hbs then Some (Inr ([], r))
      else case generate_block_hash_extra_keys sha r start (start + hbs) idx of
        Inl e \<Rightarrow> Some (Inl e)
      | Inr (extra, idx', r') \<Rightarrow>
          (let h = hash_block_tokens H none_hash prev (slice start (start + hbs) (all_token_ids r')) extra
           in Option.bind (hasher_loop H none_hash sha hbs num_tokens (start + hbs) idx' (Some h) r')
                (\<lambda>out. Some (bind_res out (\<lambda>(hs, r''). Inr (h # hs, r''))))))"

definition request_block_hasher :: "block_hash_fn \<Rightarrow> bytes \<Rightarrow> (bytes \<Rightarrow> bytes) \<Rightarrow> nat \<Rightarrow> hasher" where
  "request_block_hasher H none_hash sha hbs r =
     (let start = length (block_hashes r) * hbs
      in if request_num_tokens r < start + hbs then Some (Inr ([], r))
         else hasher_loop H none_hash sha hbs (request_num_tokens r) start
                (if 0 < start then -1 else 0)
                (if block_hashes r = [] then None else Some (last (block_hashes r))) r)"

section \<open>Block sizes\<close>

datatype spec_kind = Attention_Spec | Mamba_Spec | Other_Spec

record kv_group =
  spec_kind :: spec_kind
  spec_block_size :: nat

record cache_settings =
  cfg_block_size :: nat
  cfg_dcp :: nat
  cfg_prefix_caching :: bool
  cfg_connector :: bool
  cfg_prefix_match_unit :: "nat option"

definition group_block_sizes :: "cache_settings \<Rightarrow> kv_group list \<Rightarrow> nat list" where
  "group_block_sizes cfg gs =
     map (\<lambda>g. if spec_kind g = Attention_Spec then spec_block_size g * cfg_dcp cfg else spec_block_size g) gs"

definition resolve_kv_cache_block_sizes :: "cache_settings \<Rightarrow> kv_group list \<Rightarrow> (nat \<times> nat) res" where
  "resolve_kv_cache_block_sizes cfg gs =
     (if length gs \<le> 1 then (let bs = cfg_block_size cfg * cfg_dcp cfg in Inr (bs, bs))
      else
        (let sizes = group_block_sizes cfg gs;
             sched = Lcm (set sizes)
         in if \<not> (cfg_prefix_caching cfg \<or> cfg_connector cfg) then Inr (sched, sched)
            else if \<exists>g \<in> set gs. spec_kind g = Mamba_Spec \<and> spec_block_size g \<noteq> cfg_block_size cfg
            then Inr (sched, sched)
            else
              (let h = (case cfg_prefix_match_unit cfg of Some u \<Rightarrow> u | None \<Rightarrow> Gcd (set sizes))
               in if h = 0 then Inl (ZeroDivisionError)
                  else if \<exists>b \<in> set sizes. b mod h \<noteq> 0
                  then Inl (ValueError ''Invalid prefix_match_unit'')
                  else Inr (sched, h))))"

text \<open>\<open>Raw\<close> is the list itself, \<open>View\<close> a \<open>BlockHashListWithBlockSize\<close> with its scale factor.\<close>

datatype hash_list = Raw "bytes list" | View "bytes list" nat

definition block_hash_view :: "bytes list \<Rightarrow> nat \<Rightarrow> nat \<Rightarrow> hash_list res" where
  "block_hash_view hs hbs target =
     (if hbs = 0 then Inl ZeroDivisionError
      else if target mod hbs \<noteq> 0 then Inl (AssertionError ''target_block_size % hash_block_size == 0'')
      else Inr (View hs (target div hbs)))"

definition hl_len :: "hash_list \<Rightarrow> nat res" where
  "hl_len l = (case l of
      Raw hs \<Rightarrow> Inr (length hs)
    | View hs scale \<Rightarrow> if scale = 0 then Inl ZeroDivisionError else Inr (length hs div scale))"

text \<open>\<open>l[i]\<close> for \<open>0 \<le> i\<close>; at scale factor 0 the index is \<open>-1\<close>, the last hash.\<close>

definition hl_get :: "hash_list \<Rightarrow> nat \<Rightarrow> bytes res" where
  "hl_get l i = (case l of
      Raw hs \<Rightarrow> if i < length hs then Inr (hs ! i) else Inl (IndexError ''list index out of range'')
    | View hs scale \<Rightarrow>
        if scale = 0 then
          (if hs = [] then Inl (IndexError ''list index out of range'') else Inr (last hs))
        else if (i + 1) * scale - 1 < length hs then Inr (hs ! ((i + 1) * scale - 1))
        else Inl (IndexError ''list index out of range''))"

text \<open>\<open>l[a:]\<close>.\<close>

definition hl_from :: "hash_list \<Rightarrow> nat \<Rightarrow> bytes list res" where
  "hl_from l a = (case l of
      Raw hs \<Rightarrow> Inr (drop a hs)
    | View hs scale \<Rightarrow> bind_res (hl_len l) (\<lambda>n. map_res (hl_get l) [min a n..<n]))"

definition resolve_block_hashes :: "hash_list \<Rightarrow> nat \<Rightarrow> nat \<Rightarrow> bool \<Rightarrow> nat option \<Rightarrow> hash_list res" where
  "resolve_block_hashes l hbs bs fine alignment =
     (if bs = hbs then Inr l
      else case l of
        View hs scale \<Rightarrow>
          if hbs = 0 then Inl ZeroDivisionError
          else if scale \<noteq> bs div hbs
          then Inl (AssertionError ''block_hashes.scale_factor == block_size // hash_block_size'')
          else Inr l
      | Raw hs \<Rightarrow>
          (case alignment of
             Some a \<Rightarrow>
               if fine \<and> a < bs \<and> a = 0 then Inl ZeroDivisionError
               else if fine \<and> a < bs \<and> bs mod a = 0 then Inr l
               else block_hash_view hs hbs bs
           | None \<Rightarrow> block_hash_view hs hbs bs))"

section \<open>The hash list of a request\<close>

text \<open>The chain over a list of blocks (tokens and extra keys), and the triples it hashes.\<close>

fun chain :: "block_hash_fn \<Rightarrow> bytes \<Rightarrow> bytes option \<Rightarrow> (int list \<times> extra_key list option) list \<Rightarrow> bytes list" where
  "chain H none_hash prev [] = []"
| "chain H none_hash prev ((toks, extra) # bs) =
     (let h = hash_block_tokens H none_hash prev toks extra in h # chain H none_hash (Some h) bs)"

definition parent_of :: "bytes \<Rightarrow> bytes option \<Rightarrow> bytes" where
  "parent_of none_hash prev = (case prev of None \<Rightarrow> none_hash | Some p \<Rightarrow> if p = [] then none_hash else p)"

fun chain_inputs ::
  "block_hash_fn \<Rightarrow> bytes \<Rightarrow> bytes option \<Rightarrow> (int list \<times> extra_key list option) list \<Rightarrow>
   (bytes \<times> int list \<times> extra_key list option) list" where
  "chain_inputs H none_hash prev [] = []"
| "chain_inputs H none_hash prev ((toks, extra) # bs) =
     (parent_of none_hash prev, toks, extra) #
       chain_inputs H none_hash (Some (hash_block_tokens H none_hash prev toks extra)) bs"

text \<open>The extra keys of a request without multimodal inputs.\<close>

definition plain_extra :: "(bytes \<Rightarrow> bytes) \<Rightarrow> request \<Rightarrow> nat \<Rightarrow> nat \<Rightarrow> extra_key list option" where
  "plain_extra sha r s e =
     (let keys = gen_lora_extra_hash_keys r @
          (case cache_salt r of Some salt \<Rightarrow> if s = 0 \<and> salt \<noteq> [] then [KStr salt] else [] | None \<Rightarrow> []) @
          (case prompt_embeds r of None \<Rightarrow> [] | Some rows \<Rightarrow> [KBytes (sha (concat (slice s e rows)))])
      in if keys = [] then None else Some keys)"

definition plain_block :: "(bytes \<Rightarrow> bytes) \<Rightarrow> request \<Rightarrow> nat \<Rightarrow> nat \<Rightarrow> int list \<times> extra_key list option" where
  "plain_block sha r hbs k =
     (slice (k * hbs) (k * hbs + hbs) (all_token_ids r), plain_extra sha r (k * hbs) (k * hbs + hbs))"

definition full_blocks :: "(bytes \<Rightarrow> bytes) \<Rightarrow> nat \<Rightarrow> request \<Rightarrow> (int list \<times> extra_key list option) list" where
  "full_blocks sha hbs r = map (plain_block sha r hbs) [0..<request_num_tokens r div hbs]"

definition memo_ok :: "(bytes \<Rightarrow> bytes) \<Rightarrow> request \<Rightarrow> bool" where
  "memo_ok sha r \<longleftrightarrow> (\<forall>((s, e), h) \<in> set (embeds_block_hashes r).
     \<exists>rows. prompt_embeds r = Some rows \<and> h = sha (concat (slice s e rows)))"

definition hashes_current :: "block_hash_fn \<Rightarrow> bytes \<Rightarrow> (bytes \<Rightarrow> bytes) \<Rightarrow> nat \<Rightarrow> request \<Rightarrow> bool" where
  "hashes_current H none_hash sha hbs r \<longleftrightarrow> mm_features r = [] \<and> memo_ok sha r \<and>
     block_hashes r = chain H none_hash None (full_blocks sha hbs r)"

lemma length_chain [simp]: "length (chain H n prev bs) = length bs"
  by (induction H n prev bs rule: chain.induct) (simp_all add: Let_def)

lemma chain_append:
  "chain H n prev (bs @ cs) = chain H n prev bs @
     chain H n (if bs = [] then prev else Some (last (chain H n prev bs))) cs"
proof (induction H n prev bs rule: chain.induct)
  case (2 H n prev toks extra bs)
  then show ?case by (cases bs) (auto simp: Let_def)
qed simp

lemma plain_extra_memo [simp]: "plain_extra sha (r\<lparr>embeds_block_hashes := m\<rparr>) = plain_extra sha r"
  by (simp add: plain_extra_def gen_lora_extra_hash_keys_def fun_eq_iff)

lemma plain_block_memo [simp]: "plain_block sha (r\<lparr>embeds_block_hashes := m\<rparr>) = plain_block sha r"
  by (simp add: plain_block_def fun_eq_iff)

lemma plain_block_skip [simp]:
  "plain_block sha (r\<lparr>skip_reading_prefix_cache := b\<rparr>) = plain_block sha r"
  by (simp add: plain_block_def plain_extra_def gen_lora_extra_hash_keys_def fun_eq_iff)

lemma gen_embeds:
  assumes "memo_ok sha r"
  shows "\<exists>m. gen_prompt_embeds_extra_hash_keys sha r s e =
      (case prompt_embeds r of None \<Rightarrow> [] | Some rows \<Rightarrow> [KBytes (sha (concat (slice s e rows)))],
       r\<lparr>embeds_block_hashes := m\<rparr>) \<and> memo_ok sha (r\<lparr>embeds_block_hashes := m\<rparr>)"
proof (cases "prompt_embeds r")
  case None
  with assms show ?thesis
    by (intro exI[of _ "embeds_block_hashes r"]) (simp add: gen_prompt_embeds_extra_hash_keys_def)
next
  case (Some rows)
  show ?thesis
  proof (cases "od_get (embeds_block_hashes r) (s, e)")
    case None
    let ?m = "od_set (s, e) (sha (concat (slice s e rows))) (embeds_block_hashes r)"
    have "set ?m \<subseteq> insert ((s, e), sha (concat (slice s e rows))) (set (embeds_block_hashes r))"
      by (rule od_set_subset)
    then have "memo_ok sha (r\<lparr>embeds_block_hashes := ?m\<rparr>)"
      using assms Some unfolding memo_ok_def by fastforce
    with None Some show ?thesis
      by (intro exI[of _ ?m]) (simp add: gen_prompt_embeds_extra_hash_keys_def Let_def)
  next
    case (Some h)
    then have "((s, e), h) \<in> set (embeds_block_hashes r)" by (rule map_of_SomeD)
    then have "h = sha (concat (slice s e rows))"
      using assms \<open>prompt_embeds r = Some rows\<close> by (fastforce simp: memo_ok_def)
    with Some \<open>prompt_embeds r = Some rows\<close> assms show ?thesis
      by (intro exI[of _ "embeds_block_hashes r"]) (simp add: gen_prompt_embeds_extra_hash_keys_def)
  qed
qed

lemma generate_plain:
  assumes "memo_ok sha r" and "mm_features r = []"
  shows "\<exists>m. generate_block_hash_extra_keys sha r s e idx =
      Inr (plain_extra sha r s e, idx, r\<lparr>embeds_block_hashes := m\<rparr>) \<and>
    memo_ok sha (r\<lparr>embeds_block_hashes := m\<rparr>)"
proof -
  obtain m where "gen_prompt_embeds_extra_hash_keys sha r s e =
      (case prompt_embeds r of None \<Rightarrow> [] | Some rows \<Rightarrow> [KBytes (sha (concat (slice s e rows)))],
       r\<lparr>embeds_block_hashes := m\<rparr>)" "memo_ok sha (r\<lparr>embeds_block_hashes := m\<rparr>)"
    using gen_embeds[OF assms(1)] by blast
  with assms(2) show ?thesis
    by (intro exI[of _ m])
      (simp add: generate_block_hash_extra_keys_def gen_mm_extra_hash_keys_def plain_extra_def Let_def)
qed

lemma hasher_loop_plain:
  assumes "0 < hbs" and "memo_ok sha r" and "mm_features r = []"
  shows "\<exists>m. hasher_loop H n sha hbs (request_num_tokens r) (k * hbs) idx prev r =
      Some (Inr (chain H n prev (map (plain_block sha r hbs) [k..<request_num_tokens r div hbs]),
                 r\<lparr>embeds_block_hashes := m\<rparr>)) \<and> memo_ok sha (r\<lparr>embeds_block_hashes := m\<rparr>)"
  using assms
proof (induction "request_num_tokens r div hbs - k" arbitrary: k idx prev r)
  case 0
  then have "request_num_tokens r < k * hbs + hbs"
    by (metis diff_is_0_eq add.commute div_less_iff_less_mult less_Suc_eq_le mult_Suc)
  with 0 show ?case
    by (intro exI[of _ "embeds_block_hashes r"]) (simp add: hasher_loop.simps)
next
  case (Suc d)
  let ?N = "request_num_tokens r"
  have kN: "k < ?N div hbs" using Suc.hyps(2) by simp
  then have "\<not> ?N < k * hbs + hbs"
    using Suc.prems(1)
    by (metis Suc_leI add.commute leD less_eq_div_iff_mult_less_eq mult_Suc)
  moreover obtain m where m: "generate_block_hash_extra_keys sha r (k * hbs) (k * hbs + hbs) idx =
      Inr (plain_extra sha r (k * hbs) (k * hbs + hbs), idx, r\<lparr>embeds_block_hashes := m\<rparr>)"
    "memo_ok sha (r\<lparr>embeds_block_hashes := m\<rparr>)"
    using generate_plain[OF Suc.prems(2,3)] by blast
  let ?r = "r\<lparr>embeds_block_hashes := m\<rparr>"
  let ?h = "hash_block_tokens H n prev (slice (k * hbs) (k * hbs + hbs) (all_token_ids r))
      (plain_extra sha r (k * hbs) (k * hbs + hbs))"
  have N: "request_num_tokens ?r = ?N" by (simp add: request_num_tokens_def)
  have "d = request_num_tokens ?r div hbs - Suc k" using Suc.hyps(2) N by simp
  from Suc.hyps(1)[OF this Suc.prems(1) m(2), of idx "Some ?h"] Suc.prems(3) N
  obtain m' where m': "hasher_loop H n sha hbs ?N (k * hbs + hbs) idx (Some ?h) ?r =
      Some (Inr (chain H n (Some ?h) (map (plain_block sha r hbs) [Suc k..<?N div hbs]),
        r\<lparr>embeds_block_hashes := m'\<rparr>))" "memo_ok sha (r\<lparr>embeds_block_hashes := m'\<rparr>)"
    by (auto simp: add.commute)
  moreover have "[k..<?N div hbs] = k # [Suc k..<?N div hbs]" using kN by (rule upt_conv_Cons)
  ultimately show ?case
    using m by (intro exI[of _ m']) (simp add: hasher_loop.simps[of H n sha hbs ?N "k * hbs"]
      plain_block_def Let_def)
qed

text \<open>Appending tokens does not change the blocks that were already full.\<close>

lemma full_blocks_append:
  fixes toks :: "int list"
  assumes "0 < hbs" and "r' = r\<lparr>output_token_ids := out, all_token_ids := all_token_ids r @ toks\<rparr>"
  shows "full_blocks sha hbs r' = full_blocks sha hbs r @
    map (plain_block sha r' hbs) [request_num_tokens r div hbs..<request_num_tokens r' div hbs]"
proof -
  let ?n = "request_num_tokens r div hbs" and ?n' = "request_num_tokens r' div hbs"
  have le: "?n \<le> ?n'" by (rule div_le_mono) (simp add: assms request_num_tokens_def)
  then have "[0..<?n'] = [0..<?n] @ [?n..<?n']" by (intro upt_split) simp_all
  moreover have "plain_block sha r' hbs k = plain_block sha r hbs k" if "k \<in> set [0..<?n]" for k
  proof -
    have "Suc k \<le> ?n" using that by simp
    then have "Suc k * hbs \<le> request_num_tokens r"
      using assms(1) by (simp only: less_eq_div_iff_mult_less_eq)
    then have "slice (k * hbs) (k * hbs + hbs) (all_token_ids r @ toks) =
        slice (k * hbs) (k * hbs + hbs) (all_token_ids r)"
      by (simp add: slice_def request_num_tokens_def)
    then show ?thesis
      by (simp add: plain_block_def assms(2) plain_extra_def gen_lora_extra_hash_keys_def)
  qed
  ultimately show ?thesis by (simp add: full_blocks_def)
qed

lemma update_block_hashes_extends:
  assumes hbs: "0 < hbs" and "memo_ok sha r" and "mm_features r = []"
    and bh: "block_hashes r = chain H n None (take k (full_blocks sha hbs r))"
    and k: "k \<le> request_num_tokens r div hbs"
  shows "\<exists>m. let r' = r\<lparr>embeds_block_hashes := m,
        block_hashes := chain H n None (full_blocks sha hbs r)\<rparr>
    in update_block_hashes (Some (request_block_hasher H n sha hbs)) r = Some (Inr r') \<and>
      hashes_current H n sha hbs r'"
proof -
  let ?N = "request_num_tokens r"
  let ?prev = "if block_hashes r = [] then None else Some (last (block_hashes r))"
  let ?new = "chain H n ?prev (map (plain_block sha r hbs) [k..<?N div hbs])"
  have len: "length (block_hashes r) = k" using k by (simp add: bh full_blocks_def)
  have split: "full_blocks sha hbs r =
      take k (full_blocks sha hbs r) @ map (plain_block sha r hbs) [k..<?N div hbs]"
    using k upt_split[OF le0 k] by (simp add: full_blocks_def take_map)
  have all: "block_hashes r @ ?new = chain H n None (full_blocks sha hbs r)"
  proof -
    have "take k (full_blocks sha hbs r) = [] \<longleftrightarrow> block_hashes r = []"
      using bh by (metis length_0_conv length_chain)
    then show ?thesis
      by (subst split, subst chain_append) (simp add: bh)
  qed
  obtain m where m: "hasher_loop H n sha hbs ?N (k * hbs) (if 0 < k * hbs then -1 else 0) ?prev r =
      Some (Inr (?new, r\<lparr>embeds_block_hashes := m\<rparr>))" "memo_ok sha (r\<lparr>embeds_block_hashes := m\<rparr>)"
    using hasher_loop_plain[OF hbs assms(2,3)] by blast
  have "\<exists>m. request_block_hasher H n sha hbs r = Some (Inr (?new, r\<lparr>embeds_block_hashes := m\<rparr>)) \<and>
      memo_ok sha (r\<lparr>embeds_block_hashes := m\<rparr>)"
  proof (cases "?N < k * hbs + hbs")
    case True
    then have "?N div hbs \<le> k"
      using hbs by (metis add.commute div_less_iff_less_mult less_Suc_eq_le mult_Suc)
    with True len assms(2) show ?thesis
      by (intro exI[of _ "embeds_block_hashes r"]) (simp add: request_block_hasher_def Let_def)
  next
    case False
    with len m show ?thesis by (intro exI[of _ m]) (simp add: request_block_hasher_def Let_def)
  qed
  then obtain m' where m': "request_block_hasher H n sha hbs r =
      Some (Inr (?new, r\<lparr>embeds_block_hashes := m'\<rparr>))" "memo_ok sha (r\<lparr>embeds_block_hashes := m'\<rparr>)"
    by blast
  have "full_blocks sha hbs (r\<lparr>embeds_block_hashes := m', block_hashes := c\<rparr>) = full_blocks sha hbs r" for c
    by (simp add: full_blocks_def plain_block_def plain_extra_def gen_lora_extra_hash_keys_def
        request_num_tokens_def)
  with m' all assms(3) show ?thesis
    by (intro exI[of _ m']) (simp add: update_block_hashes_def hashes_current_def memo_ok_def)
qed

section \<open>Reachable requests\<close>

fun append_all :: "hasher option \<Rightarrow> int list list \<Rightarrow> request \<Rightarrow> request res option" where
  "append_all hasher [] r = Some (Inr r)"
| "append_all hasher (toks # rest) r =
     (case append_output_token_ids hasher toks r of
        Some (Inr r') \<Rightarrow> append_all hasher rest r'
      | out \<Rightarrow> out)"

lemma append_hashes_current:
  assumes "0 < hbs" and c: "hashes_current H n sha hbs r"
  shows "\<exists>r'. append_output_token_ids (Some (request_block_hasher H n sha hbs)) toks r = Some (Inr r') \<and>
    hashes_current H n sha hbs r' \<and> all_token_ids r' = all_token_ids r @ toks"
proof -
  let ?r = "r\<lparr>output_token_ids := output_token_ids r @ toks, all_token_ids := all_token_ids r @ toks\<rparr>"
  let ?k = "request_num_tokens r div hbs"
  have FB: "full_blocks sha hbs ?r = full_blocks sha hbs r @
      map (plain_block sha ?r hbs) [?k..<request_num_tokens ?r div hbs]"
    by (rule full_blocks_append[OF assms(1) refl])
  have "length (full_blocks sha hbs r) = ?k" by (simp add: full_blocks_def)
  then have "take ?k (full_blocks sha hbs ?r) = full_blocks sha hbs r" unfolding FB by simp
  then have B: "block_hashes ?r = chain H n None (take ?k (full_blocks sha hbs ?r))"
    using c by (simp add: hashes_current_def)
  have M: "memo_ok sha ?r" "mm_features ?r = []" using c by (auto simp: hashes_current_def memo_ok_def)
  have K: "?k \<le> request_num_tokens ?r div hbs" by (rule div_le_mono) (simp add: request_num_tokens_def)
  from update_block_hashes_extends[OF assms(1) M B K] show ?thesis
    by (auto simp: append_output_token_ids_def Let_def)
qed

lemma read_params_frame:
  assumes "read_params sp pp r = Inr r'"
  shows "mm_features r' = mm_features r \<and> embeds_block_hashes r' = embeds_block_hashes r \<and>
    block_hashes r' = block_hashes r"
  using assms by (auto simp: read_params_def read_extra_args_def Let_def split: option.splits)

lemma request_init_hashes_current:
  assumes "0 < hbs" and r0: "request_init rid oid toks sp pp now embeds [] lr salt prio
    (Some (request_block_hasher H n sha hbs)) res = Some (Inr r0)"
  shows "hashes_current H n sha hbs r0"
proof -
  obtain x k r3 where "mm_features x = []" "embeds_block_hashes x = []" "block_hashes x = []"
    and "update_block_hashes (Some (request_block_hasher H n sha hbs))
      (x\<lparr>num_prompt_tokens := k, all_token_ids := case toks of None \<Rightarrow> replicate k 0 | Some t \<Rightarrow> t\<rparr>) =
        Some (Inr r3)"
    and r3: "r0 = r3\<lparr>skip_reading_prefix_cache := get_skip_reading_prefix_cache sp pp\<rparr>"
    using r0 by (auto simp: request_init_def Let_def dest!: read_params_frame split: sum.splits)
  then obtain r2 where r2: "mm_features r2 = []" "embeds_block_hashes r2 = []" "block_hashes r2 = []"
    and u: "update_block_hashes (Some (request_block_hasher H n sha hbs)) r2 = Some (Inr r3)"
    by (intro that[of "x\<lparr>num_prompt_tokens := k,
        all_token_ids := case toks of None \<Rightarrow> replicate k 0 | Some t \<Rightarrow> t\<rparr>"]) simp_all
  have M: "memo_ok sha r2" using r2 by (simp add: memo_ok_def)
  have B: "block_hashes r2 = chain H n None (take 0 (full_blocks sha hbs r2))" using r2 by simp
  from update_block_hashes_extends[OF assms(1) M r2(1) B le0] u
  have "hashes_current H n sha hbs r3" by (auto simp: Let_def)
  then show ?thesis
    by (simp add: r3 hashes_current_def memo_ok_def full_blocks_def plain_block_def plain_extra_def
        gen_lora_extra_hash_keys_def request_num_tokens_def)
qed

text \<open>C24. The hash list of a text request is always complete.  Whatever prompt a request is created
  with and however its output tokens arrive, hashing never fails, loops or skips a block: after
  every append the list holds exactly the chained hash of every full block of all its tokens, the
  same list hashing everything at once would give.\<close>

theorem hashes_of_run:
  assumes "0 < hbs" and "request_init rid oid toks sp pp now embeds [] lr salt prio
    (Some (request_block_hasher H n sha hbs)) res = Some (Inr r0)"
  shows "\<exists>r. append_all (Some (request_block_hasher H n sha hbs)) tokss r0 = Some (Inr r) \<and>
    all_token_ids r = all_token_ids r0 @ concat tokss \<and> mm_features r = [] \<and>
    block_hashes r = chain H n None (full_blocks sha hbs r)"
proof -
  have "hashes_current H n sha hbs r0" by (rule request_init_hashes_current[OF assms])
  then show ?thesis
  proof (induction tokss arbitrary: r0)
    case (Cons toks rest)
    from append_hashes_current[OF assms(1) Cons.prems, of toks] obtain r1
      where r1: "append_output_token_ids (Some (request_block_hasher H n sha hbs)) toks r0 = Some (Inr r1)"
        "hashes_current H n sha hbs r1" "all_token_ids r1 = all_token_ids r0 @ toks" by blast
    from Cons.IH[OF r1(2)] r1 show ?case by auto
  qed (auto simp: hashes_current_def)
qed

definition toy_hash :: block_hash_fn where
  "toy_hash p toks extra = map word_of_int toks @ p"

definition example_text_request :: "int list \<Rightarrow> request res option" where
  "example_text_request toks = request_init ''r'' 1 (Some toks) None (Some \<lparr>pp_skip_reading = None\<rparr>) 0
     None [] None (Some ''salt'') 0 (Some (request_block_hasher toy_hash [255] id 2)) False"

lemma example_text_request_ok:
  "\<exists>r. example_text_request [5, 6, x] = Some (Inr r) \<and> all_token_ids r = [5, 6, x] \<and>
     block_hashes r = [[5, 6, 255]] \<and> full_blocks id 2 r = [([5, 6], Some [KStr ''salt''])]"
  by (simp add: example_text_request_def request_init_def read_params_def update_block_hashes_def
      length_from_prompt_token_ids_or_embeds_def request_block_hasher_def request_num_tokens_def
      hasher_loop.simps generate_block_hash_extra_keys_def gen_mm_extra_hash_keys_def
      gen_lora_extra_hash_keys_def gen_prompt_embeds_extra_hash_keys_def hash_block_tokens_def
      full_blocks_def plain_block_def plain_extra_def toy_hash_def slice_def Let_def)

lemma hashes_of_run_witness:
  "\<exists>r0 r. example_text_request [5, 6, 7] = Some (Inr r0) \<and>
     append_all (Some (request_block_hasher toy_hash [255] id 2)) [[8], [9, 10]] r0 = Some (Inr r) \<and>
     all_token_ids r = [5, 6, 7, 8, 9, 10] \<and>
     block_hashes r = chain toy_hash [255] None (full_blocks id 2 r)"
proof -
  obtain r0 where r0: "example_text_request [5, 6, 7] = Some (Inr r0)" "all_token_ids r0 = [5, 6, 7]"
    using example_text_request_ok by blast
  have "0 < (2::nat)" by simp
  from hashes_of_run[OF this r0(1)[unfolded example_text_request_def], of "[[8], [9, 10]]"] r0
  show ?thesis by auto
qed

section \<open>Collisions\<close>

lemma chain_take: "take k (chain H n prev bs) = chain H n prev (take k bs)"
  by (induction H n prev bs arbitrary: k rule: chain.induct)
    (auto simp: Let_def take_Cons split: nat.split)

lemma chain_nth_last:
  assumes "i < length bs"
  shows "chain H n prev bs ! i = last (chain H n prev (take (Suc i) bs))"
proof -
  have "chain H n prev (take (Suc i) bs) = take (Suc i) (chain H n prev bs)" by (simp add: chain_take)
  then show ?thesis using assms by (simp add: take_Suc_conv_app_nth)
qed

lemma chain_inputs_append:
  "chain_inputs H n prev (bs @ cs) = chain_inputs H n prev bs @
     chain_inputs H n (if bs = [] then prev else Some (last (chain H n prev bs))) cs"
proof (induction H n prev bs rule: chain_inputs.induct)
  case (2 H n prev toks extra bs)
  then show ?case by (cases bs) (auto simp: Let_def)
qed simp

lemma hash_block_tokens_parent:
  "hash_block_tokens H n prev toks extra = H (parent_of n prev) toks extra"
  by (simp add: hash_block_tokens_def parent_of_def)

lemma chain_injective:
  assumes inj: "inj_on (\<lambda>(p, t, e). H p t e)
      (set (chain_inputs H n None bs) \<union> set (chain_inputs H n None cs))"
    and "n \<notin> set (chain H n None bs) \<union> set (chain H n None cs)"
    and "[] \<notin> set (chain H n None bs) \<union> set (chain H n None cs)"
    and "bs \<noteq> []" "cs \<noteq> []" and "last (chain H n None bs) = last (chain H n None cs)"
  shows "bs = cs"
  using assms
proof (induction bs arbitrary: cs rule: rev_induct)
  case (snoc b bs)
  obtain ds d where cs: "cs = ds @ [d]" using snoc.prems(5) by (metis append_butlast_last_id)
  define prev where "prev xs = (if xs = [] then None else Some (last (chain H n None xs)))" for xs
  obtain bt be dt de where bd: "b = (bt, be)" "d = (dt, de)" by force
  have "H (parent_of n (prev bs)) bt be = H (parent_of n (prev ds)) dt de"
    using snoc.prems(6) by (simp add: cs bd chain_append hash_block_tokens_parent prev_def Let_def)
  moreover have "(parent_of n (prev bs), bt, be) \<in> set (chain_inputs H n None (bs @ [b]))"
    "(parent_of n (prev ds), dt, de) \<in> set (chain_inputs H n None cs)"
    by (simp_all add: cs bd chain_inputs_append prev_def)
  ultimately have eq: "parent_of n (prev bs) = parent_of n (prev ds)" "b = d"
    using inj_onD[OF snoc.prems(1)] by (auto simp: bd)
  have mem: "last (chain H n None xs) \<in> set (chain H n None (xs @ ys))" if "xs \<noteq> []" for xs ys
  proof -
    have "chain H n None xs \<noteq> []" using that by (metis length_0_conv length_chain)
    then show ?thesis by (simp add: chain_append)
  qed
  show ?case
  proof (cases "bs = [] \<or> ds = []")
    case True
    then have "bs = [] \<and> ds = []"
      using eq(1) mem[of bs "[b]"] mem[of ds "[d]"] snoc.prems(2,3)
      by (auto simp: prev_def parent_of_def cs split: if_splits)
    with eq show ?thesis by (simp add: cs)
  next
    case False
    then have "last (chain H n None bs) = last (chain H n None ds)"
      using eq(1) mem[of bs "[b]"] mem[of ds "[d]"] snoc.prems(2,3)
      by (auto simp: prev_def parent_of_def cs split: if_splits)
    moreover have "inj_on (\<lambda>(p, t, e). H p t e)
        (set (chain_inputs H n None bs) \<union> set (chain_inputs H n None ds))"
      by (rule inj_on_subset[OF snoc.prems(1)]) (auto simp: cs chain_inputs_append)
    ultimately have "bs = ds"
      using snoc.IH[of ds] snoc.prems(2,3) False by (auto simp: cs chain_append)
    with eq show ?thesis by (simp add: cs)
  qed
qed simp

lemma take_blocks:
  "take (k * m) xs = concat (map (\<lambda>j. slice (j * m) (j * m + m) xs) [0..<k])"
proof (induction k)
  case (Suc k)
  have "take (Suc k * m) xs = take (k * m) xs @ take m (drop (k * m) xs)"
    using take_add[of "k * m" m xs] by (simp add: add.commute)
  with Suc show ?case by (simp add: slice_def)
qed simp

text \<open>C23. A block hash identifies the whole prefix.  As long as the hash function does not collide
  on the blocks of the two requests and never yields the seed or an empty hash, two text requests
  that share a block hash, at whatever positions, have it at the same position, agree on every
  token up to the end of that block and on the extra keys of every block: a prefix-cache hit is
  never a hit on a different prefix.\<close>

theorem prefix_hash_unique:
  assumes "0 < hbs" and "hashes_current H n sha hbs r1" and "hashes_current H n sha hbs r2"
    and inj: "inj_on (\<lambda>(p, t, e). H p t e) (set (chain_inputs H n None (full_blocks sha hbs r1)) \<union>
      set (chain_inputs H n None (full_blocks sha hbs r2)))"
    and seed: "n \<notin> set (block_hashes r1) \<union> set (block_hashes r2)"
    and nonempty: "[] \<notin> set (block_hashes r1) \<union> set (block_hashes r2)"
    and i: "i < length (block_hashes r1)" and j: "j < length (block_hashes r2)"
    and hit: "block_hashes r1 ! i = block_hashes r2 ! j"
  shows "i = j \<and> take (Suc i * hbs) (all_token_ids r1) = take (Suc i * hbs) (all_token_ids r2) \<and>
    (\<forall>k \<le> i. plain_extra sha r1 (k * hbs) (k * hbs + hbs) = plain_extra sha r2 (k * hbs) (k * hbs + hbs))"
proof -
  let ?f1 = "full_blocks sha hbs r1" and ?f2 = "full_blocks sha hbs r2"
  have B: "block_hashes r1 = chain H n None ?f1" "block_hashes r2 = chain H n None ?f2"
    using assms(2,3) by (simp_all add: hashes_current_def)
  then have L: "i < length ?f1" "j < length ?f2" using i j by simp_all
  have sub: "set (chain_inputs H n None (take k bs)) \<subseteq> set (chain_inputs H n None bs)"
    "set (chain H n None (take k bs)) \<subseteq> set (chain H n None bs)" for k bs
    using chain_inputs_append[of H n None "take k bs" "drop k bs"]
      chain_append[of H n None "take k bs" "drop k bs"] by auto
  have T: "take (Suc i) ?f1 = take (Suc j) ?f2"
  proof (rule chain_injective)
    show "inj_on (\<lambda>(p, t, e). H p t e) (set (chain_inputs H n None (take (Suc i) ?f1)) \<union>
        set (chain_inputs H n None (take (Suc j) ?f2)))"
      by (rule inj_on_subset[OF inj]) (use sub(1) in blast)
    show "n \<notin> set (chain H n None (take (Suc i) ?f1)) \<union> set (chain H n None (take (Suc j) ?f2))"
      "[] \<notin> set (chain H n None (take (Suc i) ?f1)) \<union> set (chain H n None (take (Suc j) ?f2))"
      using seed nonempty sub(2) by (auto simp: B)
    show "take (Suc i) ?f1 \<noteq> []" "take (Suc j) ?f2 \<noteq> []" using L by auto
    show "last (chain H n None (take (Suc i) ?f1)) = last (chain H n None (take (Suc j) ?f2))"
      using hit L by (simp add: B chain_nth_last)
  qed
  have ij: "i = j" using arg_cong[OF T, of length] L by (simp add: min_def split: if_splits)
  have P: "plain_block sha r1 hbs k = plain_block sha r2 hbs k" if "k \<le> i" for k
  proof -
    have "take (Suc i) ?f1 ! k = take (Suc i) ?f2 ! k" using T ij by simp
    with that L ij show ?thesis by (simp add: full_blocks_def)
  qed
  then have "take (Suc i * hbs) (all_token_ids r1) = take (Suc i * hbs) (all_token_ids r2)"
    unfolding take_blocks
    by (intro arg_cong[of _ _ concat] map_cong) (auto simp: plain_block_def)
  with ij P show ?thesis by (simp add: plain_block_def)
qed

lemma prefix_hash_unique_witness:
  "\<exists>r1 r2. example_text_request [5, 6, 7] = Some (Inr r1) \<and> example_text_request [5, 6, 8] = Some (Inr r2) \<and>
     block_hashes r1 ! 0 = block_hashes r2 ! 0 \<and> take 2 (all_token_ids r1) = take 2 (all_token_ids r2)"
proof -
  obtain r1 where r1: "example_text_request [5, 6, 7] = Some (Inr r1)" "block_hashes r1 = [[5, 6, 255]]"
    "full_blocks id 2 r1 = [([5, 6], Some [KStr ''salt''])]"
    using example_text_request_ok by blast
  obtain r2 where r2: "example_text_request [5, 6, 8] = Some (Inr r2)" "block_hashes r2 = [[5, 6, 255]]"
    "full_blocks id 2 r2 = [([5, 6], Some [KStr ''salt''])]"
    using example_text_request_ok by blast
  have two: "0 < (2::nat)" by simp
  have c: "hashes_current toy_hash [255] id 2 r1" "hashes_current toy_hash [255] id 2 r2"
    using request_init_hashes_current[OF two] r1(1) r2(1) by (auto simp: example_text_request_def)
  have "0 = (0::nat) \<and> take (Suc 0 * 2) (all_token_ids r1) = take (Suc 0 * 2) (all_token_ids r2) \<and>
    (\<forall>k \<le> 0. plain_extra id r1 (k * 2) (k * 2 + 2) = plain_extra id r2 (k * 2) (k * 2 + 2))"
    by (rule prefix_hash_unique[OF two c]) (simp_all add: r1 r2)
  with r1 r2 show ?thesis by auto
qed

text \<open>C28. The extra keys carry no tags, so the key of a request served by a LoRA adapter named
  \<open>x\<close> and the key of a base-model request salted with the string \<open>x\<close> coincide on the first
  block: with the same tokens the two requests get the same first block hash, whatever the hash
  function, and so share a cached block whose contents the adapter computed.\<close>

theorem lora_salt_same_key:
  fixes r :: request and c :: char and cs :: string
  defines "a \<equiv> r\<lparr>mm_features := [], lora := Some \<lparr>lora_name = c # cs, lora_int_id = 1\<rparr>,
      cache_salt := None, prompt_embeds := None\<rparr>"
    and "b \<equiv> r\<lparr>mm_features := [], lora := None, cache_salt := Some (c # cs), prompt_embeds := None\<rparr>"
  shows "generate_block_hash_extra_keys sha a 0 e 0 = Inr (Some [KStr (c # cs)], 0, a) \<and>
    generate_block_hash_extra_keys sha b 0 e 0 = Inr (Some [KStr (c # cs)], 0, b) \<and>
    hash_block_tokens H n None (slice 0 e (all_token_ids a)) (plain_extra sha a 0 e) =
      hash_block_tokens H n None (slice 0 e (all_token_ids b)) (plain_extra sha b 0 e)"
  by (simp add: a_def b_def generate_block_hash_extra_keys_def gen_mm_extra_hash_keys_def
      gen_lora_extra_hash_keys_def gen_prompt_embeds_extra_hash_keys_def plain_extra_def)

text \<open>Resuming at the last multimodal input: whatever inputs come before it, the hasher reads the
  same keys.  \<open>same_place\<close> relates two indices that stand at or behind the last input.\<close>

definition same_place :: "nat \<Rightarrow> nat \<Rightarrow> int \<Rightarrow> int \<Rightarrow> bool" where
  "same_place n n' idx idx' \<longleftrightarrow>
     idx = -1 \<and> idx' = -1 \<or> (\<exists>d. idx = int (n + d) \<and> idx' = int (n' + d))"

lemma mm_keys_last:
  assumes "mm_features r = fs @ [f]" "mm_features r' = fs' @ [f]" "same_place (length fs) (length fs') idx idx'"
  shows "(\<exists>e. gen_mm_extra_hash_keys r s t idx = Inl e \<and> gen_mm_extra_hash_keys r' s t idx' = Inl e) \<or>
    (\<exists>ks j j'. gen_mm_extra_hash_keys r s t idx = Inr (ks, j) \<and> gen_mm_extra_hash_keys r' s t idx' = Inr (ks, j') \<and>
       same_place (length fs) (length fs') j j')"
proof (cases "mm_offset f + mm_length f \<le> s")
  case True
  with assms show ?thesis by (simp add: gen_mm_extra_hash_keys_def)
next
  case False
  define i where "i = nat (if idx < 0 then int (length (fs @ [f])) + idx else idx)"
  define i' where "i' = nat (if idx' < 0 then int (length (fs' @ [f])) + idx' else idx')"
  obtain d where d: "i = length fs + d" "i' = length fs' + d"
    using assms(3) unfolding same_place_def
  proof (elim disjE conjE exE)
    assume "idx = -1" "idx' = -1"
    then show ?thesis by (intro that[of 0]) (simp_all add: i_def i'_def)
  next
    fix d assume "idx = int (length fs + d)" "idx' = int (length fs' + d)"
    then show ?thesis by (intro that[of d]) (simp_all add: i_def i'_def)
  qed
  have low: "idx < 0 \<longrightarrow> - idx \<le> int (length (fs @ [f]))" "idx' < 0 \<longrightarrow> - idx' \<le> int (length (fs' @ [f]))"
    using assms(3) by (auto simp: same_place_def)
  have run: "gen_mm_extra_hash_keys r s t idx =
      bind_res (mm_loop (drop d [f]) (length fs + d) s t) (\<lambda>(ks, j). Inr (ks, int j))"
    unfolding gen_mm_extra_hash_keys_def Let_def assms(1) i_def[symmetric] check_res_def if_P[OF low(1)]
    using False by (simp add: d(1))
  have run': "gen_mm_extra_hash_keys r' s t idx' =
      bind_res (mm_loop (drop d [f]) (length fs' + d) s t) (\<lambda>(ks, j). Inr (ks, int j))"
    unfolding gen_mm_extra_hash_keys_def Let_def assms(2) i'_def[symmetric] check_res_def if_P[OF low(2)]
    using False by (simp add: d(2))
  show ?thesis
  proof (cases d)
    case 0
    have "same_place (length fs) (length fs') (int (length fs)) (int (length fs'))"
      unfolding same_place_def by (intro disjI2 exI[of _ 0]) simp
    moreover have "same_place (length fs) (length fs') (1 + int (length fs)) (1 + int (length fs'))"
      unfolding same_place_def by (intro disjI2 exI[of _ 1]) simp
    ultimately show ?thesis unfolding run run' using False 0 by (auto simp: Let_def split: option.splits)
  next
    case (Suc k)
    have "same_place (length fs) (length fs') (int (length fs + d)) (int (length fs' + d))"
      unfolding same_place_def by (intro disjI2 exI[of _ d]) simp
    then show ?thesis unfolding run run' by (simp add: Suc)
  qed
qed

definition same_but_features :: "request \<Rightarrow> request \<Rightarrow> bool" where
  "same_but_features r r' \<longleftrightarrow> (\<exists>fs. r' = r\<lparr>mm_features := fs\<rparr>)"

lemma gen_embeds_features:
  "\<exists>ks m. gen_prompt_embeds_extra_hash_keys sha r s e = (ks, r\<lparr>embeds_block_hashes := m\<rparr>) \<and>
     gen_prompt_embeds_extra_hash_keys sha (r\<lparr>mm_features := fs\<rparr>) s e =
       (ks, (r\<lparr>embeds_block_hashes := m\<rparr>)\<lparr>mm_features := fs\<rparr>)"
proof (cases "prompt_embeds r")
  case None
  then show ?thesis
    by (intro exI[of _ "[]"] exI[of _ "embeds_block_hashes r"]) (simp add: gen_prompt_embeds_extra_hash_keys_def)
next
  case (Some rows)
  let ?h = "sha (concat (slice s e rows))"
  show ?thesis
  proof (cases "od_get (embeds_block_hashes r) (s, e)")
    case None
    with Some show ?thesis
      by (intro exI[of _ "[KBytes ?h]"] exI[of _ "od_set (s, e) ?h (embeds_block_hashes r)"])
        (simp add: gen_prompt_embeds_extra_hash_keys_def Let_def)
  next
    case (Some h)
    with \<open>prompt_embeds r = Some rows\<close> show ?thesis
      by (intro exI[of _ "[KBytes h]"] exI[of _ "embeds_block_hashes r"])
        (simp add: gen_prompt_embeds_extra_hash_keys_def)
  qed
qed

lemma embeds_same_but_features:
  assumes "same_but_features r r'"
  shows "\<exists>ks q q'. gen_prompt_embeds_extra_hash_keys sha r s e = (ks, q) \<and>
     gen_prompt_embeds_extra_hash_keys sha r' s e = (ks, q') \<and>
     same_but_features q q' \<and> mm_features q = mm_features r \<and> mm_features q' = mm_features r'"
proof -
  obtain fs where r': "r' = r\<lparr>mm_features := fs\<rparr>" using assms unfolding same_but_features_def by blast
  obtain ks m where g: "gen_prompt_embeds_extra_hash_keys sha r s e = (ks, r\<lparr>embeds_block_hashes := m\<rparr>)"
    "gen_prompt_embeds_extra_hash_keys sha r' s e = (ks, (r\<lparr>embeds_block_hashes := m\<rparr>)\<lparr>mm_features := fs\<rparr>)"
    using gen_embeds_features[of sha r s e fs] unfolding r' by blast
  have "same_but_features (r\<lparr>embeds_block_hashes := m\<rparr>) ((r\<lparr>embeds_block_hashes := m\<rparr>)\<lparr>mm_features := fs\<rparr>)"
    unfolding same_but_features_def by blast
  with g show ?thesis
    by (intro exI[of _ ks] exI[of _ "r\<lparr>embeds_block_hashes := m\<rparr>"]
        exI[of _ "(r\<lparr>embeds_block_hashes := m\<rparr>)\<lparr>mm_features := fs\<rparr>"] conjI) (simp_all add: r')
qed

lemma same_but_features_frame:
  assumes "same_but_features r r'"
  shows "lora r' = lora r \<and> cache_salt r' = cache_salt r \<and> all_token_ids r' = all_token_ids r \<and>
    block_hashes r' = block_hashes r"
proof -
  obtain fs where "r' = r\<lparr>mm_features := fs\<rparr>" using assms unfolding same_but_features_def by blast
  then show ?thesis by simp
qed

lemma generate_same_but_features:
  assumes "mm_features r = fs @ [f]" "mm_features r' = fs' @ [f]" "same_place (length fs) (length fs') idx idx'"
    "same_but_features r r'"
  shows "(\<exists>e. generate_block_hash_extra_keys sha r s t idx = Inl e \<and>
      generate_block_hash_extra_keys sha r' s t idx' = Inl e) \<or>
    (\<exists>ks j j' q q'. generate_block_hash_extra_keys sha r s t idx = Inr (ks, j, q) \<and>
      generate_block_hash_extra_keys sha r' s t idx' = Inr (ks, j', q') \<and>
      same_place (length fs) (length fs') j j' \<and> same_but_features q q' \<and>
      mm_features q = fs @ [f] \<and> mm_features q' = fs' @ [f])"
proof -
  have same: "lora r' = lora r" "cache_salt r' = cache_salt r"
    using same_but_features_frame[OF assms(4)] by simp_all
  obtain ks q q' where e: "gen_prompt_embeds_extra_hash_keys sha r s t = (ks, q)"
    "gen_prompt_embeds_extra_hash_keys sha r' s t = (ks, q')" "same_but_features q q'"
    "mm_features q = fs @ [f]" "mm_features q' = fs' @ [f]"
    using embeds_same_but_features[OF assms(4), of sha s t] assms(1,2) by auto
  from mm_keys_last[OF assms(1-3), of s t] show ?thesis
    by (elim disjE exE conjE)
      (simp_all add: generate_block_hash_extra_keys_def e same gen_lora_extra_hash_keys_def Let_def)
qed

lemma hasher_loop_last_input:
  assumes "0 < hbs" "mm_features r = fs @ [f]" "mm_features r' = fs' @ [f]"
    "same_place (length fs) (length fs') idx idx'" "same_but_features r r'"
  shows "\<exists>out out'. hasher_loop H n sha hbs N s idx prev r = Some out \<and>
    hasher_loop H n sha hbs N s idx' prev r' = Some out' \<and>
    ((\<exists>e. out = Inl e \<and> out' = Inl e) \<or>
     (\<exists>hs q q'. out = Inr (hs, q) \<and> out' = Inr (hs, q') \<and> same_but_features q q'))"
  using assms
proof (induction "N - s" arbitrary: s idx idx' prev r r' rule: less_induct)
  case less
  show ?case
  proof (cases "N < s + hbs")
    case True
    with less.prems(5) show ?thesis by (simp add: hasher_loop.simps)
  next
    case False
    note unf = hasher_loop.simps[of H n sha hbs N s]
    have tok: "all_token_ids q' = all_token_ids q" if "same_but_features q q'" for q q'
      using same_but_features_frame[OF that] by simp
    from generate_same_but_features[OF less.prems(2-5), of sha s "s + hbs"] show ?thesis
    proof (elim disjE exE conjE)
      fix e assume "generate_block_hash_extra_keys sha r s (s + hbs) idx = Inl e"
        "generate_block_hash_extra_keys sha r' s (s + hbs) idx' = Inl e"
      then show ?thesis using False by (simp add: unf)
    next
      fix ks j j' q q'
      assume g: "generate_block_hash_extra_keys sha r s (s + hbs) idx = Inr (ks, j, q)"
        "generate_block_hash_extra_keys sha r' s (s + hbs) idx' = Inr (ks, j', q')"
        and rel: "same_place (length fs) (length fs') j j'" "same_but_features q q'"
        "mm_features q = fs @ [f]" "mm_features q' = fs' @ [f]"
      define h where "h = hash_block_tokens H n prev (slice s (s + hbs) (all_token_ids q)) ks"
      have "N - (s + hbs) < N - s" using False less.prems(1) by linarith
      from less.hyps[OF this less.prems(1) rel(3,4,1,2), of "Some h"] obtain out out' where
        o: "hasher_loop H n sha hbs N (s + hbs) j (Some h) q = Some out"
        "hasher_loop H n sha hbs N (s + hbs) j' (Some h) q' = Some out'"
        and rest: "(\<exists>e. out = Inl e \<and> out' = Inl e) \<or>
          (\<exists>hs p p'. out = Inr (hs, p) \<and> out' = Inr (hs, p') \<and> same_but_features p p')" by blast
      have "hasher_loop H n sha hbs N s idx prev r = Some (bind_res out (\<lambda>(hs, p). Inr (h # hs, p)))"
        "hasher_loop H n sha hbs N s idx' prev r' = Some (bind_res out' (\<lambda>(hs, p). Inr (h # hs, p)))"
        using False g o by (simp_all add: unf h_def[symmetric] tok[OF rel(2)] Let_def)
      with rest show ?thesis by fastforce
    qed
  qed
qed

lemma append_last_input:
  assumes "0 < hbs" "block_hashes r \<noteq> []" "mm_features r = fs @ [f]"
  shows "\<exists>out out'. append_output_token_ids (Some (request_block_hasher H n sha hbs)) toks r = Some out \<and>
    append_output_token_ids (Some (request_block_hasher H n sha hbs)) toks (r\<lparr>mm_features := fs' @ [f]\<rparr>) = Some out' \<and>
    map_sum id block_hashes out = map_sum id block_hashes out'"
proof -
  define a where "a = r\<lparr>output_token_ids := output_token_ids r @ toks, all_token_ids := all_token_ids r @ toks\<rparr>"
  define a' where "a' = a\<lparr>mm_features := fs' @ [f]\<rparr>"
  have aa': "(r\<lparr>mm_features := fs' @ [f]\<rparr>)\<lparr>output_token_ids := output_token_ids r @ toks,
      all_token_ids := all_token_ids r @ toks\<rparr> = a'" by (simp add: a_def a'_def)
  have same: "same_but_features a a'" unfolding same_but_features_def a'_def by blast
  have f: "mm_features a = fs @ [f]" "mm_features a' = fs' @ [f]" "block_hashes a = block_hashes r"
    "block_hashes a' = block_hashes r" "request_num_tokens a' = request_num_tokens a"
    using assms(3) by (simp_all add: a_def a'_def request_num_tokens_def)
  have pos: "0 < length (block_hashes r) * hbs" using assms(1,2) by simp
  have place: "same_place (length fs) (length fs') (-1) (-1)" by (simp add: same_place_def)
  from hasher_loop_last_input[OF assms(1) f(1,2) place same, of H n sha "request_num_tokens a"
      "length (block_hashes r) * hbs" "Some (last (block_hashes r))"]
  obtain out out' where o: "hasher_loop H n sha hbs (request_num_tokens a) (length (block_hashes r) * hbs) (-1)
        (Some (last (block_hashes r))) a = Some out"
      "hasher_loop H n sha hbs (request_num_tokens a) (length (block_hashes r) * hbs) (-1)
        (Some (last (block_hashes r))) a' = Some out'"
      "(\<exists>e. out = Inl e \<and> out' = Inl e) \<or>
       (\<exists>hs q q'. out = Inr (hs, q) \<and> out' = Inr (hs, q') \<and> same_but_features q q')" by blast
  have bh: "block_hashes q' = block_hashes q" if "same_but_features q q'" for q q'
    using same_but_features_frame[OF that] by simp
  show ?thesis
    using o pos assms(2) bh
    by (auto simp: append_output_token_ids_def update_block_hashes_def request_block_hasher_def f
        a_def[symmetric] aa' Let_def)
qed

text \<open>A prompt of six tokens whose last two are one-token images, hashed in blocks of four.\<close>

definition two_image_request ::
  "block_hash_fn \<Rightarrow> bytes \<Rightarrow> string \<Rightarrow> string \<Rightarrow> request res option" where
  "two_image_request H n a b = request_init ''r'' 1 (Some [1, 1, 1, 1, 7, 7]) None
     (Some \<lparr>pp_skip_reading = None\<rparr>) 0 None
     [\<lparr>mm_identifier = Some a, mm_offset = 4, mm_length = 1, mm_is_embed = None\<rparr>,
      \<lparr>mm_identifier = Some b, mm_offset = 5, mm_length = 1, mm_is_embed = None\<rparr>]
     None None 0 (Some (request_block_hasher H n id 4)) False"

text \<open>C27. When a block is completed by generated tokens the hasher resumes at the \emph{last}
  multimodal input.  So for a request that already has a block hash, the hash list after appending
  tokens does not depend on any input but the last: replacing all the earlier ones, even by a
  different number of them, gives the same list (or the same error), for every hash function and
  every request, also when an earlier input lies in the very block being completed.  Hashing always
  ends.  In the concrete run two requests that differ in the first of two images of the last prompt
  block end with identical hash lists, while hashing that block in one go includes both images.\<close>

theorem earlier_image_dropped:
  assumes "0 < hbs" "block_hashes r \<noteq> []" "mm_features r = fs @ [f]"
  shows "\<exists>out out'. append_output_token_ids (Some (request_block_hasher H n sha hbs)) toks r = Some out \<and>
    append_output_token_ids (Some (request_block_hasher H n sha hbs)) toks (r\<lparr>mm_features := fs' @ [f]\<rparr>) = Some out' \<and>
    map_sum id block_hashes out = map_sum id block_hashes out'"
  by (rule append_last_input[OF assms])

lemma earlier_image_dropped_witness:
  "\<exists>r1 r2 s1 s2. two_image_request toy_hash [255] ''a'' ''c'' = Some (Inr r1) \<and>
     two_image_request toy_hash [255] ''b'' ''c'' = Some (Inr r2) \<and>
     append_output_token_ids (Some (request_block_hasher toy_hash [255] id 4)) [2, 3] r1 = Some (Inr s1) \<and>
     append_output_token_ids (Some (request_block_hasher toy_hash [255] id 4)) [2, 3] r2 = Some (Inr s2) \<and>
     length (block_hashes s1) = 2 \<and> block_hashes s1 = block_hashes s2 \<and>
     gen_mm_extra_hash_keys s1 4 8 0 = Inr ([KMm ''a'' 0, KMm ''c'' 1], 2) \<and>
     gen_mm_extra_hash_keys s2 4 8 0 = Inr ([KMm ''b'' 0, KMm ''c'' 1], 2)"
proof -
  let ?f = "\<lparr>mm_identifier = Some ''c'', mm_offset = 5, mm_length = 1, mm_is_embed = None\<rparr>"
  let ?g = "\<lambda>a. \<lparr>mm_identifier = Some a, mm_offset = 4, mm_length = 1, mm_is_embed = None\<rparr>"
  note unf = two_image_request_def request_init_def read_params_def update_block_hashes_def
    append_output_token_ids_def length_from_prompt_token_ids_or_embeds_def request_block_hasher_def
    request_num_tokens_def hasher_loop.simps generate_block_hash_extra_keys_def
    gen_mm_extra_hash_keys_def gen_lora_extra_hash_keys_def gen_prompt_embeds_extra_hash_keys_def
    hash_block_tokens_def slice_def Let_def
  have "\<exists>r s. two_image_request toy_hash [255] a ''c'' = Some (Inr r) \<and>
      mm_features r = [?g a] @ [?f] \<and> block_hashes r \<noteq> [] \<and>
      append_output_token_ids (Some (request_block_hasher toy_hash [255] id 4)) [2, 3] r = Some (Inr s) \<and>
      length (block_hashes s) = 2 \<and>
      gen_mm_extra_hash_keys s 4 8 0 = Inr ([KMm a 0, KMm ''c'' 1], 2) \<and>
      two_image_request toy_hash [255] ''b'' ''c'' = Some (Inr (r\<lparr>mm_features := [?g ''b''] @ [?f]\<rparr>))" for a
    by (simp add: unf)
  then obtain r1 s1 where r1: "two_image_request toy_hash [255] ''a'' ''c'' = Some (Inr r1)"
    "mm_features r1 = [?g ''a''] @ [?f]" "block_hashes r1 \<noteq> []"
    "append_output_token_ids (Some (request_block_hasher toy_hash [255] id 4)) [2, 3] r1 = Some (Inr s1)"
    "length (block_hashes s1) = 2" "gen_mm_extra_hash_keys s1 4 8 0 = Inr ([KMm ''a'' 0, KMm ''c'' 1], 2)"
    "two_image_request toy_hash [255] ''b'' ''c'' = Some (Inr (r1\<lparr>mm_features := [?g ''b''] @ [?f]\<rparr>))" by blast
  have four: "0 < (4::nat)" by simp
  from earlier_image_dropped[OF four r1(3,2), of toy_hash "[255]" id "[2, 3]" "[?g ''b'']"] r1(4)
  obtain out where out: "append_output_token_ids (Some (request_block_hasher toy_hash [255] id 4)) [2, 3]
      (r1\<lparr>mm_features := [?g ''b''] @ [?f]\<rparr>) = Some out" "map_sum id block_hashes (Inr s1) = map_sum id block_hashes out"
    by auto
  then obtain s2 where "out = Inr s2" "block_hashes s1 = block_hashes s2" by (cases out) auto
  with out(1) have s2: "append_output_token_ids (Some (request_block_hasher toy_hash [255] id 4)) [2, 3]
      (r1\<lparr>mm_features := [?g ''b''] @ [?f]\<rparr>) = Some (Inr s2)" "block_hashes s1 = block_hashes s2" by simp_all
  have "gen_mm_extra_hash_keys s2 4 8 0 = Inr ([KMm ''b'' 0, KMm ''c'' 1], 2)"
  proof -
    obtain r s where "two_image_request toy_hash [255] ''b'' ''c'' = Some (Inr r)"
      "append_output_token_ids (Some (request_block_hasher toy_hash [255] id 4)) [2, 3] r = Some (Inr s)"
      "gen_mm_extra_hash_keys s 4 8 0 = Inr ([KMm ''b'' 0, KMm ''c'' 1], 2)"
      by (simp add: unf)
    with r1(7) s2(1) show ?thesis by simp
  qed
  with r1 s2 show ?thesis by blast
qed

section \<open>Group keys, block sizes and views\<close>

text \<open>A key packs a block hash and a group id without loss, and packing fails, with an
  \<open>OverflowError\<close>, exactly for ids outside four unsigned bytes.\<close>

theorem group_key_roundtrip:
  "(case make_block_hash_with_group_id h g of
      Inr key \<Rightarrow> 0 \<le> g \<and> g < 2 ^ 32 \<and> get_block_hash key = h \<and> get_group_id key = g
    | Inl e \<Rightarrow> (g < 0 \<or> 2 ^ 32 \<le> g) \<and> (\<exists>msg. e = OverflowError msg))"
  using make_block_hash_unpack[of h g] make_block_hash_ok[of h g]
  by (auto simp: make_block_hash_with_group_id_def to_bytes_be4_def split: sum.splits)

lemma make_block_hash_inj:
  assumes "make_block_hash_with_group_id h g = Inr key" "make_block_hash_with_group_id h' g' = Inr key"
  shows "h = h' \<and> g = g'"
  using make_block_hash_unpack[OF assms(1)] make_block_hash_unpack[OF assms(2)] by simp

text \<open>The resolved sizes fit together: every group's block size divides the scheduler block
  size, and so does the hash block size; whenever a finer hash block size is returned it divides
  every group's block size, so that group hashes can be read off the fine ones.\<close>

theorem resolved_sizes_divide:
  assumes "resolve_kv_cache_block_sizes cfg gs = Inr (sched, h)" and "2 \<le> length gs"
  shows "(\<forall>b \<in> set (group_block_sizes cfg gs). b dvd sched) \<and> h dvd sched \<and>
    (h = sched \<or> (\<forall>b \<in> set (group_block_sizes cfg gs). h dvd b))"
proof -
  let ?S = "set (group_block_sizes cfg gs)"
  have s: "sched = Lcm ?S" and h: "h = sched \<or> (\<forall>b \<in> ?S. b mod h = 0)"
    using assms by (auto simp: resolve_kv_cache_block_sizes_def Let_def split: if_splits)
  have d: "\<forall>b \<in> ?S. b dvd sched" by (simp add: s dvd_Lcm)
  obtain b where "b \<in> ?S"
    using assms(2) by (cases gs) (auto simp: group_block_sizes_def)
  with h d show ?thesis by (meson dvd_eq_mod_eq_0 dvd_refl dvd_trans)
qed

definition example_groups :: "kv_group list" where
  "example_groups = [\<lparr>spec_kind = Attention_Spec, spec_block_size = 16\<rparr>,
     \<lparr>spec_kind = Attention_Spec, spec_block_size = 24\<rparr>]"

definition example_settings :: cache_settings where
  "example_settings = \<lparr>cfg_block_size = 16, cfg_dcp = 1, cfg_prefix_caching = True,
     cfg_connector = False, cfg_prefix_match_unit = None\<rparr>"

lemma resolved_sizes_divide_witness:
  "resolve_kv_cache_block_sizes example_settings example_groups = Inr (48, 8) \<and>
   group_block_sizes example_settings example_groups = [16, 24] \<and> (16::nat) dvd 48 \<and> (24::nat) dvd 48 \<and>
   (8::nat) dvd 24"
proof -
  have g: "gcd 16 (24::nat) = 8" by (simp add: gcd_non_0_nat)
  have "lcm 16 (24::nat) = 48" by (simp add: lcm_nat_def g)
  moreover have sizes: "group_block_sizes example_settings example_groups = [16, 24]"
    by (simp add: group_block_sizes_def example_settings_def example_groups_def)
  ultimately have "resolve_kv_cache_block_sizes example_settings example_groups = Inr (48, 8)"
    using g by (simp add: resolve_kv_cache_block_sizes_def example_settings_def example_groups_def Let_def)
  with resolved_sizes_divide[OF this] sizes show ?thesis by (simp add: example_groups_def)
qed

text \<open>C26. The coarse view of a current hash list at a multiple of the hash block size: its \<open>i\<close>-th
  entry exists for exactly the full coarse blocks and is the chained hash of all tokens up to the
  end of coarse block \<open>i\<close>.\<close>

theorem coarse_view_hash:
  assumes "hashes_current H n sha hbs r" and "0 < hbs" and "1 < c"
  shows "\<exists>l. resolve_block_hashes (Raw (block_hashes r)) hbs (c * hbs) False None = Inr l \<and>
    hl_len l = Inr (request_num_tokens r div (c * hbs)) \<and>
    (\<forall>i < request_num_tokens r div (c * hbs).
      hl_get l i = Inr (last (chain H n None (take (Suc i * c) (full_blocks sha hbs r)))))"
proof -
  let ?f = "full_blocks sha hbs r"
  have B: "block_hashes r = chain H n None ?f" using assms(1) by (simp add: hashes_current_def)
  have len: "length ?f = request_num_tokens r div hbs" by (simp add: full_blocks_def)
  have N: "request_num_tokens r div (c * hbs) = length ?f div c"
    by (simp add: len div_mult2_eq[symmetric] mult.commute)
  have res: "resolve_block_hashes (Raw (block_hashes r)) hbs (c * hbs) False None =
      Inr (View (block_hashes r) c)"
    using assms(2,3) by (simp add: resolve_block_hashes_def block_hash_view_def)
  have "hl_get (View (block_hashes r) c) i = Inr (last (chain H n None (take (Suc i * c) ?f)))"
    if i: "i < length ?f div c" for i
  proof -
    have "Suc i * c \<le> length ?f"
      using i assms(3) less_eq_div_iff_mult_less_eq[of c "Suc i" "length ?f"] by simp
    moreover have "0 < Suc i * c" using assms(3) by simp
    ultimately have lt: "Suc i * c - 1 < length ?f" and eq: "Suc (Suc i * c - 1) = Suc i * c" by linarith+
    show ?thesis
      using chain_nth_last[OF lt, of H n None] lt assms(3)
      by (simp add: hl_get_def B eq del: mult_Suc)
  qed
  then show ?thesis
    using res assms(3) by (intro exI[of _ "View (block_hashes r) c"]) (simp add: N hl_len_def B)
qed

lemma coarse_view_hash_witness:
  "\<exists>r l. hashes_current toy_hash [255] id 2 r \<and> all_token_ids r = [5, 6, 7, 8] \<and>
     resolve_block_hashes (Raw (block_hashes r)) 2 (2 * 2) False None = Inr l \<and> hl_len l = Inr 1 \<and>
     hl_get l 0 = Inr (last (chain toy_hash [255] None (take 2 (full_blocks id 2 r))))"
proof -
  obtain r0 where r0: "example_text_request [5, 6, 7] = Some (Inr r0)" "all_token_ids r0 = [5, 6, 7]"
    using example_text_request_ok by blast
  have two: "0 < (2::nat)" by simp
  have "hashes_current toy_hash [255] id 2 r0"
    using request_init_hashes_current[OF two] r0(1) by (simp add: example_text_request_def)
  from append_hashes_current[OF two this, of "[8]"] r0(2)
  obtain r where r: "hashes_current toy_hash [255] id 2 r" "all_token_ids r = [5, 6, 7, 8]" by auto
  from coarse_view_hash[OF r(1) two, of 2] r show ?thesis
    by (auto simp: request_num_tokens_def numeral_2_eq_2 intro!: exI[of _ r])
qed

end
