(* ===== verification/BlockPool.thy ===== *)
theory BlockPool
  imports BlockHashMap BlockHash
begin

text \<open>
  \<open>BlockPool\<close> of \<^verbatim>\<open>vllm/v1/core/block_pool.py\<close>: allocation, reference
  counting, freeing in eviction order, registration of full and partial blocks in the prefix
  cache, eviction, reset and the event queue.  The pool's record extends the free queue's, whose
  heap holds the block objects.  \<open>pool_inv p xs\<close> is the pool's invariant, \<open>xs\<close> being the
  free list in eviction order.
\<close>

section \<open>State\<close>

datatype kv_event =
    BlockStored "external_hash list" "external_hash option" "int list" nat "int option"
      "string option" "extra_key list option list option" int
  | BlockRemoved external_hash int
  | AllBlocksCleared

text \<open>Calls of the optional metrics collector are recorded in order.\<close>

datatype metric_call = OnAllocated bref | OnEvicted bref | OnAccessed bref | OnReset

record block_pool = free_queue +
  num_gpu_blocks :: nat
  enable_caching :: bool
  hash_block_size :: nat
  cached_block_hash_to_block :: hash_map
  cached_block_hashes_by_block :: "(int, bytes list) odict"
  null_block :: bref
  enable_kv_cache_events :: bool
  use_int_block_hashes :: bool
  kv_event_queue :: "kv_event list"
  has_metrics :: bool
  metrics_log :: "metric_call list"

definition idof :: "'a block_pool_scheme \<Rightarrow> bref \<Rightarrow> int" where
  "idof p b = block_id (heap p b)"

definition upd_block :: "bref \<Rightarrow> (kv_block \<Rightarrow> kv_block) \<Rightarrow> block_pool \<Rightarrow> block_pool" where
  "upd_block b f p = p\<lparr>heap := (heap p)(b := f (heap p b))\<rparr>"

definition log_metric :: "metric_call \<Rightarrow> block_pool \<Rightarrow> block_pool" where
  "log_metric c p = (if has_metrics p then p\<lparr>metrics_log := metrics_log p @ [c]\<rparr> else p)"

definition initial_heap :: heap where
  "initial_heap c = (case c of Blk i \<Rightarrow> new_block (int i) | _ \<Rightarrow> new_block (-1))"

definition pool_init :: "nat \<Rightarrow> bool \<Rightarrow> nat \<Rightarrow> bool \<Rightarrow> bool \<Rightarrow> bool \<Rightarrow> block_pool res" where
  "pool_init n caching hbs events int_hashes metrics =
     bind_res (check_res (0 < n) (AssertionError ''num_gpu_blocks > 0'')) (\<lambda>_.
     bind_res (fq_popleft (fq_init (map Blk [0..<n]) initial_heap)) (\<lambda>(null, q).
       Inr (upd_block null (\<lambda>b. b\<lparr>is_null := True\<rparr>)
         \<lparr>heap = heap q, num_free_blocks = num_free_blocks q, num_gpu_blocks = n,
          enable_caching = caching, hash_block_size = hbs,
          cached_block_hash_to_block = Map.empty, cached_block_hashes_by_block = [],
          null_block = null, enable_kv_cache_events = events,
          use_int_block_hashes = int_hashes, kv_event_queue = [],
          has_metrics = metrics, metrics_log = []\<rparr>)))"

section \<open>Cache metadata\<close>

fun get_cached_block :: "block_pool \<Rightarrow> bytes \<Rightarrow> int list \<Rightarrow> bref list option res" where
  "get_cached_block p h [] = Inr (Some [])"
| "get_cached_block p h (g # gs) =
     bind_res (make_block_hash_with_group_id h g) (\<lambda>key.
     bind_res (hm_get_one_block (cached_block_hash_to_block p) key) (\<lambda>found.
       case found of
         None \<Rightarrow> Inr None
       | Some b \<Rightarrow> bind_res (get_cached_block p h gs) (\<lambda>rest. Inr (map_option ((#) b) rest))))"

fun pop_hashes :: "(bref \<Rightarrow> int) \<Rightarrow> int \<Rightarrow> bytes list \<Rightarrow> hash_map \<Rightarrow> bytes list \<times> hash_map" where
  "pop_hashes idf i [] m = ([], m)"
| "pop_hashes idf i (k # ks) m =
     (case hm_pop idf k i m of (r, m1) \<Rightarrow> case pop_hashes idf i ks m1 of (removed, m2) \<Rightarrow>
       (if r \<noteq> None then k # removed else removed, m2))"

definition secondary_hashes :: "block_pool \<Rightarrow> int \<Rightarrow> bytes list" where
  "secondary_hashes p i =
     (case od_get (cached_block_hashes_by_block p) i of None \<Rightarrow> [] | Some hs \<Rightarrow> hs)"

definition remove_cached_block_hashes :: "bref \<Rightarrow> block_pool \<Rightarrow> bytes list \<times> block_pool" where
  "remove_cached_block_hashes b p =
     (let i = idof p b;
          hs = (case block_hash (heap p b) of Some h \<Rightarrow> [h] | None \<Rightarrow> []) @ secondary_hashes p i;
          p1 = p\<lparr>cached_block_hashes_by_block := od_pop i (cached_block_hashes_by_block p)\<rparr>
      in if hs = [] then ([], p1)
         else case pop_hashes (idof p) i hs (cached_block_hash_to_block p) of
           (removed, m) \<Rightarrow> (removed, upd_block b reset_hash (p1\<lparr>cached_block_hash_to_block := m\<rparr>)))"

definition emit_block_removed_events :: "bytes list \<Rightarrow> block_pool \<Rightarrow> block_pool" where
  "emit_block_removed_events hs p =
     (if \<not> enable_kv_cache_events p then p
      else p\<lparr>kv_event_queue := kv_event_queue p @
        map (\<lambda>h. BlockRemoved (maybe_convert_block_hash (use_int_block_hashes p) (get_block_hash h))
          (get_group_id h)) hs\<rparr>)"

definition insert_block_hash :: "bytes \<Rightarrow> bref \<Rightarrow> int option \<Rightarrow> block_pool \<Rightarrow> block_pool res" where
  "insert_block_hash key b num_tokens p =
     (if block_hash (heap p b) = Some key then Inr p
      else if hm_contain (idof p) (cached_block_hash_to_block p) key (idof p b) then Inr p
      else bind_res
        (if block_hash (heap p b) = None
         then bind_res (set_block_hash key num_tokens (heap p b)) (\<lambda>blk. Inr (upd_block b (\<lambda>_. blk) p))
         else Inr (p\<lparr>cached_block_hashes_by_block := od_set (idof p b)
                (let hs = secondary_hashes p (idof p b) in if key \<in> set hs then hs else hs @ [key])
                (cached_block_hashes_by_block p)\<rparr>))
        (\<lambda>p1. Inr (p1\<lparr>cached_block_hash_to_block :=
                 hm_insert (idof p1) key b (cached_block_hash_to_block p1)\<rparr>)))"

definition move_block_hashes :: "bref \<Rightarrow> bref \<Rightarrow> block_pool \<Rightarrow> block_pool res" where
  "move_block_hashes src dst p =
     bind_res (check_res (block_hash (heap p dst) = None) (AssertionError ''dst_block.block_hash is None'')) (\<lambda>_.
     bind_res (check_res (idof p dst \<notin> set (od_keys (cached_block_hashes_by_block p)))
       (AssertionError ''dst_block.block_id not in self.cached_block_hashes_by_block'')) (\<lambda>_.
       let num_tokens = block_hash_num_tokens (heap p src)
       in case remove_cached_block_hashes src p of
            (hs, p1) \<Rightarrow> fold_res (\<lambda>h. insert_block_hash h dst num_tokens) hs p1))"

section \<open>Registering full and partial blocks\<close>

text \<open>One iteration of the loop of \<open>cache_full_blocks\<close>; \<open>i\<close> counts the new full blocks.\<close>

definition cache_one_full ::
  "bytes list \<Rightarrow> nat \<Rightarrow> nat \<Rightarrow> int \<Rightarrow> bool list option \<Rightarrow> nat \<times> bref \<Rightarrow>
   block_pool \<times> external_hash list \<Rightarrow> (block_pool \<times> external_hash list) res" where
  "cache_one_full new_hashes num_cached bs gid block_mask ib st =
     (case (ib, st) of ((i, b), (p, out)) \<Rightarrow>
        if is_null (heap p b) \<or> (\<exists>m. block_mask = Some m \<and> \<not> m ! i) then Inr (p, out)
        else if \<not> i < length new_hashes then Inl (IndexError ''list index out of range'')
        else
          (let h = new_hashes ! i;
               num_hash_tokens = int ((num_cached + i + 1) * bs)
           in bind_res (make_block_hash_with_group_id h gid) (\<lambda>key.
              bind_res
                (if block_hash (heap p b) \<noteq> None
                 then bind_res (check_res (\<exists>n. block_hash_num_tokens (heap p b) = Some n \<and> n < num_hash_tokens)
                        (AssertionError ''blk.block_hash_num_tokens < num_hash_tokens''))
                      (\<lambda>_. case remove_cached_block_hashes b p of
                         (removed, p1) \<Rightarrow> Inr (emit_block_removed_events removed p1))
                 else Inr p)
              (\<lambda>p1. bind_res (insert_block_hash key b (Some num_hash_tokens) p1)
                 (\<lambda>p2. Inr (p2, if enable_kv_cache_events p
                       then out @ [maybe_convert_block_hash (use_int_block_hashes p) h] else out))))))"

text \<open>The extra keys of the blocks an event reports, in order.\<close>

fun event_extra_keys ::
  "(bytes \<Rightarrow> bytes) \<Rightarrow> nat \<Rightarrow> nat list \<Rightarrow> int \<Rightarrow> request \<Rightarrow> (extra_key list option list \<times> request) res" where
  "event_extra_keys sha bs [] idx r = Inr ([], r)"
| "event_extra_keys sha bs (i # is) idx r =
     bind_res (generate_block_hash_extra_keys sha r (i * bs) (i * bs + bs) idx) (\<lambda>(k, idx', r').
     bind_res (event_extra_keys sha bs is idx' r') (\<lambda>(ks, r''). Inr (k # ks, r'')))"

definition build_block_stored_event ::
  "request \<Rightarrow> external_hash list \<Rightarrow> external_hash option \<Rightarrow> nat \<Rightarrow> nat \<Rightarrow> nat \<Rightarrow> int \<Rightarrow>
   extra_key list option list \<Rightarrow> kv_event" where
  "build_block_stored_event r hs parent start_idx end_idx bs gid extra =
     BlockStored hs parent (slice start_idx end_idx (all_token_ids r)) bs
       (map_option lora_int_id (lora r)) (map_option lora_name (lora r))
       (if extra = [] then None else Some extra) gid"

definition cache_full_blocks ::
  "(bytes \<Rightarrow> bytes) \<Rightarrow> request \<Rightarrow> bref list \<Rightarrow> nat \<Rightarrow> nat \<Rightarrow> nat \<Rightarrow> int \<Rightarrow> bool list option \<Rightarrow>
   block_pool \<Rightarrow> (request \<times> block_pool) res" where
  "cache_full_blocks sha r blocks num_cached num_full bs gid block_mask p =
     (if num_full \<le> num_cached then Inr (r, p)
      else
        (let new_full = slice num_cached num_full blocks
         in bind_res (check_res (\<forall>m. block_mask = Some m \<longrightarrow> length m = length new_full)
              (AssertionError ''len(block_mask) == len(new_full_blocks)'')) (\<lambda>_.
            bind_res (resolve_block_hashes (Raw (block_hashes r)) (hash_block_size p) bs False None) (\<lambda>hl.
            bind_res (hl_from hl num_cached) (\<lambda>new_hashes.
            bind_res (fold_res (cache_one_full new_hashes num_cached bs gid block_mask)
                (enumerate 0 new_full) (p, [])) (\<lambda>(p1, out).
              if \<not> enable_kv_cache_events p then Inr (r, p1)
              else
                bind_res (if num_cached = 0 then Inr None
                    else bind_res (hl_get hl (num_cached - 1))
                      (\<lambda>h. Inr (Some (maybe_convert_block_hash (use_int_block_hashes p) h)))) (\<lambda>parent.
                bind_res (event_extra_keys sha bs
                    (filter (\<lambda>i. \<not> is_null (heap p1 (blocks ! i)) \<and>
                        (\<forall>m. block_mask = Some m \<longrightarrow> m ! (i - num_cached)))
                      [num_cached..<min num_full (length blocks)]) 0 r)
                  (\<lambda>(extra, r').
                bind_res (check_res (num_full \<le> length blocks) (IndexError ''list index out of range'')) (\<lambda>_.
                    Inr (r', p1\<lparr>kv_event_queue := kv_event_queue p1 @
                      [build_block_stored_event r' out parent (num_cached * bs) (num_full * bs) bs gid extra]\<rparr>))))))))))"

fun cached_event_keys ::
  "(bytes \<Rightarrow> bytes) \<Rightarrow> nat \<Rightarrow> hash_list \<Rightarrow> nat list \<Rightarrow> int \<Rightarrow> request \<Rightarrow>
   (bytes list \<times> extra_key list option list \<times> request) res" where
  "cached_event_keys sha bs hl [] idx r = Inr ([], [], r)"
| "cached_event_keys sha bs hl (i # is) idx r =
     bind_res (hl_get hl i) (\<lambda>h.
     bind_res (generate_block_hash_extra_keys sha r (i * bs) (i * bs + bs) idx) (\<lambda>(k, idx', r').
     bind_res (cached_event_keys sha bs hl is idx' r') (\<lambda>(hs, ks, r''). Inr (h # hs, k # ks, r''))))"

definition emit_cached_block_events ::
  "(bytes \<Rightarrow> bytes) \<Rightarrow> request \<Rightarrow> nat \<Rightarrow> nat \<Rightarrow> int \<Rightarrow> block_pool \<Rightarrow> (request \<times> block_pool) res" where
  "emit_cached_block_events sha r num_cached bs gid p =
     (if \<not> enable_kv_cache_events p \<or> num_cached = 0 then Inr (r, p)
      else
        bind_res (resolve_block_hashes (Raw (block_hashes r)) (hash_block_size p) bs False None) (\<lambda>hl.
        bind_res (cached_event_keys sha bs hl [0..<num_cached] 0 r) (\<lambda>(hs, extra, r').
          Inr (r', p\<lparr>kv_event_queue := kv_event_queue p @
            [build_block_stored_event r' (map (maybe_convert_block_hash (use_int_block_hashes p)) hs)
               None 0 (num_cached * bs) bs gid extra]\<rparr>))))"

definition get_partial_block_hash :: "request \<Rightarrow> nat \<Rightarrow> block_pool \<Rightarrow> bytes res" where
  "get_partial_block_hash r num_tokens p =
     (let hbs = hash_block_size p; n = num_tokens div hbs
      in bind_res (check_res (num_tokens mod hbs = 0) (AssertionError ''num_tokens % self.hash_block_size == 0''))
         (\<lambda>_. bind_res (check_res (0 < n \<and> n \<le> length (block_hashes r))
              (AssertionError ''0 < num_hash_blocks <= len(request.block_hashes)''))
           (\<lambda>_. Inr (block_hashes r ! (n - 1)))))"

definition cache_partial_block ::
  "(bytes \<Rightarrow> bytes) \<Rightarrow> request \<Rightarrow> bref \<Rightarrow> nat \<Rightarrow> int \<Rightarrow> nat \<Rightarrow> block_pool \<Rightarrow>
   (bytes option \<times> request \<times> block_pool) res" where
  "cache_partial_block sha r b num_tokens gid bs p =
     (if is_null (heap p b) then Inr (None, r, p)
      else
        (let hbs = hash_block_size p; n = num_tokens div hbs
         in bind_res (check_res (hbs < bs) (AssertionError ''block_size > self.hash_block_size'')) (\<lambda>_.
            bind_res (check_res (hbs \<noteq> 0) ZeroDivisionError) (\<lambda>_.
            bind_res (check_res (bs mod hbs = 0) (AssertionError ''block_size % self.hash_block_size == 0'')) (\<lambda>_.
            bind_res (check_res (num_tokens mod bs \<noteq> 0) (AssertionError ''num_tokens % block_size != 0'')) (\<lambda>_.
            bind_res (get_partial_block_hash r num_tokens p) (\<lambda>h.
            bind_res (make_block_hash_with_group_id h gid) (\<lambda>key.
              let blk = heap p b;
                  already = (block_hash blk = Some key \<or>
                    hm_contain (idof p) (cached_block_hash_to_block p) key (idof p b));
                  p1 = (if \<not> already \<and> block_hash blk \<noteq> None \<and>
                           (\<exists>m. block_hash_num_tokens blk = Some m \<and> m < int (n * hbs))
                        then case remove_cached_block_hashes b p of
                          (removed, q) \<Rightarrow> emit_block_removed_events removed q
                        else p)
              in bind_res (insert_block_hash key b (Some (int (n * hbs))) p1) (\<lambda>p2.
                 if \<not> (enable_kv_cache_events p \<and> \<not> already) then Inr (Some key, r, p2)
                 else
                   (let parent = (if 1 < n then Some (block_hashes r ! (n - 2)) else None);
                        block_start = (n - 1) * hbs
                    in bind_res (generate_block_hash_extra_keys sha r block_start num_tokens
                           (if 0 < block_start then -1 else 0)) (\<lambda>(extra, _, r').
                         Inr (Some key, r', p2\<lparr>kv_event_queue := kv_event_queue p2 @
                           [BlockStored [maybe_convert_block_hash (use_int_block_hashes p) h]
                              (map_option (maybe_convert_block_hash (use_int_block_hashes p)) parent)
                              (slice block_start num_tokens (all_token_ids r')) (num_tokens - block_start)
                              (map_option lora_int_id (lora r)) (map_option lora_name (lora r))
                              (Some [extra]) gid]\<rparr>))))))))))))"

section \<open>Allocation, reference counts and eviction\<close>

definition get_num_free_blocks :: "block_pool \<Rightarrow> int" where
  "get_num_free_blocks p = num_free_blocks p"

definition maybe_evict_cached_block :: "bref \<Rightarrow> block_pool \<Rightarrow> bool \<times> block_pool" where
  "maybe_evict_cached_block b p =
     (case remove_cached_block_hashes b (log_metric (OnEvicted b) p) of
        (evicted, p1) \<Rightarrow> if evicted = [] then (False, p1)
                         else (True, emit_block_removed_events evicted p1))"

definition allocate_one :: "bref \<Rightarrow> block_pool \<Rightarrow> block_pool res" where
  "allocate_one b p =
     (let p1 = (if enable_caching p then snd (maybe_evict_cached_block b p) else p)
      in bind_res (check_res (ref_cnt (heap p1 b) = 0) (AssertionError ''block.ref_cnt == 0''))
           (\<lambda>_. Inr (log_metric (OnAllocated b) (upd_block b (\<lambda>k. k\<lparr>ref_cnt := ref_cnt k + 1\<rparr>) p1))))"

definition get_new_blocks :: "int \<Rightarrow> block_pool \<Rightarrow> (bref list \<times> block_pool) res" where
  "get_new_blocks n p =
     (if get_num_free_blocks p < n then Inl (ValueError ''Cannot get free blocks from the pool'')
      else bind_res (fq_popleft_n n p) (\<lambda>(bs, p1).
           bind_res (fold_res allocate_one bs p1) (\<lambda>p2. Inr (bs, p2))))"

definition touch_one :: "bref \<Rightarrow> block_pool \<Rightarrow> block_pool res" where
  "touch_one b p =
     bind_res (if ref_cnt (heap p b) = 0 \<and> \<not> is_null (heap p b) then fq_remove b p else Inr p)
       (\<lambda>p1. Inr (log_metric (OnAccessed b) (upd_block b (\<lambda>k. k\<lparr>ref_cnt := ref_cnt k + 1\<rparr>) p1)))"

definition touch :: "bref list \<Rightarrow> block_pool \<Rightarrow> block_pool res" where
  "touch bs p = fold_res touch_one bs p"

fun free_loop :: "bref list \<Rightarrow> block_pool \<Rightarrow> bref list \<times> bref list \<times> block_pool" where
  "free_loop [] p = ([], [], p)"
| "free_loop (b # bs) p =
     (let p1 = upd_block b (\<lambda>k. k\<lparr>ref_cnt := ref_cnt k - 1\<rparr>) p;
          blk = heap p1 b
      in case free_loop bs p1 of (no_hash, hashed, p2) \<Rightarrow>
           if ref_cnt blk = 0 \<and> \<not> is_null blk
           then (if block_hash blk = None then (b # no_hash, hashed, p2) else (no_hash, b # hashed, p2))
           else (no_hash, hashed, p2))"

definition free_blocks :: "bref list \<Rightarrow> block_pool \<Rightarrow> block_pool res" where
  "free_blocks bs p =
     (case free_loop bs p of (no_hash, hashed, p1) \<Rightarrow>
        bind_res (fq_prepend_n no_hash p1) (fq_append_n hashed))"

text \<open>\<open>self.blocks[i]\<close>, negative indices counting from the end.\<close>

definition block_at :: "block_pool \<Rightarrow> int \<Rightarrow> bref res" where
  "block_at p i =
     (let n = int (num_gpu_blocks p); j = (if i < 0 then n + i else i)
      in if 0 \<le> j \<and> j < n then Inr (Blk (nat j)) else Inl (IndexError ''list index out of range''))"

definition evict_one :: "int \<Rightarrow> block_pool \<Rightarrow> block_pool res" where
  "evict_one i p =
     bind_res (check_res (i < int (num_gpu_blocks p)) (AssertionError ''Invalid block_id'')) (\<lambda>_.
     bind_res (block_at p i) (\<lambda>b. Inr (snd (maybe_evict_cached_block b p))))"

definition evict_blocks :: "int list \<Rightarrow> block_pool \<Rightarrow> block_pool res" where
  "evict_blocks ids p = fold_res evict_one ids p"

definition reset_prefix_cache :: "block_pool \<Rightarrow> bool \<times> block_pool" where
  "reset_prefix_cache p =
     (if int (num_gpu_blocks p) - get_num_free_blocks p \<noteq> 1 then (False, p)
      else
        (let p1 = p\<lparr>cached_block_hash_to_block := Map.empty, cached_block_hashes_by_block := []\<rparr>;
             p2 = fold (\<lambda>i. upd_block (Blk i) reset_hash) [0..<num_gpu_blocks p] p1;
             p3 = log_metric OnReset p2
         in (True, if enable_kv_cache_events p
                   then p3\<lparr>kv_event_queue := kv_event_queue p3 @ [AllBlocksCleared]\<rparr> else p3)))"

definition get_usage :: "block_pool \<Rightarrow> rat" where
  "get_usage p =
     (let total = int (num_gpu_blocks p) - 1
      in if total = 0 then 0 else 1 - of_int (get_num_free_blocks p) / of_int total)"

definition take_events :: "block_pool \<Rightarrow> kv_event list \<times> block_pool" where
  "take_events p =
     (if \<not> enable_kv_cache_events p then ([], p)
      else (kv_event_queue p, p\<lparr>kv_event_queue := []\<rparr>))"

section \<open>Invariants\<close>

text \<open>All keys registered for a block: its primary hash, then the secondary ones.\<close>

definition hashes_of :: "block_pool \<Rightarrow> bref \<Rightarrow> bytes list" where
  "hashes_of p b = (case block_hash (heap p b) of Some h \<Rightarrow> [h] | None \<Rightarrow> []) @ secondary_hashes p (idof p b)"

text \<open>The prefix cache and the blocks' own metadata describe the same relation.\<close>

definition cache_inv :: "block_pool \<Rightarrow> bool" where
  "cache_inv p \<longleftrightarrow>
     (\<forall>i. idof p (Blk i) = int i) \<and> hm_wf (idof p) (cached_block_hash_to_block p) \<and>
     (\<forall>k i. Blk i \<in> hm_refs (cached_block_hash_to_block p) k \<longleftrightarrow> k \<in> set (hashes_of p (Blk i))) \<and>
     (\<forall>i. distinct (hashes_of p (Blk i))) \<and>
     (\<forall>i. block_hash (heap p (Blk i)) = None \<longrightarrow>
        int i \<notin> od_dom (cached_block_hashes_by_block p) \<and> block_hash_num_tokens (heap p (Blk i)) = None) \<and>
     (\<forall>i. num_gpu_blocks p \<le> i \<longrightarrow> block_hash (heap p (Blk i)) = None)"

definition free_inv :: "block_pool \<Rightarrow> bref list \<Rightarrow> bool" where
  "free_inv p xs \<longleftrightarrow> fq_repr p xs \<and> set xs \<subseteq> Blk ` {..<num_gpu_blocks p} \<and>
     (\<forall>i < num_gpu_blocks p.
        (Blk i \<in> set xs \<longleftrightarrow> ref_cnt (heap p (Blk i)) = 0 \<and> \<not> is_null (heap p (Blk i))) \<and>
        (is_null (heap p (Blk i)) \<longleftrightarrow> Blk i = null_block p) \<and>
        (\<not> is_null (heap p (Blk i)) \<longrightarrow> 0 \<le> ref_cnt (heap p (Blk i))))"

definition pool_inv :: "block_pool \<Rightarrow> bref list \<Rightarrow> bool" where
  "pool_inv p xs \<longleftrightarrow> free_inv p xs \<and> cache_inv p"

text \<open>What cache maintenance leaves alone: the free list, identities and the configuration.\<close>

definition frame :: "block_pool \<Rightarrow> block_pool \<Rightarrow> bool" where
  "frame p p' \<longleftrightarrow>
     (\<forall>b. block_id (heap p' b) = block_id (heap p b) \<and> is_null (heap p' b) = is_null (heap p b) \<and>
        prev_free_block (heap p' b) = prev_free_block (heap p b) \<and>
        next_free_block (heap p' b) = next_free_block (heap p b)) \<and>
     num_free_blocks p' = num_free_blocks p \<and> num_gpu_blocks p' = num_gpu_blocks p \<and>
     enable_caching p' = enable_caching p \<and> hash_block_size p' = hash_block_size p \<and>
     null_block p' = null_block p \<and> enable_kv_cache_events p' = enable_kv_cache_events p \<and>
     use_int_block_hashes p' = use_int_block_hashes p \<and> has_metrics p' = has_metrics p"

definition static :: "block_pool \<Rightarrow> block_pool \<Rightarrow> bool" where
  "static p p' \<longleftrightarrow> num_gpu_blocks p' = num_gpu_blocks p \<and> null_block p' = null_block p \<and>
     enable_caching p' = enable_caching p \<and> hash_block_size p' = hash_block_size p \<and>
     enable_kv_cache_events p' = enable_kv_cache_events p \<and>
     (\<forall>b. is_null (heap p' b) = is_null (heap p b))"

definition same_refs :: "block_pool \<Rightarrow> block_pool \<Rightarrow> bool" where
  "same_refs p p' \<longleftrightarrow> (\<forall>b. ref_cnt (heap p' b) = ref_cnt (heap p b))"

lemma frame_refl [simp]: "frame p p"
  by (simp add: frame_def)

lemma frame_static: "frame p p' \<Longrightarrow> static p p'"
  by (simp add: frame_def static_def)

lemma static_trans: "static p q \<Longrightarrow> static q r \<Longrightarrow> static p r"
  by (simp add: static_def)

lemma static_refl [simp]: "static p p"
  by (simp add: static_def)

lemma static_heap: "same_meta (heap p) h \<Longrightarrow> static p (p\<lparr>heap := h, num_free_blocks := m\<rparr>)"
  by (simp add: static_def same_metaD)

lemma frame_trans: "frame p q \<Longrightarrow> frame q r \<Longrightarrow> frame p r"
  by (simp add: frame_def)

lemma same_refs_refl [simp]: "same_refs p p"
  by (simp add: same_refs_def)

lemma same_refs_trans: "same_refs p q \<Longrightarrow> same_refs q r \<Longrightarrow> same_refs p r"
  by (simp add: same_refs_def)

lemma frame_fq_repr:
  assumes "frame p p'"
  shows "fq_repr p' xs = fq_repr p xs"
proof -
  have "links (heap p') ps = links (heap p) ps" for ps
    using assms by (intro links_cong) (simp_all add: frame_def)
  then show ?thesis using assms by (simp add: fq_repr_def frame_def detached_def)
qed

lemma frame_free_inv: "frame p p' \<Longrightarrow> same_refs p p' \<Longrightarrow> free_inv p' xs = free_inv p xs"
  using frame_fq_repr[of p p' xs] by (simp add: free_inv_def frame_def same_refs_def)

lemma cache_inv_cong:
  assumes "\<And>b. block_id (heap p' b) = block_id (heap p b) \<and> block_hash (heap p' b) = block_hash (heap p b) \<and>
      block_hash_num_tokens (heap p' b) = block_hash_num_tokens (heap p b)"
    and "cached_block_hash_to_block p' = cached_block_hash_to_block p"
    and "cached_block_hashes_by_block p' = cached_block_hashes_by_block p"
    and "num_gpu_blocks p' = num_gpu_blocks p"
  shows "cache_inv p' = cache_inv p" "hashes_of p' = hashes_of p"
proof -
  have i: "idof p' = idof p" using assms(1) by (simp add: idof_def fun_eq_iff)
  show h: "hashes_of p' = hashes_of p"
    using assms i by (simp add: hashes_of_def secondary_hashes_def fun_eq_iff)
  show "cache_inv p' = cache_inv p" using assms i h by (simp add: cache_inv_def)
qed

lemma cache_inv_heap:
  "same_meta (heap p) h \<Longrightarrow> cache_inv (p\<lparr>heap := h, num_free_blocks := n\<rparr>) = cache_inv p"
  "same_meta (heap p) h \<Longrightarrow> hashes_of (p\<lparr>heap := h, num_free_blocks := n\<rparr>) = hashes_of p"
  by (rule cache_inv_cong; simp add: same_metaD)+

lemma upd_block_sel [simp]:
  "heap (upd_block b f p) = (heap p)(b := f (heap p b))"
  "num_free_blocks (upd_block b f p) = num_free_blocks p"
  "num_gpu_blocks (upd_block b f p) = num_gpu_blocks p"
  "enable_caching (upd_block b f p) = enable_caching p"
  "hash_block_size (upd_block b f p) = hash_block_size p"
  "cached_block_hash_to_block (upd_block b f p) = cached_block_hash_to_block p"
  "cached_block_hashes_by_block (upd_block b f p) = cached_block_hashes_by_block p"
  "null_block (upd_block b f p) = null_block p"
  "enable_kv_cache_events (upd_block b f p) = enable_kv_cache_events p"
  "use_int_block_hashes (upd_block b f p) = use_int_block_hashes p"
  "kv_event_queue (upd_block b f p) = kv_event_queue p"
  "has_metrics (upd_block b f p) = has_metrics p"
  "metrics_log (upd_block b f p) = metrics_log p"
  by (simp_all add: upd_block_def)

lemma log_metric_inv [simp]:
  "heap (log_metric c p) = heap p" "frame p (log_metric c p)" "same_refs p (log_metric c p)"
  "cache_inv (log_metric c p) = cache_inv p" "hashes_of (log_metric c p) = hashes_of p"
  "enable_caching (log_metric c p) = enable_caching p"
  "frame (log_metric c p) = frame p" "same_refs (log_metric c p) = same_refs p"
  "frame q (log_metric c p) = frame q p" "same_refs q (log_metric c p) = same_refs q p"
proof -
  show "cache_inv (log_metric c p) = cache_inv p" "hashes_of (log_metric c p) = hashes_of p"
    by (rule cache_inv_cong; simp add: log_metric_def)+
qed (simp_all add: log_metric_def frame_def same_refs_def fun_eq_iff)

lemma emit_removed_inv [simp]:
  "heap (emit_block_removed_events hs p) = heap p" "frame p (emit_block_removed_events hs p)"
  "same_refs p (emit_block_removed_events hs p)"
  "cache_inv (emit_block_removed_events hs p) = cache_inv p"
  "hashes_of (emit_block_removed_events hs p) = hashes_of p"
  "frame q (emit_block_removed_events hs p) = frame q p"
  "same_refs q (emit_block_removed_events hs p) = same_refs q p"
proof -
  show "cache_inv (emit_block_removed_events hs p) = cache_inv p"
    "hashes_of (emit_block_removed_events hs p) = hashes_of p"
    by (rule cache_inv_cong; simp add: emit_block_removed_events_def)+
qed (simp_all add: emit_block_removed_events_def frame_def same_refs_def)

section \<open>Removing and registering hashes\<close>

lemma pop_hashes_del_keys:
  "pop_hashes idf (idf b) ks m = block_cache.del_keys (\<lambda>k b. hm_pop idf k (idf b)) b ks m"
  by (induction ks arbitrary: m) (simp_all add: bc.del_keys.simps)

lemma cache_invD:
  assumes "cache_inv p"
  shows "idof p (Blk i) = int i" "hm_wf (idof p) (cached_block_hash_to_block p)"
    "Blk i \<in> hm_refs (cached_block_hash_to_block p) k \<longleftrightarrow> k \<in> set (hashes_of p (Blk i))"
    "distinct (hashes_of p (Blk i))"
    "block_hash (heap p (Blk i)) = None \<Longrightarrow> int i \<notin> od_dom (cached_block_hashes_by_block p)"
    "block_hash (heap p (Blk i)) = None \<Longrightarrow> block_hash_num_tokens (heap p (Blk i)) = None"
    "num_gpu_blocks p \<le> i \<Longrightarrow> block_hash (heap p (Blk i)) = None"
  using assms by (simp_all add: cache_inv_def)

lemma cache_inv_unhashed:
  assumes "cache_inv p" and "block_hash (heap p (Blk i)) = None"
  shows "hashes_of p (Blk i) = []"
  using cache_invD(1)[OF assms(1), of i] cache_invD(5)[OF assms] assms(2)
  by (simp add: hashes_of_def secondary_hashes_def od_get_None_iff[symmetric])

lemma reset_hash_sel [simp]:
  "block_hash (reset_hash b) = None" "block_hash_num_tokens (reset_hash b) = None"
  "block_id (reset_hash b) = block_id b" "ref_cnt (reset_hash b) = ref_cnt b"
  "is_null (reset_hash b) = is_null b" "prev_free_block (reset_hash b) = prev_free_block b"
  "next_free_block (reset_hash b) = next_free_block b" "reset_hash (reset_hash b) = reset_hash b"
  by (simp_all add: reset_hash_def)

lemma reset_hash_unhashed:
  "block_hash b = None \<Longrightarrow> block_hash_num_tokens b = None \<Longrightarrow> reset_hash b = b"
  by (cases b) (simp add: reset_hash_def)

lemma remove_unfold:
  "remove_cached_block_hashes b p =
     (let p1 = p\<lparr>cached_block_hashes_by_block := od_pop (idof p b) (cached_block_hashes_by_block p)\<rparr>
      in if hashes_of p b = [] then ([], p1)
         else case pop_hashes (idof p) (idof p b) (hashes_of p b) (cached_block_hash_to_block p) of
           (removed, m) \<Rightarrow> (removed, upd_block b reset_hash (p1\<lparr>cached_block_hash_to_block := m\<rparr>)))"
  by (simp only: remove_cached_block_hashes_def hashes_of_def Let_def)

lemma remove_hashes_correct:
  assumes inv: "cache_inv p"
  shows "\<exists>p'. remove_cached_block_hashes (Blk i) p = (hashes_of p (Blk i), p') \<and> cache_inv p' \<and>
    frame p p' \<and> same_refs p p' \<and> kv_event_queue p' = kv_event_queue p \<and> metrics_log p' = metrics_log p \<and>
    block_hash (heap p' (Blk i)) = None \<and>
    (\<forall>j. hashes_of p' (Blk j) = (if j = i then [] else hashes_of p (Blk j))) \<and>
    (\<forall>b. b \<noteq> Blk i \<longrightarrow> heap p' b = heap p b)"
proof -
  note D = cache_invD[OF inv]
  let ?hs = "hashes_of p (Blk i)"
  define m where "m = snd (pop_hashes (idof p) (idof p (Blk i)) ?hs (cached_block_hash_to_block p))"
  define p' where "p' = upd_block (Blk i) reset_hash
    (p\<lparr>cached_block_hashes_by_block := od_pop (int i) (cached_block_hashes_by_block p),
       cached_block_hash_to_block := m\<rparr>)"
  have K: "hm_wf (idof p) m" "fst (pop_hashes (idof p) (idof p (Blk i)) ?hs (cached_block_hash_to_block p)) =
      filter (\<lambda>k. Blk i \<in> hm_refs (cached_block_hash_to_block p) k) ?hs"
    "\<And>k. hm_refs m k = (if k \<in> set ?hs then hm_refs (cached_block_hash_to_block p) k - {Blk i}
      else hm_refs (cached_block_hash_to_block p) k)"
    using bc.del_keys_correct[OF D(2) _ D(4), of "Blk i" i] by (simp_all add: m_def pop_hashes_del_keys)
  have "filter (\<lambda>k. Blk i \<in> hm_refs (cached_block_hash_to_block p) k) ?hs = ?hs"
    by (rule filter_True) (simp add: D(3))
  then have removed: "pop_hashes (idof p) (idof p (Blk i)) ?hs (cached_block_hash_to_block p) = (?hs, m)"
    using K(2) by (simp add: m_def prod_eq_iff)
  have run: "remove_cached_block_hashes (Blk i) p = (?hs, p')"
  proof (cases "?hs = []")
    case True
    then have none: "block_hash (heap p (Blk i)) = None" by (auto simp: hashes_of_def split: option.splits)
    have "m = cached_block_hash_to_block p" using True by (simp add: m_def)
    moreover have "reset_hash (heap p (Blk i)) = heap p (Blk i)"
      using none D(6) by (intro reset_hash_unhashed)
    ultimately have "p' = p\<lparr>cached_block_hashes_by_block := od_pop (int i) (cached_block_hashes_by_block p)\<rparr>"
      by (simp add: p'_def upd_block_def)
    with True show ?thesis
      by (simp add: remove_unfold D(1) Let_def)
  next
    case False
    then show ?thesis
      using removed
      by (simp add: remove_unfold D(1) Let_def p'_def)
  qed
  have fr: "frame p p'" "same_refs p p'"
    by (simp_all add: p'_def frame_def same_refs_def reset_hash_def)
  have ido: "idof p' = idof p" by (simp add: p'_def idof_def fun_eq_iff reset_hash_def)
  have H: "hashes_of p' (Blk j) = (if j = i then [] else hashes_of p (Blk j))" for j
    by (simp add: hashes_of_def secondary_hashes_def ido D(1)) (simp add: p'_def reset_hash_def)
  have "cache_inv p'"
    unfolding cache_inv_def ido
  proof (intro conjI allI impI)
    show "idof p (Blk j) = int j" for j by (rule D(1))
    show "hm_wf (idof p) (cached_block_hash_to_block p')" by (simp add: p'_def K(1))
    show "Blk j \<in> hm_refs (cached_block_hash_to_block p') k \<longleftrightarrow> k \<in> set (hashes_of p' (Blk j))" for k j
    proof -
      have C: "hm_refs (cached_block_hash_to_block p') k = (if k \<in> set ?hs
          then hm_refs (cached_block_hash_to_block p) k - {Blk i} else hm_refs (cached_block_hash_to_block p) k)"
        using K(3)[of k] by (simp add: p'_def)
      show ?thesis unfolding C H using D(3)[of j k] D(3)[of i k] by (cases "j = i") simp_all
    qed
    show "distinct (hashes_of p' (Blk j))" for j by (simp add: H D(4))
    show "int j \<notin> od_dom (cached_block_hashes_by_block p')" if "block_hash (heap p' (Blk j)) = None" for j
      using that D(5)[of j] by (auto simp: p'_def split: if_splits)
    show "block_hash_num_tokens (heap p' (Blk j)) = None" if "block_hash (heap p' (Blk j)) = None" for j
      using that D(6)[of j] by (auto simp: p'_def split: if_splits)
    show "block_hash (heap p' (Blk j)) = None" if "num_gpu_blocks p' \<le> j" for j
      using that D(7)[of j] by (auto simp: p'_def)
  qed
  moreover have "kv_event_queue p' = kv_event_queue p" "metrics_log p' = metrics_log p"
    "block_hash (heap p' (Blk i)) = None" "\<And>b. b \<noteq> Blk i \<Longrightarrow> heap p' b = heap p b"
    by (simp_all add: p'_def reset_hash_def)
  ultimately show ?thesis using run fr H by blast
qed

lemma insert_hash_correct:
  assumes inv: "cache_inv p" and i: "i < num_gpu_blocks p"
  shows "\<exists>p'. insert_block_hash key (Blk i) n p = Inr p' \<and> cache_inv p' \<and> frame p p' \<and> same_refs p p' \<and>
    kv_event_queue p' = kv_event_queue p \<and> metrics_log p' = metrics_log p \<and>
    (\<forall>j. hashes_of p' (Blk j) =
      (if j = i \<and> key \<notin> set (hashes_of p (Blk i)) then hashes_of p (Blk i) @ [key] else hashes_of p (Blk j))) \<and>
    (\<forall>b. b \<noteq> Blk i \<longrightarrow> heap p' b = heap p b) \<and>
    block_hash (heap p' (Blk i)) \<noteq> None"
proof (cases "key \<in> set (hashes_of p (Blk i))")
  case True
  note D = cache_invD[OF inv]
  have "hm_contain (idof p) (cached_block_hash_to_block p) key (idof p (Blk i))"
    using bc.has[OF D(2), of "Blk i" key] D(3) True by simp
  moreover have "block_hash (heap p (Blk i)) \<noteq> None" using cache_inv_unhashed[OF inv, of i] True
    by (metis empty_iff empty_set)
  ultimately show ?thesis using inv True by (intro exI[of _ p]) (simp add: insert_block_hash_def)
next
  case False
  note D = cache_invD[OF inv]
  have "\<not> hm_contain (idof p) (cached_block_hash_to_block p) key (idof p (Blk i))"
    using bc.has[OF D(2), of "Blk i" key] D(3) False by simp
  moreover have "block_hash (heap p (Blk i)) \<noteq> Some key" using False by (auto simp: hashes_of_def)
  moreover define q where "q = (if block_hash (heap p (Blk i)) = None
      then upd_block (Blk i) (\<lambda>b. b\<lparr>block_hash := Some key, block_hash_num_tokens := n\<rparr>) p
      else p\<lparr>cached_block_hashes_by_block := od_set (int i) (secondary_hashes p (int i) @ [key])
        (cached_block_hashes_by_block p)\<rparr>)"
  moreover have "key \<notin> set (secondary_hashes p (int i))" using False D(1) by (simp add: hashes_of_def)
  ultimately have run: "insert_block_hash key (Blk i) n p =
      Inr (q\<lparr>cached_block_hash_to_block := hm_insert (idof q) key (Blk i) (cached_block_hash_to_block q)\<rparr>)"
    using D(1,6) by (simp add: insert_block_hash_def set_block_hash_def upd_block_def Let_def)
  have ido: "idof q = idof p" by (simp add: q_def idof_def fun_eq_iff)
  have cq: "cached_block_hash_to_block q = cached_block_hash_to_block p" by (simp add: q_def)
  define p' where "p' = q\<lparr>cached_block_hash_to_block := hm_insert (idof p) key (Blk i) (cached_block_hash_to_block p)\<rparr>"
  have run': "insert_block_hash key (Blk i) n p = Inr p'" using run by (simp add: p'_def ido cq)
  have ido': "idof p' = idof p" using ido by (simp add: p'_def idof_def fun_eq_iff)
  have H: "hashes_of p' (Blk j) = (if j = i then hashes_of p (Blk i) @ [key] else hashes_of p (Blk j))" for j
  proof (cases "block_hash (heap p (Blk i)) = None")
    case True
    then have "hashes_of p (Blk i) = []" by (rule cache_inv_unhashed[OF inv])
    with True D(1) show ?thesis
      by (simp add: hashes_of_def secondary_hashes_def ido') (simp add: p'_def q_def)
  next
    case False
    with D(1) show ?thesis
      by (simp add: hashes_of_def secondary_hashes_def ido') (auto simp: p'_def q_def secondary_hashes_def)
  qed
  have "cache_inv p'"
    unfolding cache_inv_def ido'
  proof (intro conjI allI impI)
    show "idof p (Blk j) = int j" for j by (rule D(1))
    show "hm_wf (idof p) (cached_block_hash_to_block p')"
      using bc.ins_wf[OF D(2), of "Blk i" key] by (simp add: p'_def)
    show "Blk j \<in> hm_refs (cached_block_hash_to_block p') k \<longleftrightarrow> k \<in> set (hashes_of p' (Blk j))" for k j
    proof -
      have C: "hm_refs (cached_block_hash_to_block p') k = (if k = key
          then insert (Blk i) (hm_refs (cached_block_hash_to_block p) key) else hm_refs (cached_block_hash_to_block p) k)"
        using bc.ins_refs[OF D(2), of "Blk i" key k] by (simp add: p'_def)
      show ?thesis unfolding C H using D(3)[of j k] by (cases "j = i"; cases "k = key") simp_all
    qed
    show "distinct (hashes_of p' (Blk j))" for j using D(4) \<open>key \<notin> set (hashes_of p (Blk i))\<close> by (simp add: H)
    show "int j \<notin> od_dom (cached_block_hashes_by_block p')" if "block_hash (heap p' (Blk j)) = None" for j
      using that D(5)[of j] by (auto simp: p'_def q_def split: if_splits)
    show "block_hash_num_tokens (heap p' (Blk j)) = None" if "block_hash (heap p' (Blk j)) = None" for j
      using that D(6)[of j] by (auto simp: p'_def q_def split: if_splits)
    show "block_hash (heap p' (Blk j)) = None" if "num_gpu_blocks p' \<le> j" for j
      using that D(7)[of j] i by (auto simp: p'_def q_def split: if_splits)
  qed
  moreover have "frame p p'" "same_refs p p'" "kv_event_queue p' = kv_event_queue p"
    "metrics_log p' = metrics_log p" "\<And>b. b \<noteq> Blk i \<Longrightarrow> heap p' b = heap p b"
    "block_hash (heap p' (Blk i)) \<noteq> None"
    by (simp_all add: p'_def q_def frame_def same_refs_def)
  ultimately show ?thesis using run' H False by (intro exI[of _ p']) auto
qed

section \<open>Allocation\<close>

lemma upd_ref_inv [simp]:
  "cache_inv (upd_block b (\<lambda>k. k\<lparr>ref_cnt := g k\<rparr>) p) = cache_inv p"
  "hashes_of (upd_block b (\<lambda>k. k\<lparr>ref_cnt := g k\<rparr>) p) = hashes_of p"
  "frame p (upd_block b (\<lambda>k. k\<lparr>ref_cnt := g k\<rparr>) p)"
proof -
  show "cache_inv (upd_block b (\<lambda>k. k\<lparr>ref_cnt := g k\<rparr>) p) = cache_inv p"
    "hashes_of (upd_block b (\<lambda>k. k\<lparr>ref_cnt := g k\<rparr>) p) = hashes_of p"
    by (rule cache_inv_cong; simp)+
  show "frame p (upd_block b (\<lambda>k. k\<lparr>ref_cnt := g k\<rparr>) p)" by (simp add: frame_def)
qed

lemma maybe_evict_correct:
  assumes "cache_inv p"
  shows "\<exists>p'. maybe_evict_cached_block (Blk i) p = (hashes_of p (Blk i) \<noteq> [], p') \<and> cache_inv p' \<and>
    frame p p' \<and> same_refs p p' \<and>
    (\<forall>j. hashes_of p' (Blk j) = (if j = i then [] else hashes_of p (Blk j)))"
proof -
  have "cache_inv (log_metric (OnEvicted (Blk i)) p)" using assms by simp
  from remove_hashes_correct[OF this, of i] obtain q where
    q: "remove_cached_block_hashes (Blk i) (log_metric (OnEvicted (Blk i)) p) = (hashes_of p (Blk i), q)"
    "cache_inv q" "frame p q" "same_refs p q"
    "\<forall>j. hashes_of q (Blk j) = (if j = i then [] else hashes_of p (Blk j))"
    by auto
  then show ?thesis by (auto simp: maybe_evict_cached_block_def)
qed

lemma allocate_one_correct:
  assumes "cache_inv p" and "ref_cnt (heap p (Blk i)) = 0"
  shows "\<exists>p'. allocate_one (Blk i) p = Inr p' \<and> cache_inv p' \<and> frame p p' \<and>
    (\<forall>b. ref_cnt (heap p' b) = (if b = Blk i then 1 else ref_cnt (heap p b))) \<and>
    (\<forall>j. hashes_of p' (Blk j) = (if j = i \<and> enable_caching p then [] else hashes_of p (Blk j)))"
proof -
  define q where "q = (if enable_caching p then snd (maybe_evict_cached_block (Blk i) p) else p)"
  have q: "cache_inv q" "frame p q" "same_refs p q"
    "\<And>j. hashes_of q (Blk j) = (if j = i \<and> enable_caching p then [] else hashes_of p (Blk j))"
    using maybe_evict_correct[OF assms(1), of i] assms(1) by (auto simp: q_def)
  let ?u = "upd_block (Blk i) (\<lambda>k. k\<lparr>ref_cnt := ref_cnt k + 1\<rparr>) q"
  have "ref_cnt (heap q b) = ref_cnt (heap p b)" for b using q(3) by (simp add: same_refs_def)
  moreover have "frame p ?u" by (rule frame_trans[OF q(2)]) simp
  ultimately show ?thesis
    using q assms(2) by (simp add: allocate_one_def q_def[symmetric] Let_def)
qed

lemma allocate_all_correct:
  assumes "cache_inv p" and "distinct bs" and "set bs \<subseteq> range Blk"
    and "\<forall>b \<in> set bs. ref_cnt (heap p b) = 0"
  shows "\<exists>p'. fold_res allocate_one bs p = Inr p' \<and> cache_inv p' \<and> frame p p' \<and>
    (\<forall>b. ref_cnt (heap p' b) = (if b \<in> set bs then 1 else ref_cnt (heap p b))) \<and>
    (\<forall>j. hashes_of p' (Blk j) = (if Blk j \<in> set bs \<and> enable_caching p then [] else hashes_of p (Blk j)))"
  using assms
proof (induction bs arbitrary: p)
  case (Cons b bs)
  obtain i where b: "b = Blk i" using Cons.prems(3) by auto
  obtain q where q: "allocate_one (Blk i) p = Inr q" "cache_inv q" "frame p q"
    "\<forall>b. ref_cnt (heap q b) = (if b = Blk i then 1 else ref_cnt (heap p b))"
    "\<forall>j. hashes_of q (Blk j) = (if j = i \<and> enable_caching p then [] else hashes_of p (Blk j))"
    using allocate_one_correct[of p i] Cons.prems b by auto
  have "\<forall>b \<in> set bs. ref_cnt (heap q b) = 0" using q(4) Cons.prems(2,4) b by auto
  with Cons.IH[OF q(2)] Cons.prems(2,3) obtain p' where
    p': "fold_res allocate_one bs q = Inr p'" "cache_inv p'" "frame q p'"
    "\<forall>b. ref_cnt (heap p' b) = (if b \<in> set bs then 1 else ref_cnt (heap q b))"
    "\<forall>j. hashes_of p' (Blk j) = (if Blk j \<in> set bs \<and> enable_caching q then [] else hashes_of q (Blk j))"
    by auto
  have "enable_caching q = enable_caching p" using q(3) by (simp add: frame_def)
  with p' q b show ?case using frame_trans[OF q(3) p'(3)] by auto
qed auto

lemma free_invD:
  assumes "free_inv p xs"
  shows "fq_repr p xs" "set xs \<subseteq> Blk ` {..<num_gpu_blocks p}" "distinct xs"
    "num_free_blocks p = int (length xs)"
    "i < num_gpu_blocks p \<Longrightarrow> Blk i \<in> set xs \<longleftrightarrow>
      ref_cnt (heap p (Blk i)) = 0 \<and> \<not> is_null (heap p (Blk i))"
    "i < num_gpu_blocks p \<Longrightarrow> is_null (heap p (Blk i)) \<longleftrightarrow> Blk i = null_block p"
    "i < num_gpu_blocks p \<Longrightarrow> \<not> is_null (heap p (Blk i)) \<Longrightarrow> 0 \<le> ref_cnt (heap p (Blk i))"
  using assms fq_reprD[of p xs] by (auto simp: free_inv_def)

lemma free_inv_mem:
  assumes "free_inv p xs" and "b \<in> set xs"
  shows "\<exists>i < num_gpu_blocks p. b = Blk i" "ref_cnt (heap p b) = 0" "\<not> is_null (heap p b)"
proof -
  obtain i where i: "i < num_gpu_blocks p" "b = Blk i" using free_invD(2)[OF assms(1)] assms(2) by auto
  with free_invD(5)[OF assms(1) i(1)] assms(2)
  show "\<exists>i < num_gpu_blocks p. b = Blk i" "ref_cnt (heap p b) = 0" "\<not> is_null (heap p b)" by auto
qed

text \<open>Establishing the invariant of a state that differs from \<open>p\<close> in links and counts only.\<close>

lemma free_invI:
  assumes "free_inv p xs" and "fq_repr p' ys" and "set ys \<subseteq> Blk ` {..<num_gpu_blocks p}"
    and "num_gpu_blocks p' = num_gpu_blocks p" "null_block p' = null_block p"
    and "\<And>b. is_null (heap p' b) = is_null (heap p b)"
    and "\<And>i. i < num_gpu_blocks p \<Longrightarrow> \<not> is_null (heap p (Blk i)) \<Longrightarrow>
      (Blk i \<in> set ys \<longleftrightarrow> ref_cnt (heap p' (Blk i)) = 0) \<and> 0 \<le> ref_cnt (heap p' (Blk i))"
    and "\<And>b. b \<in> set ys \<Longrightarrow> \<not> is_null (heap p b)"
  shows "free_inv p' ys"
  unfolding free_inv_def
proof (intro conjI allI impI)
  fix i
  assume i: "i < num_gpu_blocks p'"
  show "Blk i \<in> set ys \<longleftrightarrow> ref_cnt (heap p' (Blk i)) = 0 \<and> \<not> is_null (heap p' (Blk i))"
    using assms(7)[of i] assms(8)[of "Blk i"] i assms(4,6) by (cases "is_null (heap p (Blk i))") auto
  show "is_null (heap p' (Blk i)) \<longleftrightarrow> Blk i = null_block p'"
    using free_invD(6)[OF assms(1), of i] i assms(4-6) by simp
  show "0 \<le> ref_cnt (heap p' (Blk i))" if "\<not> is_null (heap p' (Blk i))"
    using that assms(7)[of i] i assms(4,6) by simp
qed (use assms in simp_all)

lemma get_new_blocks_correct:
  assumes inv: "pool_inv p xs" and n: "n \<le> length xs"
  shows "\<exists>p'. get_new_blocks (int n) p = Inr (take n xs, p') \<and> pool_inv p' (drop n xs) \<and> static p p' \<and>
    (\<forall>b. ref_cnt (heap p' b) = (if b \<in> set (take n xs) then 1 else ref_cnt (heap p b))) \<and>
    (\<forall>j. hashes_of p' (Blk j) =
      (if Blk j \<in> set (take n xs) \<and> enable_caching p then [] else hashes_of p (Blk j)))"
proof -
  have F: "free_inv p xs" and C: "cache_inv p" using inv by (auto simp: pool_inv_def)
  note D = free_invD[OF F]
  obtain h m where h: "fq_popleft_n (int n) p = Inr (take n xs, p\<lparr>heap := h, num_free_blocks := m\<rparr>)"
    "fq_repr (p\<lparr>heap := h, num_free_blocks := m\<rparr>) (drop n xs)" "same_meta (heap p) h"
    using fq_popleft_n_take[OF D(1) n] by blast
  let ?q = "p\<lparr>heap := h, num_free_blocks := m\<rparr>"
  note M = same_metaD[OF h(3)]
  have q: "cache_inv ?q" "hashes_of ?q = hashes_of p" using cache_inv_heap[OF h(3)] C by simp_all
  have T: "set (take n xs) \<subseteq> set xs" "set (drop n xs) \<subseteq> set xs" by (auto dest: in_set_takeD in_set_dropD)
  have ref0: "\<forall>b \<in> set (take n xs). ref_cnt (heap ?q b) = 0" 
    using T(1) free_inv_mem(2)[OF F] M(2) by (simp add: subset_iff)
  have "set (take n xs) \<subseteq> range Blk" using T D(2) by blast
  with allocate_all_correct[OF q(1) _ _ ref0] D(3) obtain p' where
    p': "fold_res allocate_one (take n xs) ?q = Inr p'" "cache_inv p'" "frame ?q p'"
    "\<forall>b. ref_cnt (heap p' b) = (if b \<in> set (take n xs) then 1 else ref_cnt (heap ?q b))"
    "\<forall>j. hashes_of p' (Blk j) =
      (if Blk j \<in> set (take n xs) \<and> enable_caching ?q then [] else hashes_of ?q (Blk j))"
    by auto
  have split: "set xs = set (take n xs) \<union> set (drop n xs)" "set (take n xs) \<inter> set (drop n xs) = {}"
    by (metis append_take_drop_id set_append) (rule set_take_disj_set_drop_if_distinct[OF D(3) order_refl])
  have "free_inv p' (drop n xs)"
  proof (rule free_invI[OF F])
    show "fq_repr p' (drop n xs)" using frame_fq_repr[OF p'(3)] h(2) by simp
    show "set (drop n xs) \<subseteq> Blk ` {..<num_gpu_blocks p}" using T D(2) by blast
    show "num_gpu_blocks p' = num_gpu_blocks p" "null_block p' = null_block p"
      "\<And>b. is_null (heap p' b) = is_null (heap p b)" using p'(3) M(5) by (simp_all add: frame_def)
    show "\<not> is_null (heap p b)" if "b \<in> set (drop n xs)" for b
      using that T(2) free_inv_mem(3)[OF F] by blast
    fix i assume i: "i < num_gpu_blocks p" "\<not> is_null (heap p (Blk i))"
    show "(Blk i \<in> set (drop n xs) \<longleftrightarrow> ref_cnt (heap p' (Blk i)) = 0) \<and> 0 \<le> ref_cnt (heap p' (Blk i))"
      using D(5)[OF i(1)] D(7)[OF i] i(2) split p'(4) M(2)[of "Blk i"] by auto
  qed
  moreover have "get_new_blocks (int n) p = Inr (take n xs, p')"
    using h(1) p'(1) n D(4) by (simp add: get_new_blocks_def get_num_free_blocks_def)
  moreover have "static p p'" by (rule static_trans[OF static_heap[OF h(3)] frame_static[OF p'(3)]])
  ultimately show ?thesis using p' q M(2) by (auto simp: pool_inv_def)
qed

lemma get_new_blocks_too_many:
  assumes "pool_inv p xs" and "length xs < n"
  shows "\<exists>msg. get_new_blocks (int n) p = Inl (ValueError msg)"
  using assms free_invD(4)[of p xs]
  by (simp add: get_new_blocks_def get_num_free_blocks_def pool_inv_def)

section \<open>Touching and freeing\<close>

lemma touch_one_correct:
  assumes inv: "pool_inv p xs" and i: "i < num_gpu_blocks p"
  shows "\<exists>p'. touch_one (Blk i) p = Inr p' \<and> pool_inv p' (removeAll (Blk i) xs) \<and> static p p' \<and>
    (\<forall>b. ref_cnt (heap p' b) = ref_cnt (heap p b) + (if b = Blk i then 1 else 0)) \<and>
    hashes_of p' = hashes_of p"
proof -
  have F: "free_inv p xs" and C: "cache_inv p" using inv by (auto simp: pool_inv_def)
  note D = free_invD[OF F]
  let ?rem = "ref_cnt (heap p (Blk i)) = 0 \<and> \<not> is_null (heap p (Blk i))"
  have "\<exists>h m. (if ?rem then fq_remove (Blk i) p else Inr p) = Inr (p\<lparr>heap := h, num_free_blocks := m\<rparr>) \<and>
      fq_repr (p\<lparr>heap := h, num_free_blocks := m\<rparr>) (removeAll (Blk i) xs) \<and> same_meta (heap p) h"
  proof (cases ?rem)
    case True
    then obtain ys zs where xs: "xs = ys @ Blk i # zs" using D(5)[OF i] split_list by metis
    then have "removeAll (Blk i) xs = ys @ zs" using D(3) by (simp add: removeAll_id)
    with True fq_remove_mid[of p ys "Blk i" zs] D(1) xs show ?thesis by auto
  next
    case False
    then have "removeAll (Blk i) xs = xs" using D(5)[OF i] by (intro removeAll_id) simp
    then have eq: "fq_repr (p\<lparr>heap := heap p, num_free_blocks := num_free_blocks p\<rparr>) (removeAll (Blk i) xs)"
      using D(1) by simp
    show ?thesis
      by (rule exI[of _ "heap p"], rule exI[of _ "num_free_blocks p"]) (use eq False in auto)
  qed
  then obtain h m where h: "(if ?rem then fq_remove (Blk i) p else Inr p) = Inr (p\<lparr>heap := h, num_free_blocks := m\<rparr>)"
    "fq_repr (p\<lparr>heap := h, num_free_blocks := m\<rparr>) (removeAll (Blk i) xs)" "same_meta (heap p) h"
    by blast
  let ?q = "p\<lparr>heap := h, num_free_blocks := m\<rparr>"
  define p' where "p' = log_metric (OnAccessed (Blk i)) (upd_block (Blk i) (\<lambda>k. k\<lparr>ref_cnt := ref_cnt k + 1\<rparr>) ?q)"
  note M = same_metaD[OF h(3)]
  have run: "touch_one (Blk i) p = Inr p'" using h(1) by (simp add: touch_one_def p'_def)
  have fr: "frame ?q p'" by (simp add: p'_def)
  have refs: "ref_cnt (heap p' b) = ref_cnt (heap p b) + (if b = Blk i then 1 else 0)" for b
    using M(2) by (simp add: p'_def)
  have C': "cache_inv p'" "hashes_of p' = hashes_of p"
    using cache_inv_heap[OF h(3)] C by (simp_all add: p'_def)
  have "free_inv p' (removeAll (Blk i) xs)"
  proof (rule free_invI[OF F])
    show "fq_repr p' (removeAll (Blk i) xs)" using frame_fq_repr[OF fr] h(2) by simp
    show "set (removeAll (Blk i) xs) \<subseteq> Blk ` {..<num_gpu_blocks p}" using D(2) by auto
    show "num_gpu_blocks p' = num_gpu_blocks p" "null_block p' = null_block p"
      "\<And>b. is_null (heap p' b) = is_null (heap p b)" using fr M(5) by (simp_all add: frame_def)
    show "\<not> is_null (heap p b)" if "b \<in> set (removeAll (Blk i) xs)" for b
      using that free_inv_mem(3)[OF F] by simp
    fix j assume j: "j < num_gpu_blocks p" "\<not> is_null (heap p (Blk j))"
    show "(Blk j \<in> set (removeAll (Blk i) xs) \<longleftrightarrow> ref_cnt (heap p' (Blk j)) = 0) \<and> 0 \<le> ref_cnt (heap p' (Blk j))"
      using D(5)[OF j(1)] D(7)[OF j] j(2) refs by auto
  qed
  moreover have "static p p'" by (rule static_trans[OF static_heap[OF h(3)] frame_static[OF fr]])
  ultimately show ?thesis using run refs C' by (auto simp: pool_inv_def)
qed

lemma touch_correct:
  assumes "pool_inv p xs" and "set bs \<subseteq> Blk ` {..<num_gpu_blocks p}"
  shows "\<exists>p'. touch bs p = Inr p' \<and> pool_inv p' (filter (\<lambda>b. b \<notin> set bs) xs) \<and> static p p' \<and>
    (\<forall>b. ref_cnt (heap p' b) = ref_cnt (heap p b) + int (count_list bs b)) \<and> hashes_of p' = hashes_of p"
  using assms
proof (induction bs arbitrary: p xs)
  case Nil
  then show ?case by (simp add: touch_def)
next
  case (Cons b bs)
  obtain i where b: "b = Blk i" "i < num_gpu_blocks p" using Cons.prems(2) by auto
  obtain q where q: "touch_one (Blk i) p = Inr q" "pool_inv q (removeAll (Blk i) xs)"
    "\<forall>b. ref_cnt (heap q b) = ref_cnt (heap p b) + (if b = Blk i then 1 else 0)"
    "static p q" "hashes_of q = hashes_of p"
    using touch_one_correct[OF Cons.prems(1) b(2)] by blast
  have "set bs \<subseteq> Blk ` {..<num_gpu_blocks q}" using Cons.prems(2) q(4) by (simp add: static_def)
  from Cons.IH[OF q(2) this] obtain p' where
    p': "touch bs q = Inr p'" "pool_inv p' (filter (\<lambda>b. b \<notin> set bs) (removeAll (Blk i) xs))"
    "\<forall>b. ref_cnt (heap p' b) = ref_cnt (heap q b) + int (count_list bs b)" "hashes_of p' = hashes_of q"
    "static q p'"
    by auto
  have "filter (\<lambda>b. b \<notin> set bs) (removeAll (Blk i) xs) = filter (\<lambda>c. c \<notin> set (b # bs)) xs"
    by (auto simp: b removeAll_filter_not_eq intro!: filter_cong)
  with p' q b static_trans[OF q(4) p'(5)] show ?case by (auto simp: touch_def)
qed

text \<open>The blocks a caller frees: each real block at most once and referenced at least once; the
  null block may occur any number of times.\<close>

definition freeable :: "block_pool \<Rightarrow> bref list \<Rightarrow> bool" where
  "freeable p bs \<longleftrightarrow> set bs \<subseteq> Blk ` {..<num_gpu_blocks p} \<and>
     distinct (filter (\<lambda>b. \<not> is_null (heap p b)) bs) \<and>
     (\<forall>b \<in> set bs. \<not> is_null (heap p b) \<longrightarrow> 0 < ref_cnt (heap p b))"

definition released :: "block_pool \<Rightarrow> bref list \<Rightarrow> bref list" where
  "released p bs = filter (\<lambda>b. \<not> is_null (heap p b) \<and> ref_cnt (heap p b) = 1) bs"

lemma free_loop_correct:
  assumes "distinct (filter (\<lambda>b. \<not> is_null (heap p b)) bs)"
  shows "\<exists>p'. free_loop bs p = (filter (\<lambda>b. block_hash (heap p b) = None) (released p bs),
      filter (\<lambda>b. block_hash (heap p b) \<noteq> None) (released p bs), p') \<and>
    frame p p' \<and> cache_inv p' = cache_inv p \<and> hashes_of p' = hashes_of p \<and>
    (\<forall>b. ref_cnt (heap p' b) = ref_cnt (heap p b) - int (count_list bs b)) \<and>
    (\<forall>b. block_hash (heap p' b) = block_hash (heap p b))"
  using assms
proof (induction bs arbitrary: p)
  case (Cons b bs)
  let ?q = "upd_block b (\<lambda>k. k\<lparr>ref_cnt := ref_cnt k - 1\<rparr>) p"
  have "filter (\<lambda>b. \<not> is_null (heap ?q b)) bs = filter (\<lambda>b. \<not> is_null (heap p b)) bs"
    by (intro filter_cong) auto
  with Cons.prems have d: "distinct (filter (\<lambda>b. \<not> is_null (heap ?q b)) bs)"
    by (simp split: if_splits)
  have meta: "is_null (heap ?q c) = is_null (heap p c)" "block_hash (heap ?q c) = block_hash (heap p c)" for c
    by simp_all
  have "c \<noteq> b" if "c \<in> set bs" "\<not> is_null (heap p c)" for c
    using that Cons.prems by auto
  then have rel: "released ?q bs = released p bs"
    unfolding released_def by (intro filter_cong) auto
  have filt: "filter (\<lambda>b. block_hash (heap ?q b) = None) xs = filter (\<lambda>b. block_hash (heap p b) = None) xs"
    "filter (\<lambda>b. block_hash (heap ?q b) \<noteq> None) xs = filter (\<lambda>b. block_hash (heap p b) \<noteq> None) xs" for xs
    by (auto intro!: filter_cong)
  obtain p' where p': "free_loop bs ?q = (filter (\<lambda>b. block_hash (heap p b) = None) (released p bs),
      filter (\<lambda>b. block_hash (heap p b) \<noteq> None) (released p bs), p')"
    "frame ?q p'" "cache_inv p' = cache_inv ?q" "hashes_of p' = hashes_of ?q"
    "\<forall>c. ref_cnt (heap p' c) = ref_cnt (heap ?q c) - int (count_list bs c)"
    "\<forall>c. block_hash (heap p' c) = block_hash (heap ?q c)"
    using Cons.IH[OF d] unfolding rel filt by blast
  have "frame p p'" by (rule frame_trans[OF _ p'(2)]) simp
  moreover have "\<forall>c. ref_cnt (heap p' c) = ref_cnt (heap p c) - int (count_list (b # bs) c)"
    using p'(5) by simp
  moreover have "\<forall>c. block_hash (heap p' c) = block_hash (heap p c)" using p'(6) by simp
  moreover have "free_loop (b # bs) p = (filter (\<lambda>b. block_hash (heap p b) = None) (released p (b # bs)),
      filter (\<lambda>b. block_hash (heap p b) \<noteq> None) (released p (b # bs)), p')"
    using p'(1) by (auto simp: released_def Let_def)
  ultimately show ?case using p'(3,4) by auto
qed (simp add: released_def)

lemma count_list_pos: "b \<in> set bs \<Longrightarrow> distinct (filter P bs) \<Longrightarrow> P b \<Longrightarrow> count_list bs b = 1"
proof (induction bs)
  case (Cons c bs)
  then show ?case by (cases "c = b") (auto simp: count_list_0_iff split: if_splits)
qed simp

lemma free_blocks_correct:
  assumes inv: "pool_inv p xs" and fr: "freeable p bs"
  defines "us \<equiv> filter (\<lambda>b. block_hash (heap p b) = None) (released p bs)"
    and "cs \<equiv> filter (\<lambda>b. block_hash (heap p b) \<noteq> None) (released p bs)"
  shows "\<exists>p'. free_blocks bs p = Inr p' \<and> pool_inv p' (us @ xs @ cs) \<and> static p p' \<and>
    (\<forall>b. ref_cnt (heap p' b) = ref_cnt (heap p b) - int (count_list bs b)) \<and>
    hashes_of p' = hashes_of p"
proof -
  have F: "free_inv p xs" and C: "cache_inv p" using inv by (auto simp: pool_inv_def)
  note D = free_invD[OF F]
  have B: "set bs \<subseteq> Blk ` {..<num_gpu_blocks p}" "distinct (filter (\<lambda>b. \<not> is_null (heap p b)) bs)"
    "\<And>b. b \<in> set bs \<Longrightarrow> \<not> is_null (heap p b) \<Longrightarrow> 0 < ref_cnt (heap p b)"
    using fr by (auto simp: freeable_def)
  obtain q where q: "free_loop bs p = (us, cs, q)" "frame p q" "cache_inv q = cache_inv p"
    "hashes_of q = hashes_of p"
    "\<forall>b. ref_cnt (heap q b) = ref_cnt (heap p b) - int (count_list bs b)"
    using free_loop_correct[OF B(2)] unfolding us_def cs_def by blast
  have rel: "b \<in> set (released p bs) \<longleftrightarrow> b \<in> set bs \<and> \<not> is_null (heap p b) \<and> ref_cnt (heap p b) = 1" for b
    by (auto simp: released_def)
  have dr: "distinct (released p bs)"
    using B(2) by (auto simp: released_def filter_filter[symmetric] distinct_filter simp flip: filter_filter)
  have uc: "set us \<union> set cs = set (released p bs)" "set us \<inter> set cs = {}" "distinct us" "distinct cs"
    using dr by (auto simp: us_def cs_def)
  have nx: "set (released p bs) \<inter> set xs = {}" using free_inv_mem(2)[OF F] rel by fastforce
  have nf: "FakeHead \<notin> set (released p bs)" "FakeTail \<notin> set (released p bs)" using rel B(1) by auto
  have f1: "fresh_for xs us" using uc nx nf by (auto simp: fresh_for_def)
  have f2: "fresh_for (us @ xs) cs" using uc nx nf by (auto simp: fresh_for_def)
  have "fq_repr q xs" using frame_fq_repr[OF q(2)] D(1) by simp
  from fq_prepend_n_front[OF this f1] obtain h1 m1 where
    1: "fq_prepend_n us q = Inr (q\<lparr>heap := h1, num_free_blocks := m1\<rparr>)"
    "fq_repr (q\<lparr>heap := h1, num_free_blocks := m1\<rparr>) (us @ xs)" "same_meta (heap q) h1" by blast
  from fq_append_n_snoc[OF 1(2) f2] obtain h m where
    2: "fq_append_n cs (q\<lparr>heap := h1, num_free_blocks := m1\<rparr>) = Inr (q\<lparr>heap := h, num_free_blocks := m\<rparr>)"
    "fq_repr (q\<lparr>heap := h, num_free_blocks := m\<rparr>) ((us @ xs) @ cs)" "same_meta h1 h" by auto
  let ?p = "q\<lparr>heap := h, num_free_blocks := m\<rparr>"
  have sm: "same_meta (heap q) h" by (rule same_meta_trans[OF 1(3) 2(3)])
  note M = same_metaD[OF sm]
  have run: "free_blocks bs p = Inr ?p" using q(1) 1(1) 2(1) by (simp add: free_blocks_def)
  have C': "cache_inv ?p" "hashes_of ?p = hashes_of p" using cache_inv_heap[OF sm] C q(3,4) by simp_all
  have refs: "ref_cnt (heap ?p b) = ref_cnt (heap p b) - int (count_list bs b)" for b using q(5) M(2) by simp
  have "free_inv ?p (us @ xs @ cs)"
  proof (rule free_invI[OF F])
    show "fq_repr ?p (us @ xs @ cs)" using 2(2) by simp
    show "set (us @ xs @ cs) \<subseteq> Blk ` {..<num_gpu_blocks p}" using uc(1) rel B(1) D(2) by auto
    show "num_gpu_blocks ?p = num_gpu_blocks p" "null_block ?p = null_block p"
      "\<And>b. is_null (heap ?p b) = is_null (heap p b)" using q(2) M(5) by (simp_all add: frame_def)
    show "\<not> is_null (heap p b)" if "b \<in> set (us @ xs @ cs)" for b
      using that uc(1) rel free_inv_mem(3)[OF F] by auto
    fix i assume i: "i < num_gpu_blocks p" "\<not> is_null (heap p (Blk i))"
    have mem: "Blk i \<in> set (us @ xs @ cs) \<longleftrightarrow> Blk i \<in> set (released p bs) \<or> Blk i \<in> set xs"
      using uc(1) by auto
    show "(Blk i \<in> set (us @ xs @ cs) \<longleftrightarrow> ref_cnt (heap ?p (Blk i)) = 0) \<and> 0 \<le> ref_cnt (heap ?p (Blk i))"
    proof (cases "Blk i \<in> set bs")
      case True
      then have "count_list bs (Blk i) = 1" using count_list_pos[OF True B(2)] i(2) by simp
      then show ?thesis
        unfolding mem refs rel using True i D(5)[OF i(1)] B(3)[OF True i(2)] by auto
    next
      case False
      then have "count_list bs (Blk i) = 0" by (simp add: count_list_0_iff)
      then show ?thesis unfolding mem refs rel using False i D(5)[OF i(1)] D(7)[OF i] by simp
    qed
  qed
  moreover have "static p ?p" by (rule static_trans[OF frame_static[OF q(2)] static_heap[OF sm]])
  ultimately show ?thesis using run C' refs by (auto simp: pool_inv_def)
qed

section \<open>Eviction and reset\<close>

lemma pool_inv_frame: "pool_inv p xs \<Longrightarrow> frame p p' \<Longrightarrow> same_refs p p' \<Longrightarrow> cache_inv p' \<Longrightarrow> pool_inv p' xs"
  by (simp add: pool_inv_def frame_free_inv)

lemma evict_one_correct:
  assumes "pool_inv p xs" and "i < num_gpu_blocks p"
  shows "\<exists>p'. evict_one (int i) p = Inr p' \<and> pool_inv p' xs \<and> frame p p' \<and> same_refs p p' \<and>
    (\<forall>j. hashes_of p' (Blk j) = (if j = i then [] else hashes_of p (Blk j)))"
proof -
  have C: "cache_inv p" using assms(1) by (simp add: pool_inv_def)
  obtain p' where p': "maybe_evict_cached_block (Blk i) p = (hashes_of p (Blk i) \<noteq> [], p')" "cache_inv p'"
    "frame p p'" "same_refs p p'" "\<forall>j. hashes_of p' (Blk j) = (if j = i then [] else hashes_of p (Blk j))"
    using maybe_evict_correct[OF C] by blast
  then show ?thesis
    using pool_inv_frame[OF assms(1) p'(3,4,2)] assms(2) by (simp add: evict_one_def block_at_def)
qed

lemma evict_blocks_correct:
  assumes "pool_inv p xs" and "\<forall>i \<in> set is. i < num_gpu_blocks p"
  shows "\<exists>p'. evict_blocks (map int is) p = Inr p' \<and> pool_inv p' xs \<and> same_refs p p' \<and> static p p' \<and>
    (\<forall>j. hashes_of p' (Blk j) = (if j \<in> set is then [] else hashes_of p (Blk j)))"
  using assms
proof (induction "is" arbitrary: p)
  case Nil
  then show ?case by (simp add: evict_blocks_def)
next
  case (Cons i "is")
  obtain q where q: "evict_one (int i) p = Inr q" "pool_inv q xs" "frame p q" "same_refs p q"
    "\<forall>j. hashes_of q (Blk j) = (if j = i then [] else hashes_of p (Blk j))"
    using evict_one_correct[OF Cons.prems(1)] Cons.prems(2) by (metis list.set_intros(1))
  have "\<forall>i \<in> set is. i < num_gpu_blocks q" using Cons.prems(2) q(3) by (simp add: frame_def)
  from Cons.IH[OF q(2) this] q show ?case
    by (auto simp: evict_blocks_def intro: same_refs_trans static_trans[OF frame_static[OF q(3)]])
qed

lemma fold_reset_hash:
  "heap (fold (\<lambda>i. upd_block (Blk i) reset_hash) is p) b =
     (if b \<in> Blk ` set is then reset_hash (heap p b) else heap p b) \<and>
   frame p (fold (\<lambda>i. upd_block (Blk i) reset_hash) is p) \<and>
   same_refs p (fold (\<lambda>i. upd_block (Blk i) reset_hash) is p) \<and>
   cached_block_hash_to_block (fold (\<lambda>i. upd_block (Blk i) reset_hash) is p) = cached_block_hash_to_block p \<and>
   cached_block_hashes_by_block (fold (\<lambda>i. upd_block (Blk i) reset_hash) is p) = cached_block_hashes_by_block p"
proof (induction "is" arbitrary: p)
  case (Cons i "is")
  let ?q = "upd_block (Blk i) reset_hash p"
  have F: "frame p ?q" "same_refs p ?q" by (simp_all add: frame_def same_refs_def)
  note IH = Cons[of ?q]
  have "heap (fold (\<lambda>i. upd_block (Blk i) reset_hash) is ?q) b =
      (if b \<in> Blk ` set (i # is) then reset_hash (heap p b) else heap p b)"
    using IH by (cases "b = Blk i") auto
  with IH frame_trans[OF F(1)] same_refs_trans[OF F(2)] show ?case by simp
qed simp

lemma reset_prefix_cache_correct:
  assumes inv: "pool_inv p xs"
  defines "r \<equiv> reset_prefix_cache p"
  shows "fst r \<longleftrightarrow> num_gpu_blocks p = Suc (length xs)"
    and "\<not> fst r \<Longrightarrow> snd r = p"
    and "pool_inv (snd r) xs"
    and "fst r \<Longrightarrow> (\<forall>i. hashes_of (snd r) (Blk i) = []) \<and> cached_block_hash_to_block (snd r) = Map.empty"
    and "same_refs p (snd r) \<and> static p (snd r)"
proof -
  have F: "free_inv p xs" and C: "cache_inv p" using inv by (auto simp: pool_inv_def)
  note D = free_invD[OF F]
  show ok: "fst r \<longleftrightarrow> num_gpu_blocks p = Suc (length xs)"
    using D(4) by (auto simp: r_def reset_prefix_cache_def get_num_free_blocks_def Let_def)
  show "\<not> fst r \<Longrightarrow> snd r = p"
    by (auto simp: r_def reset_prefix_cache_def Let_def)
  let ?p1 = "p\<lparr>cached_block_hash_to_block := Map.empty, cached_block_hashes_by_block := []\<rparr>"
  let ?p2 = "fold (\<lambda>i. upd_block (Blk i) reset_hash) [0..<num_gpu_blocks p] ?p1"
  note R = fold_reset_hash[of "[0..<num_gpu_blocks p]" ?p1]
  have "frame p ?p1" "same_refs p ?p1" by (simp_all add: frame_def same_refs_def)
  then have fr: "frame p ?p2" "same_refs p ?p2" using R frame_trans same_refs_trans by blast+
  have none: "block_hash (heap ?p2 (Blk i)) = None \<and> block_hash_num_tokens (heap ?p2 (Blk i)) = None" for i
    using R[of "Blk i"] cache_invD(6,7)[OF C, of i] by (cases "i < num_gpu_blocks p") auto
  have ido: "idof ?p2 (Blk i) = int i" for i
    using fr(1) cache_invD(1)[OF C] by (simp add: idof_def frame_def)
  have H: "hashes_of ?p2 (Blk i) = []" for i
    using none R by (simp add: hashes_of_def secondary_hashes_def)
  have C2: "cache_inv ?p2"
    using none ido H R by (auto simp: cache_inv_def intro!: hm_wf_empty)
  define p4 where "p4 = (let p3 = log_metric OnReset ?p2
      in if enable_kv_cache_events p then p3\<lparr>kv_event_queue := kv_event_queue p3 @ [AllBlocksCleared]\<rparr> else p3)"
  have p4: "frame p p4" "same_refs p p4" "cache_inv p4 = cache_inv ?p2" "hashes_of p4 = hashes_of ?p2"
    "cached_block_hash_to_block p4 = cached_block_hash_to_block ?p2" "heap p4 = heap ?p2"
  proof -
    show "cache_inv p4 = cache_inv ?p2" "hashes_of p4 = hashes_of ?p2"
      by (rule cache_inv_cong; simp add: p4_def log_metric_def Let_def)+
  qed (use fr in \<open>simp_all add: p4_def Let_def frame_def same_refs_def log_metric_def\<close>)
  have "r = (if num_gpu_blocks p = Suc (length xs) then (True, p4) else (False, p))"
    using fr(1) D(4) by (auto simp: r_def reset_prefix_cache_def get_num_free_blocks_def p4_def Let_def
        frame_def log_metric_def)
  then have r: "snd r = (if fst r then p4 else p)" by simp
  show "pool_inv (snd r) xs"
    using inv pool_inv_frame[OF inv p4(1,2)] p4(3) C2 by (simp add: r)
  show "(\<forall>i. hashes_of (snd r) (Blk i) = []) \<and> cached_block_hash_to_block (snd r) = Map.empty" if "fst r"
  proof -
    have "cached_block_hash_to_block ?p2 = Map.empty" using R by simp
    then show ?thesis using that p4(4,5) H by (simp add: r)
  qed
  show "same_refs p (snd r) \<and> static p (snd r)" using p4(2) frame_static[OF p4(1)] by (simp add: r)
qed

section \<open>Registration of full and partial blocks\<close>

lemma hl_from_nth:
  assumes "hl_from l a = Inr hs" and "k < length hs"
  shows "hl_get l (a + k) = Inr (hs ! k)"
proof (cases l)
  case (Raw xs)
  with assms show ?thesis by (auto simp: hl_from_def hl_get_def)
next
  case (View xs scale)
  with assms obtain n where n: "map_res (hl_get l) [min a n..<n] = Inr hs" by (auto simp: hl_from_def)
  then have "list_all2 (\<lambda>x y. hl_get l x = Inr y) [min a n..<n] hs" by (simp add: map_res_Inr_iff)
  with assms(2) have k: "k < n - min a n" and "hl_get l ([min a n..<n] ! k) = Inr (hs ! k)"
    by (auto simp: list_all2_conv_all_nth)
  moreover have "min a n = a" using k by (simp add: min_def split: if_splits)
  ultimately show ?thesis by simp
qed

lemma remove_emit_correct:
  assumes "cache_inv p"
  shows "\<exists>q. (case remove_cached_block_hashes (Blk i) p of
      (removed, p1) \<Rightarrow> emit_block_removed_events removed p1) = q \<and>
    cache_inv q \<and> frame p q \<and> same_refs p q \<and>
    (\<forall>j. hashes_of q (Blk j) = (if j = i then [] else hashes_of p (Blk j)))"
proof -
  obtain q where "remove_cached_block_hashes (Blk i) p = (hashes_of p (Blk i), q)" "cache_inv q"
    "frame p q" "same_refs p q" "\<forall>j. hashes_of q (Blk j) = (if j = i then [] else hashes_of p (Blk j))"
    using remove_hashes_correct[OF assms] by blast
  then show ?thesis by simp
qed

lemma cache_one_full_correct:
  assumes inv: "cache_inv p" and j: "j < num_gpu_blocks p"
    and run: "cache_one_full hs nc bs gid block_mask (k, Blk j) (p, out) = Inr (p', out')"
  shows "cache_inv p' \<and> frame p p' \<and> same_refs p p' \<and>
    (\<forall>l. l \<noteq> j \<longrightarrow> hashes_of p' (Blk l) = hashes_of p (Blk l)) \<and>
    (is_null (heap p (Blk j)) \<or> (\<exists>m. block_mask = Some m \<and> \<not> m ! k) \<or>
     k < length hs \<and> (\<exists>key. make_block_hash_with_group_id (hs ! k) gid = Inr key \<and>
       key \<in> set (hashes_of p' (Blk j))))"
proof (cases "is_null (heap p (Blk j)) \<or> (\<exists>m. block_mask = Some m \<and> \<not> m ! k)")
  case True
  with run inv show ?thesis by (auto simp: cache_one_full_def)
next
  case False
  let ?n = "int ((nc + k + 1) * bs)"
  define q where "q = (if block_hash (heap p (Blk j)) \<noteq> None
    then case remove_cached_block_hashes (Blk j) p of (removed, p1) \<Rightarrow> emit_block_removed_events removed p1
    else p)"
  have "cache_inv q \<and> frame p q \<and> same_refs p q \<and> (\<forall>l. l \<noteq> j \<longrightarrow> hashes_of q (Blk l) = hashes_of p (Blk l))"
    using remove_emit_correct[OF inv, of j] inv by (auto simp: q_def)
  moreover obtain key where key: "make_block_hash_with_group_id (hs ! k) gid = Inr key"
    and k: "k < length hs" and ins: "insert_block_hash key (Blk j) (Some ?n) q = Inr p'"
    using run False
    by (auto simp: cache_one_full_def q_def Let_def case_prod_unfold split: if_splits)
  moreover have "j < num_gpu_blocks q" using calculation j by (simp add: frame_def)
  ultimately show ?thesis
    using insert_hash_correct[of q j key "Some ?n"] frame_trans same_refs_trans by auto
qed

lemma cache_loop_correct:
  assumes "cache_inv p" and "set bs \<subseteq> Blk ` {..<num_gpu_blocks p}"
    and "fold_res (cache_one_full hs nc sz gid block_mask) (enumerate n bs) (p, out) = Inr (p', out')"
  shows "cache_inv p' \<and> frame p p' \<and> same_refs p p' \<and>
    (\<forall>l. Blk l \<notin> set (filter (\<lambda>b. \<not> is_null (heap p b)) bs) \<longrightarrow>
      is_null (heap p (Blk l)) \<or> hashes_of p' (Blk l) = hashes_of p (Blk l))"
    and "distinct (filter (\<lambda>b. \<not> is_null (heap p b)) bs) \<Longrightarrow> i < length bs \<Longrightarrow>
      \<not> is_null (heap p (bs ! i)) \<Longrightarrow> (\<And>m. block_mask = Some m \<Longrightarrow> m ! (n + i)) \<Longrightarrow>
      n + i < length hs \<and> (\<exists>key. make_block_hash_with_group_id (hs ! (n + i)) gid = Inr key \<and>
        key \<in> set (hashes_of p' (bs ! i)))"
  using assms
proof (induction bs arbitrary: p out n i)
  case Nil
  { case 1 then show ?case by simp next case 2 then show ?case by simp }
next
  case (Cons b bs)
  have step: "\<exists>j q out1. b = Blk j \<and> j < num_gpu_blocks p \<and>
      cache_one_full hs nc sz gid block_mask (n, b) (p, out) = Inr (q, out1) \<and>
      fold_res (cache_one_full hs nc sz gid block_mask) (enumerate (Suc n) bs) (q, out1) = Inr (p', out')"
    if "set (b # bs) \<subseteq> Blk ` {..<num_gpu_blocks p}"
      "fold_res (cache_one_full hs nc sz gid block_mask) (enumerate n (b # bs)) (p, out) = Inr (p', out')"
    for p n out
    using that by auto
  have null_eq: "is_null (heap q c) = is_null (heap p c)" if "frame p q" for p q c
    using that by (simp add: frame_def)
  { case 1
    from step[OF 1(2,3)] obtain j q out1 where j: "b = Blk j" "j < num_gpu_blocks p"
      and q: "cache_one_full hs nc sz gid block_mask (n, Blk j) (p, out) = Inr (q, out1)"
      and rest: "fold_res (cache_one_full hs nc sz gid block_mask) (enumerate (Suc n) bs) (q, out1) = Inr (p', out')"
      by blast
    note S = cache_one_full_correct[OF 1(1) j(2) q]
    have sub: "set bs \<subseteq> Blk ` {..<num_gpu_blocks q}" using 1(2) S by (simp add: frame_def)
    from Cons.IH(1)[OF _ sub rest] S have I: "cache_inv p'" "frame p p'" "same_refs p p'"
      "\<forall>l. Blk l \<notin> set (filter (\<lambda>b. \<not> is_null (heap q b)) bs) \<longrightarrow>
        is_null (heap q (Blk l)) \<or> hashes_of p' (Blk l) = hashes_of q (Blk l)"
      using frame_trans same_refs_trans by blast+
    have "is_null (heap p (Blk l)) \<or> hashes_of p' (Blk l) = hashes_of p (Blk l)"
      if "Blk l \<notin> set (filter (\<lambda>b. \<not> is_null (heap p b)) (b # bs))" for l
    proof (cases "is_null (heap p (Blk l))")
      case False
      then have "l \<noteq> j" "Blk l \<notin> set (filter (\<lambda>b. \<not> is_null (heap q b)) bs)" "\<not> is_null (heap q (Blk l))"
        using that j(1) null_eq[of p q] S unfolding set_filter by auto
      then show ?thesis using I(4) S by auto
    qed simp
    with I show ?case by blast }
  { case 2
    from step[OF 2(6,7)] obtain j q out1 where j: "b = Blk j" "j < num_gpu_blocks p"
      and q: "cache_one_full hs nc sz gid block_mask (n, Blk j) (p, out) = Inr (q, out1)"
      and rest: "fold_res (cache_one_full hs nc sz gid block_mask) (enumerate (Suc n) bs) (q, out1) = Inr (p', out')"
      by blast
    note S = cache_one_full_correct[OF 2(5) j(2) q]
    have sub: "set bs \<subseteq> Blk ` {..<num_gpu_blocks q}" using 2(6) S by (simp add: frame_def)
    have fq: "filter (\<lambda>b. \<not> is_null (heap q b)) bs = filter (\<lambda>b. \<not> is_null (heap p b)) bs"
      using null_eq[of p q] S by (intro filter_cong) auto
    show ?case
    proof (cases i)
      case 0
      then have nn: "\<not> is_null (heap p (Blk j))" using 2(3) j by simp
      then have "Blk j \<notin> set (filter (\<lambda>b. \<not> is_null (heap q b)) bs)"
        using 2(1) j unfolding fq by simp
      moreover have "\<not> is_null (heap q (Blk j))" using nn null_eq[of p q] S by simp
      ultimately have "hashes_of p' (Blk j) = hashes_of q (Blk j)"
        using Cons.IH(1)[OF _ sub rest] S by blast
      with S 0 2(3,4) j show ?thesis by auto
    next
      case (Suc i')
      have "distinct (filter (\<lambda>b. \<not> is_null (heap q b)) bs)" using 2(1) unfolding fq by (simp split: if_splits)
      moreover have "i' < length bs" "\<not> is_null (heap q (bs ! i'))"
        using 2(2,3) Suc null_eq[of p q] S by auto
      ultimately show ?thesis
        using Cons.IH(2)[of q i' "Suc n", OF _ _ _ _ _ sub rest] 2(4) S Suc by auto
    qed }
qed

end
