(* ===== verification/PoolProps.thy ===== *)
theory PoolProps
  imports BlockPool
begin

text \<open>
  What the block pool promises its callers: the operations of \<open>BlockPool\<close> preserve the
  pool invariant on every reachable state, allocation never hands out a block twice, freed
  blocks are evicted in the order the code documents, and the prefix cache answers exactly for
  the hashes registered on blocks.
\<close>

section \<open>Whole operations\<close>

lemma cache_full_blocks_run:
  assumes run: "cache_full_blocks sha r blocks nc nf bsz gid block_mask p = Inr (r', p')" and "\<not> nf \<le> nc"
  shows "\<exists>hl hs p1 out es.
    resolve_block_hashes (Raw (block_hashes r)) (hash_block_size p) bsz False None = Inr hl \<and>
    hl_from hl nc = Inr hs \<and>
    fold_res (cache_one_full hs nc bsz gid block_mask) (enumerate 0 (slice nc nf blocks)) (p, []) = Inr (p1, out) \<and>
    p' = p1\<lparr>kv_event_queue := kv_event_queue p1 @ es\<rparr>"
proof -
  note run' = run[unfolded cache_full_blocks_def if_not_P[OF assms(2)] Let_def bind_res_eq_Inr]
  then obtain hl hs st where
    st: "resolve_block_hashes (Raw (block_hashes r)) (hash_block_size p) bsz False None = Inr hl"
    "hl_from hl nc = Inr hs"
    "fold_res (cache_one_full hs nc bsz gid block_mask) (enumerate 0 (slice nc nf blocks)) (p, []) = Inr st"
    and rest: "(case st of (p1, out) \<Rightarrow> if \<not> enable_kv_cache_events p then Inr (r, p1) else
      bind_res (if nc = 0 then Inr None else bind_res (hl_get hl (nc - 1))
          (\<lambda>h. Inr (Some (maybe_convert_block_hash (use_int_block_hashes p) h)))) (\<lambda>parent.
        bind_res (event_extra_keys sha bsz (filter (\<lambda>i. \<not> is_null (heap p1 (blocks ! i)) \<and>
            (\<forall>m. block_mask = Some m \<longrightarrow> m ! (i - nc))) [nc..<min nf (length blocks)]) 0 r) (\<lambda>(extra, r').
        bind_res (check_res (nf \<le> length blocks) (IndexError ''list index out of range'')) (\<lambda>_.
          Inr (r', p1\<lparr>kv_event_queue := kv_event_queue p1 @
            [build_block_stored_event r' out parent (nc * bsz) (nf * bsz) bsz gid extra]\<rparr>))))) = Inr (r', p')"
    by (elim exE conjE) (rule that)
  obtain p1 out where so: "st = (p1, out)" by force
  have "\<exists>es. p' = p1\<lparr>kv_event_queue := kv_event_queue p1 @ es\<rparr>"
  proof (cases "enable_kv_cache_events p")
    case True
    with rest show ?thesis unfolding so by (auto simp: case_prod_unfold)
  next
    case False
    with rest show ?thesis unfolding so by (intro exI[of _ "[]"]) simp
  qed
  with st so show ?thesis by blast
qed

lemma cache_full_blocks_correct:
  assumes inv: "pool_inv p xs" and bs: "set blocks \<subseteq> Blk ` {..<num_gpu_blocks p}"
    and run: "cache_full_blocks sha r blocks nc nf bsz gid block_mask p = Inr (r', p')"
  shows "pool_inv p' xs \<and> same_refs p p' \<and> frame p p'"
    and "distinct (filter (\<lambda>b. \<not> is_null (heap p b)) (slice nc nf blocks)) \<Longrightarrow>
      nc \<le> i \<Longrightarrow> i < nf \<Longrightarrow> i < length blocks \<Longrightarrow> \<not> is_null (heap p (blocks ! i)) \<Longrightarrow>
      (\<And>m. block_mask = Some m \<Longrightarrow> m ! (i - nc)) \<Longrightarrow>
      \<exists>hl h key. resolve_block_hashes (Raw (block_hashes r)) (hash_block_size p) bsz False None = Inr hl \<and>
        hl_get hl i = Inr h \<and> make_block_hash_with_group_id h gid = Inr key \<and>
        key \<in> set (hashes_of p' (blocks ! i))"
proof -
  let ?new = "slice nc nf blocks"
  have C: "cache_inv p" using inv by (auto simp: pool_inv_def)
  have sub: "set ?new \<subseteq> Blk ` {..<num_gpu_blocks p}" using bs set_slice[of nc nf blocks] by blast
  have *: "\<exists>hl hs p1 out. resolve_block_hashes (Raw (block_hashes r)) (hash_block_size p) bsz False None = Inr hl \<and>
      hl_from hl nc = Inr hs \<and>
      fold_res (cache_one_full hs nc bsz gid block_mask) (enumerate 0 ?new) (p, []) = Inr (p1, out) \<and>
      cache_inv p' = cache_inv p1 \<and> hashes_of p' = hashes_of p1 \<and> frame p p' \<and> same_refs p p' \<and> cache_inv p1"
    if "\<not> nf \<le> nc"
  proof -
    from cache_full_blocks_run[OF run that] obtain hl hs p1 out es where
      hl: "resolve_block_hashes (Raw (block_hashes r)) (hash_block_size p) bsz False None = Inr hl"
      and hs: "hl_from hl nc = Inr hs"
      and loop: "fold_res (cache_one_full hs nc bsz gid block_mask) (enumerate 0 ?new) (p, []) = Inr (p1, out)"
      and p': "p' = p1\<lparr>kv_event_queue := kv_event_queue p1 @ es\<rparr>" by blast
    note L = cache_loop_correct(1)[OF C sub loop]
    have "cache_inv p' = cache_inv p1" "hashes_of p' = hashes_of p1"
      by (rule cache_inv_cong; simp add: p')+
    moreover have "frame p p'" "same_refs p p'" using L by (simp_all add: p' frame_def same_refs_def)
    ultimately show ?thesis using hl hs loop L by blast
  qed
  show "pool_inv p' xs \<and> same_refs p p' \<and> frame p p'"
  proof (cases "nf \<le> nc")
    case True
    with run inv show ?thesis by (simp add: cache_full_blocks_def)
  next
    case False
    from *[OF this] show ?thesis using pool_inv_frame[OF inv, of p'] by blast
  qed
  assume d: "distinct (filter (\<lambda>b. \<not> is_null (heap p b)) ?new)" and i: "nc \<le> i" "i < nf" "i < length blocks"
    and n: "\<not> is_null (heap p (blocks ! i))" and m: "\<And>m. block_mask = Some m \<Longrightarrow> m ! (i - nc)"
  from * i(1,2) obtain hl hs p1 out where
    hl: "resolve_block_hashes (Raw (block_hashes r)) (hash_block_size p) bsz False None = Inr hl"
    and hs: "hl_from hl nc = Inr hs"
    and loop: "fold_res (cache_one_full hs nc bsz gid block_mask) (enumerate 0 ?new) (p, []) = Inr (p1, out)"
    and same: "hashes_of p' = hashes_of p1" by (meson leD le_trans)
  have k: "?new ! (i - nc) = blocks ! i" "i - nc < length ?new" using i by (simp_all add: slice_nth diff_less_mono)
  have "\<not> is_null (heap p (?new ! (i - nc)))" using n k by simp
  from cache_loop_correct(2)[OF C sub loop d k(2) this] m obtain key where key: "i - nc < length hs"
    "make_block_hash_with_group_id (hs ! (i - nc)) gid = Inr key" "key \<in> set (hashes_of p1 (blocks ! i))"
    by (auto simp: k(1))
  have "hl_get hl (nc + (i - nc)) = Inr (hs ! (i - nc))" by (rule hl_from_nth[OF hs key(1)])
  then show "\<exists>hl h key. resolve_block_hashes (Raw (block_hashes r)) (hash_block_size p) bsz False None = Inr hl \<and>
      hl_get hl i = Inr h \<and> make_block_hash_with_group_id h gid = Inr key \<and>
      key \<in> set (hashes_of p' (blocks ! i))"
    using hl key(2,3) same i(1) by auto
qed

lemma cache_partial_block_correct:
  assumes inv: "pool_inv p xs" and i: "i < num_gpu_blocks p"
    and run: "cache_partial_block sha r (Blk i) nt gid bsz p = Inr (k, r', p')"
  shows "pool_inv p' xs \<and> same_refs p p' \<and> frame p p' \<and>
    (if is_null (heap p (Blk i)) then k = None \<and> p' = p
     else \<exists>h key. get_partial_block_hash r nt p = Inr h \<and> make_block_hash_with_group_id h gid = Inr key \<and>
       k = Some key \<and> key \<in> set (hashes_of p' (Blk i)))"
proof (cases "is_null (heap p (Blk i))")
  case True
  with run inv show ?thesis by (simp add: cache_partial_block_def)
next
  case False
  have C: "cache_inv p" using inv by (simp add: pool_inv_def)
  let ?n = "nt div hash_block_size p * hash_block_size p"
  define q where "q already = (if \<not> already \<and> block_hash (heap p (Blk i)) \<noteq> None \<and>
      (\<exists>m. block_hash_num_tokens (heap p (Blk i)) = Some m \<and> m < int ?n)
    then case remove_cached_block_hashes (Blk i) p of (removed, q) \<Rightarrow> emit_block_removed_events removed q
    else p)" for already
  have q: "cache_inv (q a)" "frame p (q a)" "same_refs p (q a)" for a
    using remove_emit_correct[OF C, of i] C by (auto simp: q_def)
  note run' = run[unfolded cache_partial_block_def if_not_P[OF False] Let_def bind_res_eq_Inr]
  obtain h key a p2 where h: "get_partial_block_hash r nt p = Inr h"
    and key: "make_block_hash_with_group_id h gid = Inr key"
    and ins: "insert_block_hash key (Blk i) (Some (int ?n)) (q a) = Inr p2"
    and fin: "k = Some key \<and> (\<exists>es. p' = p2\<lparr>kv_event_queue := kv_event_queue p2 @ es\<rparr>)"
  proof -
    from run' obtain h key p2 where h: "get_partial_block_hash r nt p = Inr h"
      and key: "make_block_hash_with_group_id h gid = Inr key"
      and ins: "insert_block_hash key (Blk i) (Some (int ?n)) (q (block_hash (heap p (Blk i)) = Some key \<or>
        hm_contain (idof p) (cached_block_hash_to_block p) key (idof p (Blk i)))) = Inr p2"
      and fin: "(if \<not> (enable_kv_cache_events p \<and> \<not> (block_hash (heap p (Blk i)) = Some key \<or>
            hm_contain (idof p) (cached_block_hash_to_block p) key (idof p (Blk i)))) then Inr (Some key, r, p2)
          else bind_res (generate_block_hash_extra_keys sha r ((nt div hash_block_size p - 1) * hash_block_size p) nt
                (if 0 < (nt div hash_block_size p - 1) * hash_block_size p then -1 else 0)) (\<lambda>(extra, _, r').
            Inr (Some key, r', p2\<lparr>kv_event_queue := kv_event_queue p2 @
              [BlockStored [maybe_convert_block_hash (use_int_block_hashes p) h]
                (map_option (maybe_convert_block_hash (use_int_block_hashes p))
                  (if 1 < nt div hash_block_size p then Some (block_hashes r ! (nt div hash_block_size p - 2)) else None))
                (slice ((nt div hash_block_size p - 1) * hash_block_size p) nt (all_token_ids r'))
                (nt - (nt div hash_block_size p - 1) * hash_block_size p)
                (map_option lora_int_id (lora r)) (map_option lora_name (lora r)) (Some [extra]) gid]\<rparr>))) =
          Inr (k, r', p')"
      by (elim exE conjE) (rule that[unfolded q_def])
    have "k = Some key \<and> (\<exists>es. p' = p2\<lparr>kv_event_queue := kv_event_queue p2 @ es\<rparr>)"
      using fin by (auto simp: case_prod_unfold split: if_splits intro: exI[of _ "[]"])
    with h key ins show ?thesis by (rule that)
  qed
  have "i < num_gpu_blocks (q a)" using i q(2)[of a] by (simp add: frame_def)
  from insert_hash_correct[OF q(1) this, of key "Some (int ?n)"] ins
  have I: "cache_inv p2" "frame (q a) p2" "same_refs (q a) p2" "key \<in> set (hashes_of p2 (Blk i))"
    by (auto split: if_splits)
  obtain es where p': "p' = p2\<lparr>kv_event_queue := kv_event_queue p2 @ es\<rparr>" using fin by blast
  have "cache_inv p' = cache_inv p2" "hashes_of p' = hashes_of p2"
    by (rule cache_inv_cong; simp add: p')+
  moreover have "frame p p2" "same_refs p p2"
    using frame_trans[OF q(2) I(2)] same_refs_trans[OF q(3) I(3)] by simp_all
  then have "frame p p'" "same_refs p p'" by (simp_all add: p' frame_def same_refs_def)
  ultimately show ?thesis
    using pool_inv_frame[OF inv, of p'] I False h key fin by auto
qed

lemma insert_all_correct:
  assumes "cache_inv p" and "i < num_gpu_blocks p" and "distinct hs"
    and "set hs \<inter> set (hashes_of p (Blk i)) = {}"
  shows "\<exists>p'. fold_res (\<lambda>h. insert_block_hash h (Blk i) n) hs p = Inr p' \<and> cache_inv p' \<and> frame p p' \<and>
    same_refs p p' \<and> kv_event_queue p' = kv_event_queue p \<and>
    (\<forall>j. hashes_of p' (Blk j) = (if j = i then hashes_of p (Blk i) @ hs else hashes_of p (Blk j)))"
  using assms
proof (induction hs arbitrary: p)
  case (Cons h hs)
  obtain q where q: "insert_block_hash h (Blk i) n p = Inr q" "cache_inv q" "frame p q" "same_refs p q"
    "kv_event_queue q = kv_event_queue p"
    "\<forall>j. hashes_of q (Blk j) = (if j = i then hashes_of p (Blk i) @ [h] else hashes_of p (Blk j))"
    using insert_hash_correct[OF Cons.prems(1,2), of h n] Cons.prems(4) by auto
  have "i < num_gpu_blocks q" using Cons.prems(2) q(3) by (simp add: frame_def)
  moreover have "set hs \<inter> set (hashes_of q (Blk i)) = {}" using q(6) Cons.prems(3,4) by auto
  ultimately show ?case
    using Cons.IH[OF q(2)] Cons.prems(3) q frame_trans[OF q(3)] same_refs_trans[OF q(4)] by auto
qed simp

lemma move_block_hashes_correct:
  assumes inv: "pool_inv p xs" and d: "d < num_gpu_blocks p" and none: "block_hash (heap p (Blk d)) = None"
    and "s \<noteq> d"
  shows "\<exists>p'. move_block_hashes (Blk s) (Blk d) p = Inr p' \<and> pool_inv p' xs \<and> same_refs p p' \<and> static p p' \<and>
    kv_event_queue p' = kv_event_queue p \<and>
    (\<forall>j. hashes_of p' (Blk j) =
      (if j = d then hashes_of p (Blk s) else if j = s then [] else hashes_of p (Blk j)))"
proof -
  have C: "cache_inv p" using inv by (simp add: pool_inv_def)
  note D = cache_invD[OF C]
  obtain q where q: "remove_cached_block_hashes (Blk s) p = (hashes_of p (Blk s), q)" "cache_inv q" "frame p q"
    "same_refs p q" "kv_event_queue q = kv_event_queue p"
    "\<forall>j. hashes_of q (Blk j) = (if j = s then [] else hashes_of p (Blk j))"
    using remove_hashes_correct[OF C] by blast
  have e: "hashes_of p (Blk d) = []" by (rule cache_inv_unhashed[OF C none])
  have "d < num_gpu_blocks q" using d q(3) by (simp add: frame_def)
  from insert_all_correct[OF q(2) this D(4), of s "block_hash_num_tokens (heap p (Blk s))"] q(6) e \<open>s \<noteq> d\<close>
  obtain p' where p': "fold_res (\<lambda>h. insert_block_hash h (Blk d) (block_hash_num_tokens (heap p (Blk s))))
      (hashes_of p (Blk s)) q = Inr p'" "cache_inv p'" "frame q p'" "same_refs q p'"
    "kv_event_queue p' = kv_event_queue q"
    "\<forall>j. hashes_of p' (Blk j) = (if j = d then hashes_of p (Blk s) else hashes_of q (Blk j))"
    by auto
  have "move_block_hashes (Blk s) (Blk d) p = Inr p'"
    using none D(1,5) q(1) p'(1) by (simp add: move_block_hashes_def Let_def)
  moreover have "pool_inv p' xs"
    using pool_inv_frame[OF inv frame_trans[OF q(3) p'(3)] same_refs_trans[OF q(4) p'(4)] p'(2)] .
  ultimately show ?thesis
    using p' q same_refs_trans[OF q(4) p'(4)] frame_static[OF frame_trans[OF q(3) p'(3)]] by auto
qed

lemma pool_init_correct:
  assumes "0 < n"
  shows "\<exists>p. pool_init n caching hbs ev ih met = Inr p \<and> pool_inv p (map Blk [1..<n]) \<and>
    null_block p = Blk 0 \<and> num_gpu_blocks p = n \<and> enable_caching p = caching \<and> hash_block_size p = hbs \<and>
    enable_kv_cache_events p = ev \<and>
    (\<forall>i. i < n \<longrightarrow> (is_null (heap p (Blk i)) \<longleftrightarrow> i = 0) \<and> ref_cnt (heap p (Blk i)) = 0) \<and>
    (\<forall>i. hashes_of p (Blk i) = [])"
proof -
  let ?bs = "map Blk [0..<n]"
  let ?q0 = "fq_init ?bs initial_heap"
  have bs: "?bs = Blk 0 # map Blk [1..<n]" using assms by (simp add: upt_conv_Cons)
  have R: "fq_repr ?q0 ?bs"
    by (rule fq_init_repr) (auto simp: distinct_map inj_on_def detached_def initial_heap_def new_block_def)
  have meta0: "same_meta (initial_heap(FakeHead := heap ?q0 FakeHead, FakeTail := heap ?q0 FakeTail)) (heap ?q0)"
    by (rule fq_init_meta) (auto simp: distinct_map inj_on_def)
  obtain h m where h: "fq_popleft ?q0 = Inr (Blk 0, ?q0\<lparr>heap := h, num_free_blocks := m\<rparr>)"
    "fq_repr (?q0\<lparr>heap := h, num_free_blocks := m\<rparr>) (map Blk [1..<n])" "same_meta (heap ?q0) h"
    using fq_popleft_Cons[of ?q0 "Blk 0" "map Blk [1..<n]"] R bs by auto
  have B: "block_id (h (Blk i)) = int i" "ref_cnt (h (Blk i)) = 0" "block_hash (h (Blk i)) = None"
    "block_hash_num_tokens (h (Blk i)) = None" "\<not> is_null (h (Blk i))" for i
    using same_metaD[OF same_meta_trans[OF meta0 h(3)], of "Blk i"]
    by (simp_all add: initial_heap_def new_block_def)
  define p where "p = upd_block (Blk 0) (\<lambda>b. b\<lparr>is_null := True\<rparr>)
    \<lparr>heap = h, num_free_blocks = m, num_gpu_blocks = n, enable_caching = caching, hash_block_size = hbs,
     cached_block_hash_to_block = Map.empty, cached_block_hashes_by_block = [], null_block = Blk 0,
     enable_kv_cache_events = ev, use_int_block_hashes = ih, kv_event_queue = [], has_metrics = met,
     metrics_log = []\<rparr>"
  have run: "pool_init n caching hbs ev ih met = Inr p"
    using assms h(1) by (simp add: pool_init_def p_def)
  have sel: "num_gpu_blocks p = n" "null_block p = Blk 0" "num_free_blocks p = m"
    "cached_block_hash_to_block p = Map.empty" "cached_block_hashes_by_block p = []"
    "enable_caching p = caching" "hash_block_size p = hbs" "enable_kv_cache_events p = ev"
    by (simp_all add: p_def)
  have hp: "is_null (heap p b) \<longleftrightarrow> b = Blk 0 \<or> is_null (h b)" "ref_cnt (heap p b) = ref_cnt (h b)"
    "block_hash (heap p b) = block_hash (h b)" "block_hash_num_tokens (heap p b) = block_hash_num_tokens (h b)"
    "block_id (heap p b) = block_id (h b)" "prev_free_block (heap p b) = prev_free_block (h b)"
    "next_free_block (heap p b) = next_free_block (h b)" for b
    by (simp_all add: p_def)
  have "links (heap p) ps = links h ps" for ps by (rule links_cong) (simp_all add: hp)
  then have "fq_repr p (map Blk [1..<n])"
    using h(2) by (simp add: fq_repr_def sel hp detached_def)
  then have F: "free_inv p (map Blk [1..<n])"
    by (auto simp: free_inv_def sel hp B)
  have H: "hashes_of p (Blk i) = []" for i by (simp add: hashes_of_def secondary_hashes_def sel hp B)
  have "cache_inv p"
    by (auto simp: cache_inv_def idof_def sel hp B H intro!: hm_wf_empty)
  with run F H show ?thesis by (auto simp: pool_inv_def sel hp B)
qed

section \<open>Lookups\<close>

lemma get_cached_block_correct:
  assumes "cache_inv p" and "\<forall>g \<in> set gs. 0 \<le> g \<and> g < 2 ^ 32"
  shows "\<exists>res. get_cached_block p h gs = Inr res \<and>
    (res = None \<longleftrightarrow> (\<exists>g \<in> set gs. \<forall>i key. make_block_hash_with_group_id h g = Inr key \<longrightarrow>
        key \<notin> set (hashes_of p (Blk i)))) \<and>
    (\<forall>bs. res = Some bs \<longrightarrow> list_all2 (\<lambda>g b. \<exists>i key. b = Blk i \<and>
        make_block_hash_with_group_id h g = Inr key \<and> key \<in> set (hashes_of p (Blk i))) gs bs)"
  using assms(2)
proof (induction gs)
  case (Cons g gs)
  note D = cache_invD[OF assms(1)]
  obtain key where key: "make_block_hash_with_group_id h g = Inr key"
    using make_block_hash_ok[of h g] Cons.prems by auto
  obtain r where r: "hm_get_one_block (cached_block_hash_to_block p) key = Inr r"
    "r = None \<longleftrightarrow> hm_refs (cached_block_hash_to_block p) key = {}"
    "\<forall>b. r = Some b \<longrightarrow> b \<in> hm_refs (cached_block_hash_to_block p) key"
    using bc.get_one[OF D(2)] by blast
  have blk: "\<exists>i. b = Blk i" if "b \<in> hm_refs (cached_block_hash_to_block p) key" for b
    using hm_wf_refs[OF D(2) that] by (cases b) auto
  have miss: "r = None \<longleftrightarrow> (\<forall>i. key \<notin> set (hashes_of p (Blk i)))"
    using r(2) D(3)[of _ key] blk by blast
  obtain res where res: "get_cached_block p h gs = Inr res"
    "res = None \<longleftrightarrow> (\<exists>g \<in> set gs. \<forall>i key. make_block_hash_with_group_id h g = Inr key \<longrightarrow>
        key \<notin> set (hashes_of p (Blk i)))"
    "\<forall>bs. res = Some bs \<longrightarrow> list_all2 (\<lambda>g b. \<exists>i key. b = Blk i \<and>
        make_block_hash_with_group_id h g = Inr key \<and> key \<in> set (hashes_of p (Blk i))) gs bs"
    using Cons.IH Cons.prems by auto
  show ?case
  proof (cases r)
    case None
    with miss key r(1) show ?thesis by auto
  next
    case (Some b)
    then obtain i where i: "b = Blk i" "key \<in> set (hashes_of p (Blk i))"
      using r(3) blk D(3) by blast
    have "\<not> (\<forall>i key. make_block_hash_with_group_id h g = Inr key \<longrightarrow> key \<notin> set (hashes_of p (Blk i)))"
      using key i(2) by blast
    then have "(\<exists>g' \<in> set (g # gs). \<forall>i key. make_block_hash_with_group_id h g' = Inr key \<longrightarrow>
        key \<notin> set (hashes_of p (Blk i))) \<longleftrightarrow> res = None"
      unfolding res(2) list.set(2) by blast
    moreover have "get_cached_block p h (g # gs) = Inr (map_option ((#) b) res)"
      using key r(1) Some res(1) by simp
    ultimately show ?thesis
    proof (intro exI[of _ "map_option ((#) b) res"] conjI)
      show "\<forall>bs. map_option ((#) b) res = Some bs \<longrightarrow> list_all2 (\<lambda>g b. \<exists>i key. b = Blk i \<and>
          make_block_hash_with_group_id h g = Inr key \<and> key \<in> set (hashes_of p (Blk i))) (g # gs) bs"
        using res(3) key i by (cases res) auto
    qed simp_all
  qed
qed simp

section \<open>Reachable pools\<close>

text \<open>
  The states a pool goes through: any sequence of the pool's operations, callers freeing only
  what they hold and naming blocks of the pool.
\<close>

inductive pool_reach :: "nat \<Rightarrow> bool \<Rightarrow> block_pool \<Rightarrow> bool" for n :: nat and caching :: bool where
  init: "pool_init n caching hbs ev ih met = Inr p \<Longrightarrow> pool_reach n caching p"
| alloc: "pool_reach n caching p \<Longrightarrow> 0 \<le> k \<Longrightarrow> get_new_blocks k p = Inr (bs, p') \<Longrightarrow> pool_reach n caching p'"
| touch: "pool_reach n caching p \<Longrightarrow> set bs \<subseteq> Blk ` {..<n} \<Longrightarrow> touch bs p = Inr p' \<Longrightarrow> pool_reach n caching p'"
| free: "pool_reach n caching p \<Longrightarrow> freeable p bs \<Longrightarrow> free_blocks bs p = Inr p' \<Longrightarrow> pool_reach n caching p'"
| cache_full: "pool_reach n caching p \<Longrightarrow> set blocks \<subseteq> Blk ` {..<n} \<Longrightarrow>
    cache_full_blocks sha r blocks nc nf bsz gid msk p = Inr (r', p') \<Longrightarrow> pool_reach n caching p'"
| cache_partial: "pool_reach n caching p \<Longrightarrow> i < n \<Longrightarrow>
    cache_partial_block sha r (Blk i) nt gid bsz p = Inr (key, r', p') \<Longrightarrow> pool_reach n caching p'"
| move: "pool_reach n caching p \<Longrightarrow> d < n \<Longrightarrow> s \<noteq> d \<Longrightarrow>
    move_block_hashes (Blk s) (Blk d) p = Inr p' \<Longrightarrow> pool_reach n caching p'"
| evict: "pool_reach n caching p \<Longrightarrow> \<forall>i \<in> set is. i < n \<Longrightarrow>
    evict_blocks (map int is) p = Inr p' \<Longrightarrow> pool_reach n caching p'"
| reset: "pool_reach n caching p \<Longrightarrow> pool_reach n caching (snd (reset_prefix_cache p))"
| cached_events: "pool_reach n caching p \<Longrightarrow>
    emit_cached_block_events sha r nc bsz gid p = Inr (r', p') \<Longrightarrow> pool_reach n caching p'"
| take_events: "pool_reach n caching p \<Longrightarrow> pool_reach n caching (snd (take_events p))"

lemma emit_cached_events_queue:
  assumes "emit_cached_block_events sha r nc bsz gid p = Inr (r', p')"
  shows "\<exists>es. p' = p\<lparr>kv_event_queue := kv_event_queue p @ es\<rparr>"
  using assms by (auto simp: emit_cached_block_events_def case_prod_unfold split: if_splits
      intro: exI[of _ "[]"])

lemma queue_inv:
  "pool_inv (p\<lparr>kv_event_queue := es\<rparr>) xs = pool_inv p xs"
proof -
  have "cache_inv (p\<lparr>kv_event_queue := es\<rparr>) = cache_inv p" by (rule cache_inv_cong) simp_all
  moreover have "free_inv (p\<lparr>kv_event_queue := es\<rparr>) xs = free_inv p xs"
    by (rule frame_free_inv) (simp_all add: frame_def same_refs_def)
  ultimately show ?thesis by (simp add: pool_inv_def)
qed

lemma pool_reach_pool_inv:
  "pool_reach n caching p \<Longrightarrow>
     \<exists>xs. pool_inv p xs \<and> num_gpu_blocks p = n \<and> null_block p = Blk 0 \<and> enable_caching p = caching"
proof (induction rule: pool_reach.induct)
  case (init hbs ev ih met p)
  have "0 < n" using init by (simp add: pool_init_def)
  from pool_init_correct[OF this, of caching hbs ev ih met] init show ?case by auto
next
  case (alloc p k bs p')
  then obtain xs where xs: "pool_inv p xs" "num_gpu_blocks p = n" "null_block p = Blk 0" "enable_caching p = caching"
    by blast
  have k: "k = int (nat k)" using alloc by simp
  have "nat k \<le> length xs"
  proof (rule ccontr)
    assume "\<not> nat k \<le> length xs"
    then show False using get_new_blocks_too_many[OF xs(1), of "nat k"] alloc k by auto
  qed
  from get_new_blocks_correct[OF xs(1) this] alloc k xs show ?case by (auto simp: static_def)
next
  case (touch p bs p')
  then obtain xs where xs: "pool_inv p xs" "num_gpu_blocks p = n" "null_block p = Blk 0" "enable_caching p = caching"
    by blast
  with touch_correct[OF xs(1), of bs] touch show ?case by (auto simp: static_def)
next
  case (free p bs p')
  then obtain xs where xs: "pool_inv p xs" "num_gpu_blocks p = n" "null_block p = Blk 0" "enable_caching p = caching"
    by blast
  with free_blocks_correct[OF xs(1) free.hyps(2)] free show ?case by (auto simp: static_def)
next
  case (cache_full p blocks sha r nc nf bsz gid msk r' p')
  then obtain xs where xs: "pool_inv p xs" "num_gpu_blocks p = n" "null_block p = Blk 0" "enable_caching p = caching"
    by blast
  with cache_full_blocks_correct(1)[OF xs(1) _ cache_full.hyps(3)] cache_full show ?case
    by (auto simp: frame_def)
next
  case (cache_partial p i sha r nt gid bsz key r' p')
  then obtain xs where xs: "pool_inv p xs" "num_gpu_blocks p = n" "null_block p = Blk 0" "enable_caching p = caching"
    by blast
  with cache_partial_block_correct[OF xs(1) _ cache_partial.hyps(3)] cache_partial show ?case
    by (auto simp: frame_def)
next
  case (move p d s p')
  then obtain xs where xs: "pool_inv p xs" "num_gpu_blocks p = n" "null_block p = Blk 0" "enable_caching p = caching"
    by blast
  have "block_hash (heap p (Blk d)) = None" using move by (simp add: move_block_hashes_def)
  moreover have "d < num_gpu_blocks p" using move.hyps(2) xs(2) by simp
  ultimately show ?case
    using move_block_hashes_correct[OF xs(1) _ _ move.hyps(3)] move.hyps(4) xs(2-4) by (auto simp: static_def)
next
  case (evict p "is" p')
  then obtain xs where xs: "pool_inv p xs" "num_gpu_blocks p = n" "null_block p = Blk 0" "enable_caching p = caching"
    by blast
  with evict_blocks_correct[OF xs(1), of "is"] evict show ?case by (auto simp: static_def)
next
  case (reset p)
  then obtain xs where xs: "pool_inv p xs" "num_gpu_blocks p = n" "null_block p = Blk 0" "enable_caching p = caching"
    by blast
  with reset_prefix_cache_correct(3,5)[OF xs(1)] show ?case by (auto simp: static_def)
next
  case (cached_events p sha r nc bsz gid r' p')
  then show ?case using emit_cached_events_queue[OF cached_events.hyps(2)] by (auto simp: queue_inv)
next
  case (take_events p)
  then show ?case by (auto simp: take_events_def queue_inv)
qed

lemma pool_inv_free_set:
  assumes "pool_inv p xs"
  shows "fq_get_all_free_blocks p = Some (Inr xs)" "distinct xs"
    "set xs = {Blk i | i. i < num_gpu_blocks p \<and> ref_cnt (heap p (Blk i)) = 0 \<and> Blk i \<noteq> null_block p}"
    "get_num_free_blocks p = int (length xs)"
proof -
  have F: "free_inv p xs" using assms by (simp add: pool_inv_def)
  note D = free_invD[OF F]
  show "fq_get_all_free_blocks p = Some (Inr xs)" by (rule fq_get_all_free_blocks_repr[OF D(1)])
  show "distinct xs" "get_num_free_blocks p = int (length xs)" using D by (simp_all add: get_num_free_blocks_def)
  have "Blk i \<in> set xs \<longleftrightarrow> ref_cnt (heap p (Blk i)) = 0 \<and> Blk i \<noteq> null_block p"
    if "i < num_gpu_blocks p" for i using D(5,6)[OF that] by blast
  with D(2) show "set xs = {Blk i | i. i < num_gpu_blocks p \<and> ref_cnt (heap p (Blk i)) = 0 \<and> Blk i \<noteq> null_block p}"
    by blast
qed

text \<open>C1. Whatever a pool has been through, its state is consistent: following the free list from
  the head ends and yields each unreferenced block other than the null block exactly once, the
  free counter is the length of that list, and the prefix cache maps a key to exactly the blocks
  that carry it in their own metadata.\<close>

theorem pool_reach_inv:
  assumes "pool_reach n caching p"
  shows "\<exists>xs. fq_get_all_free_blocks p = Some (Inr xs) \<and> distinct xs \<and>
    set xs = {Blk i | i. i < n \<and> ref_cnt (heap p (Blk i)) = 0 \<and> Blk i \<noteq> null_block p} \<and>
    get_num_free_blocks p = int (length xs) \<and>
    (\<forall>k i. Blk i \<in> hm_refs (cached_block_hash_to_block p) k \<longleftrightarrow> k \<in> set (hashes_of p (Blk i)))"
proof -
  obtain xs where xs: "pool_inv p xs" "num_gpu_blocks p = n" using pool_reach_pool_inv[OF assms] by blast
  then have "cache_inv p" by (simp add: pool_inv_def)
  with pool_inv_free_set[OF xs(1)] xs(2) show ?thesis by (auto dest: cache_invD(3))
qed

lemma example_pool:
  "\<exists>p. pool_reach 4 True p \<and> pool_inv p [Blk 1, Blk 2, Blk 3] \<and> hash_block_size p = 2 \<and>
     num_gpu_blocks p = 4 \<and> enable_caching p \<and> null_block p = Blk 0 \<and> \<not> enable_kv_cache_events p \<and>
     (\<forall>i. i < 4 \<longrightarrow> (is_null (heap p (Blk i)) \<longleftrightarrow> i = 0) \<and> ref_cnt (heap p (Blk i)) = 0) \<and>
     (\<forall>i. hashes_of p (Blk i) = [])"
proof -
  have "0 < (4::nat)" by simp
  from pool_init_correct[OF this, of True 2 False False False] obtain p where
    p: "pool_init 4 True 2 False False False = Inr p" "pool_inv p (map Blk [1..<4])" "null_block p = Blk 0"
    "num_gpu_blocks p = 4" "enable_caching p" "hash_block_size p = 2" "\<not> enable_kv_cache_events p"
    "\<forall>i. i < 4 \<longrightarrow> (is_null (heap p (Blk i)) \<longleftrightarrow> i = 0) \<and> ref_cnt (heap p (Blk i)) = 0"
    "\<forall>i. hashes_of p (Blk i) = []" by auto
  have "map Blk [1..<4] = [Blk 1, Blk 2, Blk 3]" by (simp add: upt_rec)
  with p pool_reach.init[OF p(1)] show ?thesis by metis
qed

lemma pool_reach_inv_witness:
  "\<exists>p xs. pool_reach 4 True p \<and> fq_get_all_free_blocks p = Some (Inr xs) \<and> length xs = 3"
proof -
  obtain p where p: "pool_reach 4 True p" "pool_inv p [Blk 1, Blk 2, Blk 3]" using example_pool by blast
  from pool_reach_inv[OF p(1)] pool_inv_free_set(1)[OF p(2)] p(1) show ?thesis by auto
qed

text \<open>C2. Allocation is safe: a request for no more blocks than are free succeeds with that many
  different blocks, none of them the null block and none referenced before; each is handed out
  with one reference and, when caching is on, with no hash left; every other block keeps its
  count.  A request for more raises \<open>ValueError\<close>.\<close>

theorem get_new_blocks_safe:
  assumes "pool_reach n caching p"
  shows "if int k \<le> get_num_free_blocks p
    then \<exists>bs p'. get_new_blocks (int k) p = Inr (bs, p') \<and> length bs = k \<and> distinct bs \<and>
      (\<forall>b \<in> set bs. (\<exists>i < n. b = Blk i \<and> (caching \<longrightarrow> hashes_of p' b = [])) \<and> b \<noteq> null_block p \<and>
         ref_cnt (heap p b) = 0 \<and> ref_cnt (heap p' b) = 1) \<and>
      (\<forall>b. b \<notin> set bs \<longrightarrow> ref_cnt (heap p' b) = ref_cnt (heap p b)) \<and>
      get_num_free_blocks p' = get_num_free_blocks p - int k
    else \<exists>msg. get_new_blocks (int k) p = Inl (ValueError msg)"
proof -
  obtain xs where xs: "pool_inv p xs" "num_gpu_blocks p = n" "enable_caching p = caching"
    using pool_reach_pool_inv[OF assms] by blast
  note S = pool_inv_free_set[OF xs(1)]
  show ?thesis
  proof (cases "k \<le> length xs")
    case False
    then show ?thesis using get_new_blocks_too_many[OF xs(1)] S(4) by simp
  next
    case True
    obtain p' where p': "get_new_blocks (int k) p = Inr (take k xs, p')" "pool_inv p' (drop k xs)"
      "\<forall>b. ref_cnt (heap p' b) = (if b \<in> set (take k xs) then 1 else ref_cnt (heap p b))"
      "\<forall>j. hashes_of p' (Blk j) =
        (if Blk j \<in> set (take k xs) \<and> enable_caching p then [] else hashes_of p (Blk j))"
      using get_new_blocks_correct[OF xs(1) True] by blast
    have T: "b \<in> set xs" if "b \<in> set (take k xs)" for b using that by (rule in_set_takeD)
    have "(\<exists>i < n. b = Blk i \<and> (caching \<longrightarrow> hashes_of p' b = [])) \<and> b \<noteq> null_block p \<and>
        ref_cnt (heap p b) = 0 \<and> ref_cnt (heap p' b) = 1" if "b \<in> set (take k xs)" for b
      using T[OF that] that p'(3,4) S(3) xs(2,3) by auto
    moreover have "length (take k xs) = k" "distinct (take k xs)" using True S(2) by simp_all
    moreover have "get_num_free_blocks p' = get_num_free_blocks p - int k"
      using pool_inv_free_set(4)[OF p'(2)] S(4) True by simp
    ultimately show ?thesis using p'(1,3) True S(4) by auto
  qed
qed

lemma get_new_blocks_safe_witness:
  "\<exists>p bs p'. pool_reach 4 True p \<and> get_new_blocks 2 p = Inr (bs, p') \<and> length bs = 2 \<and> distinct bs \<and>
     null_block p \<notin> set bs"
proof -
  obtain p where p: "pool_reach 4 True p" "pool_inv p [Blk 1, Blk 2, Blk 3]" using example_pool by blast
  from get_new_blocks_safe[OF p(1), of 2] pool_inv_free_set(4)[OF p(2)] p(1) show ?thesis by auto
qed

text \<open>C3. Eviction order.  Freeing blocks puts those whose last reference goes at the ends of the
  free list: blocks without a hash, in the given order, are reused before everything that was
  free already, blocks with a hash after everything, again in the given order; nothing else
  moves and the prefix cache is untouched.\<close>

theorem free_blocks_order:
  assumes "pool_reach n caching p" and "freeable p bs"
  shows "\<exists>xs p'. fq_get_all_free_blocks p = Some (Inr xs) \<and> free_blocks bs p = Inr p' \<and>
    fq_get_all_free_blocks p' = Some (Inr (
      filter (\<lambda>b. block_hash (heap p b) = None) (released p bs) @ xs @
      filter (\<lambda>b. block_hash (heap p b) \<noteq> None) (released p bs))) \<and>
    (\<forall>b. ref_cnt (heap p' b) = ref_cnt (heap p b) - int (count_list bs b)) \<and>
    hashes_of p' = hashes_of p"
proof -
  obtain xs where xs: "pool_inv p xs" using pool_reach_pool_inv[OF assms(1)] by blast
  from free_blocks_correct[OF xs assms(2)] pool_inv_free_set(1)[OF xs] show ?thesis
    using pool_inv_free_set(1) by blast
qed

text \<open>One block taken from the example pool.\<close>

lemma example_pool_held:
  "\<exists>p. pool_reach 4 True p \<and> pool_inv p [Blk 2, Blk 3] \<and> hash_block_size p = 2 \<and> num_gpu_blocks p = 4 \<and>
     \<not> enable_kv_cache_events p \<and> \<not> is_null (heap p (Blk 1)) \<and> ref_cnt (heap p (Blk 1)) = 1 \<and> (\<forall>i. hashes_of p (Blk i) = []) \<and>
     freeable p [Blk 1] \<and> released p [Blk 1] = [Blk 1]"
proof -
  obtain p where p: "pool_reach 4 True p" "pool_inv p [Blk 1, Blk 2, Blk 3]" "hash_block_size p = 2"
    "num_gpu_blocks p = 4" "\<forall>i. i < 4 \<longrightarrow> (is_null (heap p (Blk i)) \<longleftrightarrow> i = 0) \<and> ref_cnt (heap p (Blk i)) = 0"
    "\<forall>i. hashes_of p (Blk i) = []" "\<not> enable_kv_cache_events p"
    using example_pool by blast
  from get_new_blocks_correct[OF p(2), of 1] obtain q where
    q: "get_new_blocks 1 p = Inr ([Blk 1], q)" "pool_inv q [Blk 2, Blk 3]" "static p q"
    "\<forall>b. ref_cnt (heap q b) = (if b = Blk 1 then 1 else ref_cnt (heap p b))"
    "\<forall>j. hashes_of q (Blk j) = []"
    using p(6) by auto
  have "pool_reach 4 True q" by (rule pool_reach.alloc[OF p(1) _ q(1)]) simp
  moreover have "\<not> is_null (heap q (Blk 1))" "num_gpu_blocks q = 4" "hash_block_size q = 2"
    "\<not> enable_kv_cache_events q"
    using q(3) p(3-5,7) by (simp_all add: static_def)
  ultimately show ?thesis using q by (intro exI[of _ q]) (simp add: freeable_def released_def)
qed

lemma free_blocks_order_witness:
  "\<exists>p p'. pool_reach 4 True p \<and> free_blocks [Blk 1] p = Inr p' \<and>
     fq_get_all_free_blocks p' = Some (Inr [Blk 1, Blk 2, Blk 3])"
proof -
  obtain p where p: "pool_reach 4 True p" "pool_inv p [Blk 2, Blk 3]" "\<forall>i. hashes_of p (Blk i) = []"
    "freeable p [Blk 1]" "released p [Blk 1] = [Blk 1]"
    using example_pool_held by blast
  have "block_hash (heap p (Blk 1)) = None"
    using p(3)[rule_format, of 1] by (simp add: hashes_of_def split: option.splits)
  with free_blocks_order[OF p(1,4)] pool_inv_free_set(1)[OF p(2)] p(1,5) show ?thesis by auto
qed

lemma example_pool_cached:
  "\<exists>p p1 r. pool_reach 4 True p \<and> pool_inv p [Blk 2, Blk 3] \<and> hash_block_size p = 2 \<and>
     \<not> is_null (heap p (Blk 1)) \<and> block_hashes r = [[7, 7]] \<and>
     cache_full_blocks id r [Blk 1] 0 1 2 0 (Some [True]) p = Inr (r, p1) \<and> pool_reach 4 True p1 \<and>
     (\<forall>j. hashes_of p1 (Blk j) = (if j = 1 then [[7, 7, 0, 0, 0, 0]] else []))"
proof -
  obtain p where p: "pool_reach 4 True p" "pool_inv p [Blk 2, Blk 3]" "hash_block_size p = 2"
    "num_gpu_blocks p = 4" "\<not> is_null (heap p (Blk 1))" "\<forall>i. hashes_of p (Blk i) = []"
    "\<not> enable_kv_cache_events p"
    using example_pool_held by blast
  define r where "r = (undefined :: request)\<lparr>block_hashes := [[7, 7]]\<rparr>"
  have r: "block_hashes r = [[7, 7]]" by (simp add: r_def)
  have C: "cache_inv p" using p(2) by (simp add: pool_inv_def)
  have none: "block_hash (heap p (Blk 1)) = None"
    using p(6)[rule_format, of 1] by (simp add: hashes_of_def split: option.splits)
  have key: "make_block_hash_with_group_id [7, 7] 0 = Inr [7, 7, 0, 0, 0, 0]"
    by (simp add: make_block_hash_with_group_id_def to_bytes_be4_def)
  have "1 < num_gpu_blocks p" using p(4) by simp
  from insert_hash_correct[OF C this, of "[7, 7, 0, 0, 0, 0]" "Some 2"]
  obtain p1 where p1: "insert_block_hash [7, 7, 0, 0, 0, 0] (Blk 1) (Some 2) p = Inr p1"
    "\<forall>j. hashes_of p1 (Blk j) = (if j = 1 \<and> [7, 7, 0, 0, 0, 0] \<notin> set (hashes_of p (Blk 1))
       then hashes_of p (Blk 1) @ [[7, 7, 0, 0, 0, 0]] else hashes_of p (Blk j))" by blast
  have run: "cache_full_blocks id r [Blk 1] 0 1 2 0 (Some [True]) p = Inr (r, p1)"
    using p(3,5,7) none key p1(1)
    by (simp add: cache_full_blocks_def resolve_block_hashes_def hl_from_def r slice_def cache_one_full_def Let_def
        check_res_def)
  have "set [Blk 1] \<subseteq> Blk ` {..<4}" by simp
  from pool_reach.cache_full[OF p(1) this run] have "pool_reach 4 True p1" .
  moreover have "\<forall>j. hashes_of p1 (Blk j) = (if j = 1 then [[7, 7, 0, 0, 0, 0]] else [])"
    using p1(2) p(6) by simp
  ultimately show ?thesis
    using p(1,2,3,5) r run by (intro exI[of _ p] exI[of _ p1] exI[of _ r] conjI)
qed

text \<open>C22. A lookup answers exactly for the registered hashes: it succeeds when every group has a
  block carrying the hash under that group's key, each returned block carries it, and it misses
  only when some group has none; it never raises for group ids of four bytes.\<close>

theorem get_cached_block_exact:
  assumes "pool_reach n caching p" and "\<forall>g \<in> set gs. 0 \<le> g \<and> g < 2 ^ 32"
  shows "(get_cached_block p h gs = Inr None \<and>
      (\<exists>g \<in> set gs. \<forall>i key. make_block_hash_with_group_id h g = Inr key \<longrightarrow> key \<notin> set (hashes_of p (Blk i)))) \<or>
    (\<exists>bs. get_cached_block p h gs = Inr (Some bs) \<and>
      list_all2 (\<lambda>g b. \<exists>i key. b = Blk i \<and> make_block_hash_with_group_id h g = Inr key \<and>
        key \<in> set (hashes_of p (Blk i))) gs bs)"
proof -
  obtain xs where "pool_inv p xs" using pool_reach_pool_inv[OF assms(1)] by blast
  then have "cache_inv p" by (simp add: pool_inv_def)
  from get_cached_block_correct[OF this assms(2), of h] obtain res where
    res: "get_cached_block p h gs = Inr res"
    "res = None \<longleftrightarrow> (\<exists>g \<in> set gs. \<forall>i key. make_block_hash_with_group_id h g = Inr key \<longrightarrow>
        key \<notin> set (hashes_of p (Blk i)))"
    "\<forall>bs. res = Some bs \<longrightarrow> list_all2 (\<lambda>g b. \<exists>i key. b = Blk i \<and>
        make_block_hash_with_group_id h g = Inr key \<and> key \<in> set (hashes_of p (Blk i))) gs bs"
    by blast
  show ?thesis
  proof (cases res)
    case None
    with res(1,2) show ?thesis by (intro disjI1) blast
  next
    case (Some bs)
    with res(1,3) show ?thesis by (intro disjI2) blast
  qed
qed

lemma get_cached_block_exact_witness:
  "\<exists>p. pool_reach 4 True p \<and> get_cached_block p [7, 7] [0] = Inr (Some [Blk 1]) \<and>
     get_cached_block p [7] [0] = Inr None"
proof -
  obtain p where p: "pool_reach 4 True p" "\<forall>j. hashes_of p (Blk j) = (if j = 1 then [[7, 7, 0, 0, 0, 0]] else [])"
    using example_pool_cached by blast
  have g: "\<forall>g \<in> set [0]. 0 \<le> g \<and> g < (2::int) ^ 32" by simp
  have k: "make_block_hash_with_group_id h 0 = Inr (h @ [0, 0, 0, 0])" for h
    by (simp add: make_block_hash_with_group_id_def to_bytes_be4_def)
  have "get_cached_block p [7, 7] [0] = Inr (Some [Blk 1])"
    using get_cached_block_exact[OF p(1) g, of "[7, 7]"]
    by (auto simp: k p(2) list_all2_Cons1 simp del: get_cached_block.simps split: if_splits)
  moreover have "get_cached_block p [7] [0] = Inr None"
    using get_cached_block_exact[OF p(1) g, of "[7]"]
    by (auto simp: k p(2) list_all2_Cons1 simp del: get_cached_block.simps split: if_splits)
  ultimately show ?thesis using p(1) by blast
qed

text \<open>C4. Registering full blocks makes them findable.  After \<open>cache_full_blocks\<close> succeeds, every
  new full block that is neither null nor masked out carries the chained hash of its own position
  under the key of its group, and looking that hash up in the group is a hit on a block that carries
  the same key; reference counts and the free list are as before.\<close>

theorem cache_full_blocks_hit:
  assumes "pool_reach n caching p" and "set blocks \<subseteq> Blk ` {..<n}"
    and "cache_full_blocks sha r blocks nc nf bsz gid block_mask p = Inr (r', p')"
    and "distinct (filter (\<lambda>b. \<not> is_null (heap p b)) (slice nc nf blocks))"
    and "nc \<le> i" "i < nf" "i < length blocks" "\<not> is_null (heap p (blocks ! i))"
    and "\<forall>m. block_mask = Some m \<longrightarrow> m ! (i - nc)"
  shows "\<exists>hl h key b. resolve_block_hashes (Raw (block_hashes r)) (hash_block_size p) bsz False None = Inr hl \<and>
    hl_get hl i = Inr h \<and> make_block_hash_with_group_id h gid = Inr key \<and>
    key \<in> set (hashes_of p' (blocks ! i)) \<and>
    get_cached_block p' h [gid] = Inr (Some [b]) \<and> key \<in> set (hashes_of p' b) \<and>
    fq_get_all_free_blocks p' = fq_get_all_free_blocks p \<and> same_refs p p'"
proof -
  obtain xs where xs: "pool_inv p xs" "num_gpu_blocks p = n" using pool_reach_pool_inv[OF assms(1)] by blast
  have bs: "set blocks \<subseteq> Blk ` {..<num_gpu_blocks p}" using assms(2) xs(2) by simp
  note C = cache_full_blocks_correct[OF xs(1) bs assms(3)]
  from C(2)[of i] assms(4-9) obtain hl h key where
    hl: "resolve_block_hashes (Raw (block_hashes r)) (hash_block_size p) bsz False None = Inr hl"
    "hl_get hl i = Inr h" "make_block_hash_with_group_id h gid = Inr key" "key \<in> set (hashes_of p' (blocks ! i))"
    by auto
  obtain j where j: "blocks ! i = Blk j" using assms(2,7) nth_mem by blast
  have inv': "cache_inv p'" using C(1) by (simp add: pool_inv_def)
  have "0 \<le> gid \<and> gid < 2 ^ 32" using make_block_hash_ok hl(3) by blast
  then have "\<forall>g \<in> set [gid]. 0 \<le> g \<and> g < 2 ^ 32" by simp
  from get_cached_block_correct[OF inv' this, of h] obtain res where
    res: "get_cached_block p' h [gid] = Inr res"
    "res = None \<longleftrightarrow> (\<exists>g \<in> set [gid]. \<forall>i key. make_block_hash_with_group_id h g = Inr key \<longrightarrow>
        key \<notin> set (hashes_of p' (Blk i)))"
    "\<forall>bs. res = Some bs \<longrightarrow> list_all2 (\<lambda>g b. \<exists>i key. b = Blk i \<and>
        make_block_hash_with_group_id h g = Inr key \<and> key \<in> set (hashes_of p' (Blk i))) [gid] bs"
    by blast
  have "res \<noteq> None" unfolding res(2) using hl(3,4) j by auto
  then obtain bs where r: "res = Some bs" by blast
  with res(3) obtain b where b: "bs = [b]" "key \<in> set (hashes_of p' b)"
    using hl(3) by (auto simp: list_all2_Cons1)
  have free: "fq_get_all_free_blocks p' = fq_get_all_free_blocks p"
    using C(1) pool_inv_free_set(1) xs(1) by metis
  show ?thesis
    by (intro exI[of _ hl] exI[of _ h] exI[of _ key] exI[of _ b] conjI hl b(2) free)
      (use res(1) r b(1) C(1) in auto)
qed

lemma cache_full_blocks_hit_witness:
  "\<exists>p p' b. pool_reach 4 True p \<and> [7, 7, 0, 0, 0, 0] \<in> set (hashes_of p' (Blk 1)) \<and>
     get_cached_block p' [7, 7] [0] = Inr (Some [b]) \<and>
     [7, 7, 0, 0, 0, 0] \<in> set (hashes_of p' b) \<and> same_refs p p'"
proof -
  obtain p p1 r where p: "pool_reach 4 True p" "hash_block_size p = 2" "\<not> is_null (heap p (Blk 1))"
    "block_hashes r = [[7, 7]]"
    and run: "cache_full_blocks id r [Blk 1] 0 1 2 0 (Some [True]) p = Inr (r, p1)"
    using example_pool_cached by blast
  have key: "make_block_hash_with_group_id [7, 7] 0 = Inr [7, 7, 0, 0, 0, 0]"
    by (simp add: make_block_hash_with_group_id_def to_bytes_be4_def)
  have s: "set [Blk 1] \<subseteq> Blk ` {..<4}" by simp
  have "\<exists>hl h key b. resolve_block_hashes (Raw (block_hashes r)) (hash_block_size p) 2 False None = Inr hl \<and>
    hl_get hl 0 = Inr h \<and> make_block_hash_with_group_id h 0 = Inr key \<and>
    key \<in> set (hashes_of p1 ([Blk 1] ! 0)) \<and>
    get_cached_block p1 h [0] = Inr (Some [b]) \<and> key \<in> set (hashes_of p1 b) \<and>
    fq_get_all_free_blocks p1 = fq_get_all_free_blocks p \<and> same_refs p p1"
    by (rule cache_full_blocks_hit[OF p(1) s run]) (use p(3) in \<open>simp_all add: slice_def\<close>)
  then obtain hl h k b where W: "resolve_block_hashes (Raw (block_hashes r)) (hash_block_size p) 2 False None = Inr hl"
    "hl_get hl 0 = Inr h" "make_block_hash_with_group_id h 0 = Inr k" "k \<in> set (hashes_of p1 (Blk 1))"
    "get_cached_block p1 h [0] = Inr (Some [b])" "k \<in> set (hashes_of p1 b)" "same_refs p p1"
    by auto
  have h: "h = [7, 7]" using W(1,2) p(2,4) by (auto simp: resolve_block_hashes_def hl_get_def)
  then have "k = [7, 7, 0, 0, 0, 0]" using W(3) key by simp
  with W(4-7) h p(1) show ?thesis by (intro exI[of _ p] exI[of _ p1] exI[of _ b]) simp
qed

text \<open>C25. Moving hashes keeps every cache entry alive: the destination ends up with exactly the
  source's hashes, in order, the source with none, no other block and no reference count changes
  and no event is emitted.\<close>

theorem move_block_hashes_moves:
  assumes "pool_reach n caching p" and "d < n" and "s \<noteq> d" and "block_hash (heap p (Blk d)) = None"
  shows "\<exists>p'. move_block_hashes (Blk s) (Blk d) p = Inr p' \<and>
    hashes_of p' (Blk d) = hashes_of p (Blk s) \<and> hashes_of p' (Blk s) = [] \<and>
    (\<forall>j. j \<noteq> d \<and> j \<noteq> s \<longrightarrow> hashes_of p' (Blk j) = hashes_of p (Blk j)) \<and>
    same_refs p p' \<and> kv_event_queue p' = kv_event_queue p"
proof -
  obtain xs where xs: "pool_inv p xs" "num_gpu_blocks p = n" using pool_reach_pool_inv[OF assms(1)] by blast
  then have "d < num_gpu_blocks p" using assms(2) by simp
  from move_block_hashes_correct[OF xs(1) this assms(4,3)] show ?thesis using assms(3) by auto
qed

lemma move_block_hashes_moves_witness:
  "\<exists>p p'. pool_reach 4 True p \<and> hashes_of p (Blk 1) = [[7, 7, 0, 0, 0, 0]] \<and>
     move_block_hashes (Blk 1) (Blk 2) p = Inr p' \<and>
     hashes_of p' (Blk 1) = [] \<and> hashes_of p' (Blk 2) = [[7, 7, 0, 0, 0, 0]]"
proof -
  obtain p where p: "pool_reach 4 True p" "\<forall>j. hashes_of p (Blk j) = (if j = 1 then [[7, 7, 0, 0, 0, 0]] else [])"
    using example_pool_cached by blast
  have none: "block_hash (heap p (Blk 2)) = None"
    using p(2)[rule_format, of 2] by (simp add: hashes_of_def split: option.splits)
  from move_block_hashes_moves[OF p(1) _ _ none, of 1] p show ?thesis by auto
qed

text \<open>The prefix cache is reset only when idle.  Reset succeeds exactly when every block but the
  null block is free; then no block carries a hash and every lookup misses, otherwise nothing
  changes at all; in both cases the free list and the reference counts stay.\<close>

theorem reset_prefix_cache_idle:
  assumes "pool_reach n caching p"
  shows "(fst (reset_prefix_cache p) \<longleftrightarrow> (\<forall>i < n. Blk i \<noteq> null_block p \<longrightarrow> ref_cnt (heap p (Blk i)) = 0)) \<and>
    (if fst (reset_prefix_cache p)
     then (\<forall>i. hashes_of (snd (reset_prefix_cache p)) (Blk i) = []) \<and>
       (\<forall>k. hm_get_one_block (cached_block_hash_to_block (snd (reset_prefix_cache p))) k = Inr None)
     else snd (reset_prefix_cache p) = p) \<and>
    fq_get_all_free_blocks (snd (reset_prefix_cache p)) = fq_get_all_free_blocks p \<and>
    same_refs p (snd (reset_prefix_cache p))"
proof -
  obtain xs where xs: "pool_inv p xs" "num_gpu_blocks p = n" "null_block p = Blk 0"
    using pool_reach_pool_inv[OF assms] by blast
  note R = reset_prefix_cache_correct[OF xs(1)]
  note S = pool_inv_free_set[OF xs(1)]
  let ?all = "Blk ` {..<n} - {Blk 0}"
  have n: "0 < n" using assms by (induction rule: pool_reach.induct) (auto simp: pool_init_def)
  have "set xs \<subseteq> ?all" using S(3) xs(2,3) by auto
  moreover have "card ?all = n - 1" using n by (simp add: card_Diff_singleton card_image inj_on_def)
  moreover have "card (set xs) = length xs" using S(2) by (rule distinct_card)
  ultimately have "n = Suc (length xs) \<longleftrightarrow> set xs = ?all"
    using n card_subset_eq[of ?all "set xs"] by auto
  also have "set xs = ?all \<longleftrightarrow> (\<forall>i < n. Blk i \<noteq> null_block p \<longrightarrow> ref_cnt (heap p (Blk i)) = 0)"
    unfolding S(3) xs(2,3) by auto
  finally have ok: "fst (reset_prefix_cache p) \<longleftrightarrow>
      (\<forall>i < n. Blk i \<noteq> null_block p \<longrightarrow> ref_cnt (heap p (Blk i)) = 0)"
    using R(1) xs(2) by simp
  have "fq_get_all_free_blocks (snd (reset_prefix_cache p)) = fq_get_all_free_blocks p"
    using pool_inv_free_set(1)[OF R(3)] S(1) by simp
  with ok R(2,4,5) show ?thesis by (auto simp: hm_get_one_block_def)
qed

lemma reset_prefix_cache_idle_witness:
  "\<exists>p. pool_reach 4 True p \<and> fst (reset_prefix_cache p)"
proof -
  obtain p where p: "pool_reach 4 True p"
    "\<forall>i. i < 4 \<longrightarrow> (is_null (heap p (Blk i)) \<longleftrightarrow> i = 0) \<and> ref_cnt (heap p (Blk i)) = 0" using example_pool by blast
  from reset_prefix_cache_idle[OF p(1)] p show ?thesis by auto
qed

lemma get_usage_bounds:
  assumes "pool_reach n caching p"
  shows "0 \<le> get_usage p \<and> get_usage p \<le> 1"
proof -
  obtain xs where xs: "pool_inv p xs" "num_gpu_blocks p = n" "null_block p = Blk 0"
    using pool_reach_pool_inv[OF assms] by blast
  note S = pool_inv_free_set[OF xs(1)]
  have n: "0 < n" using assms by (induction rule: pool_reach.induct) (auto simp: pool_init_def)
  have "set xs \<subseteq> Blk ` {..<n} - {Blk 0}" using S(3) xs(2,3) by auto
  then have "card (set xs) \<le> n - 1"
    using n card_mono[of "Blk ` {..<n} - {Blk 0}" "set xs"]
    by (simp add: card_Diff_singleton card_image inj_on_def)
  then have "length xs \<le> n - 1" using S(2) by (simp add: distinct_card)
  then have "(of_nat (length xs) :: rat) / of_int (int n - 1) \<le> 1" if "n \<noteq> 1"
    using n that by (simp add: divide_le_eq)
  then show ?thesis using n by (simp add: get_usage_def S(4) xs(2) Let_def)
qed

end
