(* ===== verification/Tokens.thy ===== *)
theory Tokens
  imports Prelude
begin

text \<open>
  Token-level comparisons of two prompts: \<^verbatim>\<open>cacheselect/features.py\<close>, and the
  prefix and suffix loops that \<^verbatim>\<open>cacheselect/reuse_opportunity.py\<close> and
  \<^verbatim>\<open>cacheselect/block_features.py\<close> repeat.  Ratios are exact rationals where the
  code rounds to floats.
\<close>

section \<open>Common prefix and suffix\<close>

fun common_prefix_length :: "int list \<Rightarrow> int list \<Rightarrow> nat" where
  "common_prefix_length (x # xs) (y # ys) = (if x \<noteq> y then 0 else Suc (common_prefix_length xs ys))"
| "common_prefix_length _ _ = 0"

text \<open>The loop of \<open>_common_suffix_length\<close> over the reversed sequences, at most \<open>available\<close> steps.\<close>

fun suffix_loop :: "nat \<Rightarrow> int list \<Rightarrow> int list \<Rightarrow> nat" where
  "suffix_loop (Suc available) (x # xs) (y # ys) = (if x = y then Suc (suffix_loop available xs ys) else 0)"
| "suffix_loop _ _ _ = 0"

definition common_suffix_length :: "int list \<Rightarrow> int list \<Rightarrow> nat \<Rightarrow> nat" where
  "common_suffix_length left right prefix_length =
     suffix_loop (min (length left) (length right) - prefix_length) (rev left) (rev right)"

lemma common_prefix_le: "common_prefix_length xs ys \<le> length xs \<and> common_prefix_length xs ys \<le> length ys"
  by (induction xs ys rule: common_prefix_length.induct) auto

lemma common_prefix_take:
  "take (common_prefix_length xs ys) xs = take (common_prefix_length xs ys) ys"
  by (induction xs ys rule: common_prefix_length.induct) auto

lemma common_prefix_maximal:
  "common_prefix_length xs ys < length xs \<Longrightarrow> common_prefix_length xs ys < length ys \<Longrightarrow>
     xs ! common_prefix_length xs ys \<noteq> ys ! common_prefix_length xs ys"
  by (induction xs ys rule: common_prefix_length.induct) auto

lemma common_prefix_greatest:
  "k \<le> length xs \<Longrightarrow> take k xs = take k ys \<Longrightarrow> k \<le> length ys \<Longrightarrow> k \<le> common_prefix_length xs ys"
proof (induction xs ys arbitrary: k rule: common_prefix_length.induct)
  case (1 x xs y ys)
  then show ?case by (cases k) auto
qed auto

lemma common_prefix_self [simp]: "common_prefix_length xs xs = length xs"
  by (induction xs) auto

lemma common_prefix_Nil [simp]: "common_prefix_length [] ys = 0" "common_prefix_length xs [] = 0"
  by (cases xs; simp)+

lemma prefix_flag_iff:
  "(length p \<le> length c \<and> common_prefix_length p c = length p) \<longleftrightarrow> take (length p) c = p"
proof
  assume "length p \<le> length c \<and> common_prefix_length p c = length p"
  then show "take (length p) c = p" using common_prefix_take[of p c] by simp
next
  assume a: "take (length p) c = p"
  then have "length p \<le> length c" by (metis length_take min.cobounded1 min_def)
  with a common_prefix_greatest[of "length p" p c] common_prefix_le[of p c]
  show "length p \<le> length c \<and> common_prefix_length p c = length p" by simp
qed

lemma suffix_loop_le:
  "suffix_loop n xs ys \<le> n \<and> suffix_loop n xs ys \<le> length xs \<and> suffix_loop n xs ys \<le> length ys"
  by (induction n xs ys rule: suffix_loop.induct) auto

lemma suffix_loop_take: "take (suffix_loop n xs ys) xs = take (suffix_loop n xs ys) ys"
  by (induction n xs ys rule: suffix_loop.induct) auto

lemma suffix_loop_maximal:
  "suffix_loop n xs ys < n \<Longrightarrow> suffix_loop n xs ys < length xs \<Longrightarrow> suffix_loop n xs ys < length ys \<Longrightarrow>
     xs ! suffix_loop n xs ys \<noteq> ys ! suffix_loop n xs ys"
  by (induction n xs ys rule: suffix_loop.induct) auto

lemma common_suffix_le:
  assumes "p \<le> length xs" "p \<le> length ys"
  shows "p + common_suffix_length xs ys p \<le> length xs" "p + common_suffix_length xs ys p \<le> length ys"
  using suffix_loop_le[of "min (length xs) (length ys) - p" "rev xs" "rev ys"] assms
  unfolding common_suffix_length_def by linarith+

lemma common_suffix_drop:
  "drop (length xs - common_suffix_length xs ys p) xs = drop (length ys - common_suffix_length xs ys p) ys"
proof -
  let ?k = "common_suffix_length xs ys p"
  have "take ?k (rev xs) = take ?k (rev ys)"
    unfolding common_suffix_length_def by (rule suffix_loop_take)
  then have "rev (take ?k (rev xs)) = rev (take ?k (rev ys))" by simp
  then show ?thesis by (simp add: rev_take)
qed

section \<open>Transition features\<close>

definition multiset_overlap :: "int list \<Rightarrow> int list \<Rightarrow> nat" where
  "multiset_overlap left right = size (mset left \<inter># mset right)"

definition ngram_set :: "int list \<Rightarrow> nat \<Rightarrow> int list set" where
  "ngram_set tokens width =
     (if length tokens < width then (if tokens = [] then {} else {tokens})
      else set (map (\<lambda>i. slice i (i + width) tokens) [0..<length tokens - width + 1]))"

record transition_features =
  tf_previous_token_count :: nat
  tf_current_token_count :: nat
  tf_token_count_delta :: int
  tf_exact_match :: bool
  tf_previous_is_exact_prefix :: bool
  tf_common_prefix_tokens :: nat
  tf_common_prefix_ratio :: rat
  tf_common_suffix_tokens :: nat
  tf_common_suffix_ratio :: rat
  tf_same_position_ratio :: rat
  tf_token_multiset_overlap_ratio :: rat
  tf_four_gram_jaccard :: rat
  tf_first_changed_token :: "nat option"

definition ratio :: "nat \<Rightarrow> nat \<Rightarrow> rat" where
  "ratio a b = of_nat a / of_nat b"

definition token_transition_features :: "int list \<Rightarrow> int list \<Rightarrow> nat \<Rightarrow> transition_features" where
  "token_transition_features previous current width =
     (let pl = length previous; cl = length current;
          maximum = max (max pl cl) 1;
          prefix_length = common_prefix_length previous current;
          suffix_length = common_suffix_length previous current prefix_length;
          same_position = length (filter (\<lambda>(l, r). l = r) (zip previous current));
          overlap = multiset_overlap previous current;
          pn = ngram_set previous width; cn = ngram_set current width
      in \<lparr>tf_previous_token_count = pl, tf_current_token_count = cl,
          tf_token_count_delta = int cl - int pl, tf_exact_match = (previous = current),
          tf_previous_is_exact_prefix = (pl \<le> cl \<and> prefix_length = pl),
          tf_common_prefix_tokens = prefix_length, tf_common_prefix_ratio = ratio prefix_length maximum,
          tf_common_suffix_tokens = suffix_length, tf_common_suffix_ratio = ratio suffix_length maximum,
          tf_same_position_ratio = ratio same_position maximum,
          tf_token_multiset_overlap_ratio = ratio overlap maximum,
          tf_four_gram_jaccard = (if pn \<union> cn = {} then 1 else ratio (card (pn \<inter> cn)) (card (pn \<union> cn))),
          tf_first_changed_token = (if prefix_length < min pl cl then Some prefix_length else None)\<rparr>)"

lemma ratio_bounds: "a \<le> b \<Longrightarrow> 0 \<le> ratio a b \<and> ratio a b \<le> 1"
  by (cases "b = 0") (simp_all add: ratio_def divide_le_eq)

lemma ratio_self: "0 < b \<Longrightarrow> ratio b b = 1"
  by (simp add: ratio_def)

lemma multiset_overlap_le: "multiset_overlap xs ys \<le> length xs" "multiset_overlap xs ys \<le> length ys"
  unfolding multiset_overlap_def
  by (metis size_mset size_mset_mono inter_subset_eq_union inf.cobounded1 subset_mset.inf_le1)
    (metis size_mset size_mset_mono subset_mset.inf_le2)

lemma finite_ngram_set: "finite (ngram_set tokens width)"
  by (simp add: ngram_set_def)

text \<open>The suffix loop finds the longest common suffix that leaves the first \<open>p\<close> tokens of both
  prompts alone.\<close>

lemma common_suffix_maximal:
  assumes "k \<le> length xs" "k \<le> length ys" "p + k \<le> min (length xs) (length ys)"
    "drop (length xs - k) xs = drop (length ys - k) ys"
  shows "k \<le> common_suffix_length xs ys p"
proof (rule ccontr)
  let ?j = "common_suffix_length xs ys p"
  assume "\<not> k \<le> ?j"
  then have j: "?j < k" by simp
  then have "rev xs ! ?j \<noteq> rev ys ! ?j"
    using assms(1-3) unfolding common_suffix_length_def by (intro suffix_loop_maximal) auto
  moreover have "rev (drop (length xs - k) xs) ! ?j = rev (drop (length ys - k) ys) ! ?j" using assms(4) by simp
  moreover have "rev (drop (length zs - k) zs) = take k (rev zs)" if "k \<le> length zs" for zs :: "int list"
    using that by (simp add: rev_drop)
  ultimately show False using j assms(1,2) by simp
qed

lemma common_suffix_iff:
  assumes "k + common_prefix_length xs ys \<le> min (length xs) (length ys)"
  shows "k \<le> common_suffix_length xs ys (common_prefix_length xs ys) \<longleftrightarrow>
    drop (length xs - k) xs = drop (length ys - k) ys"
proof
  let ?j = "common_suffix_length xs ys (common_prefix_length xs ys)"
  assume k: "k \<le> ?j"
  have J: "?j \<le> length xs" "?j \<le> length ys"
    using common_suffix_le[of "common_prefix_length xs ys" xs ys] common_prefix_le[of xs ys] by simp_all
  have "drop (?j - k) (drop (length xs - ?j) xs) = drop (?j - k) (drop (length ys - ?j) ys)"
    using common_suffix_drop[of xs ys "common_prefix_length xs ys"] by simp
  with k J show "drop (length xs - k) xs = drop (length ys - k) ys" by simp
next
  assume "drop (length xs - k) xs = drop (length ys - k) ys"
  with assms show "k \<le> common_suffix_length xs ys (common_prefix_length xs ys)"
    by (intro common_suffix_maximal) auto
qed

lemma common_prefix_iff:
  assumes "k \<le> min (length xs) (length ys)"
  shows "k \<le> common_prefix_length xs ys \<longleftrightarrow> take k xs = take k ys"
proof
  let ?j = "common_prefix_length xs ys"
  assume k: "k \<le> ?j"
  have "take k (take ?j xs) = take k (take ?j ys)" using common_prefix_take[of xs ys] by simp
  with k show "take k xs = take k ys" by (simp add: min_def)
qed (use assms common_prefix_greatest[of k xs ys] in auto)

lemma ngram_set_iff:
  "g \<in> ngram_set t w \<longleftrightarrow>
     (if length t < w then g = t \<and> t \<noteq> [] else \<exists>a b. t = a @ g @ b \<and> length g = w)"
proof (cases "length t < w")
  case False
  have "(\<exists>i < length t - w + 1. g = slice i (i + w) t) \<longleftrightarrow> (\<exists>a b. t = a @ g @ b \<and> length g = w)"
  proof
    assume "\<exists>i < length t - w + 1. g = slice i (i + w) t"
    then obtain i where i: "i < length t - w + 1" "g = slice i (i + w) t" by blast
    then have "t = take i t @ g @ drop (i + w) t \<and> length g = w" using False
      by (auto simp: slice_def min_def) (metis append_take_drop_id drop_drop add.commute)
    then show "\<exists>a b. t = a @ g @ b \<and> length g = w" by blast
  next
    assume "\<exists>a b. t = a @ g @ b \<and> length g = w"
    then obtain a b where t: "t = a @ g @ b" "length g = w" by blast
    then have "g = slice (length a) (length a + w) t" "length a < length t - w + 1"
      by (simp_all add: slice_def)
    then show "\<exists>i < length t - w + 1. g = slice i (i + w) t" by blast
  qed
  moreover have "g \<in> ngram_set t w \<longleftrightarrow> (\<exists>i < length t - w + 1. g = slice i (i + w) t)"
    using False by (simp add: ngram_set_def image_iff Bex_def del: upt_Suc)
  ultimately show ?thesis using False by simp
qed (auto simp: ngram_set_def)

lemma multiset_overlap_counts:
  "set xs \<union> set ys \<subseteq> A \<Longrightarrow> finite A \<Longrightarrow>
   multiset_overlap xs ys = (\<Sum>t \<in> A. min (count_list xs t) (count_list ys t))"
proof -
  assume A: "set xs \<union> set ys \<subseteq> A" "finite A"
  let ?M = "mset xs \<inter># mset ys"
  have "multiset_overlap xs ys = (\<Sum>t \<in> set_mset ?M. count ?M t)"
    by (simp add: multiset_overlap_def size_multiset_overloaded_eq)
  also have "\<dots> = (\<Sum>t \<in> A. count ?M t)"
    using A by (intro sum.mono_neutral_left) (auto simp: not_in_iff)
  finally show ?thesis by (simp add: count_mset)
qed

text \<open>C31. The transition features describe the two prompts exactly.  The prefix count is the length
  of the longest common prefix; the suffix count that of the longest common suffix which does not
  reach back into that prefix; the first changed token is the position behind the prefix when both
  prompts go on there.  The position ratio counts the positions with equal tokens, the overlap
  ratio the tokens the prompts have in common with their multiplicities, and the Jaccard value is
  the share of the runs of \<open>w\<close> consecutive tokens (of the whole prompt when it is shorter) that
  occur in both, and one for two empty prompts; all other ratios are over the longer prompt.  An
  exact match is equality and the exact-prefix flag holds exactly when the previous prompt begins
  the current one.\<close>

theorem transition_features_sound:
  defines "f p c w \<equiv> token_transition_features p c w"
    and "longer p c \<equiv> rat_of_nat (max 1 (max (length p) (length c)))"
    and "grams t w \<equiv> (if length t < w then {t} - {[]} else {g. length g = w \<and> (\<exists>a b. t = a @ g @ b)})"
  shows "(\<forall>k. k \<le> tf_common_prefix_tokens (f p c w) \<longleftrightarrow>
       k \<le> min (length p) (length c) \<and> take k p = take k c) \<and>
    (\<forall>k. k \<le> tf_common_suffix_tokens (f p c w) \<longleftrightarrow>
       k + tf_common_prefix_tokens (f p c w) \<le> min (length p) (length c) \<and>
       drop (length p - k) p = drop (length c - k) c) \<and>
    tf_common_prefix_ratio (f p c w) = rat_of_nat (tf_common_prefix_tokens (f p c w)) / longer p c \<and>
    tf_common_suffix_ratio (f p c w) = rat_of_nat (tf_common_suffix_tokens (f p c w)) / longer p c \<and>
    tf_same_position_ratio (f p c w) =
      rat_of_nat (card {i. i < length p \<and> i < length c \<and> p ! i = c ! i}) / longer p c \<and>
    tf_token_multiset_overlap_ratio (f p c w) =
      rat_of_nat (\<Sum>t \<in> set p \<union> set c. min (count_list p t) (count_list c t)) / longer p c \<and>
    tf_four_gram_jaccard (f p c w) =
      (if p = [] \<and> c = [] \<and> 0 < w then 1
       else rat_of_nat (card (grams p w \<inter> grams c w)) / rat_of_nat (card (grams p w \<union> grams c w))) \<and>
    tf_exact_match (f p c w) = (p = c) \<and>
    tf_previous_is_exact_prefix (f p c w) = (take (length p) c = p) \<and>
    tf_first_changed_token (f p c w) =
      (if tf_common_prefix_tokens (f p c w) < min (length p) (length c)
       then Some (tf_common_prefix_tokens (f p c w)) else None)"
proof -
  let ?k = "common_prefix_length p c"
  let ?s = "common_suffix_length p c ?k"
  let ?m = "max (max (length p) (length c)) 1"
  note K = common_prefix_le[of p c]
  note S = common_suffix_le[of ?k p c]
  have pre: "\<forall>k. k \<le> ?k \<longleftrightarrow> k \<le> min (length p) (length c) \<and> take k p = take k c"
    using common_prefix_iff[of _ p c] K by (meson min.bounded_iff order.trans)
  have ps: "?s + ?k \<le> min (length p) (length c)" using S K by simp
  have suf: "\<forall>k. k \<le> ?s \<longleftrightarrow> k + ?k \<le> min (length p) (length c) \<and> drop (length p - k) p = drop (length c - k) c"
    using common_suffix_iff[of _ p c] ps by (meson add_le_mono1 order.trans)
  have m: "rat_of_nat ?m = longer p c" by (simp add: longer_def max.commute)
  have same: "length (filter (\<lambda>(l, r). l = r) (zip p c)) = card {i. i < length p \<and> i < length c \<and> p ! i = c ! i}"
    by (auto simp: length_filter_conv_card intro!: arg_cong[of _ _ card])
  have mul: "multiset_overlap p c = (\<Sum>t \<in> set p \<union> set c. min (count_list p t) (count_list c t))"
    by (rule multiset_overlap_counts) auto
  have g: "ngram_set t w = grams t w" for t
    by (auto simp: set_eq_iff ngram_set_iff grams_def)
  have "(grams p w \<union> grams c w = {}) \<longleftrightarrow> p = [] \<and> c = [] \<and> 0 < w"
  proof -
    have "grams t w = {} \<longleftrightarrow> t = [] \<and> 0 < w" for t :: "int list"
    proof (cases "length t < w")
      case False
      have "take w t \<in> grams t w"
      proof -
        have "\<exists>a b. t = a @ take w t @ b" by (intro exI[of _ "[]"] exI[of _ "drop w t"]) simp
        moreover have "length (take w t) = w" using False by simp
        ultimately show ?thesis using False unfolding grams_def by auto
      qed
      with False show ?thesis by auto
    qed (auto simp: grams_def)
    then show ?thesis by auto
  qed
  then have jac: "(if ngram_set p w \<union> ngram_set c w = {} then 1
      else ratio (card (ngram_set p w \<inter> ngram_set c w)) (card (ngram_set p w \<union> ngram_set c w))) =
    (if p = [] \<and> c = [] \<and> 0 < w then 1
     else rat_of_nat (card (grams p w \<inter> grams c w)) / rat_of_nat (card (grams p w \<union> grams c w)))"
    unfolding g ratio_def by simp
  have R: "ratio x ?m = rat_of_nat x / longer p c" for x unfolding ratio_def m ..
  show ?thesis
    unfolding f_def token_transition_features_def Let_def transition_features.simps jac R same mul
    by (intro conjI pre suf prefix_flag_iff refl)
qed

end
