(* ===== verification/Opportunity.thy ===== *)
theory Opportunity
  imports Tokens
begin

text \<open>
  \<^verbatim>\<open>cacheselect/reuse_opportunity.py\<close>: matching spans between two prompts (the
  algorithm of \<open>difflib.SequenceMatcher\<close> without junk heuristics) and the candidate blocks
  whose content occurs somewhere in the previous prompt.
\<close>

section \<open>Matching spans\<close>

type_synonym span = "nat \<times> nat \<times> nat"

text \<open>The longest common run inside \<open>a[alo:ahi]\<close> and \<open>b[blo:bhi]\<close>, the first one in \<open>a\<close>
  and then in \<open>b\<close> among those of equal length.\<close>

definition match_step :: "int list \<Rightarrow> int list \<Rightarrow> nat \<Rightarrow> nat \<Rightarrow> nat \<times> nat \<Rightarrow> span \<Rightarrow> span" where
  "match_step a b ahi bhi ij best =
     (case (ij, best) of ((i, j), (bi, bj, bk)) \<Rightarrow>
        let k = common_prefix_length (slice i ahi a) (slice j bhi b)
        in if bk < k then (i, j, k) else best)"

definition find_longest_match :: "int list \<Rightarrow> int list \<Rightarrow> nat \<Rightarrow> nat \<Rightarrow> nat \<Rightarrow> nat \<Rightarrow> span" where
  "find_longest_match a b alo ahi blo bhi =
     fold (match_step a b ahi bhi) (List.product [alo..<ahi] [blo..<bhi]) (alo, blo, 0)"

lemma match_fold:
  assumes "fold (match_step a b ahi bhi) ps best = (i, j, k)"
  shows "((i, j, k) = best \<or> ((i, j) \<in> set ps \<and> k = common_prefix_length (slice i ahi a) (slice j bhi b) \<and> 0 < k)) \<and>
    snd (snd best) \<le> k \<and>
    (\<forall>(x, y) \<in> set ps. common_prefix_length (slice x ahi a) (slice y bhi b) \<le> k)"
  using assms
proof (induction ps arbitrary: best)
  case (Cons p ps)
  obtain x y where p: "p = (x, y)" by force
  obtain bi bj bk where best: "best = (bi, bj, bk)" by (metis prod_cases3)
  let ?c = "common_prefix_length (slice x ahi a) (slice y bhi b)"
  have step: "match_step a b ahi bhi p best = (if bk < ?c then (x, y, ?c) else best)"
    by (simp add: match_step_def p best Let_def)
  have run: "fold (match_step a b ahi bhi) ps (if bk < ?c then (x, y, ?c) else best) = (i, j, k)"
    using Cons.prems unfolding step[symmetric] by simp
  show ?case
  proof (cases "bk < ?c")
    case True
    with Cons.IH[of "(x, y, ?c)"] run show ?thesis unfolding p best by auto
  next
    case False
    with Cons.IH[of best] run show ?thesis unfolding p best by auto
  qed
qed auto

lemma find_longest_match_correct:
  assumes "find_longest_match a b alo ahi blo bhi = (i, j, k)"
  shows "0 < k \<Longrightarrow> alo \<le> i \<and> i + k \<le> ahi \<and> blo \<le> j \<and> j + k \<le> bhi \<and> i + k \<le> length a \<and> j + k \<le> length b \<and>
      slice i (i + k) a = slice j (j + k) b"
    and "\<forall>x y. alo \<le> x \<and> x < ahi \<and> blo \<le> y \<and> y < bhi \<longrightarrow>
      common_prefix_length (slice x ahi a) (slice y bhi b) \<le> k"
proof -
  note F = match_fold[OF assms[unfolded find_longest_match_def]]
  show "\<forall>x y. alo \<le> x \<and> x < ahi \<and> blo \<le> y \<and> y < bhi \<longrightarrow>
      common_prefix_length (slice x ahi a) (slice y bhi b) \<le> k"
    using F by auto
  assume k: "0 < k"
  with F have ij: "alo \<le> i" "i < ahi" "blo \<le> j" "j < bhi"
    and kk: "k = common_prefix_length (slice i ahi a) (slice j bhi b)" by auto
  have b: "k \<le> min (ahi - i) (length a - i)" "k \<le> min (bhi - j) (length b - j)"
    using common_prefix_le[of "slice i ahi a" "slice j bhi b"] kk by simp_all
  have "take k (slice i ahi a) = take k (slice j bhi b)"
    unfolding kk by (rule common_prefix_take)
  then have "slice i (i + k) a = slice j (j + k) b"
    using b by (simp add: slice_def min_absorb1)
  with ij b k show "alo \<le> i \<and> i + k \<le> ahi \<and> blo \<le> j \<and> j + k \<le> bhi \<and> i + k \<le> length a \<and> j + k \<le> length b \<and>
      slice i (i + k) a = slice j (j + k) b" by auto
qed

text \<open>The recursion of \<open>get_matching_blocks\<close>, left part, match, right part.\<close>

function match_all :: "int list \<Rightarrow> int list \<Rightarrow> nat \<Rightarrow> nat \<Rightarrow> nat \<Rightarrow> nat \<Rightarrow> span list" where
  "match_all a b alo ahi blo bhi =
     (case find_longest_match a b alo ahi blo bhi of (i, j, k) \<Rightarrow>
        if k = 0 then []
        else match_all a b alo i blo j @ (i, j, k) # match_all a b (i + k) ahi (j + k) bhi)"
  by pat_completeness auto
termination
  by (relation "measure (\<lambda>(a, b, alo, ahi, blo, bhi). ahi - alo)")
    (auto dest!: find_longest_match_correct(1)[OF sym])

declare match_all.simps [simp del]

text \<open>Collapsing matches that touch in both sequences.\<close>

fun merge_adjacent :: "span \<Rightarrow> span list \<Rightarrow> span list" where
  "merge_adjacent (i, j, k) [] = (if k \<noteq> 0 then [(i, j, k)] else [])"
| "merge_adjacent (i, j, k) ((i2, j2, k2) # rest) =
     (if i + k = i2 \<and> j + k = j2 then merge_adjacent (i, j, k + k2) rest
      else (if k \<noteq> 0 then [(i, j, k)] else []) @ merge_adjacent (i2, j2, k2) rest)"

definition get_matching_blocks :: "int list \<Rightarrow> int list \<Rightarrow> span list" where
  "get_matching_blocks a b =
     merge_adjacent (0, 0, 0) (match_all a b 0 (length a) 0 (length b)) @ [(length a, length b, 0)]"

definition matching_spans :: "int list \<Rightarrow> int list \<Rightarrow> span list" where
  "matching_spans previous current =
     filter (\<lambda>m. m \<noteq> (length previous, length current, 0) \<and> 0 < snd (snd m))
       (get_matching_blocks previous current)"

text \<open>A monotone sequence of exact matches inside a window.\<close>

definition span_ok :: "int list \<Rightarrow> int list \<Rightarrow> span \<Rightarrow> bool" where
  "span_ok a b m \<longleftrightarrow> (case m of (i, j, k) \<Rightarrow> 0 < k \<and> i + k \<le> length a \<and> j + k \<le> length b \<and>
     slice i (i + k) a = slice j (j + k) b)"

definition span_before :: "span \<Rightarrow> span \<Rightarrow> bool" where
  "span_before m m' \<longleftrightarrow> (case (m, m') of ((i, j, k), (i', j', k')) \<Rightarrow> i + k \<le> i' \<and> j + k \<le> j')"

definition span_within :: "nat \<Rightarrow> nat \<Rightarrow> nat \<Rightarrow> nat \<Rightarrow> span \<Rightarrow> bool" where
  "span_within alo ahi blo bhi m \<longleftrightarrow> (case m of (i, j, k) \<Rightarrow> alo \<le> i \<and> i + k \<le> ahi \<and> blo \<le> j \<and> j + k \<le> bhi)"

lemma match_all_correct:
  "(\<forall>m \<in> set (match_all a b alo ahi blo bhi). span_ok a b m \<and> span_within alo ahi blo bhi m) \<and>
   sorted_wrt span_before (match_all a b alo ahi blo bhi)"
proof (induction a b alo ahi blo bhi rule: match_all.induct)
  case (1 a b alo ahi blo bhi)
  obtain i j k where m: "find_longest_match a b alo ahi blo bhi = (i, j, k)" by (metis prod_cases3)
  show ?case
  proof (cases "k = 0")
    case True
    then show ?thesis using m by (simp add: match_all.simps[of a b alo])
  next
    case False
    let ?l = "match_all a b alo i blo j" and ?r = "match_all a b (i + k) ahi (j + k) bhi"
    note C = find_longest_match_correct(1)[OF m]
    have L: "\<forall>m \<in> set ?l. span_ok a b m \<and> span_within alo i blo j m" "sorted_wrt span_before ?l"
      using 1(1)[OF m[symmetric] refl False] by auto
    have R: "\<forall>m \<in> set ?r. span_ok a b m \<and> span_within (i + k) ahi (j + k) bhi m" "sorted_wrt span_before ?r"
      using 1(2)[OF m[symmetric] refl False] by auto
    have split: "match_all a b alo ahi blo bhi = ?l @ (i, j, k) # ?r"
      using m False by (simp add: match_all.simps[of a b alo])
    have "span_within alo ahi blo bhi m" if "span_within alo i blo j m \<or> span_within (i + k) ahi (j + k) bhi m" for m
      using that C False by (auto simp: span_within_def)
    moreover have "span_ok a b (i, j, k)" "span_within alo ahi blo bhi (i, j, k)"
      using C False by (auto simp: span_ok_def span_within_def)
    moreover have "span_before m (i, j, k)" if "m \<in> set ?l" for m
      using L(1) that by (fastforce simp: span_within_def span_before_def)
    moreover have "span_before (i, j, k) m" if "m \<in> set ?r" for m
      using R(1) that by (fastforce simp: span_within_def span_before_def)
    moreover have "span_before m m'" if "m \<in> set ?l" "m' \<in> set ?r" for m m'
      using L(1) R(1) that by (fastforce simp: span_within_def span_before_def)
    ultimately show ?thesis
      unfolding split using L R by (auto simp: sorted_wrt_append)
  qed
qed

lemma slice_join: "i \<le> j \<Longrightarrow> j \<le> k \<Longrightarrow> slice i k xs = slice i j xs @ slice j k xs"
proof -
  assume "i \<le> j" "j \<le> k"
  then have "k - i = (j - i) + (k - j)" "drop j xs = drop (j - i) (drop i xs)" by simp_all
  then show ?thesis by (simp only: slice_def take_add)
qed

lemma merge_adjacent_correct:
  assumes "sorted_wrt span_before ms" "\<forall>m \<in> set ms. span_ok a b m"
    and "k = 0 \<or> span_ok a b (i, j, k)" "\<forall>m \<in> set ms. span_before (i, j, k) m"
  shows "(\<forall>m \<in> set (merge_adjacent (i, j, k) ms). span_ok a b m \<and> i \<le> fst m \<and> j \<le> fst (snd m)) \<and>
    sorted_wrt span_before (merge_adjacent (i, j, k) ms)"
  using assms
proof (induction "(i, j, k)" ms arbitrary: i j k rule: merge_adjacent.induct)
  case (2 i j k i2 j2 k2 rest)
  show ?case
  proof (cases "i + k = i2 \<and> j + k = j2")
    case True
    have ok2: "span_ok a b (i2, j2, k2)" using 2(4) by simp
    have "span_ok a b (i, j, k + k2)"
    proof (cases "k = 0")
      case True
      with \<open>i + k = i2 \<and> j + k = j2\<close> ok2 show ?thesis by simp
    next
      case False
      with 2(5) have "span_ok a b (i, j, k)" by simp
      with ok2 True slice_join[of i "i + k" "i + (k + k2)" a] slice_join[of j "j + k" "j + (k + k2)" b]
      show ?thesis by (auto simp: span_ok_def add.assoc)
    qed
    moreover have "\<forall>m \<in> set rest. span_before (i, j, k + k2) m"
      using 2(3) True by (auto simp: span_before_def)
    ultimately show ?thesis using 2(1)[OF True] 2(3,4) True by auto
  next
    case False
    have rest: "(\<forall>m \<in> set (merge_adjacent (i2, j2, k2) rest). span_ok a b m \<and> i2 \<le> fst m \<and> j2 \<le> fst (snd m)) \<and>
        sorted_wrt span_before (merge_adjacent (i2, j2, k2) rest)"
      using 2(2)[OF False] 2(3,4) by auto
    have le: "i + k \<le> i2" "j + k \<le> j2" using 2(6) by (auto simp: span_before_def)
    have "span_before (i, j, k) m" if "m \<in> set (merge_adjacent (i2, j2, k2) rest)" for m
      using rest that le by (fastforce simp: span_before_def)
    with rest le 2(5) False show ?thesis by fastforce
  qed
qed auto

lemma matching_spans_eq:
  "matching_spans a b = merge_adjacent (0, 0, 0) (match_all a b 0 (length a) 0 (length b))"
proof -
  have "\<forall>m \<in> set (merge_adjacent (0, 0, 0) (match_all a b 0 (length a) 0 (length b))). span_ok a b m"
    using merge_adjacent_correct[of "match_all a b 0 (length a) 0 (length b)" a b 0 0 0]
      match_all_correct[of a b 0 "length a" 0 "length b"] by (auto simp: span_before_def)
  then have "filter (\<lambda>m. m \<noteq> (length a, length b, 0) \<and> 0 < snd (snd m))
      (merge_adjacent (0, 0, 0) (match_all a b 0 (length a) 0 (length b))) =
      merge_adjacent (0, 0, 0) (match_all a b 0 (length a) 0 (length b))"
    by (intro filter_True) (auto simp: span_ok_def)
  then show ?thesis by (simp add: matching_spans_def get_matching_blocks_def)
qed

text \<open>C30. The reported matching spans are genuine: each is a non-empty run of equal tokens inside
  both prompts, and they come in order without overlapping in either prompt.\<close>

theorem matching_spans_sound:
  "list_all (span_ok a b) (matching_spans a b) \<and> sorted_wrt span_before (matching_spans a b)"
  using merge_adjacent_correct[of "match_all a b 0 (length a) 0 (length b)" a b 0 0 0]
    match_all_correct[of a b 0 "length a" 0 "length b"]
  by (auto simp: matching_spans_eq span_before_def list_all_iff)

section \<open>Candidate blocks\<close>

record candidate_block =
  cb_current_block_index :: nat
  cb_current_start :: nat
  cb_previous_starts :: "nat list"
  cb_aligned_previous_starts :: "nat list"
  cb_same_position_match :: bool

definition has_whole_source_block :: "candidate_block \<Rightarrow> bool" where
  "has_whole_source_block c \<longleftrightarrow> cb_aligned_previous_starts c \<noteq> []"

definition moved :: "candidate_block \<Rightarrow> bool" where
  "moved c \<longleftrightarrow> \<not> cb_same_position_match c"

definition candidate_requires_repacking :: "candidate_block \<Rightarrow> bool" where
  "candidate_requires_repacking c \<longleftrightarrow> \<not> has_whole_source_block c"

record reuse_opportunity =
  ro_block_size :: nat
  ro_previous_token_count :: nat
  ro_current_token_count :: nat
  ro_exact_common_prefix_tokens :: nat
  ro_native_cached_tokens :: nat
  ro_prefix_alignment_loss_tokens :: nat
  ro_common_suffix_tokens :: nat
  ro_monotonic_post_edit_matching_tokens :: nat
  ro_recomputed_full_block_count :: nat
  ro_candidate_block_count :: nat
  ro_candidate_token_count :: nat
  ro_whole_source_block_count :: nat
  ro_repacking_required_block_count :: nat
  ro_moved_candidate_block_count :: nat
  ro_candidate_share_of_native_recompute :: rat
  ro_monotonic_matching_spans :: "span list"
  ro_candidate_blocks :: "candidate_block list"

definition post_edit_matching_tokens :: "span list \<Rightarrow> nat \<Rightarrow> nat" where
  "post_edit_matching_tokens spans prefix =
     sum_list (map (\<lambda>(i, j, k). (j + k) - max j prefix) spans)"

definition content_occurrences :: "int list \<Rightarrow> nat \<Rightarrow> (int list, nat list) odict" where
  "content_occurrences tokens width =
     fold (\<lambda>start d. let blk = slice start (start + width) tokens
             in od_set blk ((case od_get d blk of None \<Rightarrow> [] | Some ss \<Rightarrow> ss) @ [start]) d)
       [0..<length tokens + 1 - width] []"

definition candidate_at ::
  "(int list, nat list) odict \<Rightarrow> int list \<Rightarrow> nat \<Rightarrow> nat \<Rightarrow> candidate_block option" where
  "candidate_at occ current bs start =
     map_option (\<lambda>starts. \<lparr>cb_current_block_index = start div bs, cb_current_start = start,
         cb_previous_starts = starts,
         cb_aligned_previous_starts = filter (\<lambda>s. s mod bs = 0) starts,
         cb_same_position_match = (start \<in> set starts)\<rparr>)
       (od_get occ (slice start (start + bs) current))"

text \<open>The analysis proper, after the checks.\<close>

definition opportunity_of :: "int list \<Rightarrow> int list \<Rightarrow> nat \<Rightarrow> nat \<Rightarrow> reuse_opportunity" where
  "opportunity_of previous current native bs =
     (let exact_prefix = common_prefix_length previous current;
          spans = matching_spans previous current;
          occ = content_occurrences previous bs;
          first = (native + bs - 1) div bs * bs;
          full_end = length current div bs * bs;
          cands = List.map_filter (candidate_at occ current bs) (range_step first full_end bs);
          count = length cands;
          native_recompute = length current - native
      in \<lparr>ro_block_size = bs, ro_previous_token_count = length previous,
          ro_current_token_count = length current, ro_exact_common_prefix_tokens = exact_prefix,
          ro_native_cached_tokens = native, ro_prefix_alignment_loss_tokens = exact_prefix - native,
          ro_common_suffix_tokens = common_suffix_length previous current exact_prefix,
          ro_monotonic_post_edit_matching_tokens = post_edit_matching_tokens spans exact_prefix,
          ro_recomputed_full_block_count = (full_end - first) div bs,
          ro_candidate_block_count = count, ro_candidate_token_count = count * bs,
          ro_whole_source_block_count = length (filter has_whole_source_block cands),
          ro_repacking_required_block_count = length (filter candidate_requires_repacking cands),
          ro_moved_candidate_block_count = length (filter moved cands),
          ro_candidate_share_of_native_recompute =
            (if native_recompute \<noteq> 0 then ratio (count * bs) native_recompute else 0),
          ro_monotonic_matching_spans = spans, ro_candidate_blocks = cands\<rparr>)"

definition analyze_reuse_opportunity :: "int list \<Rightarrow> int list \<Rightarrow> int \<Rightarrow> int \<Rightarrow> reuse_opportunity res" where
  "analyze_reuse_opportunity previous current native_cached block_size =
     bind_res (check_res (1 \<le> block_size) (ValueError ''block_size must be positive'')) (\<lambda>_.
     bind_res (check_res (0 \<le> native_cached \<and> native_cached \<le> int (length current))
       (ValueError ''native_cached_tokens must be between zero and current token count'')) (\<lambda>_.
     bind_res (check_res (native_cached \<le> int (common_prefix_length previous current))
       (ValueError ''native_cached_tokens exceeds the exact common prefix'')) (\<lambda>_.
       Inr (opportunity_of previous current (nat native_cached) (nat block_size)))))"

text \<open>Where a block occurs in the previous prompt.\<close>

definition occurrences :: "int list \<Rightarrow> nat \<Rightarrow> int list \<Rightarrow> nat list" where
  "occurrences tokens width blk =
     filter (\<lambda>s. slice s (s + width) tokens = blk) [0..<length tokens + 1 - width]"

lemma fold_occurrences:
  "od_get (fold (\<lambda>start d. let blk = f start
       in od_set blk ((case od_get d blk of None \<Rightarrow> [] | Some ss \<Rightarrow> ss) @ [start]) d) xs d0) blk =
     (case od_get d0 blk of
        None \<Rightarrow> if \<exists>s \<in> set xs. f s = blk then Some (filter (\<lambda>s. f s = blk) xs) else None
      | Some ss \<Rightarrow> Some (ss @ filter (\<lambda>s. f s = blk) xs))"
proof (induction xs arbitrary: d0)
  case (Cons x xs)
  then show ?case by (cases "f x = blk") (auto simp: Let_def filter_empty_conv split: option.splits)
qed (simp split: option.split)

lemma content_occurrences_get:
  "od_get (content_occurrences tokens w) blk =
     (if occurrences tokens w blk = [] then None else Some (occurrences tokens w blk))"
  unfolding content_occurrences_def fold_occurrences[where f = "\<lambda>s. slice s (s + w) tokens"]
  by (auto simp: occurrences_def filter_empty_conv)

lemma set_occurrences:
  "s \<in> set (occurrences tokens w blk) \<longleftrightarrow> s + w \<le> length tokens \<and> slice s (s + w) tokens = blk"
  by (auto simp: occurrences_def)

lemma candidate_at_eq:
  "candidate_at (content_occurrences prev bs) current bs start =
     (let ss = occurrences prev bs (slice start (start + bs) current) in
      if ss = [] then None
      else Some \<lparr>cb_current_block_index = start div bs, cb_current_start = start, cb_previous_starts = ss,
        cb_aligned_previous_starts = filter (\<lambda>s. s mod bs = 0) ss, cb_same_position_match = (start \<in> set ss)\<rparr>)"
  by (simp add: candidate_at_def content_occurrences_get Let_def)

lemma map_filter_candidates:
  "map cb_current_start (List.map_filter (candidate_at (content_occurrences prev bs) current bs) starts) =
     filter (\<lambda>s. occurrences prev bs (slice s (s + bs) current) \<noteq> []) starts"
  by (induction starts) (simp_all add: map_filter_simps candidate_at_eq Let_def)

text \<open>The start positions of the full blocks the native hit leaves.\<close>

lemma recomputed_starts:
  assumes "0 < bs"
  shows "range_step ((native + bs - 1) div bs * bs) (n div bs * bs) bs =
    filter (\<lambda>s. native \<le> s) (map (\<lambda>k. k * bs) [0..<n div bs])"
proof -
  let ?f = "(native + bs - 1) div bs"
  have "native \<le> k * bs \<longleftrightarrow> ?f \<le> k" for k
    using ceil_div_le[OF assms] by simp
  then have "filter (\<lambda>k. native \<le> k * bs) [0..<n div bs] = [?f..<n div bs]"
    by (simp add: filter_upt_ge)
  then show ?thesis
    by (simp only: range_step_mult[OF assms] filter_map o_def)
qed

lemma analyze_ok:
  "(\<exists>o'. analyze_reuse_opportunity p c nc bs = Inr o') \<longleftrightarrow>
     1 \<le> bs \<and> 0 \<le> nc \<and> nc \<le> int (common_prefix_length p c)"
  using common_prefix_le[of p c]
  by (auto simp: analyze_reuse_opportunity_def check_res_def)

lemma analyze_result:
  "analyze_reuse_opportunity p c nc bs = Inr r \<Longrightarrow> r = opportunity_of p c (nat nc) (nat bs)"
  by (auto simp: analyze_reuse_opportunity_def)

lemma analyze_error:
  "analyze_reuse_opportunity p c nc bs = Inl e \<Longrightarrow> \<exists>msg. e = ValueError msg"
  by (auto simp: analyze_reuse_opportunity_def check_res_def split: if_splits)

lemma candidate_facts:
  assumes "analyze_reuse_opportunity p c nc bs = Inr r" "cb \<in> set (ro_candidate_blocks r)"
    and n: "n = nat bs" and s: "s = cb_current_start cb"
  shows "s = cb_current_block_index cb * n \<and> s + n \<le> length c \<and> nat nc \<le> s \<and>
    cb_previous_starts cb = occurrences p n (slice s (s + n) c) \<and> cb_previous_starts cb \<noteq> [] \<and>
    cb_aligned_previous_starts cb = filter (\<lambda>t. t mod n = 0) (cb_previous_starts cb) \<and>
    (cb_same_position_match cb \<longleftrightarrow> s \<in> set (cb_previous_starts cb))"
proof -
  have "1 \<le> bs" using assms(1) analyze_ok by blast
  then have b: "0 < n" by (simp add: n)
  let ?starts = "range_step ((nat nc + n - 1) div n * n) (length c div n * n) n"
  have "ro_candidate_blocks r = List.map_filter (candidate_at (content_occurrences p n) c n) ?starts"
    using analyze_result[OF assms(1)] by (simp add: opportunity_of_def Let_def n)
  then obtain t where t: "t \<in> set ?starts" "candidate_at (content_occurrences p n) c n t = Some cb"
    using assms(2) by (auto simp: map_filter_def)
  obtain k where k': "t = k * n" "k \<in> {0..<length c div n}" "nat nc \<le> t"
    using t(1) unfolding recomputed_starts[OF b] set_filter set_map set_upt by blast
  then have k: "t = k * n" "k < length c div n" "nat nc \<le> t" by simp_all
  have "Suc k * n \<le> length c" using k(2) by (metis Suc_leI b less_eq_div_iff_mult_less_eq)
  then have "t + n \<le> length c" using k(1) by simp
  moreover define ss where "ss = occurrences p n (slice t (t + n) c)"
  have cb: "ss \<noteq> [] \<and> cb = \<lparr>cb_current_block_index = t div n, cb_current_start = t,
      cb_previous_starts = ss, cb_aligned_previous_starts = filter (\<lambda>s. s mod n = 0) ss,
      cb_same_position_match = (t \<in> set ss)\<rparr>"
    using t(2) unfolding candidate_at_eq Let_def ss_def[symmetric] by (simp split: if_splits)
  moreover have "s = t" using cb s by simp
  moreover have "t div n * n = t" using k(1) by simp
  ultimately show ?thesis using k(3) ss_def by simp
qed

lemma candidate_complete:
  assumes an: "analyze_reuse_opportunity p c nc bs = Inr r" and n: "n = nat bs"
    and k: "nc \<le> int (k * n)" "k * n + n \<le> length c" "t + n \<le> length p"
      "slice t (t + n) p = slice (k * n) (k * n + n) c"
  shows "k \<in> cb_current_block_index ` set (ro_candidate_blocks r)"
proof -
  have "1 \<le> bs" using an analyze_ok by blast
  then have b: "0 < n" by (simp add: n)
  let ?starts = "range_step ((nat nc + n - 1) div n * n) (length c div n * n) n"
  have cands: "ro_candidate_blocks r = List.map_filter (candidate_at (content_occurrences p n) c n) ?starts"
    using analyze_result[OF an] by (simp add: opportunity_of_def Let_def n)
  have "k < length c div n" using div_block_less[OF k(2) b] .
  moreover have "nat nc \<le> k * n" using k(1) by (simp only: nat_le_iff)
  ultimately have "k * n \<in> set ?starts" unfolding recomputed_starts[OF b] by auto
  moreover have "occurrences p n (slice (k * n) (k * n + n) c) \<noteq> []"
    using k(3,4) set_occurrences[of t p n] by (metis empty_iff empty_set)
  ultimately have "k * n \<in> set (map cb_current_start (ro_candidate_blocks r))"
    unfolding cands map_filter_candidates by simp
  then obtain cb where cb: "cb \<in> set (ro_candidate_blocks r)" "cb_current_start cb = k * n" by auto
  then have "cb_current_block_index cb * n = k * n" using candidate_facts[OF an cb(1) n refl] by simp
  then show ?thesis using cb(1) b by force
qed

lemma analysis_facts:
  assumes "analyze_reuse_opportunity p c nc bs = Inr r"
  shows "ro_block_size r = nat bs \<and> 0 < nat bs \<and> ro_previous_token_count r = length p \<and>
    ro_current_token_count r = length c"
proof -
  have "1 \<le> bs" using assms analyze_ok by blast
  then show ?thesis using analyze_result[OF assms] by (simp add: opportunity_of_def Let_def)
qed

text \<open>C29. Candidates are exactly the reusable content.  When the analysis succeeds, its candidates
  are, in order, the block-aligned full blocks of the current prompt at or beyond the native hit
  whose tokens occur somewhere in the previous prompt; each lists all places where they occur in
  ascending order, the aligned ones apart, and whether the block stayed in place.\<close>

theorem candidates_exact:
  assumes "analyze_reuse_opportunity p c nc bs = Inr r"
  shows "map cb_current_start (ro_candidate_blocks r) =
      filter (\<lambda>s. nc \<le> int s \<and> (\<exists>t. t + nat bs \<le> length p \<and>
          slice t (t + nat bs) p = slice s (s + nat bs) c))
        (map (\<lambda>k. k * nat bs) [0..<length c div nat bs]) \<and>
    (\<forall>cb \<in> set (ro_candidate_blocks r). \<forall>t.
      cb_current_start cb = cb_current_block_index cb * nat bs \<and> sorted_unique (cb_previous_starts cb) \<and>
      (t \<in> set (cb_previous_starts cb) \<longleftrightarrow> t + nat bs \<le> length p \<and>
         slice t (t + nat bs) p = slice (cb_current_start cb) (cb_current_start cb + nat bs) c) \<and>
      cb_aligned_previous_starts cb = filter (\<lambda>t. nat bs dvd t) (cb_previous_starts cb) \<and>
      (cb_same_position_match cb \<longleftrightarrow> cb_current_start cb \<in> set (cb_previous_starts cb)))"
proof -
  have b: "1 \<le> bs" "0 \<le> nc" using assms analyze_ok by blast+
  let ?n = "nat bs" and ?w = "nat nc"
  let ?starts = "range_step ((?w + ?n - 1) div ?n * ?n) (length c div ?n * ?n) ?n"
  let ?cands = "List.map_filter (candidate_at (content_occurrences p ?n) c ?n) ?starts"
  have r: "ro_candidate_blocks r = ?cands"
    using analyze_result[OF assms] by (simp add: opportunity_of_def Let_def)
  have starts: "?starts = filter (\<lambda>s. ?w \<le> s) (map (\<lambda>k. k * ?n) [0..<length c div ?n])"
    using b by (intro recomputed_starts) simp
  have occ: "occurrences p ?n blk \<noteq> [] \<longleftrightarrow> (\<exists>t. t + ?n \<le> length p \<and> slice t (t + ?n) p = blk)" for blk
    using set_occurrences[of _ p ?n blk] by (metis empty_iff empty_set neq_Nil_conv list.set_intros(1))
  have "map cb_current_start ?cands = filter (\<lambda>s. nc \<le> int s \<and> (\<exists>t. t + ?n \<le> length p \<and>
          slice t (t + ?n) p = slice s (s + ?n) c)) (map (\<lambda>k. k * ?n) [0..<length c div ?n])"
    unfolding map_filter_candidates starts filter_filter occ
    by (intro filter_cong) (auto simp: nat_le_iff)
  moreover have "cb_current_start cb = cb_current_block_index cb * ?n \<and> sorted_unique (cb_previous_starts cb) \<and>
      (t \<in> set (cb_previous_starts cb) \<longleftrightarrow> t + ?n \<le> length p \<and>
         slice t (t + ?n) p = slice (cb_current_start cb) (cb_current_start cb + ?n) c) \<and>
      cb_aligned_previous_starts cb = filter (\<lambda>t. ?n dvd t) (cb_previous_starts cb) \<and>
      (cb_same_position_match cb \<longleftrightarrow> cb_current_start cb \<in> set (cb_previous_starts cb))"
    if cb: "cb \<in> set ?cands" for cb t
  proof -
    obtain s where s: "s \<in> set ?starts" "candidate_at (content_occurrences p ?n) c ?n s = Some cb"
      using cb by (auto simp: map_filter_def)
    have "?n dvd s" using s(1) unfolding starts by auto
    have "sorted_unique (occurrences p ?n blk)" for blk
      by (simp add: sorted_unique_iff occurrences_def sorted_filter_upt)
    then show ?thesis
      using s(2) \<open>?n dvd s\<close>
      by (auto simp: candidate_at_eq Let_def set_occurrences dvd_eq_mod_eq_0 split: if_splits)
  qed
  ultimately show ?thesis unfolding r by blast
qed

lemma candidates_exact_witness:
  "\<exists>r. analyze_reuse_opportunity [7] [9, 7] 0 1 = Inr r \<and>
     map cb_current_start (ro_candidate_blocks r) = [1]"
proof -
  obtain r where r: "analyze_reuse_opportunity [7] [9, 7] 0 1 = Inr r"
    using analyze_ok[of "[7]" "[9, 7]" 0 1] by auto
  define P where "P s \<longleftrightarrow> 0 \<le> int s \<and> (\<exists>t. t + nat 1 \<le> length [7::int] \<and>
      slice t (t + nat 1) [7] = slice s (s + nat 1) [9, 7::int])" for s
  have P0: "P 0 = False"
  proof -
    have "slice t (t + 1) [7::int] \<noteq> [9]" for t by (cases t) (simp_all add: slice_def)
    moreover have "slice 0 (0 + 1) [9, 7::int] = [9]" by (simp add: slice_def)
    ultimately show ?thesis unfolding P_def nat_one_as_int by simp
  qed
  have P1: "P (Suc 0) = True"
    unfolding P_def by (simp add: slice_def)
  have "map cb_current_start (ro_candidate_blocks r) =
      filter P (map (\<lambda>k. k * nat 1) [0..<length [9, 7::int] div nat 1])"
    unfolding P_def by (rule conjunct1[OF candidates_exact[OF r]])
  also have "map (\<lambda>k. k * nat 1) [0..<length [9, 7::int] div nat 1] = [0, Suc 0]"
    by (simp add: upt_conv_Cons)
  also have "filter P [0, Suc 0] = [1]" by (simp only: filter.simps P0 P1 if_True if_False One_nat_def)
  finally have m: "map cb_current_start (ro_candidate_blocks r) = [1]" .
  show ?thesis by (intro exI[of _ r] conjI) (rule r, rule m)
qed

text \<open>The summary numbers are consistent: candidates never exceed the recomputed full blocks,
  their tokens never exceed what is recomputed, every candidate either has an aligned source or
  needs repacking, the share is a proportion, the native hit lies inside the common prefix and
  the common suffix does not overlap it.\<close>

theorem opportunity_counts:
  assumes "analyze_reuse_opportunity p c nc bs = Inr r"
  shows "ro_candidate_block_count r \<le> ro_recomputed_full_block_count r \<and>
    ro_candidate_token_count r \<le> ro_current_token_count r - ro_native_cached_tokens r \<and>
    ro_whole_source_block_count r + ro_repacking_required_block_count r = ro_candidate_block_count r \<and>
    ro_moved_candidate_block_count r \<le> ro_candidate_block_count r \<and>
    ro_candidate_share_of_native_recompute r \<in> {0..1} \<and>
    ro_native_cached_tokens r + ro_prefix_alignment_loss_tokens r = ro_exact_common_prefix_tokens r \<and>
    ro_exact_common_prefix_tokens r + ro_common_suffix_tokens r \<le>
      min (ro_previous_token_count r) (ro_current_token_count r)"
proof -
  have b: "1 \<le> bs" "0 \<le> nc" "nc \<le> int (common_prefix_length p c)" using assms analyze_ok by blast+
  define n w where "n = nat bs" and "w = nat nc"
  define f m where "f = (w + n - 1) div n" and "m = length c div n"
  define cands where "cands = List.map_filter (candidate_at (content_occurrences p n) c n) (range_step (f * n) (m * n) n)"
  have n: "0 < n" using b by (simp add: n_def)
  have wc: "w \<le> common_prefix_length p c" using b by (simp add: w_def nat_le_iff)
  have "length cands = length (map cb_current_start cands)" by simp
  also have "\<dots> \<le> length (range_step (f * n) (m * n) n)"
    unfolding cands_def map_filter_candidates by (rule length_filter_le)
  also have "\<dots> = m - f" using n by (simp add: range_step_mult)
  finally have len: "length cands \<le> m - f" .
  have "w \<le> f * n"
  proof -
    have "w + n - 1 < Suc f * n" unfolding f_def using n by (metis dividend_less_div_times mult_Suc add.commute)
    then show ?thesis by simp
  qed
  moreover have "m * n \<le> length c" by (simp add: m_def)
  ultimately have tok: "length cands * n \<le> length c - w"
    using mult_le_mono1[OF len, of n] by (simp add: diff_mult_distrib)
  have split: "length (filter has_whole_source_block cands) + length (filter candidate_requires_repacking cands) =
      length cands"
    using sum_length_filter_compl[of has_whole_source_block cands]
    by (simp add: candidate_requires_repacking_def[abs_def])
  have r: "ro_candidate_block_count r = length cands" "ro_recomputed_full_block_count r = (m * n - f * n) div n"
    "ro_candidate_token_count r = length cands * n" "ro_current_token_count r = length c"
    "ro_native_cached_tokens r = w" "ro_previous_token_count r = length p"
    "ro_whole_source_block_count r = length (filter has_whole_source_block cands)"
    "ro_repacking_required_block_count r = length (filter candidate_requires_repacking cands)"
    "ro_moved_candidate_block_count r = length (filter moved cands)"
    "ro_candidate_share_of_native_recompute r =
      (if length c - w \<noteq> 0 then ratio (length cands * n) (length c - w) else 0)"
    "ro_exact_common_prefix_tokens r = common_prefix_length p c"
    "ro_prefix_alignment_loss_tokens r = common_prefix_length p c - w"
    "ro_common_suffix_tokens r = common_suffix_length p c (common_prefix_length p c)"
    using analyze_result[OF assms]
    by (simp_all add: opportunity_of_def Let_def cands_def f_def m_def n_def w_def)
  have "(m * n - f * n) div n = m - f" using n by (simp add: diff_mult_distrib[symmetric])
  then show ?thesis
    unfolding r using len tok split wc ratio_bounds[OF tok] common_prefix_le[of p c]
      common_suffix_le[of "common_prefix_length p c" p c]
    by simp
qed

lemma opportunity_counts_witness:
  "\<exists>r. analyze_reuse_opportunity [1, 2, 3] [9, 9, 1, 2] 0 2 = Inr r \<and>
     ro_candidate_block_count r \<le> ro_recomputed_full_block_count r"
  using analyze_ok[of "[1, 2, 3]" "[9, 9, 1, 2]" 0 2] opportunity_counts[of "[1, 2, 3]" "[9, 9, 1, 2]" 0 2]
  by auto

text \<open>The analysis validates its inputs: it fails, always with \<open>ValueError\<close>, exactly for a
  block size below one or a native hit that is negative or longer than the common prefix.\<close>

theorem analyze_total:
  "(case analyze_reuse_opportunity p c nc bs of
      Inr r \<Rightarrow> 1 \<le> bs \<and> 0 \<le> nc \<and> nc \<le> int (common_prefix_length p c)
    | Inl e \<Rightarrow> \<not> (1 \<le> bs \<and> 0 \<le> nc \<and> nc \<le> int (common_prefix_length p c)) \<and> (\<exists>msg. e = ValueError msg))"
  using analyze_ok[of p c nc bs] analyze_error[of p c nc bs]
  by (cases "analyze_reuse_opportunity p c nc bs") auto

end
