(* ===== verification/Features.thy ===== *)
theory Features
  imports Opportunity
begin

text \<open>
  Model inputs of the repair selector for one candidate block:
  \<^verbatim>\<open>cacheselect/block_features.py\<close> (the enclosing edit, block geometry, lexical
  overlap), \<^verbatim>\<open>cacheselect/context_features.py\<close> (edit spans and matching runs around
  a candidate) and \<^verbatim>\<open>cacheselect/selector_features.py\<close> (the ordered feature
  schemas).  Float ratios are exact rationals.
\<close>

section \<open>The enclosing edit\<close>

record changed_region =
  cr_previous_start :: nat
  cr_previous_end :: nat
  cr_current_start :: nat
  cr_current_end :: nat

definition locate_changed_token_region :: "int list \<Rightarrow> int list \<Rightarrow> changed_region" where
  "locate_changed_token_region previous current =
     (let prefix = common_prefix_length previous current;
          suffix = common_suffix_length previous current prefix
      in \<lparr>cr_previous_start = prefix, cr_previous_end = length previous - suffix,
          cr_current_start = prefix, cr_current_end = length current - suffix\<rparr>)"

lemma region_bounds:
  assumes "r = locate_changed_token_region p c"
  shows "cr_previous_start r \<le> cr_previous_end r \<and> cr_previous_end r \<le> length p \<and>
    cr_current_start r \<le> cr_current_end r \<and> cr_current_end r \<le> length c"
proof -
  let ?pl = "common_prefix_length p c"
  have "?pl + common_suffix_length p c ?pl \<le> length p" "?pl + common_suffix_length p c ?pl \<le> length c"
    using common_prefix_le[of p c] by (auto intro!: common_suffix_le)
  then show ?thesis unfolding assms locate_changed_token_region_def Let_def by simp linarith
qed

lemma suffix_loop_greatest:
  "k \<le> n \<Longrightarrow> k \<le> length xs \<Longrightarrow> k \<le> length ys \<Longrightarrow> take k xs = take k ys \<Longrightarrow> k \<le> suffix_loop n xs ys"
proof (induction n xs ys arbitrary: k rule: suffix_loop.induct)
  case (1 n x xs y ys)
  then show ?case by (cases k) auto
qed auto

lemma common_suffix_greatest:
  assumes "k \<le> min (length xs) (length ys) - q"
    and "drop (length xs - k) xs = drop (length ys - k) ys"
  shows "k \<le> common_suffix_length xs ys q"
proof -
  have "take k (rev xs) = take k (rev ys)" using assms(2) by (simp add: take_rev)
  then show ?thesis
    using assms(1) unfolding common_suffix_length_def by (intro suffix_loop_greatest) auto
qed

lemma region_replaces:
  assumes "r = locate_changed_token_region p c"
  shows "take (cr_previous_start r) p @ slice (cr_current_start r) (cr_current_end r) c @
    drop (cr_previous_end r) p = c"
proof -
  let ?pl = "common_prefix_length p c" and ?sl = "common_suffix_length p c (common_prefix_length p c)"
  have le: "?pl \<le> length c - ?sl"
    using region_bounds[OF refl, of p c] by (simp add: locate_changed_token_region_def Let_def)
  have "take ?pl p @ slice ?pl (length c - ?sl) c @ drop (length p - ?sl) p =
      slice 0 ?pl c @ slice ?pl (length c - ?sl) c @ drop (length c - ?sl) c"
    by (simp only: common_prefix_take[of p c] slice_0 common_suffix_drop[of p c])
  also have "\<dots> = take (length c - ?sl) c @ drop (length c - ?sl) c"
    using slice_join[of 0 ?pl "length c - ?sl" c] le by (simp add: slice_0)
  finally show ?thesis by (simp add: assms locate_changed_token_region_def Let_def)
qed

text \<open>C32. The enclosing region is the smallest edit.  Replacing it in the previous prompt by its
  current tokens gives the current prompt, and no other single replacement that does so is
  shorter, on either side.\<close>

theorem changed_region_minimal:
  assumes "a \<le> b" "b \<le> length p" "c = take a p @ new @ drop b p"
    and "r = locate_changed_token_region p c"
  shows "take (cr_previous_start r) p @ slice (cr_current_start r) (cr_current_end r) c @
      drop (cr_previous_end r) p = c \<and>
    cr_previous_end r - cr_previous_start r \<le> b - a \<and>
    cr_current_end r - cr_current_start r \<le> length new"
proof -
  let ?pl = "common_prefix_length p c" and ?e = "length p - b"
  let ?sl = "common_suffix_length p c ?pl" and ?m = "min (length p) (length c)"
  have len: "length c = a + length new + ?e" using assms(1-3) by simp
  have "take a p = take a c" using assms(1-3) by simp
  then have "a \<le> ?pl" using assms(1,2) len by (intro common_prefix_greatest) auto
  have "drop (length p - ?e) p = drop (length c - ?e) c" using assms(1-3) by simp
  then have d: "drop (length p - k) p = drop (length c - k) c" if "k \<le> ?e" for k
  proof -
    have "drop (length p - k) p = drop (?e - k) (drop (length p - ?e) p)" using that assms(2) by simp
    also have "\<dots> = drop (?e - k) (drop (length c - ?e) c)"
      using \<open>drop (length p - ?e) p = drop (length c - ?e) c\<close> by simp
    also have "\<dots> = drop (length c - k) c"
      unfolding drop_drop by (rule arg_cong[where f = "\<lambda>i. drop i c"]) (use that len in linarith)
    finally show ?thesis .
  qed
  have "min ?e (?m - ?pl) \<le> ?sl" using d by (intro common_suffix_greatest) auto
  moreover have "?pl \<le> ?m" using common_prefix_le[of p c] by simp
  moreover have "a + ?e \<le> ?m" using assms(1,2) len by (intro min.boundedI) linarith+
  ultimately have "a + ?e \<le> ?pl + ?sl" using \<open>a \<le> ?pl\<close> unfolding min_def by (auto split: if_splits)
  then have "(length p - ?sl) - ?pl \<le> b - a" "(length c - ?sl) - ?pl \<le> length new"
    using len assms(1,2) by auto
  then show ?thesis using region_replaces[OF assms(4)]
    by (simp add: assms(4) locate_changed_token_region_def Let_def)
qed

lemma changed_region_minimal_witness:
  "cr_current_end (locate_changed_token_region [1, 2, 3] [1, 9, 3]) -
    cr_current_start (locate_changed_token_region [1, 2, 3] [1, 9, 3]) \<le> 1"
  using changed_region_minimal[of 1 2 "[1, 2, 3]" "[1, 9, 3]" "[9]", OF _ _ _ refl] by simp

section \<open>Block geometry\<close>

record candidate_block_features =
  bf_previous_token_count :: nat
  bf_current_token_count :: nat
  bf_previous_changed_token_count :: nat
  bf_current_changed_token_count :: nat
  bf_block_size :: nat
  bf_candidate_block_index :: nat
  bf_candidate_position_ratio :: rat
  bf_relative_block_offset :: int
  bf_nearest_changed_block_distance :: int
  bf_source_displacement_blocks :: rat
  bf_candidate_share_of_native_recompute :: rat
  bf_same_position_match :: bool
  bf_requires_repacking :: bool
  bf_changed_candidate_token_overlap_ratio :: "rat option"
  bf_introduced_candidate_token_overlap_ratio :: "rat option"
  bf_removed_candidate_token_overlap_ratio :: "rat option"
  bf_changed_candidate_token_jaccard :: "rat option"

definition changed_block_bounds :: "changed_region \<Rightarrow> nat \<Rightarrow> (nat \<times> nat) res" where
  "changed_block_bounds region bs =
     (if bs = 0 then Inl ZeroDivisionError
      else let first = cr_current_start region div bs
           in if cr_current_start region = cr_current_end region then Inr (first, first)
              else Inr (first, (cr_current_end region - 1) div bs))"

definition relative_block_offset :: "nat \<Rightarrow> nat \<Rightarrow> nat \<Rightarrow> int" where
  "relative_block_offset index lo hi =
     (if index < lo then int index - int lo
      else if hi < index then int index - int hi
      else 0)"

definition nearest_source_start :: "candidate_block \<Rightarrow> nat res" where
  "nearest_source_start cand =
     py_min_by (\<lambda>start. (\<bar>int start - int (cb_current_start cand)\<bar>, start)) (cb_previous_starts cand)"

definition check_counts :: "int list \<Rightarrow> int list \<Rightarrow> reuse_opportunity \<Rightarrow> unit res" where
  "check_counts previous current opp =
     bind_res (check_res (ro_previous_token_count opp = length previous)
       (ValueError ''previous token count does not match reuse opportunity'')) (\<lambda>_.
     check_res (ro_current_token_count opp = length current)
       (ValueError ''current token count does not match reuse opportunity''))"

definition geometry_row ::
  "int list \<Rightarrow> int list \<Rightarrow> reuse_opportunity \<Rightarrow> changed_region \<Rightarrow> nat \<times> nat \<Rightarrow> candidate_block \<Rightarrow>
   candidate_block_features res" where
  "geometry_row previous current opp region bounds cand =
     (let offset = relative_block_offset (cb_current_block_index cand) (fst bounds) (snd bounds)
      in bind_res (nearest_source_start cand) (\<lambda>source_start.
         Inr \<lparr>bf_previous_token_count = length previous, bf_current_token_count = length current,
           bf_previous_changed_token_count = cr_previous_end region - cr_previous_start region,
           bf_current_changed_token_count = cr_current_end region - cr_current_start region,
           bf_block_size = ro_block_size opp, bf_candidate_block_index = cb_current_block_index cand,
           bf_candidate_position_ratio = ratio (cb_current_start cand) (max (length current) 1),
           bf_relative_block_offset = offset, bf_nearest_changed_block_distance = \<bar>offset\<bar>,
           bf_source_displacement_blocks =
             of_int (int (cb_current_start cand) - int source_start) / of_nat (ro_block_size opp),
           bf_candidate_share_of_native_recompute = ro_candidate_share_of_native_recompute opp,
           bf_same_position_match = cb_same_position_match cand,
           bf_requires_repacking = candidate_requires_repacking cand,
           bf_changed_candidate_token_overlap_ratio = None,
           bf_introduced_candidate_token_overlap_ratio = None,
           bf_removed_candidate_token_overlap_ratio = None,
           bf_changed_candidate_token_jaccard = None\<rparr>))"

definition extract_candidate_block_geometry ::
  "int list \<Rightarrow> int list \<Rightarrow> reuse_opportunity \<Rightarrow> candidate_block_features list res" where
  "extract_candidate_block_geometry previous current opp =
     bind_res (check_counts previous current opp) (\<lambda>_.
       let region = locate_changed_token_region previous current
       in bind_res (changed_block_bounds region (ro_block_size opp)) (\<lambda>bounds.
          map_res (geometry_row previous current opp region bounds) (ro_candidate_blocks opp)))"

section \<open>Lexical overlap\<close>

definition token_difference :: "int list \<Rightarrow> int list \<Rightarrow> int multiset" where
  "token_difference left right = mset left - mset right"

definition token_overlap_ratio :: "int multiset \<Rightarrow> int list \<Rightarrow> rat" where
  "token_overlap_ratio source candidate =
     (if source = {#} then 0 else ratio (size (source \<inter># mset candidate)) (size source))"

definition token_jaccard :: "int list \<Rightarrow> int list \<Rightarrow> rat" where
  "token_jaccard left right =
     (let union = set left \<union> set right
      in if union \<noteq> {} then ratio (card (set left \<inter> set right)) (card union) else 1)"

definition lexical_row ::
  "int list \<Rightarrow> nat \<Rightarrow> int list \<Rightarrow> int multiset \<Rightarrow> int multiset \<Rightarrow> candidate_block_features \<Rightarrow>
   candidate_block \<Rightarrow> candidate_block_features" where
  "lexical_row current bs changed introduced removed row cand =
     (let toks = slice (cb_current_start cand) (cb_current_start cand + bs) current
      in row\<lparr>bf_changed_candidate_token_overlap_ratio := Some (token_overlap_ratio (mset changed) toks),
             bf_introduced_candidate_token_overlap_ratio := Some (token_overlap_ratio introduced toks),
             bf_removed_candidate_token_overlap_ratio := Some (token_overlap_ratio removed toks),
             bf_changed_candidate_token_jaccard := Some (token_jaccard changed toks)\<rparr>)"

definition extract_candidate_block_features ::
  "int list \<Rightarrow> int list \<Rightarrow> reuse_opportunity \<Rightarrow> candidate_block_features list res" where
  "extract_candidate_block_features previous current opp =
     bind_res (extract_candidate_block_geometry previous current opp) (\<lambda>geometry.
       let region = locate_changed_token_region previous current;
           previous_changed = slice (cr_previous_start region) (cr_previous_end region) previous;
           current_changed = slice (cr_current_start region) (cr_current_end region) current;
           introduced = token_difference current_changed previous_changed;
           removed = token_difference previous_changed current_changed
       in Inr (map2 (lexical_row current (ro_block_size opp) current_changed introduced removed)
            geometry (ro_candidate_blocks opp)))"

text \<open>The ratios are proportions.\<close>

lemma ratio_le_one: "a \<le> b \<Longrightarrow> 0 \<le> ratio a b \<and> ratio a b \<le> 1"
  by (cases "b = 0") (simp_all add: ratio_def divide_le_eq_1)

lemma token_overlap_ratio_bounds: "0 \<le> token_overlap_ratio s t \<and> token_overlap_ratio s t \<le> 1"
  using ratio_le_one[OF size_mset_mono[of "s \<inter># mset t" s]] by (simp add: token_overlap_ratio_def)

lemma token_jaccard_bounds: "0 \<le> token_jaccard s t \<and> token_jaccard s t \<le> 1"
proof -
  have "card (set s \<inter> set t) \<le> card (set s \<union> set t)" by (intro card_mono) auto
  from ratio_le_one[OF this] show ?thesis by (simp add: token_jaccard_def Let_def)
qed

lemma relative_block_offset_bounds:
  "lo \<le> hi \<Longrightarrow> relative_block_offset i lo hi = 0 \<longleftrightarrow> lo \<le> i \<and> i \<le> hi"
  "lo \<le> hi \<Longrightarrow> j \<in> {lo..hi} \<Longrightarrow> \<bar>relative_block_offset i lo hi\<bar> \<le> \<bar>int i - int j\<bar>"
  by (auto simp: relative_block_offset_def)

text \<open>What one row says about its candidate.\<close>

definition block_row_ok :: "int list \<Rightarrow> int list \<Rightarrow> nat \<Rightarrow> candidate_block \<Rightarrow> candidate_block_features \<Rightarrow> bool" where
  "block_row_ok p c bs cand row \<longleftrightarrow>
     bf_candidate_block_index row = cb_current_block_index cand \<and>
     bf_requires_repacking row = (cb_aligned_previous_starts cand = []) \<and>
     bf_same_position_match row = cb_same_position_match cand \<and>
     0 \<le> bf_candidate_position_ratio row \<and> bf_candidate_position_ratio row < 1 \<and>
     (\<exists>s \<in> set (cb_previous_starts cand).
        bf_source_displacement_blocks row * of_nat bs = of_int (int (cb_current_start cand) - int s) \<and>
        (\<forall>s' \<in> set (cb_previous_starts cand).
           \<bar>int s - int (cb_current_start cand)\<bar> \<le> \<bar>int s' - int (cb_current_start cand)\<bar>)) \<and>
     bf_nearest_changed_block_distance row = \<bar>bf_relative_block_offset row\<bar> \<and>
     (\<forall>i. cr_current_start (locate_changed_token_region p c) \<le> i \<and>
        i < cr_current_end (locate_changed_token_region p c) \<longrightarrow>
        bf_nearest_changed_block_distance row \<le> \<bar>int (cb_current_block_index cand) - int (i div bs)\<bar>)"

definition lexical_ok :: "candidate_block_features \<Rightarrow> bool" where
  "lexical_ok row \<longleftrightarrow>
     list_all (\<lambda>x. \<exists>v. x = Some v \<and> 0 \<le> v \<and> v \<le> 1)
       [bf_changed_candidate_token_overlap_ratio row, bf_introduced_candidate_token_overlap_ratio row,
        bf_removed_candidate_token_overlap_ratio row, bf_changed_candidate_token_jaccard row]"

lemma lexical_row_keeps:
  "block_row_ok p c n cand (lexical_row current bs changed intro remov row cand') = block_row_ok p c n cand row"
proof -
  let ?row = "lexical_row current bs changed intro remov row cand'"
  have "bf_candidate_block_index ?row = bf_candidate_block_index row"
    "bf_requires_repacking ?row = bf_requires_repacking row"
    "bf_same_position_match ?row = bf_same_position_match row"
    "bf_candidate_position_ratio ?row = bf_candidate_position_ratio row"
    "bf_source_displacement_blocks ?row = bf_source_displacement_blocks row"
    "bf_nearest_changed_block_distance ?row = bf_nearest_changed_block_distance row"
    "bf_relative_block_offset ?row = bf_relative_block_offset row"
    by (simp_all add: lexical_row_def Let_def)
  then show ?thesis unfolding block_row_ok_def by (simp only:)
qed

lemma changed_block_bounds_ok:
  assumes "changed_block_bounds region bs = Inr (lo, hi)" "cr_current_start region \<le> cr_current_end region"
  shows "lo \<le> hi \<and> (\<forall>i. cr_current_start region \<le> i \<and> i < cr_current_end region \<longrightarrow> i div bs \<in> {lo..hi})"
  using assms
  by (auto simp: changed_block_bounds_def Let_def split: if_splits intro!: div_le_mono)

lemma geometry_row_ok:
  assumes an: "analyze_reuse_opportunity p c nc bs = Inr r" and cb: "cand \<in> set (ro_candidate_blocks r)"
    and region: "region = locate_changed_token_region p c"
    and bounds: "changed_block_bounds region (ro_block_size r) = Inr lohi"
  shows "\<exists>row. geometry_row p c r region lohi cand = Inr row \<and> block_row_ok p c (nat bs) cand row"
proof -
  let ?n = "nat bs" and ?s = "cb_current_start cand"
  note A = analysis_facts[OF an] and C = candidate_facts[OF an cb refl refl]
  obtain src where src: "nearest_source_start cand = Inr src"
    unfolding nearest_source_start_def
    using iffD2[OF py_min_by_total[of "\<lambda>start. (\<bar>int start - int ?s\<bar>, start)" "cb_previous_starts cand"]] C
    by blast
  then have near: "src \<in> set (cb_previous_starts cand)"
    "\<bar>int src - int ?s\<bar> \<le> \<bar>int s' - int ?s\<bar>" if "s' \<in> set (cb_previous_starts cand)" for s'
    using py_min_by_ok[OF src[unfolded nearest_source_start_def]] that by auto
  have srcin: "src \<in> set (cb_previous_starts cand)"
    using py_min_by_ok[OF src[unfolded nearest_source_start_def]] by blast
  define off where "off = relative_block_offset (cb_current_block_index cand) (fst lohi) (snd lohi)"
  have "fst lohi \<le> snd lohi \<and> (\<forall>i. cr_current_start region \<le> i \<and> i < cr_current_end region \<longrightarrow>
      i div ?n \<in> {fst lohi..snd lohi})"
    using changed_block_bounds_ok[of region ?n "fst lohi" "snd lohi"] bounds A region_bounds[OF region] by simp
  then have dist: "\<bar>off\<bar> \<le> \<bar>int (cb_current_block_index cand) - int (i div ?n)\<bar>"
    if "cr_current_start region \<le> i" "i < cr_current_end region" for i
    unfolding off_def using that by (intro relative_block_offset_bounds(2)) auto
  have lt: "?s < length c" using C A by linarith
  then have pos: "0 \<le> ratio ?s (max (length c) 1)" "ratio ?s (max (length c) 1) < 1"
    by (simp_all add: ratio_def divide_less_eq_1)
  have disp: "of_int (int ?s - int src) / of_nat ?n * of_nat ?n = (of_int (int ?s - int src) :: rat)"
    using A by simp
  obtain row where row: "geometry_row p c r region lohi cand = Inr row"
    unfolding geometry_row_def src Let_def bind_res.simps by blast
  then have "bf_candidate_block_index row = cb_current_block_index cand"
    "bf_requires_repacking row = candidate_requires_repacking cand"
    "bf_same_position_match row = cb_same_position_match cand"
    "bf_candidate_position_ratio row = ratio ?s (max (length c) 1)"
    "bf_source_displacement_blocks row = of_int (int ?s - int src) / of_nat ?n"
    "bf_nearest_changed_block_distance row = \<bar>off\<bar>" "bf_relative_block_offset row = off"
    using A by (auto simp: geometry_row_def src Let_def off_def)
  then have "block_row_ok p c ?n cand row"
    unfolding block_row_ok_def region[symmetric] using pos disp srcin near(2) dist
    by (auto simp: candidate_requires_repacking_def has_whole_source_block_def)
  with row show ?thesis by blast
qed

lemma block_features_total:
  assumes "analyze_reuse_opportunity p c nc bs = Inr r"
  shows "\<exists>rows. extract_candidate_block_features p c r = Inr rows \<and>
    list_all2 (\<lambda>cand row. block_row_ok p c (nat bs) cand row \<and> lexical_ok row) (ro_candidate_blocks r) rows"
proof -
  let ?region = "locate_changed_token_region p c"
  note A = analysis_facts[OF assms]
  obtain lohi where lohi: "changed_block_bounds ?region (ro_block_size r) = Inr lohi"
    using A unfolding changed_block_bounds_def Let_def by (metis nat_less_le)
  obtain g where g: "\<And>cand. cand \<in> set (ro_candidate_blocks r) \<Longrightarrow>
      geometry_row p c r ?region lohi cand = Inr (g cand) \<and> block_row_ok p c (nat bs) cand (g cand)"
    using geometry_row_ok[OF assms _ refl lohi] by metis
  have rows: "map_res (geometry_row p c r ?region lohi) (ro_candidate_blocks r) =
      Inr (map g (ro_candidate_blocks r))"
    by (rule map_res_total) (use g in blast)
  have geo: "extract_candidate_block_geometry p c r = Inr (map g (ro_candidate_blocks r))"
    using rows A lohi
    by (simp add: extract_candidate_block_geometry_def check_counts_def Let_def)
  define lex where "lex = lexical_row c (ro_block_size r)
    (slice (cr_current_start ?region) (cr_current_end ?region) c)
    (token_difference (slice (cr_current_start ?region) (cr_current_end ?region) c)
       (slice (cr_previous_start ?region) (cr_previous_end ?region) p))
    (token_difference (slice (cr_previous_start ?region) (cr_previous_end ?region) p)
       (slice (cr_current_start ?region) (cr_current_end ?region) c))"
  have "extract_candidate_block_features p c r =
      Inr (map2 lex (map g (ro_candidate_blocks r)) (ro_candidate_blocks r))"
    by (simp add: extract_candidate_block_features_def geo Let_def lex_def)
  moreover have "block_row_ok p c (nat bs) cand (lex row cand) \<and> lexical_ok (lex row cand)"
    if "block_row_ok p c (nat bs) cand row" for cand row
  proof (rule conjI)
    show "block_row_ok p c (nat bs) cand (lex row cand)"
      using that unfolding lex_def by (simp only: lexical_row_keeps)
    show "lexical_ok (lex row cand)"
      using token_overlap_ratio_bounds token_jaccard_bounds
      by (simp add: lexical_ok_def lex_def lexical_row_def Let_def)
  qed
  then have "list_all2 (\<lambda>cand row. block_row_ok p c (nat bs) cand row \<and> lexical_ok row)
      (ro_candidate_blocks r) (map2 lex (map g (ro_candidate_blocks r)) (ro_candidate_blocks r))"
    using g by (simp add: list_all2_conv_all_nth)
  ultimately show ?thesis by blast
qed

text \<open>Feature extraction accepts every analysis.  For an opportunity computed from the same two
  prompts it never raises and returns one row per candidate, in order: the row carries the
  candidate's index, its displacement is that of a nearest true occurrence, its block distance is
  a lower bound on the distance to every changed token, and every ratio is a proportion.\<close>

theorem block_features_of_analysis:
  assumes "analyze_reuse_opportunity p c nc bs = Inr r"
  shows "\<exists>rows. extract_candidate_block_features p c r = Inr rows \<and>
    list_all2 (\<lambda>cand row. block_row_ok p c (nat bs) cand row \<and> lexical_ok row) (ro_candidate_blocks r) rows"
  by (rule block_features_total[OF assms])

lemma block_features_of_analysis_witness:
  "\<exists>r rows. analyze_reuse_opportunity [1, 2, 3] [9, 9, 1, 2] 0 2 = Inr r \<and>
     extract_candidate_block_features [1, 2, 3] [9, 9, 1, 2] r = Inr rows"
proof -
  obtain r where r: "analyze_reuse_opportunity [1, 2, 3] [9, 9, 1, 2] 0 2 = Inr r"
    using analyze_ok[of "[1, 2, 3]" "[9, 9, 1, 2]" 0 2] by auto
  from block_features_of_analysis[OF r] show ?thesis using r by blast
qed

end
