(* ===== verification/ContextFeatures.thy ===== *)
theory ContextFeatures
  imports Features
begin

text \<open>
  \<^verbatim>\<open>cacheselect/context_features.py\<close>: edit spans between two prompts (the non-equal
  opcodes of \<open>difflib\<close>) and how much context agrees around a candidate block.  The two loops
  of \<open>_matching_block_run\<close> would not end at block size 0, so they are partial functions.
\<close>

section \<open>Edit spans\<close>

record token_edit_span =
  es_previous_start :: nat
  es_previous_end :: nat
  es_current_start :: nat
  es_current_end :: nat

text \<open>The opcodes with a tag other than \<open>equal\<close>.\<close>

fun edit_opcodes :: "nat \<Rightarrow> nat \<Rightarrow> span list \<Rightarrow> token_edit_span list" where
  "edit_opcodes i j [] = []"
| "edit_opcodes i j ((a, b, k) # ms) =
     (if i < a \<or> j < b
      then [\<lparr>es_previous_start = i, es_previous_end = a, es_current_start = j, es_current_end = b\<rparr>] else []) @
     edit_opcodes (a + k) (b + k) ms"

definition locate_token_edit_spans :: "int list \<Rightarrow> int list \<Rightarrow> token_edit_span list" where
  "locate_token_edit_spans previous current = edit_opcodes 0 0 (get_matching_blocks previous current)"

text \<open>Matching blocks that tile both prompts from \<open>(i, j)\<close> on.\<close>

fun tiles :: "int list \<Rightarrow> int list \<Rightarrow> nat \<Rightarrow> nat \<Rightarrow> span list \<Rightarrow> bool" where
  "tiles p c i j [] \<longleftrightarrow> i = length p \<and> j = length c"
| "tiles p c i j ((a, b, k) # ms) \<longleftrightarrow> i \<le> a \<and> j \<le> b \<and> a + k \<le> length p \<and> b + k \<le> length c \<and>
     slice a (a + k) p = slice b (b + k) c \<and> tiles p c (a + k) (b + k) ms"

lemma tiles_terminal:
  assumes "sorted_wrt span_before ms" "\<forall>m \<in> set ms. span_ok p c m \<and> i \<le> fst m \<and> j \<le> fst (snd m)"
    and "i \<le> length p" "j \<le> length c"
  shows "tiles p c i j (ms @ [(length p, length c, 0)])"
  using assms
proof (induction ms arbitrary: i j)
  case Nil
  then show ?case by (simp add: slice_def)
next
  case (Cons m ms)
  obtain a b k where m: "m = (a, b, k)" by (metis prod_cases3)
  have ok: "span_ok p c (a, b, k)" "i \<le> a" "j \<le> b" using Cons.prems(2) m by auto
  have "\<forall>m' \<in> set ms. span_ok p c m' \<and> a + k \<le> fst m' \<and> b + k \<le> fst (snd m')"
    using Cons.prems(1,2) m by (auto simp: span_before_def)
  then have "tiles p c (a + k) (b + k) (ms @ [(length p, length c, 0)])"
    using Cons.prems(1) ok by (intro Cons.IH) (auto simp: span_ok_def)
  with ok show ?case by (simp add: m span_ok_def)
qed

lemma matching_blocks_tile: "tiles p c 0 0 (get_matching_blocks p c)"
proof -
  have "(\<forall>m \<in> set (merge_adjacent (0, 0, 0) (match_all p c 0 (length p) 0 (length c))). span_ok p c m) \<and>
      sorted_wrt span_before (merge_adjacent (0, 0, 0) (match_all p c 0 (length p) 0 (length c)))"
    using merge_adjacent_correct[of "match_all p c 0 (length p) 0 (length c)" p c 0 0 0]
      match_all_correct[of p c 0 "length p" 0 "length c"] by (auto simp: span_before_def)
  then show ?thesis unfolding get_matching_blocks_def by (intro tiles_terminal) auto
qed

text \<open>Applying edits to the previous prompt: keep what lies between edits, take the current
  tokens inside.\<close>

fun patch :: "int list \<Rightarrow> int list \<Rightarrow> nat \<Rightarrow> token_edit_span list \<Rightarrow> int list" where
  "patch p c x [] = drop x p"
| "patch p c x (e # es) = slice x (es_previous_start e) p @
     slice (es_current_start e) (es_current_end e) c @ patch p c (es_previous_end e) es"

lemma slice_drop: "i \<le> j \<Longrightarrow> slice i j xs @ drop j xs = drop i xs"
  by (metis add_diff_inverse_nat append_take_drop_id drop_drop linorder_not_less slice_def add.commute)

lemma patch_opcodes:
  assumes "tiles p c i j ms" "x \<le> i"
  shows "patch p c x (edit_opcodes i j ms) = slice x i p @ drop j c"
  using assms
proof (induction ms arbitrary: i j x)
  case Nil
  then show ?case using slice_drop[of x i p] by simp
next
  case (Cons m ms)
  obtain a b k where m: "m = (a, b, k)" by (metis prod_cases3)
  have t: "i \<le> a" "j \<le> b" "slice a (a + k) p = slice b (b + k) c" "tiles p c (a + k) (b + k) ms"
    using Cons.prems m by simp_all
  have rest: "slice b (b + k) c @ drop (b + k) c = drop b c" by (intro slice_drop) simp
  have IH: "patch p c y (edit_opcodes (a + k) (b + k) ms) = slice y (a + k) p @ drop (b + k) c"
    if "y \<le> a + k" for y using Cons.IH[OF t(4) that] .
  show ?case
  proof (cases "i < a \<or> j < b")
    case True
    have "slice j b c @ drop b c = drop j c" using t by (intro slice_drop)
    then show ?thesis using True IH[of a] t(3) rest by (simp add: m)
  next
    case False
    then have ij: "i = a" "j = b" using t by auto
    have "slice x (a + k) p = slice x a p @ slice a (a + k) p"
      using Cons.prems(2) ij by (intro slice_join) auto
    then show ?thesis using False IH[of x] t(3) rest Cons.prems(2) ij by (simp add: m)
  qed
qed

text \<open>The intervals are real edits, in order, and do not overlap.\<close>

definition edit_after :: "nat \<Rightarrow> nat \<Rightarrow> token_edit_span \<Rightarrow> bool" where
  "edit_after i j e \<longleftrightarrow> i \<le> es_previous_start e \<and> j \<le> es_current_start e \<and>
     es_previous_start e \<le> es_previous_end e \<and> es_current_start e \<le> es_current_end e \<and>
     (es_previous_start e < es_previous_end e \<or> es_current_start e < es_current_end e)"

lemma edit_opcodes_order:
  assumes "tiles p c i j ms"
  shows "(\<forall>e \<in> set (edit_opcodes i j ms). edit_after i j e) \<and>
    sorted_wrt (\<lambda>e e'. es_previous_end e \<le> es_previous_start e' \<and> es_current_end e \<le> es_current_start e')
      (edit_opcodes i j ms)"
  using assms
proof (induction ms arbitrary: i j)
  case (Cons m ms)
  obtain a b k where m: "m = (a, b, k)" by (metis prod_cases3)
  have t: "i \<le> a" "j \<le> b" "tiles p c (a + k) (b + k) ms" using Cons.prems m by simp_all
  from Cons.IH[OF t(3)] t(1,2) show ?case unfolding m edit_after_def by fastforce
qed simp

text \<open>What the matcher leaves between two matches has no token in common: the recursion stops only
  where the longest match is empty, and joining adjacent matches closes no gap.\<close>

definition no_common :: "int list \<Rightarrow> int list \<Rightarrow> nat \<Rightarrow> nat \<Rightarrow> nat \<Rightarrow> nat \<Rightarrow> bool" where
  "no_common p c i a j b \<longleftrightarrow> set (slice i a p) \<inter> set (slice j b c) = {}"

fun gap_free :: "int list \<Rightarrow> int list \<Rightarrow> nat \<Rightarrow> nat \<Rightarrow> nat \<Rightarrow> nat \<Rightarrow> span list \<Rightarrow> bool" where
  "gap_free p c i j ie je [] \<longleftrightarrow> no_common p c i ie j je"
| "gap_free p c i j ie je ((a, b, k) # ms) \<longleftrightarrow> no_common p c i a j b \<and> gap_free p c (a + k) (b + k) ie je ms"

lemma gap_free_join:
  "gap_free p c i j a b xs \<Longrightarrow> gap_free p c (a + k) (b + k) ie je ys \<Longrightarrow>
     gap_free p c i j ie je (xs @ (a, b, k) # ys)"
  by (induction xs arbitrary: i j) auto

lemma no_match_no_common:
  assumes "find_longest_match p c alo ahi blo bhi = (i, j, 0)"
  shows "no_common p c alo ahi blo bhi"
proof (rule ccontr)
  assume "\<not> ?thesis"
  then obtain t where t: "t \<in> set (slice alo ahi p)" "t \<in> set (slice blo bhi c)"
    by (auto simp: no_common_def)
  from t(1) obtain x where x: "x < min (ahi - alo) (length p - alo)" "slice alo ahi p ! x = t"
    unfolding in_set_conv_nth length_slice by blast
  from t(2) obtain y where y: "y < min (bhi - blo) (length c - blo)" "slice blo bhi c ! y = t"
    unfolding in_set_conv_nth length_slice by blast
  have e: "slice (l + z) h zs = zs ! (l + z) # slice (Suc (l + z)) h zs"
    if "z < min (h - l) (length zs - l)" for l z h :: nat and zs :: "int list"
  proof -
    have "l + z < length zs" "l + z < h" using that by auto
    then show ?thesis by (simp add: slice_def Cons_nth_drop_Suc[symmetric] Suc_diff_Suc[symmetric])
  qed
  have "p ! (alo + x) = t" "c ! (blo + y) = t"
    using slice_nth[of x ahi alo p] slice_nth[of y bhi blo c] x y by auto
  then have "p ! (alo + x) = c ! (blo + y)" by simp
  then have "1 \<le> common_prefix_length (slice (alo + x) ahi p) (slice (blo + y) bhi c)"
    using e[OF x(1)] e[OF y(1)] by simp
  moreover have "common_prefix_length (slice (alo + x) ahi p) (slice (blo + y) bhi c) \<le> 0"
  proof -
    have "alo + x < ahi" "blo + y < bhi" using x(1) y(1) by linarith+
    then show ?thesis
      by (intro find_longest_match_correct(2)[OF assms, rule_format]) simp
  qed
  ultimately show False by simp
qed

lemma match_all_gap_free: "gap_free p c alo blo ahi bhi (match_all p c alo ahi blo bhi)"
proof (induction p c alo ahi blo bhi rule: match_all.induct)
  case (1 p c alo ahi blo bhi)
  obtain i j k where m: "find_longest_match p c alo ahi blo bhi = (i, j, k)" by (metis prod_cases3)
  show ?case
  proof (cases "k = 0")
    case True
    with no_match_no_common m show ?thesis by (simp add: match_all.simps[of p c alo])
  next
    case False
    with gap_free_join[OF "1.IH"(1)[OF m[symmetric] refl False] "1.IH"(2)[OF m[symmetric] refl False]] m
    show ?thesis by (simp add: match_all.simps[of p c alo])
  qed
qed

lemma merge_adjacent_gap_free:
  assumes "gap_free p c x y ie je ((i, j, k) # ms)" "k = 0 \<Longrightarrow> x = i \<and> y = j" "\<forall>m \<in> set ms. 0 < snd (snd m)"
  shows "gap_free p c x y ie je (merge_adjacent (i, j, k) ms)"
  using assms
proof (induction "(i, j, k)" ms arbitrary: i j k x y rule: merge_adjacent.induct)
  case (1 i j k)
  then show ?case by auto
next
  case (2 i j k i2 j2 k2 rest)
  show ?case
  proof (cases "i + k = i2 \<and> j + k = j2")
    case True
    have "gap_free p c x y ie je ((i, j, k + k2) # rest)" using "2.prems"(1) True by (simp add: add.assoc[symmetric])
    from "2.hyps"(1)[OF True this] "2.prems"(2,3) True show ?thesis by simp
  next
    case False
    have "gap_free p c (i + k) (j + k) ie je ((i2, j2, k2) # rest)" using "2.prems"(1) by simp
    from "2.hyps"(2)[OF False this] "2.prems"(3)
    have IH: "gap_free p c (i + k) (j + k) ie je (merge_adjacent (i2, j2, k2) rest)" by simp
    show ?thesis
    proof (cases "k = 0")
      case True
      with IH False "2.prems"(2) show ?thesis by auto
    next
      case k: False
      with IH False "2.prems"(1) show ?thesis by auto
    qed
  qed
qed

definition edit_disjoint :: "int list \<Rightarrow> int list \<Rightarrow> token_edit_span \<Rightarrow> bool" where
  "edit_disjoint p c e \<longleftrightarrow>
     set (slice (es_previous_start e) (es_previous_end e) p) \<inter>
     set (slice (es_current_start e) (es_current_end e) c) = {}"

lemma edit_opcodes_disjoint:
  "gap_free p c i j ie je ms \<Longrightarrow>
   list_all (edit_disjoint p c) (edit_opcodes i j (ms @ [(ie, je, 0)]))"
  by (induction ms arbitrary: i j) (auto simp: no_common_def edit_disjoint_def)

lemma locate_edits_disjoint: "list_all (edit_disjoint p c) (locate_token_edit_spans p c)"
proof -
  let ?ms = "match_all p c 0 (length p) 0 (length c)"
  have "gap_free p c 0 0 (length p) (length c) ((0, 0, 0) # ?ms)"
    using match_all_gap_free[of p c 0 0 "length p" "length c"] by (simp add: no_common_def slice_def)
  moreover have "\<forall>m \<in> set ?ms. 0 < snd (snd m)"
    using match_all_correct[of p c 0 "length p" 0 "length c"] by (auto simp: span_ok_def)
  ultimately have "gap_free p c 0 0 (length p) (length c) (merge_adjacent (0, 0, 0) ?ms)"
    by (intro merge_adjacent_gap_free) auto
  then show ?thesis unfolding locate_token_edit_spans_def get_matching_blocks_def by (rule edit_opcodes_disjoint)
qed

text \<open>C33. The edit spans are a complete diff that reports only differences.  Applying them to the
  previous prompt yields the current prompt; they are non-empty, ordered and disjoint in both
  prompts; and within a span the removed and the inserted tokens have no token in common, so no
  equal region is ever reported as an edit.\<close>

theorem edit_spans_patch:
  "patch p c 0 (locate_token_edit_spans p c) = c \<and>
   list_all (edit_after 0 0) (locate_token_edit_spans p c) \<and>
   list_all (edit_disjoint p c) (locate_token_edit_spans p c) \<and>
   sorted_wrt (\<lambda>e e'. es_previous_end e \<le> es_previous_start e' \<and> es_current_end e \<le> es_current_start e')
     (locate_token_edit_spans p c)"
  using patch_opcodes[OF matching_blocks_tile, of 0 p c] edit_opcodes_order[OF matching_blocks_tile, of p c]
    locate_edits_disjoint[of p c]
  by (simp add: locate_token_edit_spans_def slice_0 list_all_iff)

section \<open>Context around a candidate\<close>

text \<open>The loop of \<open>_preceding_match_tokens\<close>.\<close>

function preceding_match_from :: "int list \<Rightarrow> int list \<Rightarrow> nat \<Rightarrow> nat \<Rightarrow> nat \<Rightarrow> nat" where
  "preceding_match_from p c ps cs matched =
     (if matched < min ps cs \<and> p ! (ps - matched - 1) = c ! (cs - matched - 1)
      then preceding_match_from p c ps cs (Suc matched) else matched)"
  by auto
termination by (relation "measure (\<lambda>(p, c, ps, cs, matched). min ps cs - matched)") auto

declare preceding_match_from.simps [simp del]

definition preceding_match_tokens :: "int list \<Rightarrow> int list \<Rightarrow> nat \<Rightarrow> nat \<Rightarrow> nat" where
  "preceding_match_tokens p c ps cs = preceding_match_from p c ps cs 0"

lemma preceding_match_from_ok:
  "m \<le> preceding_match_from p c ps cs m \<and>
   (\<forall>k. m \<le> k \<and> k < preceding_match_from p c ps cs m \<longrightarrow>
      k < min ps cs \<and> p ! (ps - k - 1) = c ! (cs - k - 1)) \<and>
   (preceding_match_from p c ps cs m < min ps cs \<longrightarrow>
      p ! (ps - preceding_match_from p c ps cs m - 1) \<noteq> c ! (cs - preceding_match_from p c ps cs m - 1))"
proof (induction p c ps cs m rule: preceding_match_from.induct)
  case (1 p c ps cs m)
  show ?case
  proof (cases "m < min ps cs \<and> p ! (ps - m - 1) = c ! (cs - m - 1)")
    case True
    then have eq: "preceding_match_from p c ps cs m = preceding_match_from p c ps cs (Suc m)"
      by (simp add: preceding_match_from.simps[of p c ps cs m])
    from True 1[OF True] show ?thesis unfolding eq
      by (metis Suc_leI Suc_le_lessD less_or_eq_imp_le le_neq_implies_less)
  next
    case False
    then have "preceding_match_from p c ps cs m = m" by (subst preceding_match_from.simps) auto
    with False show ?thesis by auto
  qed
qed

text \<open>A run of equal tokens right before both positions is counted in full.\<close>

lemma preceding_match_ge:
  assumes "n \<le> min ps cs" "ps \<le> length p" "cs \<le> length c"
    and "slice (ps - n) ps p = slice (cs - n) cs c"
  shows "n \<le> preceding_match_tokens p c ps cs"
proof (rule ccontr)
  let ?m = "preceding_match_tokens p c ps cs"
  assume "\<not> n \<le> ?m"
  then have lt: "?m < n" "?m < min ps cs" using assms(1) by auto
  then have "p ! (ps - ?m - 1) \<noteq> c ! (cs - ?m - 1)"
    using preceding_match_from_ok[of 0 p c ps cs] unfolding preceding_match_tokens_def by blast
  moreover have "slice (ps - n) ps p ! (n - ?m - 1) = p ! (ps - ?m - 1)"
    using lt assms by (subst slice_nth) (auto intro!: arg_cong[where f = "\<lambda>i. p ! i"])
  moreover have "slice (cs - n) cs c ! (n - ?m - 1) = c ! (cs - ?m - 1)"
    using lt assms by (subst slice_nth) (auto intro!: arg_cong[where f = "\<lambda>i. c ! i"])
  ultimately show False using assms(4) by simp
qed

definition edit_precedes_candidate :: "token_edit_span \<Rightarrow> nat \<Rightarrow> bool" where
  "edit_precedes_candidate e start \<longleftrightarrow>
     es_current_start e < start \<or> (es_current_start e = start \<and> es_current_start e = es_current_end e)"

text \<open>The two loops of \<open>_matching_block_run\<close>.\<close>

partial_function (option) preceding_run :: "int list \<Rightarrow> int list \<Rightarrow> nat \<Rightarrow> nat \<Rightarrow> nat \<Rightarrow> nat \<Rightarrow> nat option" where
  "preceding_run p c ps cs bs n =
     (if (n + 1) * bs \<le> ps \<and> (n + 1) * bs \<le> cs then
        if slice (ps - (n + 1) * bs) (ps - (n + 1) * bs + bs) p \<noteq>
           slice (cs - (n + 1) * bs) (cs - (n + 1) * bs + bs) c
        then Some n else preceding_run p c ps cs bs (n + 1)
      else Some n)"

partial_function (option) following_run :: "int list \<Rightarrow> int list \<Rightarrow> nat \<Rightarrow> nat \<Rightarrow> nat \<Rightarrow> nat \<Rightarrow> nat option" where
  "following_run p c ps cs bs n =
     (if ps + (n + 2) * bs \<le> length p \<and> cs + (n + 2) * bs \<le> length c then
        if slice (ps + (n + 1) * bs) (ps + (n + 1) * bs + bs) p \<noteq>
           slice (cs + (n + 1) * bs) (cs + (n + 1) * bs + bs) c
        then Some n else following_run p c ps cs bs (n + 1)
      else Some n)"

definition matching_block_run :: "int list \<Rightarrow> int list \<Rightarrow> nat \<Rightarrow> nat \<Rightarrow> nat \<Rightarrow> (nat \<times> nat) option" where
  "matching_block_run p c ps cs bs =
     Option.bind (preceding_run p c ps cs bs 0) (\<lambda>preceding.
       map_option (Pair preceding) (following_run p c ps cs bs 0))"

lemma preceding_run_ok:
  assumes "0 < bs" "n * bs \<le> ps" "n * bs \<le> cs" "slice (ps - n * bs) ps p = slice (cs - n * bs) cs c"
  shows "\<exists>m. preceding_run p c ps cs bs n = Some m \<and> m * bs \<le> ps \<and> m * bs \<le> cs \<and>
    slice (ps - m * bs) ps p = slice (cs - m * bs) cs c"
  using assms
proof (induction "ps - n * bs" arbitrary: n rule: less_induct)
  case less
  let ?b = "(n + 1) * bs"
  show ?case
  proof (cases "?b \<le> ps \<and> ?b \<le> cs \<and> slice (ps - ?b) (ps - ?b + bs) p = slice (cs - ?b) (cs - ?b + bs) c")
    case True
    then have le: "?b \<le> ps" "?b \<le> cs" by blast+
    then have e: "ps - ?b + bs = ps - n * bs" "cs - ?b + bs = cs - n * bs" by simp_all
    have "slice (ps - ?b) ps p = slice (ps - ?b) (ps - n * bs) p @ slice (ps - n * bs) ps p"
      by (rule slice_join) simp_all
    also have "\<dots> = slice (cs - ?b) (cs - n * bs) c @ slice (cs - n * bs) cs c"
      using True less.prems(4) unfolding e by (simp only:)
    also have "\<dots> = slice (cs - ?b) cs c" by (rule slice_join[symmetric]) simp_all
    finally have s: "slice (ps - ?b) ps p = slice (cs - ?b) cs c" .
    have "ps - ?b < ps - n * bs" using le less.prems(1) by simp
    from less.hyps[OF this less.prems(1) _ _ s] True
    show ?thesis by (subst preceding_run.simps) (simp only: if_True if_False simp_thms)
  next
    case False
    then have "preceding_run p c ps cs bs n = Some n" by (subst preceding_run.simps) auto
    with less.prems show ?thesis by blast
  qed
qed

lemma following_run_ok:
  assumes "0 < bs" "ps + (n + 1) * bs \<le> length p" "cs + (n + 1) * bs \<le> length c"
    and "slice ps (ps + (n + 1) * bs) p = slice cs (cs + (n + 1) * bs) c"
  shows "\<exists>m. following_run p c ps cs bs n = Some m \<and> ps + (m + 1) * bs \<le> length p \<and>
    cs + (m + 1) * bs \<le> length c \<and> slice ps (ps + (m + 1) * bs) p = slice cs (cs + (m + 1) * bs) c"
  using assms
proof (induction "length p - n * bs" arbitrary: n rule: less_induct)
  case less
  let ?b = "(n + 1) * bs" and ?b2 = "(n + 1 + 1) * bs"
  have b2: "?b2 = ?b + bs" "(n + 2) * bs = ?b2" by simp_all
  show ?case
  proof (cases "ps + ?b2 \<le> length p \<and> cs + ?b2 \<le> length c \<and>
      slice (ps + ?b) (ps + ?b + bs) p = slice (cs + ?b) (cs + ?b + bs) c")
    case True
    have "slice ps (ps + ?b2) p = slice ps (ps + ?b) p @ slice (ps + ?b) (ps + ?b + bs) p"
      unfolding b2(1) add.assoc[symmetric] by (rule slice_join) simp_all
    also have "\<dots> = slice cs (cs + ?b) c @ slice (cs + ?b) (cs + ?b + bs) c"
      using True less.prems(4) by simp
    also have "\<dots> = slice cs (cs + ?b2) c"
      unfolding b2(1) add.assoc[symmetric] by (rule slice_join[symmetric]) simp_all
    finally have s: "slice ps (ps + ?b2) p = slice cs (cs + ?b2) c" .
    have "ps + ?b2 \<le> length p" using True by blast
    then have "length p - (n + 1) * bs < length p - n * bs" using less.prems(1) by simp
    from less.hyps[OF this less.prems(1) _ _ s] True
    show ?thesis by (subst following_run.simps) (simp only: b2 if_True if_False simp_thms)
  next
    case False
    then have "following_run p c ps cs bs n = Some n"
      by (subst following_run.simps) (simp only: b2 split: if_split, blast)
    with less.prems show ?thesis by blast
  qed
qed

section \<open>Rows\<close>

record candidate_context_features =
  xf_edit_span_count :: nat
  xf_edit_span_count_before_candidate :: nat
  xf_previous_changed_tokens_before_candidate :: int
  xf_current_changed_tokens_before_candidate :: int
  xf_preceding_context_match_tokens :: nat
  xf_preceding_matching_run_blocks :: nat
  xf_following_matching_run_blocks :: nat
  xf_matching_run_length_blocks :: nat
  xf_source_occurrence_count :: nat
  xf_aligned_source_occurrence_count :: nat

definition previous_changed :: "token_edit_span list \<Rightarrow> int" where
  "previous_changed es = sum_list (map (\<lambda>e. int (es_previous_end e) - int (es_previous_start e)) es)"

definition current_changed :: "nat \<Rightarrow> token_edit_span list \<Rightarrow> int" where
  "current_changed start es =
     sum_list (map (\<lambda>e. int (min (es_current_end e) start) - int (es_current_start e)) es)"

definition context_row ::
  "int list \<Rightarrow> int list \<Rightarrow> reuse_opportunity \<Rightarrow> token_edit_span list \<Rightarrow> candidate_block \<Rightarrow>
   candidate_context_features run" where
  "context_row previous current opp edits cand =
     (let start = cb_current_start cand;
          edits_before = filter (\<lambda>e. edit_precedes_candidate e start) edits;
          matches = map (\<lambda>s. preceding_match_tokens previous current s start) (cb_previous_starts cand);
          sources = (if cb_aligned_previous_starts cand \<noteq> [] then cb_aligned_previous_starts cand
                     else cb_previous_starts cand)
      in bind_run (map_run (\<lambda>s. map_option Inr (matching_block_run previous current s start (ro_block_size opp)))
             sources) (\<lambda>runs.
         bind_run (Some (py_max_by (\<lambda>r. (fst r + snd r, fst r)) runs)) (\<lambda>r.
         Some (Inr \<lparr>xf_edit_span_count = length edits,
           xf_edit_span_count_before_candidate = length edits_before,
           xf_previous_changed_tokens_before_candidate = previous_changed edits_before,
           xf_current_changed_tokens_before_candidate = current_changed start edits_before,
           xf_preceding_context_match_tokens = fold max matches 0,
           xf_preceding_matching_run_blocks = fst r, xf_following_matching_run_blocks = snd r,
           xf_matching_run_length_blocks = fst r + 1 + snd r,
           xf_source_occurrence_count = length (cb_previous_starts cand),
           xf_aligned_source_occurrence_count = length (cb_aligned_previous_starts cand)\<rparr>))))"

definition extract_candidate_context_features ::
  "int list \<Rightarrow> int list \<Rightarrow> reuse_opportunity \<Rightarrow> candidate_context_features list run" where
  "extract_candidate_context_features previous current opp =
     bind_run (Some (check_counts previous current opp)) (\<lambda>_.
       let edits = locate_token_edit_spans previous current
       in map_run (context_row previous current opp edits) (ro_candidate_blocks opp))"

text \<open>The edits before a position change at most that many current tokens.\<close>

lemma current_changed_bounds:
  assumes "tiles p c i j ms"
  shows "0 \<le> current_changed start (filter (\<lambda>e. edit_precedes_candidate e start) (edit_opcodes i j ms)) \<and>
    current_changed start (filter (\<lambda>e. edit_precedes_candidate e start) (edit_opcodes i j ms))
      \<le> max 0 (int start - int j)"
  using assms
proof (induction ms arbitrary: i j)
  case (Cons m ms)
  obtain a b k where m: "m = (a, b, k)" by (metis prod_cases3)
  have t: "i \<le> a" "j \<le> b" "tiles p c (a + k) (b + k) ms" using Cons.prems m by simp_all
  from Cons.IH[OF t(3)] t(2) show ?case
    by (auto simp: m current_changed_def edit_precedes_candidate_def)
qed (simp add: current_changed_def)

text \<open>What one row says about its candidate.\<close>

definition context_row_ok :: "int list \<Rightarrow> int list \<Rightarrow> nat \<Rightarrow> candidate_block \<Rightarrow> candidate_context_features \<Rightarrow> bool" where
  "context_row_ok p c bs cand row \<longleftrightarrow>
     xf_edit_span_count_before_candidate row \<le> xf_edit_span_count row \<and>
     0 \<le> xf_current_changed_tokens_before_candidate row \<and>
     xf_current_changed_tokens_before_candidate row \<le> int (cb_current_start cand) \<and>
     xf_matching_run_length_blocks row =
       xf_preceding_matching_run_blocks row + 1 + xf_following_matching_run_blocks row \<and>
     xf_preceding_matching_run_blocks row * bs \<le> xf_preceding_context_match_tokens row \<and>
     (\<exists>s \<in> set (cb_previous_starts cand).
        let before = xf_preceding_matching_run_blocks row * bs;
            upto = (xf_following_matching_run_blocks row + 1) * bs
        in before \<le> s \<and> before \<le> cb_current_start cand \<and>
           s + upto \<le> length p \<and> cb_current_start cand + upto \<le> length c \<and>
           slice (s - before) (s + upto) p = slice (cb_current_start cand - before) (cb_current_start cand + upto) c) \<and>
     xf_source_occurrence_count row = length (cb_previous_starts cand) \<and>
     xf_aligned_source_occurrence_count row = length (filter (\<lambda>s. bs dvd s) (cb_previous_starts cand))"

definition run_ok :: "int list \<Rightarrow> int list \<Rightarrow> nat \<Rightarrow> nat \<Rightarrow> nat \<Rightarrow> nat \<times> nat \<Rightarrow> bool" where
  "run_ok p c s start bs r \<longleftrightarrow>
     fst r * bs \<le> s \<and> fst r * bs \<le> start \<and> s + (snd r + 1) * bs \<le> length p \<and>
     start + (snd r + 1) * bs \<le> length c \<and>
     slice (s - fst r * bs) s p = slice (start - fst r * bs) start c \<and>
     slice s (s + (snd r + 1) * bs) p = slice start (start + (snd r + 1) * bs) c"

lemma matching_block_run_ok:
  assumes "0 < bs" "s + bs \<le> length p" "start + bs \<le> length c" "slice s (s + bs) p = slice start (start + bs) c"
  shows "\<exists>r. matching_block_run p c s start bs = Some r \<and> run_ok p c s start bs r"
proof -
  obtain a where "preceding_run p c s start bs 0 = Some a" "a * bs \<le> s \<and> a * bs \<le> start \<and>
      slice (s - a * bs) s p = slice (start - a * bs) start c"
    using preceding_run_ok[of bs 0 s start p c] assms(1) by (auto simp: slice_def)
  moreover obtain b where "following_run p c s start bs 0 = Some b" "s + (b + 1) * bs \<le> length p \<and>
      start + (b + 1) * bs \<le> length c \<and> slice s (s + (b + 1) * bs) p = slice start (start + (b + 1) * bs) c"
    using following_run_ok[of bs s 0 p start c] assms by auto
  ultimately show ?thesis by (simp add: matching_block_run_def run_ok_def)
qed

lemma run_ok_whole:
  assumes "run_ok p c s start bs r"
  shows "slice (s - fst r * bs) (s + (snd r + 1) * bs) p = slice (start - fst r * bs) (start + (snd r + 1) * bs) c"
proof -
  have "slice (s - fst r * bs) (s + (snd r + 1) * bs) p =
      slice (s - fst r * bs) s p @ slice s (s + (snd r + 1) * bs) p"
    by (rule slice_join) simp_all
  also have "\<dots> = slice (start - fst r * bs) start c @ slice start (start + (snd r + 1) * bs) c"
    using assms unfolding run_ok_def by (simp only:)
  also have "\<dots> = slice (start - fst r * bs) (start + (snd r + 1) * bs) c"
    by (rule slice_join[symmetric]) simp_all
  finally show ?thesis .
qed

lemma run_ok_context:
  assumes "run_ok p c s start bs r"
  shows "fst r * bs \<le> preceding_match_tokens p c s start"
proof (rule preceding_match_ge)
  show "fst r * bs \<le> min s start" "slice (s - fst r * bs) s p = slice (start - fst r * bs) start c"
    using assms by (simp_all add: run_ok_def)
  have "s + (snd r + 1) * bs \<le> length p" "start + (snd r + 1) * bs \<le> length c"
    using assms by (simp_all add: run_ok_def)
  then show "s \<le> length p" "start \<le> length c" by linarith+
qed

lemma fold_max_ge: "(x::nat) \<in> insert a (set xs) \<Longrightarrow> x \<le> fold max xs a"
  by (simp add: Max.set_eq_fold[symmetric])

lemma context_row_total:
  assumes an: "analyze_reuse_opportunity p c nc bs = Inr r" and cb: "cand \<in> set (ro_candidate_blocks r)"
  shows "\<exists>row. context_row p c r (locate_token_edit_spans p c) cand = Some (Inr row) \<and>
    context_row_ok p c (nat bs) cand row"
proof -
  let ?n = "nat bs" and ?start = "cb_current_start cand" and ?edits = "locate_token_edit_spans p c"
  note A = analysis_facts[OF an] and C = candidate_facts[OF an cb refl refl]
  let ?sources = "if cb_aligned_previous_starts cand \<noteq> [] then cb_aligned_previous_starts cand
    else cb_previous_starts cand"
  have sub: "set ?sources \<subseteq> set (cb_previous_starts cand)" and ne: "?sources \<noteq> []"
    using C by auto
  have run: "\<exists>rn. matching_block_run p c s ?start ?n = Some rn \<and> run_ok p c s ?start ?n rn"
    if "s \<in> set (cb_previous_starts cand)" for s
  proof (rule matching_block_run_ok)
    have "s \<in> set (occurrences p ?n (slice ?start (?start + ?n) c))" using that C by simp
    then show "s + ?n \<le> length p" "slice s (s + ?n) p = slice ?start (?start + ?n) c"
      by (simp_all add: set_occurrences)
    show "0 < ?n" "?start + ?n \<le> length c" using A C by simp_all
  qed
  then obtain g where g: "\<And>s. s \<in> set (cb_previous_starts cand) \<Longrightarrow>
      matching_block_run p c s ?start ?n = Some (g s) \<and> run_ok p c s ?start ?n (g s)" by metis
  let ?key = "\<lambda>r :: nat \<times> nat. (fst r + snd r, fst r)"
  have runs: "map_run (\<lambda>s. map_option Inr (matching_block_run p c s ?start (ro_block_size r))) ?sources =
      Some (Inr (map g ?sources))"
  proof (rule map_run_total)
    fix s assume "s \<in> set ?sources"
    then have "matching_block_run p c s ?start ?n = Some (g s)" using g sub by blast
    then show "map_option Inr (matching_block_run p c s ?start (ro_block_size r)) = Some (Inr (g s))"
      using A by simp
  qed
  obtain rn where rn: "py_max_by ?key (map g ?sources) = Inr rn"
    using iffD2[OF py_max_by_total[of ?key "map g ?sources"]] ne by auto
  have "rn \<in> set (map g ?sources)" by (rule conjunct1[OF py_max_by_ok[OF rn]])
  then obtain s where s: "s \<in> set (cb_previous_starts cand)" "rn = g s" using sub by fastforce
  have ok: "run_ok p c s ?start ?n rn" using g s by blast
  define matches where "matches = map (\<lambda>s. preceding_match_tokens p c s ?start) (cb_previous_starts cand)"
  have "preceding_match_tokens p c s ?start \<le> fold max matches 0"
    using s(1) by (intro fold_max_ge) (simp add: matches_def)
  then have ctx: "fst rn * ?n \<le> fold max matches 0" using run_ok_context[OF ok] by simp
  define before where "before = filter (\<lambda>e. edit_precedes_candidate e ?start) ?edits"
  have cc: "0 \<le> current_changed ?start before \<and> current_changed ?start before \<le> int ?start"
    using current_changed_bounds[OF matching_blocks_tile, of ?start p c]
    by (simp add: before_def locate_token_edit_spans_def)
  obtain row where row: "context_row p c r ?edits cand = Some (Inr row)"
    and f: "xf_edit_span_count row = length ?edits" "xf_edit_span_count_before_candidate row = length before"
      "xf_current_changed_tokens_before_candidate row = current_changed ?start before"
      "xf_preceding_context_match_tokens row = fold max matches 0"
      "xf_preceding_matching_run_blocks row = fst rn" "xf_following_matching_run_blocks row = snd rn"
      "xf_matching_run_length_blocks row = fst rn + 1 + snd rn"
      "xf_source_occurrence_count row = length (cb_previous_starts cand)"
      "xf_aligned_source_occurrence_count row = length (cb_aligned_previous_starts cand)"
    unfolding context_row_def Let_def runs bind_run.simps rn before_def[symmetric] matches_def[symmetric]
    by simp
  have whole: "fst rn * ?n \<le> s \<and> fst rn * ?n \<le> ?start \<and> s + (snd rn + 1) * ?n \<le> length p \<and>
      ?start + (snd rn + 1) * ?n \<le> length c \<and>
      slice (s - fst rn * ?n) (s + (snd rn + 1) * ?n) p =
      slice (?start - fst rn * ?n) (?start + (snd rn + 1) * ?n) c"
    using ok run_ok_whole[OF ok] unfolding run_ok_def by blast
  have al: "cb_aligned_previous_starts cand = filter (\<lambda>s. ?n dvd s) (cb_previous_starts cand)"
    using C by (simp add: dvd_eq_mod_eq_0)
  have "context_row_ok p c ?n cand row"
    unfolding context_row_ok_def f Let_def al[symmetric]
    using ctx cc whole s(1) length_filter_le[of _ ?edits] by (auto simp: before_def)
  with row show ?thesis by blast
qed

lemma context_features_total:
  assumes "analyze_reuse_opportunity p c nc bs = Inr r"
  shows "\<exists>rows. extract_candidate_context_features p c r = Some (Inr rows) \<and>
    list_all2 (context_row_ok p c (nat bs)) (ro_candidate_blocks r) rows"
proof -
  obtain g where g: "\<And>cand. cand \<in> set (ro_candidate_blocks r) \<Longrightarrow>
      context_row p c r (locate_token_edit_spans p c) cand = Some (Inr (g cand)) \<and>
      context_row_ok p c (nat bs) cand (g cand)"
    using context_row_total[OF assms] by metis
  have "map_run (context_row p c r (locate_token_edit_spans p c)) (ro_candidate_blocks r) =
      Some (Inr (map g (ro_candidate_blocks r)))"
    by (rule map_run_total) (use g in blast)
  then have "extract_candidate_context_features p c r = Some (Inr (map g (ro_candidate_blocks r)))"
    using analysis_facts[OF assms]
    by (simp add: extract_candidate_context_features_def check_counts_def Let_def)
  moreover have "list_all2 (context_row_ok p c (nat bs)) (ro_candidate_blocks r) (map g (ro_candidate_blocks r))"
    using g by (simp add: list_all2_conv_all_nth)
  ultimately show ?thesis by blast
qed

text \<open>C34. The context features of an analysis always come out.  For an opportunity of the same two
  prompts the extraction returns one row per candidate, in order.  A row names a run of blocks
  around the candidate that really is equal in both prompts around one of its sources, its
  preceding context covers that run, and the edits before the candidate change no more than the
  tokens in front of it.\<close>

theorem context_features_of_analysis:
  assumes "analyze_reuse_opportunity p c nc bs = Inr r"
  shows "\<exists>rows. extract_candidate_context_features p c r = Some (Inr rows) \<and>
    list_all2 (context_row_ok p c (nat bs)) (ro_candidate_blocks r) rows"
  by (rule context_features_total[OF assms])

lemma context_features_of_analysis_witness:
  "\<exists>r rows. analyze_reuse_opportunity [1, 2, 3] [9, 9, 1, 2] 0 2 = Inr r \<and>
     extract_candidate_context_features [1, 2, 3] [9, 9, 1, 2] r = Some (Inr rows)"
proof -
  obtain r where r: "analyze_reuse_opportunity [1, 2, 3] [9, 9, 1, 2] 0 2 = Inr r"
    using analyze_ok[of "[1, 2, 3]" "[9, 9, 1, 2]" 0 2] by auto
  from context_features_of_analysis[OF r] show ?thesis using r by blast
qed

end
