(* ===== verification/Selector.thy ===== *)
theory Selector
  imports ContextFeatures
begin

text \<open>
  \<^verbatim>\<open>cacheselect/selector_features.py\<close>: the ordered feature schemas, and the rows
  (\<open>asdict\<close> of the two feature records) they select from.
\<close>

section \<open>Rows as dictionaries\<close>

datatype feature_value = FInt int | FRat rat | FBool bool | FNone

fun py_float :: "feature_value \<Rightarrow> rat res" where
  "py_float (FInt i) = Inr (of_int i)"
| "py_float (FRat r) = Inr r"
| "py_float (FBool b) = Inr (if b then 1 else 0)"
| "py_float FNone = Inl (TypeError ''float() argument must be a string or a real number, not NoneType'')"

definition optional_value :: "rat option \<Rightarrow> feature_value" where
  "optional_value v = (case v of None \<Rightarrow> FNone | Some r \<Rightarrow> FRat r)"

definition block_features_dict :: "candidate_block_features \<Rightarrow> (string, feature_value) odict" where
  "block_features_dict b =
    [(''previous_token_count'', FInt (int (bf_previous_token_count b))),
     (''current_token_count'', FInt (int (bf_current_token_count b))),
     (''previous_changed_token_count'', FInt (int (bf_previous_changed_token_count b))),
     (''current_changed_token_count'', FInt (int (bf_current_changed_token_count b))),
     (''block_size'', FInt (int (bf_block_size b))),
     (''candidate_block_index'', FInt (int (bf_candidate_block_index b))),
     (''candidate_position_ratio'', FRat (bf_candidate_position_ratio b)),
     (''relative_block_offset'', FInt (bf_relative_block_offset b)),
     (''nearest_changed_block_distance'', FInt (bf_nearest_changed_block_distance b)),
     (''source_displacement_blocks'', FRat (bf_source_displacement_blocks b)),
     (''candidate_share_of_native_recompute'', FRat (bf_candidate_share_of_native_recompute b)),
     (''same_position_match'', FBool (bf_same_position_match b)),
     (''requires_repacking'', FBool (bf_requires_repacking b)),
     (''changed_candidate_token_overlap_ratio'', optional_value (bf_changed_candidate_token_overlap_ratio b)),
     (''introduced_candidate_token_overlap_ratio'', optional_value (bf_introduced_candidate_token_overlap_ratio b)),
     (''removed_candidate_token_overlap_ratio'', optional_value (bf_removed_candidate_token_overlap_ratio b)),
     (''changed_candidate_token_jaccard'', optional_value (bf_changed_candidate_token_jaccard b))]"

definition context_features_dict :: "candidate_context_features \<Rightarrow> (string, feature_value) odict" where
  "context_features_dict x =
    [(''edit_span_count'', FInt (int (xf_edit_span_count x))),
     (''edit_span_count_before_candidate'', FInt (int (xf_edit_span_count_before_candidate x))),
     (''previous_changed_tokens_before_candidate'', FInt (xf_previous_changed_tokens_before_candidate x)),
     (''current_changed_tokens_before_candidate'', FInt (xf_current_changed_tokens_before_candidate x)),
     (''preceding_context_match_tokens'', FInt (int (xf_preceding_context_match_tokens x))),
     (''preceding_matching_run_blocks'', FInt (int (xf_preceding_matching_run_blocks x))),
     (''following_matching_run_blocks'', FInt (int (xf_following_matching_run_blocks x))),
     (''matching_run_length_blocks'', FInt (int (xf_matching_run_length_blocks x))),
     (''source_occurrence_count'', FInt (int (xf_source_occurrence_count x))),
     (''aligned_source_occurrence_count'', FInt (int (xf_aligned_source_occurrence_count x)))]"

text \<open>\<open>{**a, **b}\<close>.\<close>

definition dict_merge :: "('k, 'v) odict \<Rightarrow> ('k, 'v) odict \<Rightarrow> ('k, 'v) odict" where
  "dict_merge a b = fold (\<lambda>(k, v). od_set k v) b a"

section \<open>Schemas\<close>

record feature_schema =
  fs_name :: string
  fs_feature_names :: "string list"
  fs_boolean_features :: "string list"

definition schema_numeric_features :: "feature_schema \<Rightarrow> string list" where
  "schema_numeric_features s = filter (\<lambda>n. n \<notin> set (fs_boolean_features s)) (fs_feature_names s)"

definition baseline_numeric_features :: "string list" where
  "baseline_numeric_features =
    [''previous_token_count'', ''current_token_count'', ''previous_changed_token_count'',
     ''current_changed_token_count'', ''block_size'', ''candidate_block_index'',
     ''candidate_position_ratio'', ''relative_block_offset'', ''nearest_changed_block_distance'',
     ''source_displacement_blocks'', ''candidate_share_of_native_recompute'',
     ''changed_candidate_token_overlap_ratio'', ''introduced_candidate_token_overlap_ratio'',
     ''removed_candidate_token_overlap_ratio'', ''changed_candidate_token_jaccard'']"

definition baseline_boolean_features :: "string list" where
  "baseline_boolean_features = [''same_position_match'', ''requires_repacking'']"

definition context_numeric_features :: "string list" where
  "context_numeric_features =
    [''edit_span_count'', ''edit_span_count_before_candidate'',
     ''previous_changed_tokens_before_candidate'', ''current_changed_tokens_before_candidate'',
     ''preceding_context_match_tokens'', ''preceding_matching_run_blocks'',
     ''following_matching_run_blocks'', ''matching_run_length_blocks'',
     ''source_occurrence_count'', ''aligned_source_occurrence_count'']"

definition baseline_feature_schema :: feature_schema where
  "baseline_feature_schema = \<lparr>fs_name = ''block-v1'',
     fs_feature_names = baseline_numeric_features @ baseline_boolean_features,
     fs_boolean_features = baseline_boolean_features\<rparr>"

definition context_feature_schema :: feature_schema where
  "context_feature_schema = \<lparr>fs_name = ''block-context-v2'',
     fs_feature_names = fs_feature_names baseline_feature_schema @ context_numeric_features,
     fs_boolean_features = baseline_boolean_features\<rparr>"

definition feature_schemas :: "(string, feature_schema) odict" where
  "feature_schemas = map (\<lambda>s. (fs_name s, s)) [baseline_feature_schema, context_feature_schema]"

definition selector_feature_schema :: "string \<Rightarrow> feature_schema res" where
  "selector_feature_schema name =
     (case od_get feature_schemas name of
        Some s \<Rightarrow> Inr s
      | None \<Rightarrow> Inl (ValueError ''unknown selector feature schema''))"

text \<open>\<open>float(row[name])\<close> for the names of a schema.\<close>

definition feature_vector :: "feature_schema \<Rightarrow> (string, feature_value) odict \<Rightarrow> (string \<times> rat) list res" where
  "feature_vector s row =
     map_res (\<lambda>name. case od_get row name of
         None \<Rightarrow> Inl (KeyError name)
       | Some v \<Rightarrow> bind_res (py_float v) (\<lambda>x. Inr (name, x))) (fs_feature_names s)"

lemma dict_merge_Nil [simp]: "dict_merge a [] = a"
  by (simp add: dict_merge_def)

lemma dict_merge_disjoint: "distinct (od_keys (a @ b)) \<Longrightarrow> dict_merge a b = a @ b"
proof (induction b arbitrary: a)
  case (Cons kv b)
  obtain k v where kv: "kv = (k, v)" by force
  have "AList.update k v a = a @ [(k, v)]"
    using Cons.prems by (intro od_set_new) (auto simp: kv)
  then show ?case using Cons.IH[of "a @ [(k, v)]"] Cons.prems by (simp add: dict_merge_def kv)
qed simp

text \<open>The merged row has exactly the names of the context schema, each once.\<close>

lemma merged_keys:
  "od_keys (block_features_dict b @ context_features_dict x) =
     [''previous_token_count'', ''current_token_count'', ''previous_changed_token_count'',
      ''current_changed_token_count'', ''block_size'', ''candidate_block_index'',
      ''candidate_position_ratio'', ''relative_block_offset'', ''nearest_changed_block_distance'',
      ''source_displacement_blocks'', ''candidate_share_of_native_recompute'',
      ''same_position_match'', ''requires_repacking'',
      ''changed_candidate_token_overlap_ratio'', ''introduced_candidate_token_overlap_ratio'',
      ''removed_candidate_token_overlap_ratio'', ''changed_candidate_token_jaccard''] @
     context_numeric_features"
  by (simp add: block_features_dict_def context_features_dict_def context_numeric_features_def)

lemma merged_distinct: "distinct (od_keys (block_features_dict b @ context_features_dict x))"
  unfolding merged_keys context_numeric_features_def by code_simp

lemma schema_names_keys:
  "set (fs_feature_names context_feature_schema) = set (od_keys (block_features_dict b @ context_features_dict x))"
  unfolding merged_keys context_feature_schema_def baseline_feature_schema_def baseline_numeric_features_def
    baseline_boolean_features_def context_numeric_features_def by code_simp

lemma schema_names_distinct: "distinct (fs_feature_names context_feature_schema)"
  unfolding context_feature_schema_def baseline_feature_schema_def baseline_numeric_features_def
    baseline_boolean_features_def context_numeric_features_def by code_simp

text \<open>The missing values of a row are the lexical ones geometry extraction leaves out.\<close>

lemma missing_values:
  "FNone \<in> snd ` set (block_features_dict b @ context_features_dict x) \<longleftrightarrow>
     None \<in> {bf_changed_candidate_token_overlap_ratio b, bf_introduced_candidate_token_overlap_ratio b,
       bf_removed_candidate_token_overlap_ratio b, bf_changed_candidate_token_jaccard b}"
proof -
  have o: "FNone = optional_value v \<longleftrightarrow> None = v" for v by (cases v) (simp_all add: optional_value_def)
  show ?thesis
    unfolding block_features_dict_def context_features_dict_def set_append image_Un
    by (simp only: list.set image_insert image_empty snd_conv insert_iff empty_iff Un_iff o
        feature_value.distinct simp_thms)
qed

lemma py_float_ok: "(\<exists>x. py_float v = Inr x) \<longleftrightarrow> v \<noteq> FNone"
  by (cases v) auto

lemma context_schema_vector:
  "distinct (fs_feature_names context_feature_schema) \<and>
   mset (fs_feature_names context_feature_schema) =
     mset (schema_numeric_features context_feature_schema) + mset (fs_boolean_features context_feature_schema) \<and>
   (case feature_vector context_feature_schema (dict_merge (block_features_dict b) (context_features_dict x)) of
      Inr vs \<Rightarrow> map fst vs = fs_feature_names context_feature_schema \<and> length vs = 27 \<and>
        None \<notin> {bf_changed_candidate_token_overlap_ratio b, bf_introduced_candidate_token_overlap_ratio b,
          bf_removed_candidate_token_overlap_ratio b, bf_changed_candidate_token_jaccard b}
    | Inl e \<Rightarrow> (\<exists>msg. e = TypeError msg) \<and>
        None \<in> {bf_changed_candidate_token_overlap_ratio b, bf_introduced_candidate_token_overlap_ratio b,
          bf_removed_candidate_token_overlap_ratio b, bf_changed_candidate_token_jaccard b})"
proof (intro conjI)
  let ?row = "block_features_dict b @ context_features_dict x"
  let ?N = "fs_feature_names context_feature_schema"
  define f where "f = (\<lambda>name. case od_get ?row name of None \<Rightarrow> Inl (KeyError name)
       | Some v \<Rightarrow> bind_res (py_float v) (\<lambda>x. Inr (name, x)))"
  show "distinct ?N" by (rule schema_names_distinct)
  have "filter (\<lambda>n. n \<in> set (fs_boolean_features context_feature_schema)) ?N =
      fs_boolean_features context_feature_schema"
    unfolding context_feature_schema_def baseline_feature_schema_def baseline_numeric_features_def
      baseline_boolean_features_def context_numeric_features_def by code_simp
  then show "mset ?N = mset (schema_numeric_features context_feature_schema) +
      mset (fs_boolean_features context_feature_schema)"
    unfolding schema_numeric_features_def
    by (metis add.commute mset_filter multiset_partition)
  have fv: "feature_vector context_feature_schema (dict_merge (block_features_dict b) (context_features_dict x)) =
      map_res f ?N"
    by (simp only: feature_vector_def dict_merge_disjoint[OF merged_distinct] f_def)
  have get: "\<exists>v. od_get ?row n = Some v \<and> (n, v) \<in> set ?row" if "n \<in> set ?N" for n
    using that unfolding schema_names_keys[of b x] by (metis list.set_map map_of_SomeD map_of_eq_None_iff option.exhaust)
  have val: "od_get ?row n = Some v \<and> n \<in> set ?N" if "(n, v) \<in> set ?row" for n v
    using that map_of_is_SomeI[OF merged_distinct that] unfolding schema_names_keys[of b x] by force
  have all_ok: "(\<forall>n \<in> set ?N. \<exists>y. f n = Inr y) \<longleftrightarrow> FNone \<notin> snd ` set ?row"
  proof
    assume L: "\<forall>n \<in> set ?N. \<exists>y. f n = Inr y"
    show "FNone \<notin> snd ` set ?row"
    proof
      assume "FNone \<in> snd ` set ?row"
      then obtain n where "(n, FNone) \<in> set ?row" by force
      then have "od_get ?row n = Some FNone" "n \<in> set ?N" using val by blast+
      with L show False by (fastforce simp: f_def)
    qed
  next
    assume R: "FNone \<notin> snd ` set ?row"
    show "\<forall>n \<in> set ?N. \<exists>y. f n = Inr y"
    proof
      fix n assume "n \<in> set ?N"
      then obtain v where v: "od_get ?row n = Some v" "(n, v) \<in> set ?row" using get by blast
      with R have "v \<noteq> FNone" by force
      then obtain z where "py_float v = Inr z" using py_float_ok by blast
      with v(1) show "\<exists>y. f n = Inr y" by (simp add: f_def)
    qed
  qed
  have err: "\<exists>msg. e = TypeError msg" if "map_res f ns = Inl e" "set ns \<subseteq> set ?N" for ns e
    using that
  proof (induction ns)
    case (Cons n ns)
    obtain v where v: "od_get ?row n = Some v" using get Cons.prems(2) by fastforce
    show ?case
    proof (cases v)
      case FNone
      with v Cons.prems(1) show ?thesis by (auto simp: f_def)
    qed (use v Cons in \<open>auto simp: bind_res_eq_Inl f_def\<close>)
  qed simp
  have names: "map fst vs = ns" if "map_res f ns = Inr vs" for ns vs
    using that by (induction ns arbitrary: vs) (auto simp: f_def split: option.splits)
  have len: "length ?N = 27"
    by (simp add: context_feature_schema_def baseline_feature_schema_def baseline_numeric_features_def
        baseline_boolean_features_def context_numeric_features_def)
  show "case feature_vector context_feature_schema (dict_merge (block_features_dict b) (context_features_dict x)) of
      Inr vs \<Rightarrow> map fst vs = ?N \<and> length vs = 27 \<and>
        None \<notin> {bf_changed_candidate_token_overlap_ratio b, bf_introduced_candidate_token_overlap_ratio b,
          bf_removed_candidate_token_overlap_ratio b, bf_changed_candidate_token_jaccard b}
    | Inl e \<Rightarrow> (\<exists>msg. e = TypeError msg) \<and>
        None \<in> {bf_changed_candidate_token_overlap_ratio b, bf_introduced_candidate_token_overlap_ratio b,
          bf_removed_candidate_token_overlap_ratio b, bf_changed_candidate_token_jaccard b}"
  proof (cases "map_res f ?N")
    case (Inl e)
    then have "\<not> (\<exists>ys. map_res f ?N = Inr ys)" by (simp only: sum.distinct not_ex simp_thms)
    then have "FNone \<in> snd ` set ?row" unfolding map_res_ok all_ok by (rule notnotD)
    with Inl err[OF Inl] show ?thesis unfolding fv missing_values by simp
  next
    case (Inr vs)
    then have "FNone \<notin> snd ` set ?row" using all_ok map_res_ok[of f ?N] by blast
    with Inr names[OF Inr] map_res_length[OF Inr] len show ?thesis unfolding fv missing_values by simp
  qed
qed

text \<open>The serving contract of the context schema.  Its names are distinct and split into numeric
  and boolean ones; selecting them from the merged feature rows never misses a key, yields one
  value for each name in the order of the schema, and fails exactly on rows whose lexical overlaps were left out.\<close>

theorem context_schema_served:
  "distinct (fs_feature_names context_feature_schema) \<and>
   mset (fs_feature_names context_feature_schema) =
     mset (schema_numeric_features context_feature_schema) + mset (fs_boolean_features context_feature_schema) \<and>
   (case feature_vector context_feature_schema (dict_merge (block_features_dict b) (context_features_dict x)) of
      Inr vs \<Rightarrow> map fst vs = fs_feature_names context_feature_schema \<and> length vs = 27 \<and>
        None \<notin> {bf_changed_candidate_token_overlap_ratio b, bf_introduced_candidate_token_overlap_ratio b,
          bf_removed_candidate_token_overlap_ratio b, bf_changed_candidate_token_jaccard b}
    | Inl e \<Rightarrow> (\<exists>msg. e = TypeError msg) \<and>
        None \<in> {bf_changed_candidate_token_overlap_ratio b, bf_introduced_candidate_token_overlap_ratio b,
          bf_removed_candidate_token_overlap_ratio b, bf_changed_candidate_token_jaccard b})"
  by (rule context_schema_vector)

lemma schema_lookup:
  "(case selector_feature_schema name of
      Inr s \<Rightarrow> fs_name s = name \<and> s \<in> {baseline_feature_schema, context_feature_schema}
    | Inl e \<Rightarrow> name \<notin> {''block-v1'', ''block-context-v2''} \<and> (\<exists>msg. e = ValueError msg))"
proof -
  have n: "fs_name baseline_feature_schema = ''block-v1''" "fs_name context_feature_schema = ''block-context-v2''"
    by (simp_all add: baseline_feature_schema_def context_feature_schema_def)
  have "selector_feature_schema name =
      (if name = fs_name baseline_feature_schema then Inr baseline_feature_schema
       else if name = fs_name context_feature_schema then Inr context_feature_schema
       else Inl (ValueError ''unknown selector feature schema''))"
    unfolding selector_feature_schema_def feature_schemas_def
    by (simp only: list.map map_of.simps fst_conv snd_conv fun_upd_apply option.case split: if_split) blast
  then show ?thesis unfolding n[symmetric]
    by (simp only: sum.case insert_iff empty_iff simp_thms py_exc.inject split: if_split) blast
qed

end
