(* ===== verification/Locator.thy ===== *)
theory Locator
  imports PoolProps Selector
begin

text \<open>
  \<^verbatim>\<open>vllm/v1/core/partial_reuse.py\<close>: the index of prompts whose blocks may be reused
  beyond an exact prefix, the choice of a source for a request, and the plan of candidate
  blocks.  The block pool is shared with the cache manager and is an argument of every operation
  that reads or changes it; the interpreter's \<open>hash\<close> of a token tuple is the parameter
  \<open>h\<close>.  A request that \<open>locate\<close> updates is returned with its plan.
\<close>

section \<open>Records\<close>

record source_block =
  sb_block_index :: nat
  sb_token_ids :: "int list"
  sb_block_id :: int
  sb_block_hash :: bytes
  sb_contextual_hash :: "bytes option"

record source_index =
  sr_request_id :: string
  sr_cache_salt :: "string option"
  sr_lora_adapter_id :: "int option"
  sr_blocks :: "source_block list"
  sr_prompt_token_ids :: "int list"
  sr_session_id :: "string option"
  sr_fingerprint :: "int set"

record reuse_candidate =
  pc_source_block_index :: nat
  pc_target_block_index :: nat
  pc_source_block_id :: int
  pc_source_resident :: bool
  pc_requires_repair :: bool
  pc_block_displacement :: int
  pc_nearest_changed_block_distance :: "int option"
  pc_source_contextual_hash :: "bytes option"
  pc_source_block_offset :: nat
  pc_source_block_ids :: "int list"
  pc_selector_features :: "(string \<times> rat) list"

definition physical_source_block_ids :: "reuse_candidate \<Rightarrow> int list" where
  "physical_source_block_ids c =
     (if pc_source_block_ids c \<noteq> [] then pc_source_block_ids c else [pc_source_block_id c])"

definition pc_requires_repacking :: "reuse_candidate \<Rightarrow> bool" where
  "pc_requires_repacking c \<longleftrightarrow> pc_source_block_offset c \<noteq> 0"

record reuse_plan =
  pp_transition_id :: "string option"
  pp_source_request_id :: string
  pp_target_request_id :: string
  pp_block_size :: nat
  pp_native_cached_tokens :: nat
  pp_reason :: string
  pp_source_selection :: string
  pp_counterfactual_reuse_block_index :: "int option"
  pp_candidates :: "reuse_candidate list"

definition candidate_block_count :: "reuse_plan \<Rightarrow> nat" where
  "candidate_block_count p = length (pp_candidates p)"

definition candidate_token_count :: "reuse_plan \<Rightarrow> nat" where
  "candidate_token_count p = candidate_block_count p * pp_block_size p"

definition resident_candidate_block_count :: "reuse_plan \<Rightarrow> nat" where
  "resident_candidate_block_count p = length (filter pc_source_resident (pp_candidates p))"

definition resident_candidate_token_count :: "reuse_plan \<Rightarrow> nat" where
  "resident_candidate_token_count p = resident_candidate_block_count p * pp_block_size p"

definition for_retained_source_ids :: "int set \<Rightarrow> reuse_plan \<Rightarrow> reuse_plan option" where
  "for_retained_source_ids ids p =
     (let retained = filter (\<lambda>c. set (physical_source_block_ids c) \<subseteq> ids) (pp_candidates p)
      in if retained = [] then None else Some (p\<lparr>pp_candidates := retained\<rparr>))"

record locator =
  loc_block_size :: nat
  loc_hash_block_size :: nat
  loc_max_source_requests :: nat
  loc_allow_repacking :: bool
  loc_collect_selector_features :: bool
  loc_sources :: "(string, source_index) odict"
  loc_session_sources :: "(string, string) odict"

definition locator_init :: "int \<Rightarrow> int \<Rightarrow> nat option \<Rightarrow> bool \<Rightarrow> bool \<Rightarrow> locator res" where
  "locator_init bs mx hbs repack collect =
     bind_res (check_res (1 \<le> bs) (ValueError ''block_size must be positive'')) (\<lambda>_.
     bind_res (check_res (1 \<le> mx) (ValueError ''max_source_requests must be positive'')) (\<lambda>_.
       Inr \<lparr>loc_block_size = nat bs,
            loc_hash_block_size = (case hbs of Some (Suc n) \<Rightarrow> Suc n | _ \<Rightarrow> nat bs),
            loc_max_source_requests = nat mx, loc_allow_repacking = repack,
            loc_collect_selector_features = collect, loc_sources = [], loc_session_sources = []\<rparr>))"

definition request_adapter_id :: "request \<Rightarrow> int option" where
  "request_adapter_id req = map_option lora_int_id (lora req)"

text \<open>\<open>request.cacheselect_request_id or request.request_id\<close>.\<close>

definition effective_request_id :: "request \<Rightarrow> string" where
  "effective_request_id req =
     (case cs_request_id req of Some (ch # rest) \<Rightarrow> ch # rest | _ \<Rightarrow> request_id req)"

section \<open>Indexing\<close>

definition fingerprint :: "(int list \<Rightarrow> int) \<Rightarrow> int list \<Rightarrow> int set" where
  "fingerprint h toks =
     (if length toks < 8 then {}
      else set (take 64 (sorted_list_of_set
        ((\<lambda>start. h (slice start (start + 8) toks)) ` set [0..<length toks - 8 + 1]))))"

definition indexed_block :: "hash_list \<Rightarrow> int list \<Rightarrow> nat \<Rightarrow> block_pool \<Rightarrow> nat \<times> bref \<Rightarrow> source_block option res" where
  "indexed_block hashes prompt bs pool ib =
     (case ib of (i, b) \<Rightarrow>
        if is_null (heap pool b) then Inr None
        else case block_hash (heap pool b) of
          None \<Rightarrow> Inr None
        | Some key \<Rightarrow>
            bind_res (hl_len hashes) (\<lambda>n.
            bind_res (if i < n then bind_res (hl_get hashes i) (\<lambda>x. Inr (Some x)) else Inr None) (\<lambda>ctx.
              Inr (Some \<lparr>sb_block_index = i, sb_token_ids = slice (i * bs) (i * bs + bs) prompt,
                sb_block_id = block_id (heap pool b), sb_block_hash = key,
                sb_contextual_hash = ctx\<rparr>))))"

text \<open>Dropping the session entry of a source that is replaced or evicted.\<close>

definition forget_session :: "string \<Rightarrow> source_index \<Rightarrow> (string, string) odict \<Rightarrow> (string, string) odict" where
  "forget_session rid src ss =
     (case sr_session_id src of
        None \<Rightarrow> ss
      | Some s \<Rightarrow> if od_get ss s = Some rid then od_pop s ss else ss)"

fun evict_loop ::
  "nat \<Rightarrow> (string, source_index) odict \<Rightarrow> (string, string) odict \<Rightarrow>
   (string, source_index) odict \<times> (string, string) odict" where
  "evict_loop mx [] ss = ([], ss)"
| "evict_loop mx ((rid, src) # rest) ss =
     (if mx < length ((rid, src) # rest) then evict_loop mx rest (forget_session rid src ss)
      else ((rid, src) # rest, ss))"

definition store_source :: "string \<Rightarrow> source_index \<Rightarrow> locator \<Rightarrow> locator" where
  "store_source rid src loc =
     (let ss1 = (case od_get (loc_sources loc) rid of
            None \<Rightarrow> loc_session_sources loc
          | Some previous \<Rightarrow> forget_session rid previous (loc_session_sources loc));
          sources1 = od_move_to_end rid (od_set rid src (loc_sources loc));
          ss2 = (case sr_session_id src of None \<Rightarrow> ss1 | Some s \<Rightarrow> od_set s rid ss1);
          (sources2, ss3) = evict_loop (loc_max_source_requests loc) sources1 ss2
      in loc\<lparr>loc_sources := sources2, loc_session_sources := ss3\<rparr>)"

definition locator_index ::
  "(int list \<Rightarrow> int) \<Rightarrow> block_pool \<Rightarrow> request \<Rightarrow> bref list \<Rightarrow> locator \<Rightarrow> locator res" where
  "locator_index h pool req blocks loc =
     (case prompt_token_ids req of
        None \<Rightarrow> Inr loc
      | Some prompt \<Rightarrow>
          (let bs = loc_block_size loc in
           bind_res (resolve_block_hashes (Raw (block_hashes req)) (loc_hash_block_size loc) bs False None) (\<lambda>hashes.
           bind_res (map_res (indexed_block hashes prompt bs pool)
               (enumerate 0 (take (length prompt div bs) blocks))) (\<lambda>indexed.
             let rid = effective_request_id req
             in Inr (store_source rid
                  \<lparr>sr_request_id = rid, sr_cache_salt = cache_salt req,
                   sr_lora_adapter_id = request_adapter_id req,
                   sr_blocks = List.map_filter id indexed, sr_prompt_token_ids = prompt,
                   sr_session_id = cs_session_id req, sr_fingerprint = fingerprint h prompt\<rparr> loc)))))"

definition locator_clear :: "locator \<Rightarrow> locator" where
  "locator_clear loc = loc\<lparr>loc_sources := [], loc_session_sources := []\<rparr>"

section \<open>Choosing a source\<close>

definition is_resident :: "block_pool \<Rightarrow> source_block \<Rightarrow> bool" where
  "is_resident pool b \<longleftrightarrow>
     hm_contain (idof pool) (cached_block_hash_to_block pool) (sb_block_hash b) (sb_block_id b)"

definition is_compatible_resident :: "block_pool \<Rightarrow> request \<Rightarrow> source_index \<Rightarrow> bool" where
  "is_compatible_resident pool req src \<longleftrightarrow>
     sr_cache_salt src = cache_salt req \<and> sr_lora_adapter_id src = request_adapter_id req \<and>
     list_ex (is_resident pool) (sr_blocks src)"

definition pick_step ::
  "block_pool \<Rightarrow> request \<Rightarrow> int set \<Rightarrow> string option \<Rightarrow> string \<times> source_index \<Rightarrow>
   string option \<times> nat \<Rightarrow> string option \<times> nat" where
  "pick_step pool req target exclude entry best =
     (case entry of (sid, src) \<Rightarrow>
        if sid = effective_request_id req \<or> exclude = Some sid \<or> \<not> is_compatible_resident pool req src
        then best
        else let shared = card (target \<inter> sr_fingerprint src)
             in if snd best < shared then (Some sid, shared) else best)"

definition fingerprint_source ::
  "(int list \<Rightarrow> int) \<Rightarrow> block_pool \<Rightarrow> locator \<Rightarrow> request \<Rightarrow> nat \<Rightarrow> string option \<Rightarrow> string option" where
  "fingerprint_source h pool loc req native exclude =
     (case prompt_token_ids req of
        None \<Rightarrow> None
      | Some prompt \<Rightarrow>
          (let target = fingerprint h (drop native prompt)
           in if card target < 4 then None
              else fst (fold (pick_step pool req target exclude) (take 64 (rev (loc_sources loc))) (None, 3))))"

definition automatic_source ::
  "(int list \<Rightarrow> int) \<Rightarrow> block_pool \<Rightarrow> locator \<Rightarrow> request \<Rightarrow> nat \<Rightarrow> (string \<times> string) option" where
  "automatic_source h pool loc req native =
     (let by_fingerprint = map_option (\<lambda>sid. (sid, ''fingerprint'')) (fingerprint_source h pool loc req native None)
      in case cs_session_id req of
           None \<Rightarrow> if \<not> cs_auto_source req then None else by_fingerprint
         | Some s \<Rightarrow>
             (case Option.bind (od_get (loc_session_sources loc) s) (\<lambda>sid.
                   Option.bind (od_get (loc_sources loc) sid) (\<lambda>src.
                     if is_compatible_resident pool req src then Some sid else None)) of
                Some sid \<Rightarrow> Some (sid, ''session'')
              | None \<Rightarrow> if \<not> cs_auto_source req then None else by_fingerprint))"

section \<open>Candidates\<close>

type_synonym source_window = "nat \<times> source_block list"

definition add_window :: "int list \<Rightarrow> source_window \<Rightarrow> (int list, source_window list) odict \<Rightarrow>
    (int list, source_window list) odict" where
  "add_window toks w d = od_set toks ((case od_get d toks of None \<Rightarrow> [] | Some ws \<Rightarrow> ws) @ [w]) d"

definition window_at :: "locator \<Rightarrow> (nat, source_block) odict \<Rightarrow> nat \<Rightarrow> source_window option" where
  "window_at loc blocks_by_index start =
     (let bs = loc_block_size loc; first = start div bs; lst = (start + bs - 1) div bs;
          physical = List.map_filter (od_get blocks_by_index) [first..<lst + 1]
      in if length physical \<noteq> lst - first + 1 then None else Some (start, physical))"

definition source_windows_by_content :: "locator \<Rightarrow> source_index \<Rightarrow> (int list, source_window list) odict" where
  "source_windows_by_content loc src =
     (let bs = loc_block_size loc; toks = sr_prompt_token_ids src;
          blocks_by_index = fold (\<lambda>b. od_set (sb_block_index b) b) (sr_blocks src) []
      in if toks = []
         then fold (\<lambda>b. add_window (sb_token_ids b) (sb_block_index b * bs, [b])) (sr_blocks src) []
         else fold (\<lambda>start d. case window_at loc blocks_by_index start of
                  None \<Rightarrow> d
                | Some w \<Rightarrow> add_window (slice start (start + bs) toks) w d)
                (range_step 0 (length toks + 1 - bs) (if loc_allow_repacking loc then 1 else bs)) [])"

definition window_key :: "block_pool \<Rightarrow> locator \<Rightarrow> nat \<Rightarrow> source_window \<Rightarrow> bool \<times> bool \<times> int \<times> nat" where
  "window_key pool loc t w =
     (\<not> list_all (is_resident pool) (snd w), fst w mod loc_block_size loc \<noteq> 0,
      \<bar>int (fst w) - int (t * loc_block_size loc)\<bar>, fst w)"

definition select_nearest_source_window ::
  "block_pool \<Rightarrow> locator \<Rightarrow> source_window list \<Rightarrow> nat \<Rightarrow> source_window res" where
  "select_nearest_source_window pool loc windows t =
     bind_res (check_res (windows \<noteq> []) (ValueError ''source window choices cannot be empty'')) (\<lambda>_.
       py_min_by (window_key pool loc t) windows)"

definition select_nearest_source_block ::
  "block_pool \<Rightarrow> source_block list \<Rightarrow> nat \<Rightarrow> source_block res" where
  "select_nearest_source_block pool blocks t =
     (let resident = filter (is_resident pool) blocks;
          choices = (if resident \<noteq> [] then resident else blocks)
      in bind_res (check_res (choices \<noteq> []) (ValueError ''source block choices cannot be empty'')) (\<lambda>_.
         py_min_by (\<lambda>b. (\<bar>int (sb_block_index b) - int t\<bar>, sb_block_index b)) choices))"

text \<open>The candidate a window stands for; a window always has a first block.\<close>

definition window_candidate :: "block_pool \<Rightarrow> locator \<Rightarrow> nat \<Rightarrow> source_window \<Rightarrow> reuse_candidate res" where
  "window_candidate pool loc t w =
     (case snd w of
        [] \<Rightarrow> Inl (IndexError ''tuple index out of range'')
      | b # _ \<Rightarrow> Inr \<lparr>pc_source_block_index = sb_block_index b, pc_target_block_index = t,
            pc_source_block_id = sb_block_id b, pc_source_resident = list_all (is_resident pool) (snd w),
            pc_requires_repair = True, pc_block_displacement = 0,
            pc_nearest_changed_block_distance = None, pc_source_contextual_hash = sb_contextual_hash b,
            pc_source_block_offset = fst w mod loc_block_size loc,
            pc_source_block_ids = map sb_block_id (snd w), pc_selector_features = []\<rparr>)"

definition target_candidate ::
  "block_pool \<Rightarrow> locator \<Rightarrow> (int list, source_window list) odict \<Rightarrow> int list \<Rightarrow> nat \<Rightarrow> reuse_candidate option res" where
  "target_candidate pool loc by_content prompt t =
     (let bs = loc_block_size loc
      in case od_get by_content (slice (t * bs) (t * bs + bs) prompt) of
           None \<Rightarrow> Inr None
         | Some [] \<Rightarrow> Inr None
         | Some ws \<Rightarrow>
             bind_res (select_nearest_source_window pool loc ws t) (\<lambda>w.
             bind_res (window_candidate pool loc t w) (\<lambda>c. Inr (Some c))))"

text \<open>Change geometry: the unmatched targets, then the discontinuities between candidates.\<close>

definition annotate_step ::
  "reuse_candidate \<Rightarrow> reuse_candidate option \<times> nat set \<Rightarrow> reuse_candidate option \<times> nat set" where
  "annotate_step c st =
     (case st of (previous, changed) \<Rightarrow>
        let discontinuity = (case previous of
               None \<Rightarrow> pc_source_block_index c \<noteq> pc_target_block_index c
             | Some q \<Rightarrow> pc_target_block_index q + 1 = pc_target_block_index c \<and>
                 \<not> pc_source_block_index q + 1 = pc_source_block_index c)
        in (Some c,
            if discontinuity \<and> \<not> (0 < pc_target_block_index c \<and> pc_target_block_index c - 1 \<in> changed)
            then insert (pc_target_block_index c) changed else changed))"

definition changed_targets :: "reuse_candidate list \<Rightarrow> nat \<Rightarrow> nat \<Rightarrow> nat set" where
  "changed_targets cands lo hi =
     snd (fold annotate_step cands (None, set [lo..<hi] - pc_target_block_index ` set cands))"

definition annotate_one :: "nat set \<Rightarrow> reuse_candidate \<Rightarrow> reuse_candidate" where
  "annotate_one changed c =
     c\<lparr>pc_block_displacement := int (pc_target_block_index c) - int (pc_source_block_index c),
       pc_nearest_changed_block_distance :=
         (if changed = {} then None
          else Some (Min ((\<lambda>t. \<bar>int (pc_target_block_index c) - int t\<bar>) ` changed)))\<rparr>"

definition annotate_change_geometry :: "reuse_candidate list \<Rightarrow> nat \<Rightarrow> nat \<Rightarrow> reuse_candidate list" where
  "annotate_change_geometry cands lo hi =
     (if cands = [] then [] else map (annotate_one (changed_targets cands lo hi)) cands)"

section \<open>Selector features\<close>

definition feature_rows ::
  "candidate_block list \<Rightarrow> candidate_block_features list \<Rightarrow> candidate_context_features list \<Rightarrow>
   (nat, (string, feature_value) odict) odict" where
  "feature_rows cands blocks contexts =
     fold (\<lambda>(cb, b, x). od_set (cb_current_block_index cb)
         (dict_merge (block_features_dict b) (context_features_dict x)))
       (zip cands (zip blocks contexts)) []"

definition with_features ::
  "(nat, (string, feature_value) odict) odict \<Rightarrow> reuse_candidate \<Rightarrow> reuse_candidate res" where
  "with_features rows c =
     (case od_get rows (pc_target_block_index c) of
        None \<Rightarrow> Inr c
      | Some row \<Rightarrow> bind_res (feature_vector context_feature_schema row) (\<lambda>fs.
          Inr (c\<lparr>pc_selector_features := fs\<rparr>)))"

definition attach_selector_features ::
  "locator \<Rightarrow> int list \<Rightarrow> int list \<Rightarrow> nat \<Rightarrow> reuse_candidate list \<Rightarrow> reuse_candidate list run" where
  "attach_selector_features loc previous current native cands =
     bind_run (Some (analyze_reuse_opportunity previous current (int native) (int (loc_block_size loc)))) (\<lambda>opp.
     bind_run (extract_candidate_context_features previous current opp) (\<lambda>contexts.
     bind_run (Some (extract_candidate_block_features previous current opp)) (\<lambda>blocks.
       Some (map_res (with_features (feature_rows (ro_candidate_blocks opp) blocks contexts)) cands))))"

section \<open>Plans\<close>

definition make_plan ::
  "locator \<Rightarrow> request \<Rightarrow> nat \<Rightarrow> string \<Rightarrow> string \<Rightarrow> reuse_candidate list \<Rightarrow> reuse_plan res" where
  "make_plan loc req native reason selection cands =
     (case cs_source_request_id req of
        None \<Rightarrow> Inl (AssertionError ''source_request_id is not None'')
      | Some sid \<Rightarrow> Inr \<lparr>pp_transition_id = cs_transition_id req, pp_source_request_id = sid,
            pp_target_request_id = effective_request_id req, pp_block_size = loc_block_size loc,
            pp_native_cached_tokens = native, pp_reason = reason, pp_source_selection = selection,
            pp_counterfactual_reuse_block_index = cs_counterfactual_index req, pp_candidates = cands\<rparr>)"

text \<open>One pass of \<open>locate\<close> with a chosen source: a result, or a second pass with another source.\<close>

type_synonym located = "(reuse_plan option \<times> request) run"

datatype attempt = Finished located | Retry request

definition finish_plan :: "request \<Rightarrow> reuse_plan res \<Rightarrow> located" where
  "finish_plan req r = Some (bind_res r (\<lambda>p. Inr (Some p, req)))"

definition plan_reason :: "reuse_candidate list \<Rightarrow> string" where
  "plan_reason cands =
     (if list_ex pc_requires_repacking cands then ''repacking_candidates''
      else if cands \<noteq> [] then ''aligned_candidates'' else ''no_aligned_candidates'')"

definition located_candidates :: "block_pool \<Rightarrow> locator \<Rightarrow> source_index \<Rightarrow> int list \<Rightarrow> nat \<Rightarrow> reuse_candidate list res" where
  "located_candidates pool loc src prompt native =
     (let bs = loc_block_size loc; by_content = source_windows_by_content loc src
      in bind_res (map_res (target_candidate pool loc by_content prompt)
             [(native + bs - 1) div bs..<length prompt div bs]) (\<lambda>found.
           Inr (List.map_filter id found)))"

definition locate_in ::
  "(int list \<Rightarrow> int) \<Rightarrow> block_pool \<Rightarrow> locator \<Rightarrow> request \<Rightarrow> string \<Rightarrow> string \<Rightarrow> nat \<Rightarrow> attempt" where
  "locate_in h pool loc req sid selection native =
     (let plan = make_plan loc req native; bs = loc_block_size loc
      in case od_get (loc_sources loc) sid of
           None \<Rightarrow> Finished (finish_plan req (plan ''source_not_indexed'' selection []))
         | Some src \<Rightarrow>
             if sr_cache_salt src \<noteq> cache_salt req
             then Finished (finish_plan req (plan ''cache_salt_mismatch'' selection []))
             else if sr_lora_adapter_id src \<noteq> request_adapter_id req
             then Finished (finish_plan req (plan ''lora_mismatch'' selection []))
             else case prompt_token_ids req of
               None \<Rightarrow> Finished (finish_plan req (plan ''token_ids_unavailable'' selection []))
             | Some prompt \<Rightarrow>
                 (case located_candidates pool loc src prompt native of
                    Inl e \<Rightarrow> Finished (Some (Inl e))
                  | Inr cands \<Rightarrow>
                      (let annotated = annotate_change_geometry cands ((native + bs - 1) div bs) (length prompt div bs);
                           finish = Finished (bind_run
                             (if loc_collect_selector_features loc \<and> annotated \<noteq> []
                              then attach_selector_features loc (sr_prompt_token_ids src) prompt native annotated
                              else Some (Inr annotated))
                             (\<lambda>final. finish_plan req (plan (plan_reason cands) selection final)))
                       in if annotated = [] \<and> selection = ''session'' \<and> cs_auto_source req
                          then (case fingerprint_source h pool loc req native (Some sid) of
                                  Some fid \<Rightarrow> Retry (req\<lparr>cs_source_request_id := Some fid,
                                    cs_source_selection := ''fingerprint''\<rparr>)
                                | None \<Rightarrow> finish)
                          else finish)))"

text \<open>The source of a request: the one it names, or an automatic one.\<close>

definition resolve_source ::
  "(int list \<Rightarrow> int) \<Rightarrow> block_pool \<Rightarrow> locator \<Rightarrow> request \<Rightarrow> nat \<Rightarrow> (request \<times> string \<times> string) option" where
  "resolve_source h pool loc req native =
     (case cs_source_request_id req of
        Some sid \<Rightarrow> Some (req, sid, cs_source_selection req)
      | None \<Rightarrow> map_option (\<lambda>(sid, sel).
            (req\<lparr>cs_source_request_id := Some sid, cs_source_selection := sel\<rparr>, sid, sel))
          (automatic_source h pool loc req native))"

lemma locate_in_retry:
  assumes "locate_in h pool loc req sid selection native = Retry req'"
  shows "selection = ''session'' \<and> (\<exists>fid. fingerprint_source h pool loc req native (Some sid) = Some fid \<and>
    req' = req\<lparr>cs_source_request_id := Some fid, cs_source_selection := ''fingerprint''\<rparr>)"
  using assms unfolding locate_in_def Let_def by (auto split: option.splits if_splits sum.splits)

lemma resolve_source_session:
  "resolve_source h pool loc req native = Some (req1, sid, sel) \<Longrightarrow> sel = ''session'' \<Longrightarrow>
     \<not> (cs_source_request_id req \<noteq> None \<and> cs_source_selection req = ''fingerprint'')"
  by (auto simp: resolve_source_def)

function locate ::
  "(int list \<Rightarrow> int) \<Rightarrow> block_pool \<Rightarrow> locator \<Rightarrow> request \<Rightarrow> nat \<Rightarrow> located" where
  "locate h pool loc req native =
     (case resolve_source h pool loc req native of
        None \<Rightarrow> Some (Inr (None, req))
      | Some (req1, sid, selection) \<Rightarrow>
          (case locate_in h pool loc req1 sid selection native of
             Finished r \<Rightarrow> r
           | Retry req2 \<Rightarrow> locate h pool loc req2 native))"
  by pat_completeness auto
termination
  by (relation "measure (\<lambda>(h, pool, loc, req, native).
        if cs_source_request_id req \<noteq> None \<and> cs_source_selection req = ''fingerprint'' then 0 else 1)")
    (auto dest!: locate_in_retry dest: resolve_source_session)

declare locate.simps [simp del]

section \<open>Pinning sources\<close>

text \<open>The physical blocks one candidate needs, if each is indexed and still resident.\<close>

definition candidate_sources ::
  "block_pool \<Rightarrow> (int, source_block) odict \<Rightarrow> reuse_candidate \<Rightarrow> source_block list option" where
  "candidate_sources pool indexed c =
     (if \<not> pc_source_resident c then None
      else let bs = map (od_get indexed) (physical_source_block_ids c)
           in if list_all (\<lambda>b. case b of None \<Rightarrow> False | Some x \<Rightarrow> is_resident pool x) bs
              then Some (List.map_filter id bs) else None)"

definition pin_block :: "block_pool \<Rightarrow> source_block \<Rightarrow> (int, bref) odict \<Rightarrow> (int, bref) odict res" where
  "pin_block pool b d = bind_res (block_at pool (sb_block_id b)) (\<lambda>r. Inr (od_set (sb_block_id b) r d))"

definition retain_resident_sources :: "block_pool \<Rightarrow> locator \<Rightarrow> reuse_plan \<Rightarrow> (bref list \<times> block_pool) res" where
  "retain_resident_sources pool loc plan =
     (case od_get (loc_sources loc) (pp_source_request_id plan) of
        None \<Rightarrow> Inr ([], pool)
      | Some src \<Rightarrow>
          (let indexed = fold (\<lambda>b. od_set (sb_block_id b) b) (sr_blocks src) []
           in bind_res (fold_res (\<lambda>c d. case candidate_sources pool indexed c of
                    None \<Rightarrow> Inr d
                  | Some bs \<Rightarrow> fold_res (pin_block pool) bs d) (pp_candidates plan) []) (\<lambda>retained_by_id.
                let retained = map snd retained_by_id
                in if retained \<noteq> [] then bind_res (touch retained pool) (\<lambda>p. Inr (retained, p))
                   else Inr (retained, pool))))"

definition release_sources :: "bref list \<Rightarrow> block_pool \<Rightarrow> block_pool res" where
  "release_sources blocks pool = (if blocks \<noteq> [] then free_blocks (rev blocks) pool else Inr pool)"

end
