(* ===== verification/LocatorProps.thy ===== *)
theory LocatorProps
  imports Locator
begin

text \<open>
  Properties of the source index: reachable indexes are consistent, an indexed prompt is found
  again, plans only hold real matches from compatible sources, planning returns, and pinned
  sources are given back.
\<close>

section \<open>Consistency of the index\<close>

text \<open>An indexed source: blocks in order, each with the tokens of its place in the prompt.\<close>

definition source_ok :: "nat \<Rightarrow> source_index \<Rightarrow> bool" where
  "source_ok bs src \<longleftrightarrow>
     sorted_wrt (<) (map sb_block_index (sr_blocks src)) \<and>
     (\<forall>b \<in> set (sr_blocks src). sb_block_index b * bs + bs \<le> length (sr_prompt_token_ids src) \<and>
        sb_token_ids b = slice (sb_block_index b * bs) (sb_block_index b * bs + bs) (sr_prompt_token_ids src))"

text \<open>Every session entry leads to an indexed source of that session.\<close>

definition sessions_ok :: "(string, source_index) odict \<Rightarrow> (string, string) odict \<Rightarrow> bool" where
  "sessions_ok sources ss \<longleftrightarrow> distinct (od_keys ss) \<and>
     (\<forall>s rid. od_get ss s = Some rid \<longrightarrow> (\<exists>src. od_get sources rid = Some src \<and> sr_session_id src = Some s))"

definition locator_inv :: "locator \<Rightarrow> bool" where
  "locator_inv loc \<longleftrightarrow>
     1 \<le> loc_block_size loc \<and> 1 \<le> loc_hash_block_size loc \<and> 1 \<le> loc_max_source_requests loc \<and>
     distinct (od_keys (loc_sources loc)) \<and> length (loc_sources loc) \<le> loc_max_source_requests loc \<and>
     (\<forall>rid src. od_get (loc_sources loc) rid = Some src \<longrightarrow>
        sr_request_id src = rid \<and> source_ok (loc_block_size loc) src) \<and>
     sessions_ok (loc_sources loc) (loc_session_sources loc)"

lemma forget_session_get:
  "od_get (forget_session rid src ss) s =
     (if sr_session_id src = Some s \<and> od_get ss s = Some rid then None else od_get ss s)"
  by (auto simp: forget_session_def split: option.splits)

lemma forget_session_distinct [simp]: "distinct (od_keys ss) \<Longrightarrow> distinct (od_keys (forget_session rid src ss))"
  by (auto simp: forget_session_def split: option.splits)

lemma evict_loop_correct:
  assumes "distinct (od_keys sources)" "sessions_ok sources ss" "evict_loop mx sources ss = (sources', ss')"
  shows "sources' = drop (length sources - mx) sources \<and> sessions_ok sources' ss' \<and>
    (\<forall>s rid. od_get ss s = Some rid \<and> rid \<in> od_dom sources' \<longrightarrow> od_get ss' s = Some rid)"
  using assms
proof (induction mx sources ss rule: evict_loop.induct)
  case (2 mx rid src rest ss)
  show ?case
  proof (cases "mx < length ((rid, src) # rest)")
    case True
    let ?ss = "forget_session rid src ss"
    have r: "rid \<notin> od_dom rest" "distinct (od_keys rest)" using 2(2) by (auto simp: image_iff)
    have keep: "\<exists>src'. od_get rest rid' = Some src' \<and> sr_session_id src' = Some s"
      if g: "od_get ?ss s = Some rid'" for s rid'
    proof -
      have o: "od_get ss s = Some rid'" using g by (simp add: forget_session_get split: if_splits)
      then obtain src' where src': "od_get ((rid, src) # rest) rid' = Some src'" "sr_session_id src' = Some s"
        using 2(3) unfolding sessions_ok_def by blast
      have "rid' \<noteq> rid" using g o src' by (auto simp: forget_session_get split: if_splits)
      with src' show ?thesis by auto
    qed
    then have "sessions_ok rest ?ss" using 2(3) by (simp add: sessions_ok_def)
    from 2(1)[OF True r(2) this] 2(4) True
    have IH: "sources' = drop (length rest - mx) rest" "sessions_ok sources' ss'"
      "\<And>s rid'. od_get ?ss s = Some rid' \<Longrightarrow> rid' \<in> od_dom sources' \<Longrightarrow> od_get ss' s = Some rid'" by auto
    have "od_get ss' s = Some rid'" if "od_get ss s = Some rid'" "rid' \<in> od_dom sources'" for s rid'
    proof (rule IH(3)[OF _ that(2)])
      have "rid' \<in> od_dom rest" using that(2) IH(1) by (auto dest: in_set_dropD)
      with r(1) that(1) show "od_get ?ss s = Some rid'" by (auto simp: forget_session_get)
    qed
    with IH True show ?thesis by (simp add: Suc_diff_le)
  next
    case False
    with 2(3,4) show ?thesis by auto
  qed
qed auto

lemma store_source_correct:
  assumes inv: "locator_inv loc" and src: "sr_request_id src = rid" "source_ok (loc_block_size loc) src"
  defines "loc' \<equiv> store_source rid src loc"
  shows "locator_inv loc' \<and> od_get (loc_sources loc') rid = Some src \<and> last (loc_sources loc') = (rid, src) \<and>
    (\<forall>s. sr_session_id src = Some s \<longrightarrow> od_get (loc_session_sources loc') s = Some rid) \<and>
    loc_block_size loc' = loc_block_size loc"
proof -
  define ss1 where "ss1 = (case od_get (loc_sources loc) rid of None \<Rightarrow> loc_session_sources loc
    | Some previous \<Rightarrow> forget_session rid previous (loc_session_sources loc))"
  define ss2 where "ss2 = (case sr_session_id src of None \<Rightarrow> ss1 | Some s \<Rightarrow> od_set s rid ss1)"
  define so where "so = od_move_to_end rid (od_set rid src (loc_sources loc))"
  obtain sources' ss' where ev: "evict_loop (loc_max_source_requests loc) so ss2 = (sources', ss')" by force
  have loc': "loc' = loc\<lparr>loc_sources := sources', loc_session_sources := ss'\<rparr>"
    by (simp add: loc'_def store_source_def Let_def ss1_def[symmetric] ss2_def[symmetric] so_def[symmetric] ev)
  have I: "distinct (od_keys (loc_sources loc))" "length (loc_sources loc) \<le> loc_max_source_requests loc"
    "1 \<le> loc_max_source_requests loc"
    "\<And>r s. od_get (loc_sources loc) r = Some s \<Longrightarrow> sr_request_id s = r \<and> source_ok (loc_block_size loc) s"
    "sessions_ok (loc_sources loc) (loc_session_sources loc)"
    using inv by (auto simp: locator_inv_def)
  have d: "distinct (od_keys so)" using I(1) by (simp add: so_def)
  have get: "od_get so r = (if r = rid then Some src else od_get (loc_sources loc) r)" for r
    by (simp add: so_def)
  have ends: "so = od_pop rid (od_set rid src (loc_sources loc)) @ [(rid, src)]"
    by (simp add: so_def od_move_to_end_def)
  have S1: "distinct (od_keys ss1)" using I(5) by (auto simp: ss1_def sessions_ok_def split: option.split)
  have g1: "\<exists>p. od_get (loc_sources loc) r = Some p \<and> sr_session_id p = Some s \<and> r \<noteq> rid"
    if "od_get ss1 s = Some r" for s r
  proof -
    have o: "od_get (loc_session_sources loc) s = Some r"
      using that by (auto simp: ss1_def forget_session_get split: option.splits if_splits)
    then obtain p where p: "od_get (loc_sources loc) r = Some p" "sr_session_id p = Some s"
      using I(5) unfolding sessions_ok_def by blast
    have "r \<noteq> rid" using that o p by (auto simp: ss1_def forget_session_get)
    with p show ?thesis by blast
  qed
  have S2: "sessions_ok so ss2"
    unfolding sessions_ok_def
  proof (intro conjI allI impI)
    show "distinct (od_keys ss2)" using S1 by (auto simp: ss2_def split: option.split)
    fix s r assume "od_get ss2 s = Some r"
    then have "(sr_session_id src = Some s \<and> r = rid) \<or> od_get ss1 s = Some r"
      by (auto simp: ss2_def split: option.splits if_splits)
    then show "\<exists>src'. od_get so r = Some src' \<and> sr_session_id src' = Some s"
      using g1 unfolding get by auto
  qed
  note E = evict_loop_correct[OF d S2 ev]
  let ?k = "length so - loc_max_source_requests loc"
  have k: "?k \<le> length so - 1" using I(3) by simp
  have so': "sources' = drop ?k (od_pop rid (od_set rid src (loc_sources loc))) @ [(rid, src)]"
    using E k unfolding ends by simp
  have d': "distinct (od_keys sources')" using E d by (simp add: drop_map[symmetric] distinct_drop)
  have sub: "od_get so r = Some s" if "od_get sources' r = Some s" for r s
  proof -
    have "(r, s) \<in> set so" using map_of_SomeD[OF that] E by (auto dest: in_set_dropD)
    then show ?thesis using d by simp
  qed
  have len: "length sources' \<le> loc_max_source_requests loc" using E by simp
  have "od_get sources' rid = Some src" 
    using map_of_is_SomeI[OF d', of rid src] so' by simp
  moreover have "od_get ss' s = Some rid" if "sr_session_id src = Some s" for s
  proof -
    have "od_get ss2 s = Some rid" using that by (simp add: ss2_def)
    moreover have "rid \<in> od_dom sources'" using so' by simp
    ultimately show ?thesis using E by blast
  qed
  moreover have "locator_inv loc'"
  proof -
    have "sr_request_id x = r \<and> source_ok (loc_block_size loc) x" if "od_get sources' r = Some x" for r x
      using sub[OF that] src I(4)[of r x] unfolding get by (simp split: if_splits)
    moreover have "sessions_ok sources' ss'" using E by blast
    ultimately show ?thesis using inv d' len unfolding locator_inv_def loc' by simp
  qed
  ultimately show ?thesis by (simp add: loc' so')
qed

text \<open>States of the index: creation, indexing with any state of the pool, clearing.\<close>

inductive loc_reach :: "(int list \<Rightarrow> int) \<Rightarrow> locator \<Rightarrow> bool" for h :: "int list \<Rightarrow> int" where
  reach_init: "locator_init bs mx hbs repack collect = Inr loc \<Longrightarrow> loc_reach h loc"
| reach_index: "loc_reach h loc \<Longrightarrow> locator_index h pool req blocks loc = Inr loc' \<Longrightarrow> loc_reach h loc'"
| reach_clear: "loc_reach h loc \<Longrightarrow> loc_reach h (locator_clear loc)"

lemma sorted_indexed:
  assumes "list_all2 (\<lambda>ib o'. \<forall>b. o' = Some b \<longrightarrow> f b = fst ib) (enumerate n xs) os"
  shows "sorted_wrt (<) (map f (List.map_filter id os)) \<and> (\<forall>b \<in> set (List.map_filter id os). n \<le> f b \<and> f b < n + length xs)"
  using assms
proof (induction xs arbitrary: n os)
  case (Cons x xs)
  then obtain o' os' where os: "os = o' # os'" "\<forall>b. o' = Some b \<longrightarrow> f b = n"
    "list_all2 (\<lambda>ib o'. \<forall>b. o' = Some b \<longrightarrow> f b = fst ib) (enumerate (Suc n) xs) os'"
    by (auto simp: list_all2_Cons1)
  from Cons.IH[OF os(3)] os(2) show ?case
    by (cases o') (auto simp: os(1) map_filter_simps)
qed simp

lemma indexed_block_ok:
  "indexed_block hashes prompt bs pool ib = Inr (Some b) \<Longrightarrow>
     sb_block_index b = fst ib \<and> sb_token_ids b = slice (fst ib * bs) (fst ib * bs + bs) prompt \<and>
     sb_block_id b = block_id (heap pool (snd ib)) \<and> block_hash (heap pool (snd ib)) = Some (sb_block_hash b) \<and>
     \<not> is_null (heap pool (snd ib))"
  by (cases ib) (auto simp: indexed_block_def split: if_splits option.splits)

lemma locator_index_correct:
  assumes inv: "locator_inv loc" and run: "locator_index h pool req blocks loc = Inr loc'"
    and prompt: "prompt_token_ids req = Some prompt"
  shows "\<exists>src. loc' = store_source (effective_request_id req) src loc \<and>
    sr_request_id src = effective_request_id req \<and> source_ok (loc_block_size loc) src \<and>
    sr_prompt_token_ids src = prompt \<and> sr_cache_salt src = cache_salt req \<and>
    sr_lora_adapter_id src = request_adapter_id req \<and> sr_session_id src = cs_session_id req \<and>
    sr_fingerprint src = fingerprint h prompt"
proof -
  let ?bs = "loc_block_size loc" and ?rid = "effective_request_id req"
  obtain hashes indexed where r:
    "map_res (indexed_block hashes prompt ?bs pool) (enumerate 0 (take (length prompt div ?bs) blocks)) = Inr indexed"
    and l: "loc' = store_source ?rid
        \<lparr>sr_request_id = ?rid, sr_cache_salt = cache_salt req, sr_lora_adapter_id = request_adapter_id req,
         sr_blocks = List.map_filter id indexed, sr_prompt_token_ids = prompt,
         sr_session_id = cs_session_id req, sr_fingerprint = fingerprint h prompt\<rparr> loc"
    using run unfolding locator_index_def prompt option.case Let_def bind_res_eq_Inr by (auto simp: Let_def)
  let ?src = "\<lparr>sr_request_id = ?rid, sr_cache_salt = cache_salt req, sr_lora_adapter_id = request_adapter_id req,
         sr_blocks = List.map_filter id indexed, sr_prompt_token_ids = prompt,
         sr_session_id = cs_session_id req, sr_fingerprint = fingerprint h prompt\<rparr>"
  have all: "list_all2 (\<lambda>ib o'. indexed_block hashes prompt ?bs pool ib = Inr o')
      (enumerate 0 (take (length prompt div ?bs) blocks)) indexed"
    using r by (simp add: map_res_Inr_iff)
  have "list_all2 (\<lambda>ib o'. \<forall>b. o' = Some b \<longrightarrow> sb_block_index b = fst ib)
      (enumerate 0 (take (length prompt div ?bs) blocks)) indexed"
    by (rule list_all2_mono[OF all]) (auto dest: indexed_block_ok)
  note S = sorted_indexed[OF this]
  have "sb_block_index b * ?bs + ?bs \<le> length prompt \<and>
      sb_token_ids b = slice (sb_block_index b * ?bs) (sb_block_index b * ?bs + ?bs) prompt"
    if "b \<in> set (List.map_filter id indexed)" for b
  proof
    have "Some b \<in> set indexed" using that by (auto simp: map_filter_def)
    then obtain k where k: "k < length indexed" "indexed ! k = Some b" unfolding in_set_conv_nth by blast
    obtain ib where ib: "indexed_block hashes prompt ?bs pool ib = Inr (Some b)"
      using list_all2_nthD2[OF all k(1)] unfolding k(2) by blast
    show "sb_token_ids b = slice (sb_block_index b * ?bs) (sb_block_index b * ?bs + ?bs) prompt"
      using indexed_block_ok[OF ib] by simp
    have "sb_block_index b < length prompt div ?bs" using S that by auto
    then show "sb_block_index b * ?bs + ?bs \<le> length prompt" by (rule div_block_le)
  qed
  then have "source_ok ?bs ?src" using S by (simp add: source_ok_def)
  then show ?thesis by (intro exI[of _ ?src]) (simp add: l)
qed

lemma loc_reach_locator_inv: "loc_reach h loc \<Longrightarrow> locator_inv loc"
proof (induction rule: loc_reach.induct)
  case (reach_init bs mx hbs repack collect loc)
  then show ?case
    unfolding locator_init_def bind_res_eq_Inr check_res_eq_Inr
    by (elim exE conjE) (auto simp: locator_inv_def sessions_ok_def split: option.split nat.split)
next
  case (reach_index loc pool req blocks loc')
  show ?case
  proof (cases "prompt_token_ids req")
    case None
    with reach_index show ?thesis by (simp add: locator_index_def)
  next
    case (Some prompt)
    from locator_index_correct[OF reach_index.IH reach_index.hyps(2) Some] store_source_correct[OF reach_index.IH]
    show ?thesis by metis
  qed
next
  case (reach_clear loc)
  then show ?case by (simp add: locator_clear_def locator_inv_def sessions_ok_def)
qed

section \<open>Windows of a source\<close>

text \<open>The indexed blocks that hold the tokens from \<open>start\<close> on, in order.\<close>

definition covers :: "nat \<Rightarrow> source_index \<Rightarrow> nat \<Rightarrow> source_block list \<Rightarrow> bool" where
  "covers bs src start blocks \<longleftrightarrow>
     list_all2 (\<lambda>i b. b \<in> set (sr_blocks src) \<and> sb_block_index b = i)
       [start div bs..<(start + bs - 1) div bs + 1] blocks"

text \<open>A window of the source with the given tokens: block-aligned unless repacking is allowed.\<close>

definition source_match :: "locator \<Rightarrow> source_index \<Rightarrow> int list \<Rightarrow> source_window \<Rightarrow> bool" where
  "source_match loc src toks w \<longleftrightarrow>
     fst w + loc_block_size loc \<le> length (sr_prompt_token_ids src) \<and>
     (loc_allow_repacking loc \<or> loc_block_size loc dvd fst w) \<and>
     slice (fst w) (fst w + loc_block_size loc) (sr_prompt_token_ids src) = toks \<and>
     covers (loc_block_size loc) src (fst w) (snd w)"

lemma fold_add_window:
  "od_get (fold (\<lambda>x d. case f x of None \<Rightarrow> d | Some w \<Rightarrow> add_window (k x) w d) xs d0) key =
     (let ws = List.map_filter f (filter (\<lambda>x. k x = key) xs)
      in case od_get d0 key of
           None \<Rightarrow> if ws = [] then None else Some ws
         | Some ss \<Rightarrow> Some (ss @ ws))"
proof (induction xs arbitrary: d0)
  case (Cons x xs)
  show ?case
  proof (cases "f x")
    case None
    then show ?thesis by (simp add: Cons.IH Let_def map_filter_simps split: option.split)
  next
    case (Some w)
    then show ?thesis
      by (cases "k x = key")
        (simp_all add: Cons.IH Let_def map_filter_simps add_window_def split: option.split)
  qed
qed (simp add: map_filter_simps split: option.split)

lemma window_at_iff:
  assumes "source_ok bs src" "bs = loc_block_size loc" "1 \<le> bs"
  shows "window_at loc (fold (\<lambda>b. od_set (sb_block_index b) b) (sr_blocks src) []) start = Some w \<longleftrightarrow>
    fst w = start \<and> covers bs src start (snd w)"
proof -
  let ?t = "fold (\<lambda>b. od_set (sb_block_index b) b) (sr_blocks src) []"
  let ?is = "[start div bs..<(start + bs - 1) div bs + 1]"
  have "distinct (map sb_block_index (sr_blocks src))"
    using assms(1) by (simp add: source_ok_def strict_sorted_iff)
  then have get: "od_get ?t i = Some b \<longleftrightarrow> b \<in> set (sr_blocks src) \<and> sb_block_index b = i" for i b
    by (simp add: od_table)
  have "start div bs \<le> (start + bs - 1) div bs" using assms(3) by (intro div_le_mono) simp
  then have len: "length ?is = (start + bs - 1) div bs - start div bs + 1" by simp
  have full: "length (List.map_filter (od_get ?t) ?is) = length ?is \<longleftrightarrow> covers bs src start (List.map_filter (od_get ?t) ?is)"
    using map_filter_full[of "od_get ?t" ?is] by (auto simp: covers_def get dest: list_all2_lengthD)
  have uniq: "List.map_filter (od_get ?t) ?is = ys" if "covers bs src start ys" for ys
    using that unfolding covers_def get[symmetric] by (rule map_filter_all2)
  have win: "window_at loc ?t start = (if length (List.map_filter (od_get ?t) ?is) \<noteq> length ?is then None
      else Some (start, List.map_filter (od_get ?t) ?is))"
    unfolding window_at_def Let_def assms(2)[symmetric] len[symmetric] by (rule refl)
  show ?thesis
  proof
    assume "window_at loc ?t start = Some w"
    then have "length (List.map_filter (od_get ?t) ?is) = length ?is" "w = (start, List.map_filter (od_get ?t) ?is)"
      unfolding win by (simp_all only: split: if_splits) simp_all
    with full show "fst w = start \<and> covers bs src start (snd w)" by simp
  next
    assume c: "fst w = start \<and> covers bs src start (snd w)"
    then have eq: "List.map_filter (od_get ?t) ?is = snd w" using uniq by blast
    then have "length (List.map_filter (od_get ?t) ?is) = length ?is" using full c by simp
    then show "window_at loc ?t start = Some w" unfolding win using eq c by (cases w) simp
  qed
qed

lemma windows_get:
  assumes ok: "source_ok bs src" and bs: "bs = loc_block_size loc" "1 \<le> bs"
  shows "\<exists>ws. od_get (source_windows_by_content loc src) toks = (if ws = [] then None else Some ws) \<and>
    (\<forall>w. w \<in> set ws \<longleftrightarrow> source_match loc src toks w)"
proof -
  let ?T = "sr_prompt_token_ids src" and ?step = "if loc_allow_repacking loc then 1 else bs"
  let ?tab = "fold (\<lambda>b. od_set (sb_block_index b) b) (sr_blocks src) []"
  let ?starts = "range_step 0 (length ?T + 1 - bs) ?step"
  let ?ws = "List.map_filter (window_at loc ?tab) (filter (\<lambda>s. slice s (s + bs) ?T = toks) ?starts)"
  have st: "s \<in> set ?starts \<longleftrightarrow> s + bs \<le> length ?T \<and> (loc_allow_repacking loc \<or> bs dvd s)" for s
    using bs(2) by (subst set_range_step) auto
  have mem: "w \<in> set ?ws \<longleftrightarrow> source_match loc src toks w" for w
  proof -
    have "w \<in> set ?ws \<longleftrightarrow> (\<exists>s \<in> set ?starts. slice s (s + bs) ?T = toks \<and> window_at loc ?tab s = Some w)"
      by (force simp: map_filter_def)
    then show ?thesis
      unfolding window_at_iff[OF ok bs] Bex_def st source_match_def bs(1)[symmetric] by blast
  qed
  have "od_get (source_windows_by_content loc src) toks = (if ?ws = [] then None else Some ?ws)"
  proof (cases "?T = []")
    case True
    then have "sr_blocks src = []" using ok bs(2) by (cases "sr_blocks src") (auto simp: source_ok_def)
    moreover have "s \<notin> set ?starts" for s unfolding st using True bs(2) by simp
    then have "?starts = []" by (metis last_in_set)
    ultimately show ?thesis using True
      unfolding source_windows_by_content_def Let_def by (simp only: filter.simps map_filter_simps if_True fold_simps map_of.simps refl)
  next
    case False
    then show ?thesis
      unfolding source_windows_by_content_def Let_def bs(1)[symmetric]
      by (simp add: fold_add_window[where k = "\<lambda>s. slice s (s + bs) ?T"] Let_def)
  qed
  with mem show ?thesis by blast
qed

section \<open>Candidates\<close>

lemma source_match_nonempty:
  assumes "source_match loc src toks w" "1 \<le> loc_block_size loc"
  shows "\<exists>b bs. snd w = b # bs \<and> sb_block_index b = fst w div loc_block_size loc \<and> b \<in> set (sr_blocks src)"
proof -
  let ?n = "loc_block_size loc"
  have "fst w div ?n \<le> (fst w + ?n - 1) div ?n" using assms(2) by (intro div_le_mono) simp
  then have u: "[fst w div ?n..<(fst w + ?n - 1) div ?n + 1] =
      fst w div ?n # [Suc (fst w div ?n)..<(fst w + ?n - 1) div ?n + 1]"
    by (simp add: upt_conv_Cons)
  show ?thesis
    using assms(1) unfolding source_match_def covers_def u list_all2_Cons1 by blast
qed

text \<open>A candidate stands for a window.\<close>

definition stands_for :: "block_pool \<Rightarrow> locator \<Rightarrow> source_window \<Rightarrow> reuse_candidate \<Rightarrow> bool" where
  "stands_for pool loc w c \<longleftrightarrow>
     pc_source_block_index c * loc_block_size loc + pc_source_block_offset c = fst w \<and>
     pc_source_block_offset c < loc_block_size loc \<and>
     physical_source_block_ids c = map sb_block_id (snd w) \<and>
     pc_source_block_id c = sb_block_id (hd (snd w)) \<and>
     (pc_source_resident c \<longleftrightarrow> list_all (is_resident pool) (snd w))"

lemma window_candidate_ok:
  assumes "source_match loc src toks w" "1 \<le> loc_block_size loc"
  shows "\<exists>c. window_candidate pool loc t w = Inr c \<and> stands_for pool loc w c \<and> pc_target_block_index c = t"
proof -
  obtain b bs where b: "snd w = b # bs" "sb_block_index b = fst w div loc_block_size loc"
    using source_match_nonempty[OF assms] by blast
  then show ?thesis
    using assms(2) by (auto simp: window_candidate_def stands_for_def physical_source_block_ids_def)
qed

text \<open>The best window for a target: resident, then aligned, then nearest, then first.\<close>

definition best_match :: "block_pool \<Rightarrow> locator \<Rightarrow> source_index \<Rightarrow> int list \<Rightarrow> nat \<Rightarrow> source_window \<Rightarrow> bool" where
  "best_match pool loc src toks t w \<longleftrightarrow> source_match loc src toks w \<and>
     (\<forall>w'. source_match loc src toks w' \<longrightarrow> window_key pool loc t w \<le> window_key pool loc t w')"

definition target_tokens :: "locator \<Rightarrow> int list \<Rightarrow> nat \<Rightarrow> int list" where
  "target_tokens loc prompt t = slice (t * loc_block_size loc) (t * loc_block_size loc + loc_block_size loc) prompt"

lemma target_candidate_ok:
  assumes ok: "source_ok (loc_block_size loc) src" "1 \<le> loc_block_size loc"
  shows "\<exists>r. target_candidate pool loc (source_windows_by_content loc src) prompt t = Inr r \<and>
    (case r of
       None \<Rightarrow> \<not> (\<exists>w. source_match loc src (target_tokens loc prompt t) w)
     | Some c \<Rightarrow> pc_target_block_index c = t \<and>
         (\<exists>w. best_match pool loc src (target_tokens loc prompt t) t w \<and> stands_for pool loc w c))"
proof -
  let ?toks = "target_tokens loc prompt t" and ?d = "source_windows_by_content loc src"
  obtain ws where ws: "od_get ?d ?toks = (if ws = [] then None else Some ws)"
    "\<And>w. w \<in> set ws \<longleftrightarrow> source_match loc src ?toks w"
    using windows_get[OF ok(1) refl ok(2)] by blast
  show ?thesis
  proof (cases "ws = []")
    case True
    then have "target_candidate pool loc ?d prompt t = Inr None"
      using ws(1) by (simp add: target_candidate_def Let_def target_tokens_def)
    with ws(2) True show ?thesis by auto
  next
    case False
    then obtain w where w: "py_min_by (window_key pool loc t) ws = Inr w"
      using iffD2[OF py_min_by_total[of "window_key pool loc t" ws]] by blast
    then have best: "best_match pool loc src ?toks t w"
      using py_min_by_ok[OF w] unfolding best_match_def ws(2)[symmetric] by blast
    then obtain c where c: "window_candidate pool loc t w = Inr c" "stands_for pool loc w c"
      "pc_target_block_index c = t"
      using window_candidate_ok[OF _ ok(2)] unfolding best_match_def by blast
    have "select_nearest_source_window pool loc ws t = Inr w"
      using False w by (simp add: select_nearest_source_window_def)
    then have "target_candidate pool loc ?d prompt t = Inr (Some c)"
      using ws(1) False c(1) by (cases ws) (simp_all add: target_candidate_def Let_def target_tokens_def)
    then show ?thesis by (rule exI[of _ "Some c", OF conjI]) (use best c in \<open>simp only: option.case; blast\<close>)
  qed
qed

text \<open>All candidates of a source.\<close>

definition exact_candidates ::
  "block_pool \<Rightarrow> locator \<Rightarrow> source_index \<Rightarrow> int list \<Rightarrow> nat \<Rightarrow> reuse_candidate list \<Rightarrow> bool" where
  "exact_candidates pool loc src prompt native cands \<longleftrightarrow>
     map pc_target_block_index cands =
       filter (\<lambda>t. \<exists>w. source_match loc src (target_tokens loc prompt t) w)
         [(native + loc_block_size loc - 1) div loc_block_size loc..<length prompt div loc_block_size loc] \<and>
     (\<forall>c \<in> set cands. \<exists>w.
        best_match pool loc src (target_tokens loc prompt (pc_target_block_index c)) (pc_target_block_index c) w \<and>
        stands_for pool loc w c)"

lemma located_candidates_ok:
  assumes ok: "source_ok (loc_block_size loc) src" "1 \<le> loc_block_size loc"
  shows "\<exists>cands. located_candidates pool loc src prompt native = Inr cands \<and>
    exact_candidates pool loc src prompt native cands"
proof -
  let ?f = "target_candidate pool loc (source_windows_by_content loc src) prompt"
  obtain g where g: "\<And>t. ?f t = Inr (g t)" and
    none: "\<And>t. g t = None \<longleftrightarrow> \<not> (\<exists>w. source_match loc src (target_tokens loc prompt t) w)" and
    some: "\<And>t c. g t = Some c \<Longrightarrow> pc_target_block_index c = t \<and>
      (\<exists>w. best_match pool loc src (target_tokens loc prompt t) t w \<and> stands_for pool loc w c)"
  proof -
    let ?g = "\<lambda>t. projr (?f t)"
    show thesis
    proof (rule that[of ?g])
      fix t
      obtain r where r: "?f t = Inr r" and c: "case r of None \<Rightarrow> \<not> (\<exists>w. source_match loc src (target_tokens loc prompt t) w)
          | Some c \<Rightarrow> pc_target_block_index c = t \<and>
            (\<exists>w. best_match pool loc src (target_tokens loc prompt t) t w \<and> stands_for pool loc w c)"
        using target_candidate_ok[OF ok] by blast
      show "?f t = Inr (?g t)" using r by simp
      show "?g t = None \<longleftrightarrow> \<not> (\<exists>w. source_match loc src (target_tokens loc prompt t) w)"
        using r c by (cases r) (auto simp: best_match_def)
      show "pc_target_block_index c = t \<and>
          (\<exists>w. best_match pool loc src (target_tokens loc prompt t) t w \<and> stands_for pool loc w c)"
        if "?g t = Some c" for c using r c that by simp
    qed
  qed
  let ?ts = "[(native + loc_block_size loc - 1) div loc_block_size loc..<length prompt div loc_block_size loc]"
  have run: "located_candidates pool loc src prompt native = Inr (List.map_filter g ?ts)"
    using map_res_total[of ?ts ?f g] g by (simp add: located_candidates_def Let_def map_filter_id_map)
  have "map pc_target_block_index (List.map_filter g ts) =
      filter (\<lambda>t. \<exists>w. source_match loc src (target_tokens loc prompt t) w) ts" for ts
  proof (induction ts)
    case (Cons t ts)
    then show ?case using none[of t] some[of t] by (cases "g t") (auto simp: map_filter_simps)
  qed (simp add: map_filter_simps)
  moreover have "\<exists>w. best_match pool loc src (target_tokens loc prompt (pc_target_block_index c)) (pc_target_block_index c) w \<and>
      stands_for pool loc w c" if "c \<in> set (List.map_filter g ?ts)" for c
  proof -
    have "\<exists>t. g t = Some c" using that by (auto simp: map_filter_def)
    then obtain t where "g t = Some c" by blast
    with some[OF this] show ?thesis by auto
  qed
  ultimately show ?thesis using run by (auto simp: exact_candidates_def)
qed

section \<open>Annotation\<close>

text \<open>Annotation and features only add to a candidate.\<close>

definition same_core :: "reuse_candidate \<Rightarrow> reuse_candidate \<Rightarrow> bool" where
  "same_core c c' \<longleftrightarrow>
     pc_target_block_index c' = pc_target_block_index c \<and> pc_source_block_index c' = pc_source_block_index c \<and>
     pc_source_block_id c' = pc_source_block_id c \<and> pc_source_block_ids c' = pc_source_block_ids c \<and>
     pc_source_block_offset c' = pc_source_block_offset c \<and> pc_source_resident c' = pc_source_resident c"

lemma same_core_stands_for: "same_core c c' \<Longrightarrow> stands_for pool loc w c' = stands_for pool loc w c"
  by (simp add: same_core_def stands_for_def physical_source_block_ids_def)

lemma exact_candidates_core:
  assumes "exact_candidates pool loc src prompt native cands" "list_all2 same_core cands cands'"
  shows "exact_candidates pool loc src prompt native cands'"
proof -
  have "map pc_target_block_index cands' = map pc_target_block_index cands"
    using assms(2) by (induction rule: list_all2_induct) (simp_all add: same_core_def)
  moreover have "\<exists>c \<in> set cands. same_core c c'" if "c' \<in> set cands'" for c'
    using assms(2) that by (metis in_set_conv_nth list_all2_conv_all_nth)
  moreover have "\<exists>w. best_match pool loc src (target_tokens loc prompt (pc_target_block_index c')) (pc_target_block_index c') w \<and>
      stands_for pool loc w c'" if c': "c' \<in> set cands'" for c'
  proof -
    obtain c where c: "c \<in> set cands" "same_core c c'"
      using \<open>\<And>c'. c' \<in> set cands' \<Longrightarrow> \<exists>c \<in> set cands. same_core c c'\<close>[OF c'] by blast
    then have "pc_target_block_index c' = pc_target_block_index c" by (simp add: same_core_def)
    with c assms(1) same_core_stands_for[OF c(2)] show ?thesis unfolding exact_candidates_def by simp
  qed
  ultimately show ?thesis using assms(1) by (simp add: exact_candidates_def)
qed

lemma annotate_core: "list_all2 same_core cands (annotate_change_geometry cands lo hi)"
  by (auto simp: annotate_change_geometry_def list_all2_conv_all_nth same_core_def annotate_one_def)

lemma annotate_Nil_iff [simp]: "annotate_change_geometry cands lo hi = [] \<longleftrightarrow> cands = []"
  by (simp add: annotate_change_geometry_def)

lemma annotate_steps:
  "finite changed \<Longrightarrow> finite (snd (fold annotate_step cands (q, changed))) \<and>
     changed \<subseteq> snd (fold annotate_step cands (q, changed))"
proof (induction cands arbitrary: q changed)
  case (Cons c cands)
  obtain q' changed' where st: "annotate_step c (q, changed) = (q', changed')" by force
  then have "finite changed'" "changed \<subseteq> changed'"
    using Cons.prems by (auto simp: annotate_step_def Let_def split: if_splits)
  then show ?case using Cons.IH[of changed' q'] by (auto simp: st)
qed simp

text \<open>Change geometry.  Every unmatched target block counts as changed; a candidate's distance
  is attained by some changed block and no changed block is nearer; its displacement is the
  distance between target and source.\<close>

theorem change_geometry:
  assumes "c \<in> set (annotate_change_geometry cands lo hi)"
  shows "{lo..<hi} - pc_target_block_index ` set cands \<subseteq> changed_targets cands lo hi \<and>
    pc_block_displacement c = int (pc_target_block_index c) - int (pc_source_block_index c) \<and>
    (case pc_nearest_changed_block_distance c of
       None \<Rightarrow> changed_targets cands lo hi = {}
     | Some d \<Rightarrow> d \<in> (\<lambda>t. \<bar>int (pc_target_block_index c) - int t\<bar>) ` changed_targets cands lo hi \<and>
         (\<forall>t \<in> changed_targets cands lo hi. d \<le> \<bar>int (pc_target_block_index c) - int t\<bar>))"
proof -
  let ?S = "changed_targets cands lo hi"
  have S: "finite ?S" "{lo..<hi} - pc_target_block_index ` set cands \<subseteq> ?S"
    using annotate_steps[of "set [lo..<hi] - pc_target_block_index ` set cands" cands None]
    by (auto simp: changed_targets_def)
  obtain c0 where c: "c = annotate_one ?S c0"
    using assms by (auto simp: annotate_change_geometry_def split: if_splits)
  let ?D = "(\<lambda>t. \<bar>int (pc_target_block_index c0) - int t\<bar>) ` ?S"
  have min: "Min ?D \<in> ?D \<and> (\<forall>t \<in> ?S. Min ?D \<le> \<bar>int (pc_target_block_index c0) - int t\<bar>)" if "?S \<noteq> {}"
  proof
    show "Min ?D \<in> ?D" using S(1) that by (intro Min_in) auto
    show "\<forall>t \<in> ?S. Min ?D \<le> \<bar>int (pc_target_block_index c0) - int t\<bar>" using S(1) by (auto intro: Min_le)
  qed
  have f: "pc_target_block_index c = pc_target_block_index c0"
    "pc_block_displacement c = int (pc_target_block_index c0) - int (pc_source_block_index c0)"
    "pc_source_block_index c = pc_source_block_index c0"
    "pc_nearest_changed_block_distance c = (if ?S = {} then None else Some (Min ?D))"
    by (simp_all add: c annotate_one_def)
  show ?thesis
  proof (cases "?S = {}")
    case True
    with f S(2) show ?thesis by simp
  next
    case False
    then show ?thesis unfolding f using min[OF False] S(2) by simp
  qed
qed

lemma change_geometry_witness:
  "changed_targets [] 1 2 = {1} \<and>
   (\<exists>c. annotate_change_geometry [c] 0 1 = [annotate_one {} c] \<and>
      pc_nearest_changed_block_distance (annotate_one {} c) = None)"
proof -
  define c :: reuse_candidate where "c = \<lparr>pc_source_block_index = 0, pc_target_block_index = 0,
     pc_source_block_id = 1, pc_source_resident = True, pc_requires_repair = True, pc_block_displacement = 0,
     pc_nearest_changed_block_distance = None, pc_source_contextual_hash = None,
     pc_source_block_offset = 0, pc_source_block_ids = [1], pc_selector_features = []\<rparr>"
  have s: "changed_targets [c] 0 1 = {}"
    by (simp add: changed_targets_def annotate_step_def c_def)
  then have a: "annotate_change_geometry [c] 0 1 = [annotate_one {} c]"
    by (simp add: annotate_change_geometry_def)
  have "case pc_nearest_changed_block_distance (annotate_one {} c) of
       None \<Rightarrow> changed_targets [c] 0 1 = {} | Some d \<Rightarrow> d \<in> (\<lambda>t. \<bar>int (pc_target_block_index (annotate_one {} c)) - int t\<bar>) ` changed_targets [c] 0 1 \<and>
         (\<forall>t \<in> changed_targets [c] 0 1. d \<le> \<bar>int (pc_target_block_index (annotate_one {} c)) - int t\<bar>)"
    by (rule conjunct2[OF conjunct2[OF change_geometry[of "annotate_one {} c" "[c]" 0 1]]])
      (simp only: a list.set insert_iff simp_thms)
  then have "pc_nearest_changed_block_distance (annotate_one {} c) = None" unfolding s by (simp split: option.splits)
  with a show ?thesis by (auto simp: changed_targets_def)
qed

section \<open>Selector features of a plan\<close>

lemma feature_rows_fold:
  assumes "od_get (fold (\<lambda>(cb, b, x). od_set (cb_current_block_index cb)
      (dict_merge (block_features_dict b) (context_features_dict x))) zs d0) k = Some row"
  shows "od_get d0 k = Some row \<or> (\<exists>cb b x. (cb, b, x) \<in> set zs \<and> cb_current_block_index cb = k \<and>
      row = dict_merge (block_features_dict b) (context_features_dict x))"
  using assms
proof (induction zs arbitrary: d0)
  case (Cons z zs)
  obtain cb b x where z: "z = (cb, b, x)" by (metis prod_cases3)
  from Cons.IH[of "od_set (cb_current_block_index cb) (dict_merge (block_features_dict b) (context_features_dict x)) d0"]
  show ?case using Cons.prems by (auto simp: z split: if_splits)
qed simp

lemma feature_rows_dom:
  "od_dom (fold (\<lambda>(cb, b, x). od_set (cb_current_block_index cb)
      (dict_merge (block_features_dict b) (context_features_dict x))) zs d0) =
   od_dom d0 \<union> (\<lambda>z. cb_current_block_index (fst z)) ` set zs"
proof (induction zs arbitrary: d0)
  case (Cons z zs)
  obtain cb b x where z: "z = (cb, b, x)" by (metis prod_cases3)
  show ?case unfolding z fold_simps o_apply prod.case Cons.IH od_dom_set by auto
qed simp

lemma lexical_vector:
  assumes "lexical_ok b"
  shows "\<exists>vs. feature_vector context_feature_schema (dict_merge (block_features_dict b) (context_features_dict x)) = Inr vs \<and>
    map fst vs = fs_feature_names context_feature_schema"
proof -
  have "None \<notin> {bf_changed_candidate_token_overlap_ratio b, bf_introduced_candidate_token_overlap_ratio b,
      bf_removed_candidate_token_overlap_ratio b, bf_changed_candidate_token_jaccard b}"
    using assms by (auto simp: lexical_ok_def)
  then show ?thesis
    using context_schema_vector[of b x]
    by (cases "feature_vector context_feature_schema (dict_merge (block_features_dict b) (context_features_dict x))")
      simp_all
qed

definition featured :: "reuse_candidate \<Rightarrow> bool" where
  "featured c \<longleftrightarrow> map fst (pc_selector_features c) = fs_feature_names context_feature_schema"

text \<open>Attaching features to exact candidates: an answer, or the one error of the analysis.\<close>

lemma attach_cases:
  assumes bs: "1 \<le> loc_block_size loc" and ex: "exact_candidates pool loc src prompt native cands" "cands \<noteq> []"
  shows "if native \<le> common_prefix_length (sr_prompt_token_ids src) prompt
    then \<exists>cands'. attach_selector_features loc (sr_prompt_token_ids src) prompt native cands = Some (Inr cands') \<and>
      list_all2 same_core cands cands' \<and> list_all featured cands'
    else attach_selector_features loc (sr_prompt_token_ids src) prompt native cands =
      Some (Inl (ValueError ''native_cached_tokens exceeds the exact common prefix''))"
proof -
  let ?n = "loc_block_size loc" and ?p = "sr_prompt_token_ids src"
  have range: "native \<le> t * ?n \<and> t * ?n + ?n \<le> length prompt" if "t \<in> pc_target_block_index ` set cands" for t
  proof -
    have "t \<in> set (map pc_target_block_index cands)" using that by simp
    then have t: "(native + ?n - 1) div ?n \<le> t" "t < length prompt div ?n"
      using ex(1) unfolding exact_candidates_def by auto
    have "native \<le> t * ?n" using iffD1[OF ceil_div_le t(1)] bs by simp
    with div_block_le[OF t(2)] show ?thesis by simp
  qed
  obtain c0 where "c0 \<in> set cands" using ex(2) by (cases cands) auto
  then have nl: "native \<le> length prompt" using range[of "pc_target_block_index c0"] by fastforce
  show ?thesis
  proof (cases "native \<le> common_prefix_length ?p prompt")
    case True
    then obtain r where r: "analyze_reuse_opportunity ?p prompt (int native) (int ?n) = Inr r"
      using analyze_ok[of ?p prompt "int native" "int ?n"] bs by auto
    obtain xs where xs: "extract_candidate_context_features ?p prompt r = Some (Inr xs)"
      "list_all2 (context_row_ok ?p prompt (nat (int ?n))) (ro_candidate_blocks r) xs"
      using context_features_total[OF r] by blast
    obtain rows where rows: "extract_candidate_block_features ?p prompt r = Inr rows"
      "list_all2 (\<lambda>cand row. block_row_ok ?p prompt (nat (int ?n)) cand row \<and> lexical_ok row) (ro_candidate_blocks r) rows"
      using block_features_total[OF r] by blast
    let ?zs = "zip (ro_candidate_blocks r) (zip rows xs)"
    let ?rows = "feature_rows (ro_candidate_blocks r) rows xs"
    have len: "length rows = length (ro_candidate_blocks r)" "length xs = length (ro_candidate_blocks r)"
      using xs(2) rows(2) by (auto dest: list_all2_lengthD)
    have lex: "lexical_ok b" if "(cb, b, x) \<in> set ?zs" for cb b x
    proof -
      have "b \<in> set rows" using that by (auto dest: set_zip_rightD set_zip_leftD)
      then show ?thesis using rows(2) by (auto simp: list_all2_conv_all_nth in_set_conv_nth)
    qed
    have "od_dom ?rows = cb_current_block_index ` set (ro_candidate_blocks r)"
      unfolding feature_rows_def feature_rows_dom using len
      by (simp add: image_image[symmetric] del: image_image) (metis (no_types, lifting) image_image image_set length_zip map_fst_zip min.idem)
    then have dom: "t \<in> od_dom ?rows" if tt: "t \<in> pc_target_block_index ` set cands" for t
    proof -
      obtain c where c: "c \<in> set cands" "t = pc_target_block_index c" using tt by blast
      then obtain w where "source_match loc src (target_tokens loc prompt t) w"
        using ex(1) unfolding exact_candidates_def best_match_def by blast
      moreover have "int native \<le> int (t * ?n)" using range[OF tt] by (simp only: of_nat_le_iff)
      ultimately show ?thesis
        using candidate_complete[OF r, of "?n" t "fst w"] range[OF tt] \<open>od_dom ?rows = _\<close>
        by (simp add: source_match_def target_tokens_def)
    qed
    have one: "\<exists>c'. with_features ?rows c = Inr c' \<and> same_core c c' \<and> featured c'" if "c \<in> set cands" for c
    proof -
      have "od_get ?rows (pc_target_block_index c) \<noteq> None"
        using dom[OF imageI[OF that]] unfolding od_get_None_iff by simp
      then obtain row where row: "od_get ?rows (pc_target_block_index c) = Some row" by blast
      then obtain cb b x where "(cb, b, x) \<in> set ?zs" "row = dict_merge (block_features_dict b) (context_features_dict x)"
        using feature_rows_fold[of ?zs "[]" "pc_target_block_index c" row] by (auto simp: feature_rows_def)
      then obtain vs where "feature_vector context_feature_schema row = Inr vs"
        "map fst vs = fs_feature_names context_feature_schema"
        using lexical_vector[OF lex] by blast
      with row show ?thesis by (simp add: with_features_def same_core_def featured_def)
    qed
    then obtain g where g: "\<And>c. c \<in> set cands \<Longrightarrow> with_features ?rows c = Inr (g c) \<and> same_core c (g c) \<and> featured (g c)"
      by metis
    have "map_res (with_features ?rows) cands = Inr (map g cands)" by (rule map_res_total) (use g in blast)
    then have "attach_selector_features loc ?p prompt native cands = Some (Inr (map g cands))"
      by (simp add: attach_selector_features_def r xs(1) rows(1))
    moreover have "list_all2 same_core cands (map g cands)" "list_all featured (map g cands)"
      using g by (auto simp: list_all2_conv_all_nth list_all_iff)
    ultimately show ?thesis using True by simp
  next
    case False
    then have "analyze_reuse_opportunity ?p prompt (int native) (int ?n) =
        Inl (ValueError ''native_cached_tokens exceeds the exact common prefix'')"
      using bs nl by (simp add: analyze_reuse_opportunity_def check_res_def)
    with False show ?thesis by (simp add: attach_selector_features_def)
  qed
qed

end
