(* ===== verification/ReusePlans.thy ===== *)
theory ReusePlans
  imports LocatorProps
begin

text \<open>
  What \<open>locate\<close> returns (\<^verbatim>\<open>vllm/v1/core/partial_reuse.py\<close>): it always returns,
  its plans hold exactly the reusable blocks of a compatible source, its only error, the
  automatic choice of a source, and the pinning of the source blocks in the pool.
\<close>

section \<open>Plans\<close>

definition rejection_reasons :: "string set" where
  "rejection_reasons = {''source_not_indexed'', ''cache_salt_mismatch'', ''lora_mismatch'', ''token_ids_unavailable''}"

definition compatible :: "request \<Rightarrow> source_index \<Rightarrow> bool" where
  "compatible req src \<longleftrightarrow> sr_cache_salt src = cache_salt req \<and> sr_lora_adapter_id src = request_adapter_id req"

definition plan_ok :: "block_pool \<Rightarrow> locator \<Rightarrow> request \<Rightarrow> nat \<Rightarrow> reuse_plan \<Rightarrow> bool" where
  "plan_ok pool loc req native plan \<longleftrightarrow>
     pp_block_size plan = loc_block_size loc \<and> pp_native_cached_tokens plan = native \<and>
     pp_target_request_id plan = effective_request_id req \<and>
     pp_counterfactual_reuse_block_index plan = cs_counterfactual_index req \<and>
     ((pp_reason plan \<in> rejection_reasons \<and> pp_candidates plan = []) \<or>
      (\<exists>src prompt. od_get (loc_sources loc) (pp_source_request_id plan) = Some src \<and> compatible req src \<and>
         prompt_token_ids req = Some prompt \<and>
         exact_candidates pool loc src prompt native (pp_candidates plan) \<and>
         (loc_collect_selector_features loc \<longrightarrow> list_all featured (pp_candidates plan))))"

lemma same_effective [simp]:
  "effective_request_id (req\<lparr>cs_source_request_id := a, cs_source_selection := b\<rparr>) = effective_request_id req"
  "request_adapter_id (req\<lparr>cs_source_request_id := a, cs_source_selection := b\<rparr>) = request_adapter_id req"
  by (simp_all add: effective_request_id_def request_adapter_id_def split: option.split list.split)

lemma same_compatible [simp]:
  "compatible (req\<lparr>cs_source_request_id := a, cs_source_selection := b\<rparr>) = compatible req"
  by (simp add: fun_eq_iff compatible_def)

lemma same_plan_ok [simp]:
  "plan_ok pool loc (req\<lparr>cs_source_request_id := a, cs_source_selection := b\<rparr>) = plan_ok pool loc req"
  by (simp add: fun_eq_iff plan_ok_def)

text \<open>The one error: the native hit is longer than what the source shares with the prompt.\<close>

definition prefix_error :: py_exc where
  "prefix_error = ValueError ''native_cached_tokens exceeds the exact common prefix''"

definition prefix_mismatch :: "locator \<Rightarrow> request \<Rightarrow> nat \<Rightarrow> bool" where
  "prefix_mismatch loc req native \<longleftrightarrow> loc_collect_selector_features loc \<and>
     (\<exists>sid src prompt. od_get (loc_sources loc) sid = Some src \<and> compatible req src \<and>
        prompt_token_ids req = Some prompt \<and> common_prefix_length (sr_prompt_token_ids src) prompt < native)"

lemma same_mismatch [simp]:
  "prefix_mismatch loc (req\<lparr>cs_source_request_id := a, cs_source_selection := b\<rparr>) = prefix_mismatch loc req"
  by (simp add: prefix_mismatch_def fun_eq_iff)

definition plan_with :: "locator \<Rightarrow> request \<Rightarrow> string \<Rightarrow> nat \<Rightarrow> string \<Rightarrow> string \<Rightarrow> reuse_candidate list \<Rightarrow> reuse_plan" where
  "plan_with loc req sid native reason selection cands =
     \<lparr>pp_transition_id = cs_transition_id req, pp_source_request_id = sid,
      pp_target_request_id = effective_request_id req, pp_block_size = loc_block_size loc,
      pp_native_cached_tokens = native, pp_reason = reason, pp_source_selection = selection,
      pp_counterfactual_reuse_block_index = cs_counterfactual_index req, pp_candidates = cands\<rparr>"

lemma finish_make_plan:
  "cs_source_request_id req = Some sid \<Longrightarrow> finish_plan req (make_plan loc req native reason selection cands) =
     Some (Inr (Some (plan_with loc req sid native reason selection cands), req))"
  by (simp add: finish_plan_def make_plan_def plan_with_def)

definition pass_ok :: "block_pool \<Rightarrow> locator \<Rightarrow> request \<Rightarrow> string \<Rightarrow> nat \<Rightarrow> located \<Rightarrow> bool" where
  "pass_ok pool loc req sid native r \<longleftrightarrow>
     (r = Some (Inl prefix_error) \<and> prefix_mismatch loc req native) \<or>
     (\<exists>plan. r = Some (Inr (Some plan, req)) \<and> pp_source_request_id plan = sid \<and> plan_ok pool loc req native plan)"

lemma pass_rejected:
  assumes "cs_source_request_id req = Some sid" "reason \<in> rejection_reasons"
  shows "pass_ok pool loc req sid native (finish_plan req (make_plan loc req native reason selection []))"
  using assms(2) by (simp add: pass_ok_def finish_make_plan[OF assms(1)] plan_ok_def plan_with_def)

lemma pass_located:
  assumes sid: "cs_source_request_id req = Some sid" and bs: "1 \<le> loc_block_size loc"
    and src: "od_get (loc_sources loc) sid = Some src" "compatible req src" "prompt_token_ids req = Some prompt"
    and ex: "exact_candidates pool loc src prompt native cands"
  shows "pass_ok pool loc req sid native
    (bind_run (if loc_collect_selector_features loc \<and> cands \<noteq> []
       then attach_selector_features loc (sr_prompt_token_ids src) prompt native cands else Some (Inr cands))
     (\<lambda>final. finish_plan req (make_plan loc req native reason selection final)))"
proof -
  have ok: "pass_ok pool loc req sid native (finish_plan req (make_plan loc req native reason selection final))"
    if "exact_candidates pool loc src prompt native final"
      "loc_collect_selector_features loc \<longrightarrow> list_all featured final" for final
    using that src by (auto simp: pass_ok_def finish_make_plan[OF sid] plan_ok_def plan_with_def)
  show ?thesis
  proof (cases "loc_collect_selector_features loc \<and> cands \<noteq> []")
    case False
    then show ?thesis using ok[OF ex] by auto
  next
    case True
    note A = attach_cases[OF bs ex conjunct2[OF True]]
    show ?thesis
    proof (cases "native \<le> common_prefix_length (sr_prompt_token_ids src) prompt")
      case le: True
      then obtain cands' where c: "attach_selector_features loc (sr_prompt_token_ids src) prompt native cands = Some (Inr cands')"
        "list_all2 same_core cands cands'" "list_all featured cands'" using A by auto
      with True ok[OF exact_candidates_core[OF ex c(2)]] show ?thesis by simp
    next
      case gt: False
      then have "common_prefix_length (sr_prompt_token_ids src) prompt < native" by simp
      then have "prefix_mismatch loc req native" using True src unfolding prefix_mismatch_def by blast
      moreover have "attach_selector_features loc (sr_prompt_token_ids src) prompt native cands = Some (Inl prefix_error)"
        using A gt by (simp add: prefix_error_def)
      ultimately show ?thesis using True by (simp add: pass_ok_def)
    qed
  qed
qed

lemma locate_in_pass:
  assumes inv: "locator_inv loc" and sid: "cs_source_request_id req = Some sid"
    and run: "locate_in h pool loc req sid selection native = Finished r"
  shows "pass_ok pool loc req sid native r"
proof (cases "od_get (loc_sources loc) sid")
  case None
  then show ?thesis using run pass_rejected[OF sid] by (auto simp: locate_in_def rejection_reasons_def)
next
  case (Some src)
  have ok: "source_ok (loc_block_size loc) src" "1 \<le> loc_block_size loc"
    using inv Some by (auto simp: locator_inv_def)
  show ?thesis
  proof (cases "compatible req src \<and> prompt_token_ids req \<noteq> None")
    case False
    then consider "sr_cache_salt src \<noteq> cache_salt req"
      | "sr_cache_salt src = cache_salt req" "sr_lora_adapter_id src \<noteq> request_adapter_id req"
      | "compatible req src" "prompt_token_ids req = None"
      unfolding compatible_def by blast
    then show ?thesis
    proof cases
      case 1
      then show ?thesis using run Some pass_rejected[OF sid] by (auto simp: locate_in_def Let_def rejection_reasons_def)
    next
      case 2
      then show ?thesis using run Some pass_rejected[OF sid] by (auto simp: locate_in_def Let_def rejection_reasons_def)
    next
      case 3
      then show ?thesis using run Some pass_rejected[OF sid]
        by (auto simp: locate_in_def Let_def rejection_reasons_def compatible_def)
    qed
  next
    case True
    then obtain prompt where prompt: "prompt_token_ids req = Some prompt" and comp: "compatible req src" by blast
    obtain cands where c: "located_candidates pool loc src prompt native = Inr cands"
      "exact_candidates pool loc src prompt native cands"
      using located_candidates_ok[OF ok] by blast
    define annotated where "annotated = annotate_change_geometry cands
      ((native + loc_block_size loc - 1) div loc_block_size loc) (length prompt div loc_block_size loc)"
    have ex: "exact_candidates pool loc src prompt native annotated"
      unfolding annotated_def by (rule exact_candidates_core[OF c(2) annotate_core])
    have "r = bind_run (if loc_collect_selector_features loc \<and> annotated \<noteq> []
       then attach_selector_features loc (sr_prompt_token_ids src) prompt native annotated else Some (Inr annotated))
     (\<lambda>final. finish_plan req (make_plan loc req native (plan_reason cands) selection final))"
      using run comp
      unfolding locate_in_def Some Let_def prompt option.case c(1) sum.case annotated_def[symmetric] compatible_def
      by (simp only: if_False simp_thms attempt.simps split: if_splits option.splits)
    then show ?thesis using pass_located[OF sid ok(2) Some comp prompt ex] by simp
  qed
qed

definition located_ok :: "block_pool \<Rightarrow> locator \<Rightarrow> request \<Rightarrow> nat \<Rightarrow> located \<Rightarrow> bool" where
  "located_ok pool loc req native r \<longleftrightarrow>
     r = Some (Inr (None, req)) \<or>
     (r = Some (Inl prefix_error) \<and> prefix_mismatch loc req native) \<or>
     (\<exists>plan req'. r = Some (Inr (Some plan, req')) \<and> plan_ok pool loc req native plan \<and>
        cs_source_request_id req' = Some (pp_source_request_id plan))"

lemma resolve_source_cases:
  assumes "resolve_source h pool loc req native = Some (req1, sid, sel)"
  shows "cs_source_request_id req1 = Some sid \<and>
    (req1 = req \<or> (\<exists>a b. req1 = req\<lparr>cs_source_request_id := a, cs_source_selection := b\<rparr>))"
  using assms by (auto simp: resolve_source_def split: option.splits)

lemma pass_located_ok:
  assumes "pass_ok pool loc req1 sid native r" "cs_source_request_id req1 = Some sid"
    and "req1 = req \<or> (\<exists>a b. req1 = req\<lparr>cs_source_request_id := a, cs_source_selection := b\<rparr>)"
  shows "located_ok pool loc req native r"
proof -
  have "plan_ok pool loc req1 = plan_ok pool loc req" "prefix_mismatch loc req1 = prefix_mismatch loc req"
    using assms(3) by auto
  then show ?thesis using assms(1,2) by (auto simp: pass_ok_def located_ok_def)
qed

lemma locate_step:
  assumes inv: "locator_inv loc"
  shows "locate h pool loc req native = Some (Inr (None, req)) \<or>
    located_ok pool loc req native (locate h pool loc req native) \<or>
    (\<exists>fid. locate h pool loc req native =
       locate h pool loc (req\<lparr>cs_source_request_id := Some fid, cs_source_selection := ''fingerprint''\<rparr>) native)"
proof (cases "resolve_source h pool loc req native")
  case None
  then show ?thesis by (simp add: locate.simps[of h pool loc req])
next
  case (Some x)
  obtain req1 sid sel where x: "x = (req1, sid, sel)" by (metis prod_cases3)
  note R = resolve_source_cases[OF Some[unfolded x]]
  show ?thesis
  proof (cases "locate_in h pool loc req1 sid sel native")
    case (Finished r)
    then have "locate h pool loc req native = r" using Some x by (simp add: locate.simps[of h pool loc req])
    with pass_located_ok[OF locate_in_pass[OF inv _ Finished]] R show ?thesis by blast
  next
    case (Retry req2)
    then obtain fid where "req2 = req1\<lparr>cs_source_request_id := Some fid, cs_source_selection := ''fingerprint''\<rparr>"
      using locate_in_retry by blast
    moreover have "locate h pool loc req native = locate h pool loc req2 native"
      using Retry Some x by (simp add: locate.simps[of h pool loc req])
    ultimately show ?thesis using R by auto
  qed
qed

text \<open>The second pass never asks for a third.\<close>

lemma locate_fingerprint_pass:
  assumes inv: "locator_inv loc" and sid: "cs_source_request_id req = Some sid" and req: "cs_source_selection req = ''fingerprint''"
  shows "pass_ok pool loc req sid native (locate h pool loc req native)"
proof -
  have res: "resolve_source h pool loc req native = Some (req, sid, ''fingerprint'')"
    using sid req by (simp add: resolve_source_def)
  obtain r where r: "locate_in h pool loc req sid ''fingerprint'' native = Finished r"
    using locate_in_retry[of h pool loc req sid "''fingerprint''" native] by (cases "locate_in h pool loc req sid ''fingerprint'' native") auto
  have "locate h pool loc req native = r" using res r by (simp add: locate.simps[of h pool loc req])
  with locate_in_pass[OF inv sid r] show ?thesis by simp
qed

lemma locate_located:
  assumes inv: "locator_inv loc"
  shows "located_ok pool loc req native (locate h pool loc req native)"
proof -
  consider "locate h pool loc req native = Some (Inr (None, req))"
    | "located_ok pool loc req native (locate h pool loc req native)"
    | fid where "locate h pool loc req native =
       locate h pool loc (req\<lparr>cs_source_request_id := Some fid, cs_source_selection := ''fingerprint''\<rparr>) native"
    using locate_step[OF inv] by blast
  then show ?thesis
  proof cases
    case 1
    then show ?thesis by (simp add: located_ok_def)
  next
    case 3
    let ?req = "req\<lparr>cs_source_request_id := Some fid, cs_source_selection := ''fingerprint''\<rparr>"
    have "pass_ok pool loc ?req fid native (locate h pool loc ?req native)"
      by (rule locate_fingerprint_pass[OF inv]) simp_all
    then show ?thesis unfolding 3 by (rule pass_located_ok) auto
  qed
qed

text \<open>C6. Planning always answers.  On every reachable index \<open>locate\<close> returns, and it raises in
  one situation only: selector features are collected and the native hit is longer than the
  prefix the prompt shares with a compatible source.\<close>

theorem locate_total:
  assumes "loc_reach h loc"
  shows "\<exists>r. locate h pool loc req native = Some r \<and>
    (case r of Inr _ \<Rightarrow> True | Inl e \<Rightarrow> e = prefix_error \<and> prefix_mismatch loc req native)"
proof -
  have "located_ok pool loc req native (locate h pool loc req native)"
    by (rule locate_located[OF loc_reach_locator_inv[OF assms]])
  then show ?thesis unfolding located_ok_def by (elim disjE exE conjE) simp_all
qed

text \<open>C5. A plan is exact and stays inside its tenant.  A plan with candidates names an indexed source
  with the request's cache salt and adapter.  Its targets are exactly the full blocks beyond the
  native hit whose tokens fill a window of the source held by indexed blocks, each candidate
  stands for the best such window (resident, aligned, nearest, first), and with feature
  collection each candidate carries the whole feature vector.\<close>

theorem locate_plan_exact:
  assumes "loc_reach h loc" "locate h pool loc req native = Some (Inr (Some plan, req'))"
  shows "cs_source_request_id req' = Some (pp_source_request_id plan) \<and>
    (pp_candidates plan = [] \<and> pp_reason plan \<in> rejection_reasons \<or>
     (\<exists>src prompt. od_get (loc_sources loc) (pp_source_request_id plan) = Some src \<and>
        sr_cache_salt src = cache_salt req \<and> sr_lora_adapter_id src = request_adapter_id req \<and>
        prompt_token_ids req = Some prompt \<and>
        exact_candidates pool loc src prompt native (pp_candidates plan) \<and>
        (loc_collect_selector_features loc \<longrightarrow> list_all featured (pp_candidates plan))))"
  using locate_located[OF loc_reach_locator_inv[OF assms(1)], of pool req native h] assms(2)
  by (auto simp: located_ok_def plan_ok_def compatible_def)

text \<open>C8. The error does happen.  If features are collected, a request that names an indexed source
  and has a candidate there makes \<open>locate\<close> raise whenever its native prefix hit (which may come
  from any other request) is longer than its common prefix with the named source.\<close>

theorem locate_raises_on_foreign_hit:
  assumes "loc_reach h loc" "loc_collect_selector_features loc"
    and "cs_source_request_id req = Some sid" "cs_source_selection req = ''explicit''"
    and "od_get (loc_sources loc) sid = Some src" "compatible req src" "prompt_token_ids req = Some prompt"
    and "native \<le> t * loc_block_size loc" "t < length prompt div loc_block_size loc"
      "source_match loc src (target_tokens loc prompt t) w"
    and "common_prefix_length (sr_prompt_token_ids src) prompt < native"
  shows "locate h pool loc req native = Some (Inl prefix_error)"
proof -
  let ?n = "loc_block_size loc"
  have inv: "locator_inv loc" using loc_reach_locator_inv[OF assms(1)] .
  then have ok: "source_ok ?n src" "1 \<le> ?n" using assms(5) by (auto simp: locator_inv_def)
  obtain cands where c: "located_candidates pool loc src prompt native = Inr cands"
    "exact_candidates pool loc src prompt native cands"
    using located_candidates_ok[OF ok] by blast
  have "(native + ?n - 1) div ?n \<le> t"
    using iffD2[OF ceil_div_le assms(8)] ok(2) by simp
  then have "t \<in> set (map pc_target_block_index cands)"
    unfolding conjunct1[OF c(2)[unfolded exact_candidates_def]] set_filter mem_Collect_eq set_upt
      atLeastLessThan_iff
    using assms(9,10) by blast
  then have ne: "cands \<noteq> []" by auto
  define annotated where "annotated = annotate_change_geometry cands ((native + ?n - 1) div ?n) (length prompt div ?n)"
  have an: "exact_candidates pool loc src prompt native annotated" "annotated \<noteq> []"
    using exact_candidates_core[OF c(2) annotate_core] ne by (simp_all add: annotated_def)
  have "attach_selector_features loc (sr_prompt_token_ids src) prompt native annotated = Some (Inl prefix_error)"
    using attach_cases[OF ok(2) an] assms(11) by (simp add: prefix_error_def)
  then have "locate_in h pool loc req sid ''explicit'' native = Finished (Some (Inl prefix_error))"
    using assms(2,6) an(2)
    unfolding locate_in_def assms(5,7) Let_def option.case c(1) sum.case annotated_def[symmetric] compatible_def
    by simp
  then show ?thesis
    using assms(3,4) by (simp add: locate.simps[of h pool loc req] resolve_source_def)
qed

section \<open>A small index\<close>

text \<open>A pool whose block 0 holds a cached block, and one indexed prompt of two tokens at block
  size 1.\<close>

definition demo_request :: "string \<Rightarrow> int list \<Rightarrow> string option \<Rightarrow> request" where
  "demo_request rid toks source =
     \<lparr>request_id = rid, priority = 0, arrival_time = 0, py_id = 0, status = WAITING, max_tokens = 1,
      lora = None, kv_transfer_params = ANone, ec_transfer_params = ANone, kv_cache_report_mode = None,
      cs_request_id = None, cs_source_request_id = source, cs_session_id = None, cs_transition_id = None,
      cs_auto_source = False, cs_source_selection = ''explicit'', cs_counterfactual_index = None,
      prompt_token_ids = Some toks, prompt_embeds = None, embeds_block_hashes = [],
      num_prompt_tokens = length toks, output_token_ids = [], all_token_ids = toks, cache_salt = None,
      mm_features = [], block_hashes = [], skip_reading_prefix_cache = False, resumable = False\<rparr>"

definition demo_pool :: block_pool where
  "demo_pool =
     \<lparr>heap = (\<lambda>b. (new_block 0)\<lparr>block_hash := Some [1]\<rparr>), num_free_blocks = 0, num_gpu_blocks = 1,
      enable_caching = True, hash_block_size = 1,
      cached_block_hash_to_block = [[1] \<mapsto> One (Blk 0)], cached_block_hashes_by_block = [],
      null_block = Blk 0, enable_kv_cache_events = False, use_int_block_hashes = False,
      kv_event_queue = [], has_metrics = False, metrics_log = []\<rparr>"

definition demo_source :: source_index where
  "demo_source = \<lparr>sr_request_id = ''a'', sr_cache_salt = None, sr_lora_adapter_id = None,
     sr_blocks = [\<lparr>sb_block_index = 0, sb_token_ids = [7], sb_block_id = 0, sb_block_hash = [1],
       sb_contextual_hash = None\<rparr>],
     sr_prompt_token_ids = [7, 8], sr_session_id = None, sr_fingerprint = {}\<rparr>"

definition demo_locator :: "bool \<Rightarrow> locator" where
  "demo_locator collect = \<lparr>loc_block_size = 1, loc_hash_block_size = 1, loc_max_source_requests = 4,
     loc_allow_repacking = False, loc_collect_selector_features = collect,
     loc_sources = [(''a'', demo_source)], loc_session_sources = []\<rparr>"

definition demo_empty :: "bool \<Rightarrow> locator" where
  "demo_empty collect = \<lparr>loc_block_size = 1, loc_hash_block_size = 1, loc_max_source_requests = 4,
     loc_allow_repacking = False, loc_collect_selector_features = collect,
     loc_sources = [], loc_session_sources = []\<rparr>"

lemma demo_empty_reach: "loc_reach h (demo_empty collect)"
proof (rule reach_init)
  show "locator_init 1 4 None False collect = Inr (demo_empty collect)"
    by (simp add: locator_init_def check_res_def demo_empty_def)
qed

lemma demo_index:
  "locator_index h demo_pool (demo_request ''a'' [7, 8] None) [Blk 0] (demo_empty collect) = Inr (demo_locator collect)"
proof -
  have fp: "fingerprint h [7, 8] = {}" by (simp add: fingerprint_def)
  show ?thesis
    by (simp add: locator_index_def demo_request_def demo_empty_def resolve_block_hashes_def indexed_block_def
        demo_pool_def new_block_def hl_len_def effective_request_id_def request_adapter_id_def
        map_filter_simps store_source_def od_move_to_end_def slice_def fp demo_locator_def demo_source_def Let_def)
qed

lemma demo_reach: "loc_reach h (demo_locator collect)"
  by (rule reach_index[OF demo_empty_reach demo_index])

lemma locate_total_witness:
  "\<exists>r. locate hd demo_pool (demo_locator True) (demo_request ''b'' [5, 7] (Some ''a'')) 1 = Some r"
  using locate_total[OF demo_reach[of hd True], of demo_pool "demo_request ''b'' [5, 7] (Some ''a'')" 1] by blast

lemma demo_match:
  "source_match (demo_locator collect) demo_source [7] (0, sr_blocks demo_source)"
  by (simp add: source_match_def demo_locator_def demo_source_def slice_def covers_def upt_rec)

lemma demo_compatible: "compatible (demo_request rid toks s) demo_source"
  by (simp add: compatible_def demo_source_def demo_request_def request_adapter_id_def)

lemma locate_raises_on_foreign_hit_witness:
  "locate hd demo_pool (demo_locator True) (demo_request ''b'' [5, 7] (Some ''a'')) 1 = Some (Inl prefix_error)"
proof (rule locate_raises_on_foreign_hit[OF demo_reach, of True "demo_request ''b'' [5, 7] (Some ''a'')" "''a''"
      demo_source "[5, 7]" 1 1 "(0, sr_blocks demo_source)"])
  show "source_match (demo_locator True) demo_source (target_tokens (demo_locator True) [5, 7] 1) (0, sr_blocks demo_source)"
    using demo_match[of True] by (simp add: target_tokens_def demo_locator_def slice_def)
  show "compatible (demo_request ''b'' [5, 7] (Some ''a'')) demo_source" by (rule demo_compatible)
qed (simp_all add: demo_locator_def demo_request_def demo_source_def)

text \<open>Without feature collection the same request gets its plan.\<close>

lemma locate_explicit:
  assumes inv: "locator_inv loc" and plain: "\<not> loc_collect_selector_features loc"
    and req: "cs_source_request_id req = Some sid" "cs_source_selection req = ''explicit''"
    and src: "od_get (loc_sources loc) sid = Some src" "compatible req src" "prompt_token_ids req = Some prompt"
  shows "\<exists>plan. locate h pool loc req native = Some (Inr (Some plan, req)) \<and>
    exact_candidates pool loc src prompt native (pp_candidates plan)"
proof -
  let ?n = "loc_block_size loc"
  have ok: "source_ok ?n src" "1 \<le> ?n" using inv src(1) by (auto simp: locator_inv_def)
  obtain cands where c: "located_candidates pool loc src prompt native = Inr cands"
    "exact_candidates pool loc src prompt native cands"
    using located_candidates_ok[OF ok] by blast
  define annotated where "annotated = annotate_change_geometry cands ((native + ?n - 1) div ?n) (length prompt div ?n)"
  have "locate_in h pool loc req sid ''explicit'' native =
      Finished (finish_plan req (make_plan loc req native (plan_reason cands) ''explicit'' annotated))"
    using src(2) plain unfolding locate_in_def src(1,3) Let_def option.case c(1) sum.case annotated_def[symmetric] compatible_def
    by simp
  then have "locate h pool loc req native =
      Some (Inr (Some (plan_with loc req sid native (plan_reason cands) ''explicit'' annotated), req))"
    using req by (simp add: locate.simps[of h pool loc req] resolve_source_def finish_make_plan)
  then show ?thesis using exact_candidates_core[OF c(2) annotate_core]
    by (simp add: annotated_def plan_with_def)
qed

lemma demo_located:
  "\<exists>plan. locate hd demo_pool (demo_locator False) ((demo_request ''b'' [5, 7] (Some ''a''))\<lparr>cs_counterfactual_index := cf\<rparr>) 1 =
      Some (Inr (Some plan, (demo_request ''b'' [5, 7] (Some ''a''))\<lparr>cs_counterfactual_index := cf\<rparr>)) \<and>
    exact_candidates demo_pool (demo_locator False) demo_source [5, 7] 1 (pp_candidates plan)"
proof (rule locate_explicit[OF loc_reach_locator_inv[OF demo_reach[of hd]]])
  show "compatible ((demo_request ''b'' [5, 7] (Some ''a''))\<lparr>cs_counterfactual_index := cf\<rparr>) demo_source"
    by (simp add: compatible_def demo_source_def demo_request_def request_adapter_id_def)
qed (simp_all add: demo_locator_def demo_request_def)

lemma demo_located_plain:
  "\<exists>plan req'. locate hd demo_pool (demo_locator False) (demo_request ''b'' [5, 7] (Some ''a'')) 1 = Some (Inr (Some plan, req'))"
  using demo_located[of None] by (auto simp: demo_request_def)

lemma locate_plan_exact_witness:
  "\<exists>plan req'. locate hd demo_pool (demo_locator False) (demo_request ''b'' [5, 7] (Some ''a'')) 1 =
      Some (Inr (Some plan, req')) \<and> cs_source_request_id req' = Some (pp_source_request_id plan)"
proof -
  obtain plan req' where p: "locate hd demo_pool (demo_locator False) (demo_request ''b'' [5, 7] (Some ''a'')) 1 =
      Some (Inr (Some plan, req'))" using demo_located_plain by blast
  with locate_plan_exact[OF demo_reach[of hd] p] show ?thesis by blast
qed

text \<open>C36. The index stays consistent.  On every reachable index the block sizes are positive, ids are
  unique and within the bound, every source is stored under its own id with correctly placed
  blocks, and every session entry leads to an indexed source of that session.\<close>

theorem loc_reach_inv:
  assumes "loc_reach h loc"
  shows "1 \<le> loc_block_size loc \<and> distinct (od_keys (loc_sources loc)) \<and>
    length (loc_sources loc) \<le> loc_max_source_requests loc \<and>
    (\<forall>rid src. od_get (loc_sources loc) rid = Some src \<longrightarrow>
       sr_request_id src = rid \<and> source_ok (loc_block_size loc) src) \<and>
    (\<forall>s rid. od_get (loc_session_sources loc) s = Some rid \<longrightarrow>
       (\<exists>src. od_get (loc_sources loc) rid = Some src \<and> sr_session_id src = Some s))"
  using loc_reach_locator_inv[OF assms] unfolding locator_inv_def sessions_ok_def by blast

lemma loc_reach_inv_witness:
  "length (loc_sources (demo_locator True)) \<le> 4 \<and> source_ok 1 demo_source"
  using loc_reach_inv[OF demo_reach[of hd True]] by (simp add: demo_locator_def)

text \<open>C37. Indexing is found again.  After indexing a prompt, its source is stored under the request's
  id as the most recent one, with its tokens, salt, adapter and fingerprint, and the request's
  session leads to it, whatever was evicted.\<close>

theorem index_then_found:
  assumes "loc_reach h loc" "locator_index h pool req blocks loc = Inr loc'" "prompt_token_ids req = Some prompt"
  shows "\<exists>src. last (loc_sources loc') = (effective_request_id req, src) \<and>
    od_get (loc_sources loc') (effective_request_id req) = Some src \<and>
    sr_prompt_token_ids src = prompt \<and> compatible req src \<and> sr_fingerprint src = fingerprint h prompt \<and>
    (case cs_session_id req of None \<Rightarrow> True
     | Some s \<Rightarrow> od_get (loc_session_sources loc') s = Some (effective_request_id req))"
proof -
  note inv = loc_reach_locator_inv[OF assms(1)]
  from locator_index_correct[OF inv assms(2,3)] obtain src where
    src: "loc' = store_source (effective_request_id req) src loc" "sr_request_id src = effective_request_id req"
      "source_ok (loc_block_size loc) src" "sr_prompt_token_ids src = prompt" "sr_cache_salt src = cache_salt req"
      "sr_lora_adapter_id src = request_adapter_id req" "sr_session_id src = cs_session_id req"
      "sr_fingerprint src = fingerprint h prompt" by blast
  from store_source_correct[OF inv src(2,3)] src show ?thesis
    by (intro exI[of _ src]) (auto simp: compatible_def split: option.split)
qed

lemma index_then_found_witness:
  "\<exists>src. last (loc_sources (demo_locator True)) = (''a'', src) \<and> sr_prompt_token_ids src = [7, 8]"
  using index_then_found[OF demo_empty_reach[of hd True] demo_index[of hd True]]
  by (fastforce simp: demo_request_def effective_request_id_def)

section \<open>The automatic source\<close>

definition eligible :: "block_pool \<Rightarrow> request \<Rightarrow> string option \<Rightarrow> string \<times> source_index \<Rightarrow> bool" where
  "eligible pool req exclude e \<longleftrightarrow> fst e \<noteq> effective_request_id req \<and> exclude \<noteq> Some (fst e) \<and>
     is_compatible_resident pool req (snd e)"

definition shared_with :: "int set \<Rightarrow> string \<times> source_index \<Rightarrow> nat" where
  "shared_with target e = card (target \<inter> sr_fingerprint (snd e))"

text \<open>The first entry of a list with the largest overlap, if that overlap exceeds \<open>m\<close>.\<close>

definition first_best :: "(string \<times> source_index \<Rightarrow> bool) \<Rightarrow> (string \<times> source_index \<Rightarrow> nat) \<Rightarrow> nat \<Rightarrow>
    (string \<times> source_index) list \<Rightarrow> string \<Rightarrow> nat \<Rightarrow> bool" where
  "first_best ok score m es sid n \<longleftrightarrow>
     (\<exists>xs src ys. es = xs @ (sid, src) # ys \<and> ok (sid, src) \<and> score (sid, src) = n \<and> m < n \<and>
        (\<forall>e \<in> set xs. ok e \<longrightarrow> score e < n) \<and> (\<forall>e \<in> set ys. ok e \<longrightarrow> score e \<le> n))"

lemma pick_step_eq:
  "pick_step pool req target exclude e (b, m) =
     (if eligible pool req exclude e \<and> m < shared_with target e then (Some (fst e), shared_with target e) else (b, m))"
  by (cases e) (auto simp: pick_step_def eligible_def shared_with_def Let_def)

lemma pick_fold:
  assumes "fold (pick_step pool req target exclude) es (b, m) = (b', m')"
  shows "(b' = b \<and> m' = m \<and> (\<forall>e \<in> set es. eligible pool req exclude e \<longrightarrow> shared_with target e \<le> m)) \<or>
    (\<exists>sid. b' = Some sid \<and> first_best (eligible pool req exclude) (shared_with target) m es sid m')"
  using assms
proof (induction es arbitrary: b m)
  case (Cons e es)
  let ?ok = "eligible pool req exclude" and ?sc = "shared_with target"
  show ?case
  proof (cases "?ok e \<and> m < ?sc e")
    case True
    then have run: "fold (pick_step pool req target exclude) es (Some (fst e), ?sc e) = (b', m')"
      using Cons.prems by (simp add: pick_step_eq)
    from Cons.IH[OF run] show ?thesis
    proof
      assume h: "b' = Some (fst e) \<and> m' = ?sc e \<and> (\<forall>e' \<in> set es. ?ok e' \<longrightarrow> ?sc e' \<le> ?sc e)"
      then have "first_best ?ok ?sc m (e # es) (fst e) m'"
        using True unfolding first_best_def by (intro exI[of _ "[]"] exI[of _ "snd e"] exI[of _ es]) simp
      with h show ?thesis by blast
    next
      assume "\<exists>sid. b' = Some sid \<and> first_best ?ok ?sc (?sc e) es sid m'"
      then obtain sid xs src ys where h: "b' = Some sid" "es = xs @ (sid, src) # ys" "?ok (sid, src)"
        "?sc (sid, src) = m'" "?sc e < m'" "\<forall>e' \<in> set xs. ?ok e' \<longrightarrow> ?sc e' < m'" "\<forall>e' \<in> set ys. ?ok e' \<longrightarrow> ?sc e' \<le> m'"
        unfolding first_best_def by blast
      then have "first_best ?ok ?sc m (e # es) sid m'"
        using True unfolding first_best_def by (intro exI[of _ "e # xs"] exI[of _ src] exI[of _ ys]) auto
      with h(1) show ?thesis by blast
    qed
  next
    case False
    then have run: "fold (pick_step pool req target exclude) es (b, m) = (b', m')"
      using Cons.prems by (auto simp: pick_step_eq)
    from Cons.IH[OF run] show ?thesis
    proof
      assume "b' = b \<and> m' = m \<and> (\<forall>e' \<in> set es. ?ok e' \<longrightarrow> ?sc e' \<le> m)"
      with False show ?thesis by (auto simp: not_less)
    next
      assume "\<exists>sid. b' = Some sid \<and> first_best ?ok ?sc m es sid m'"
      then obtain sid xs src ys where h: "b' = Some sid" "es = xs @ (sid, src) # ys" "?ok (sid, src)"
        "?sc (sid, src) = m'" "m < m'" "\<forall>e' \<in> set xs. ?ok e' \<longrightarrow> ?sc e' < m'" "\<forall>e' \<in> set ys. ?ok e' \<longrightarrow> ?sc e' \<le> m'"
        unfolding first_best_def by blast
      then have "first_best ?ok ?sc m (e # es) sid m'"
        using False unfolding first_best_def by (intro exI[of _ "e # xs"] exI[of _ src] exI[of _ ys]) auto
      with h(1) show ?thesis by blast
    qed
  qed
qed simp

text \<open>C38. The fingerprint choice is optimal.  Among the 64 most recent sources that are compatible,
  partly resident and not excluded, the chosen one shares the most fingerprint hashes with the
  uncached part of the prompt, at least 4, the most recent one on a tie; none is chosen only if no
  such source shares 4.\<close>

theorem fingerprint_source_best:
  assumes "prompt_token_ids req = Some prompt" "target = fingerprint h (drop native prompt)"
    and "recent = take 64 (rev (loc_sources loc))"
  shows "case fingerprint_source h pool loc req native exclude of
      None \<Rightarrow> card target < 4 \<or> (\<forall>e \<in> set recent. eligible pool req exclude e \<longrightarrow> shared_with target e < 4)
    | Some sid \<Rightarrow> \<exists>n \<ge> 4. first_best (eligible pool req exclude) (shared_with target) 3 recent sid n"
proof (cases "card target < 4")
  case True
  then show ?thesis using assms by (simp add: fingerprint_source_def Let_def)
next
  case False
  obtain b' m' where f: "fold (pick_step pool req target exclude) recent (None, 3) = (b', m')" by force
  have r: "fingerprint_source h pool loc req native exclude = b'"
    using False f assms by (simp add: fingerprint_source_def Let_def)
  from pick_fold[OF f] show ?thesis
  proof
    assume "b' = None \<and> m' = 3 \<and> (\<forall>e \<in> set recent. eligible pool req exclude e \<longrightarrow> shared_with target e \<le> 3)"
    then show ?thesis unfolding r by fastforce
  next
    assume "\<exists>sid. b' = Some sid \<and> first_best (eligible pool req exclude) (shared_with target) 3 recent sid m'"
    then obtain sid where s: "b' = Some sid" "first_best (eligible pool req exclude) (shared_with target) 3 recent sid m'"
      by blast
    moreover have "4 \<le> m'" using s(2) by (auto simp: first_best_def)
    ultimately show ?thesis unfolding r by auto
  qed
qed

lemma fingerprint_source_best_witness:
  "fingerprint_source hd demo_pool
     (demo_locator False\<lparr>loc_sources := [(''a'', demo_source\<lparr>sr_fingerprint := {0, 1, 2, 3}\<rparr>)]\<rparr>)
     (demo_request ''b'' [0, 1, 2, 3, 4, 5, 6, 7, 8, 9, 10, 11] None) 0 None = Some ''a''"
proof -
  let ?src = "demo_source\<lparr>sr_fingerprint := {0, 1, 2, 3}\<rparr>" and ?t = "[0, 1, 2, 3, 4, 5, 6, 7, 8, 9, 10, 11]"
  let ?loc = "demo_locator False\<lparr>loc_sources := [(''a'', ?src)]\<rparr>" and ?req = "demo_request ''b'' ?t None"
  have fp: "fingerprint hd (drop 0 ?t) = {0, 1, 2, 3, 4}" unfolding fingerprint_def slice_def by code_simp
  have rec: "take 64 (rev (loc_sources ?loc)) = [(''a'', ?src)]" by simp
  have el: "eligible demo_pool ?req None (''a'', ?src)"
    by (simp add: eligible_def is_compatible_resident_def demo_source_def demo_request_def request_adapter_id_def
        effective_request_id_def is_resident_def hm_contain_def demo_pool_def idof_def new_block_def)
  have sh: "shared_with {0, 1, 2, 3, 4} (''a'', ?src) = 4" by (simp add: shared_with_def)
  have "case fingerprint_source hd demo_pool ?loc ?req 0 None of
      None \<Rightarrow> card (fingerprint hd (drop 0 ?t)) < 4 \<or> (\<forall>e \<in> set (take 64 (rev (loc_sources ?loc))).
        eligible demo_pool ?req None e \<longrightarrow> shared_with (fingerprint hd (drop 0 ?t)) e < 4)
    | Some sid \<Rightarrow> \<exists>n \<ge> 4. first_best (eligible demo_pool ?req None) (shared_with (fingerprint hd (drop 0 ?t))) 3
        (take 64 (rev (loc_sources ?loc))) sid n"
    by (rule fingerprint_source_best[OF _ refl refl]) (simp add: demo_request_def)
  then show ?thesis
    unfolding fp rec using el sh
    by (auto simp: first_best_def Cons_eq_append_conv split: option.splits)
qed

section \<open>Pinning sources\<close>

lemma is_resident_block:
  assumes "cache_inv p" "is_resident p sb"
  shows "\<exists>i < num_gpu_blocks p. sb_block_id sb = int i \<and> sb_block_hash sb \<in> set (hashes_of p (Blk i))"
proof -
  let ?m = "cached_block_hash_to_block p"
  note D = cache_invD[OF assms(1)]
  have "\<exists>b. is_blk b \<and> b \<in> hm_refs ?m (sb_block_hash sb) \<and> idof p b = sb_block_id sb"
  proof (cases "?m (sb_block_hash sb)")
    case None
    then show ?thesis using assms(2) by (simp add: is_resident_def hm_contain_def)
  next
    case (Some c)
    show ?thesis
    proof (cases c)
      case (One b)
      then show ?thesis using assms(2) Some hm_wf_One[OF D(2)] by (auto simp: is_resident_def hm_contain_def hm_refs_def)
    next
      case (Many d)
      then obtain b where b: "(sb_block_id sb, b) \<in> set d"
        using assms(2) Some by (auto simp: is_resident_def hm_contain_def)
      then have "sb_block_id sb = idof p b" "is_blk b" using hm_wfD(3,4)[OF D(2)] Some Many by blast+
      with b Some Many show ?thesis by (force simp: hm_refs_def)
    qed
  qed
  then obtain b where b: "is_blk b" "b \<in> hm_refs ?m (sb_block_hash sb)" "idof p b = sb_block_id sb" by blast
  then obtain i where i: "Blk i \<in> hm_refs ?m (sb_block_hash sb)" "idof p (Blk i) = sb_block_id sb"
    by (cases b) auto
  then have h: "sb_block_hash sb \<in> set (hashes_of p (Blk i))" using D(3) by simp
  then have "block_hash (heap p (Blk i)) \<noteq> None" using cache_inv_unhashed[OF assms(1), of i] by fastforce
  then have "i < num_gpu_blocks p" using D(7)[of i] by (meson not_le)
  with h i D(1) show ?thesis by metis
qed

definition pins_ok :: "nat \<Rightarrow> (int, bref) odict \<Rightarrow> bool" where
  "pins_ok n d \<longleftrightarrow> distinct (od_keys d) \<and> (\<forall>kr \<in> set d. \<exists>i < n. kr = (int i, Blk i))"

lemma pin_blocks_ok:
  assumes "cache_inv p" "\<forall>b \<in> set bs. is_resident p b" "pins_ok (num_gpu_blocks p) d"
  shows "\<exists>d'. fold_res (pin_block p) bs d = Inr d' \<and> pins_ok (num_gpu_blocks p) d' \<and>
    od_dom d' = od_dom d \<union> sb_block_id ` set bs"
  using assms(2,3)
proof (induction bs arbitrary: d)
  case (Cons b bs)
  obtain i where i: "i < num_gpu_blocks p" "sb_block_id b = int i"
    using is_resident_block[OF assms(1)] Cons.prems(1) by fastforce
  let ?d = "od_set (int i) (Blk i) d"
  have "set ?d \<subseteq> insert (int i, Blk i) (set d)" by (rule od_set_subset)
  then have "pins_ok (num_gpu_blocks p) ?d" using Cons.prems(2) i(1) unfolding pins_ok_def by (auto simp: subset_iff)
  moreover have "pin_block p b d = Inr ?d" using i by (simp add: pin_block_def block_at_def)
  ultimately show ?case using Cons.IH[of ?d] Cons.prems(1) i(2) by auto
qed simp

definition source_table :: "source_index \<Rightarrow> (int, source_block) odict" where
  "source_table src = fold (\<lambda>b. od_set (sb_block_id b) b) (sr_blocks src) []"

definition pinned_ids :: "block_pool \<Rightarrow> source_index \<Rightarrow> reuse_candidate list \<Rightarrow> int set" where
  "pinned_ids p src cands = (\<Union>c \<in> set cands.
     case candidate_sources p (source_table src) c of None \<Rightarrow> {} | Some bs \<Rightarrow> sb_block_id ` set bs)"

lemma candidate_sources_resident:
  "candidate_sources p t c = Some bs \<Longrightarrow> \<forall>b \<in> set bs. is_resident p b"
  by (auto simp: candidate_sources_def list_all_iff map_filter_def Let_def split: if_splits option.splits)

lemma pin_candidates_ok:
  assumes "cache_inv p" "pins_ok (num_gpu_blocks p) d"
  shows "\<exists>d'. fold_res (\<lambda>c d. case candidate_sources p (source_table src) c of None \<Rightarrow> Inr d
      | Some bs \<Rightarrow> fold_res (pin_block p) bs d) cands d = Inr d' \<and> pins_ok (num_gpu_blocks p) d' \<and>
    od_dom d' = od_dom d \<union> pinned_ids p src cands"
  using assms(2)
proof (induction cands arbitrary: d)
  case (Cons c cands)
  show ?case
  proof (cases "candidate_sources p (source_table src) c")
    case None
    then show ?thesis using Cons.IH[OF Cons.prems] by (simp add: pinned_ids_def)
  next
    case (Some bs)
    obtain d1 where d1: "fold_res (pin_block p) bs d = Inr d1" "pins_ok (num_gpu_blocks p) d1"
      "od_dom d1 = od_dom d \<union> sb_block_id ` set bs"
      using pin_blocks_ok[OF assms(1) candidate_sources_resident[OF Some] Cons.prems] by blast
    with Some Cons.IH[OF d1(2)] show ?thesis by (auto simp: pinned_ids_def)
  qed
qed (simp add: pinned_ids_def)

lemma pins_ok_values:
  assumes "pins_ok n d"
  shows "distinct (map snd d) \<and> set (map snd d) = {Blk i | i. int i \<in> od_dom d} \<and> set (map snd d) \<subseteq> Blk ` {..<n}"
proof -
  have kr: "\<exists>i < n. kr = (int i, Blk i)" if "kr \<in> set d" for kr using assms that by (auto simp: pins_ok_def)
  have "distinct d" using assms by (auto simp: pins_ok_def distinct_map)
  moreover have "inj_on snd (set d)"
  proof (rule inj_onI)
    fix x y assume "x \<in> set d" "y \<in> set d" "snd x = snd y"
    with kr[of x] kr[of y] show "x = y" by auto
  qed
  moreover have "set (map snd d) = {Blk i | i. int i \<in> od_dom d}"
  proof (intro set_eqI iffI)
    fix b assume "b \<in> set (map snd d)"
    then obtain x where "x \<in> set d" "b = snd x" by auto
    with kr[of x] show "b \<in> {Blk i | i. int i \<in> od_dom d}" by force
  next
    fix b assume "b \<in> {Blk i | i. int i \<in> od_dom d}"
    then obtain i x where "b = Blk i" "x \<in> set d" "fst x = int i" by auto
    with kr[of x] show "b \<in> set (map snd d)" by force
  qed
  ultimately show ?thesis using kr by (force simp: distinct_map)
qed

lemma same_free_set:
  assumes "pool_inv p xs" "pool_inv p' ys" "static p p'" "\<forall>b. ref_cnt (heap p' b) = ref_cnt (heap p b)"
  shows "mset ys = mset xs"
proof -
  note X = free_invD[of p xs] and Y = free_invD[of p' ys]
  have F: "free_inv p xs" "free_inv p' ys" using assms(1,2) by (auto simp: pool_inv_def)
  have n: "num_gpu_blocks p' = num_gpu_blocks p" "is_null (heap p' b) = is_null (heap p b)" for b
    using assms(3) by (simp_all add: static_def)
  have "Blk i \<in> set ys \<longleftrightarrow> Blk i \<in> set xs" if "i < num_gpu_blocks p" for i
    using X(5)[OF F(1) that] Y(5)[OF F(2)] that n assms(4) by simp
  then have "set ys = set xs" using X(2)[OF F(1)] Y(2)[OF F(2)] n(1) by (auto 0 3 dest: subsetD)
  then show ?thesis using X(3)[OF F(1)] Y(3)[OF F(2)] by (simp add: set_eq_iff_mset_eq_distinct[symmetric])
qed

text \<open>C7. Pinning a plan's sources and giving them back.  On every reachable pool pinning succeeds:
  it returns, each once, the pool blocks of the candidates whose source blocks are all still
  resident, adds one reference to each and touches no hash; releasing them afterwards succeeds
  and restores every reference count, every hash and the set of free blocks.\<close>

theorem retain_release_roundtrip:
  assumes "pool_reach n caching pool" "od_get (loc_sources loc) (pp_source_request_id plan) = Some src"
  shows "\<exists>blocks pool1 pool2 xs ys.
    retain_resident_sources pool loc plan = Inr (blocks, pool1) \<and> distinct blocks \<and>
    set blocks = {Blk i | i. int i \<in> pinned_ids pool src (pp_candidates plan)} \<and>
    (\<forall>b. ref_cnt (heap pool1 b) = ref_cnt (heap pool b) + (if b \<in> set blocks then 1 else 0)) \<and>
    hashes_of pool1 = hashes_of pool \<and>
    release_sources blocks pool1 = Inr pool2 \<and>
    (\<forall>b. ref_cnt (heap pool2 b) = ref_cnt (heap pool b)) \<and> hashes_of pool2 = hashes_of pool \<and>
    fq_get_all_free_blocks pool = Some (Inr xs) \<and> fq_get_all_free_blocks pool2 = Some (Inr ys) \<and> mset ys = mset xs"
proof -
  obtain xs where inv: "pool_inv pool xs" using pool_reach_pool_inv[OF assms(1)] by blast
  then have C: "cache_inv pool" and F: "free_inv pool xs" by (simp_all add: pool_inv_def)
  have "pins_ok (num_gpu_blocks pool) []" by (simp add: pins_ok_def)
  from pin_candidates_ok[OF C this, of src "pp_candidates plan"] obtain d where
    d: "fold_res (\<lambda>c d. case candidate_sources pool (source_table src) c of None \<Rightarrow> Inr d
      | Some bs \<Rightarrow> fold_res (pin_block pool) bs d) (pp_candidates plan) [] = Inr d"
    "pins_ok (num_gpu_blocks pool) d" "od_dom d = pinned_ids pool src (pp_candidates plan)" by auto
  let ?bs = "map snd d"
  have V: "distinct ?bs" "set ?bs = {Blk i | i. int i \<in> od_dom d}" "set ?bs \<subseteq> Blk ` {..<num_gpu_blocks pool}"
    using pins_ok_values[OF d(2)] by blast+
  obtain q where q: "touch ?bs pool = Inr q" "pool_inv q (filter (\<lambda>b. b \<notin> set ?bs) xs)" "static pool q"
    "\<forall>b. ref_cnt (heap q b) = ref_cnt (heap pool b) + int (count_list ?bs b)" "hashes_of q = hashes_of pool"
    using touch_correct[OF inv V(3)] by blast
  have cnt: "int (count_list ?bs b) = (if b \<in> set ?bs then 1 else 0)" for b
    using V(1) by (simp add: count_list_distinct)
  have ret: "retain_resident_sources pool loc plan = Inr (?bs, q)"
  proof -
    have "?bs = [] \<Longrightarrow> q = pool" using q(1) by (simp add: touch_def)
    then show ?thesis
      unfolding retain_resident_sources_def assms(2) option.case source_table_def[symmetric] Let_def d(1) bind_res.simps q(1)
      by simp
  qed
  have "freeable q (rev ?bs)"
    unfolding freeable_def
  proof (intro conjI ballI impI)
    show "set (rev ?bs) \<subseteq> Blk ` {..<num_gpu_blocks q}" using V(3) q(3) by (simp add: static_def)
    show "distinct (filter (\<lambda>b. \<not> is_null (heap q b)) (rev ?bs))" using V(1) by simp
    fix b assume b: "b \<in> set (rev ?bs)" "\<not> is_null (heap q b)"
    then obtain i where i: "b = Blk i" "i < num_gpu_blocks pool" using V(3) by auto
    then have "0 \<le> ref_cnt (heap pool b)" using free_invD(7)[OF F i(2)] b(2) q(3) by (simp add: static_def)
    then show "0 < ref_cnt (heap q b)" using q(4) cnt b(1) by simp
  qed
  from free_blocks_correct[OF q(2) this] obtain r ys where
    r: "free_blocks (rev ?bs) q = Inr r" "pool_inv r ys" "static q r"
    "\<forall>b. ref_cnt (heap r b) = ref_cnt (heap q b) - int (count_list (rev ?bs) b)" "hashes_of r = hashes_of q"
    by blast
  have restored: "\<forall>b. ref_cnt (heap r b) = ref_cnt (heap pool b)" using r(4) q(4) by simp
  have rel: "\<exists>p2 zs. release_sources ?bs q = Inr p2 \<and> pool_inv p2 zs \<and> static pool p2 \<and>
      (\<forall>b. ref_cnt (heap p2 b) = ref_cnt (heap pool b)) \<and> hashes_of p2 = hashes_of pool"
  proof (cases "?bs = []")
    case True
    with q show ?thesis by (auto simp: release_sources_def)
  next
    case False
    with r restored q(5) static_trans[OF q(3) r(3)] show ?thesis by (auto simp: release_sources_def)
  qed
  then obtain p2 zs where p2: "release_sources ?bs q = Inr p2" "pool_inv p2 zs" "static pool p2"
    "\<forall>b. ref_cnt (heap p2 b) = ref_cnt (heap pool b)" "hashes_of p2 = hashes_of pool" by blast
  have fl: "fq_get_all_free_blocks pool = Some (Inr xs)" "fq_get_all_free_blocks p2 = Some (Inr zs)"
    using fq_get_all_free_blocks_repr free_invD(1)[OF F] p2(2) free_invD(1)[of p2 zs]
    by (auto simp: pool_inv_def)
  show ?thesis
    using ret V q(4,5) p2 fl same_free_set[OF inv p2(2,3,4)] unfolding d(3) cnt by blast
qed

lemma retain_release_roundtrip_witness:
  "\<exists>pool blocks pool1 pool2. pool_reach 4 True pool \<and>
     retain_resident_sources pool (demo_locator True)
       (plan_with (demo_locator True) (demo_request ''b'' [5, 7] (Some ''a'')) ''a'' 0 ''aligned_candidates'' ''explicit'' []) =
       Inr (blocks, pool1) \<and>
     release_sources blocks pool1 = Inr pool2"
proof -
  obtain pool where p: "pool_reach 4 True pool" using example_pool by blast
  let ?plan = "plan_with (demo_locator True) (demo_request ''b'' [5, 7] (Some ''a'')) ''a'' 0 ''aligned_candidates'' ''explicit'' []"
  have "od_get (loc_sources (demo_locator True)) (pp_source_request_id ?plan) = Some demo_source"
    by (simp add: plan_with_def demo_locator_def)
  from retain_release_roundtrip[OF p this] p show ?thesis by blast
qed

end
