(* ===== verification/Planner.thy ===== *)
theory Planner
  imports Tokens
begin

text \<open>
  The two reuse planners: \<^verbatim>\<open>cacheselect/planner.py\<close>, which compares adjacent
  prompts, and \<^verbatim>\<open>vllm/v1/core/kv_reuse_planner.py\<close>, which reads the prefix
  cache's own hit.  Both promise the safe fallback the locale \<open>reuse_planner\<close> states: a
  reusable exact prefix is never thrown away.
\<close>

section \<open>Adjacent prompts\<close>

datatype reuse_policy = FULL_RECOMPUTE | VLLM_NATIVE_APC | PARTIAL_KV_REUSE

datatype decision_reason =
  COLD_START | EXACT_MATCH | APPEND_ONLY | REUSABLE_NATIVE_PREFIX | NO_COMMON_PREFIX

datatype decision_features = ColdFeatures nat nat | TransitionFeatures transition_features

record policy_decision =
  pd_policy :: reuse_policy
  pd_reason :: decision_reason
  pd_features :: decision_features
  pd_considered_policies :: "reuse_policy list"
  pd_confidence :: "rat option"

text \<open>The dataclass constructor with \<open>__post_init__\<close>.\<close>

definition policy_decision_new ::
  "reuse_policy \<Rightarrow> decision_reason \<Rightarrow> decision_features \<Rightarrow> reuse_policy list \<Rightarrow> rat option \<Rightarrow>
   policy_decision res" where
  "policy_decision_new policy reason feats considered confidence =
     bind_res (check_res (policy \<in> set considered)
       (ValueError ''selected policy must be one of the considered policies'')) (\<lambda>_.
     bind_res (check_res (\<forall>c. confidence = Some c \<longrightarrow> 0 \<le> c \<and> c \<le> 1)
       (ValueError ''confidence must be between zero and one'')) (\<lambda>_.
       Inr \<lparr>pd_policy = policy, pd_reason = reason, pd_features = feats,
            pd_considered_policies = considered, pd_confidence = confidence\<rparr>))"

definition considered_policies :: "reuse_policy list" where
  "considered_policies = [FULL_RECOMPUTE, VLLM_NATIVE_APC]"

definition decide_adjacent :: "int list option \<Rightarrow> int list \<Rightarrow> policy_decision res" where
  "decide_adjacent previous current =
     (if current = [] then Inl (ValueError ''current_prompt_tokens must not be empty'')
      else case previous of
        None \<Rightarrow> policy_decision_new FULL_RECOMPUTE COLD_START (ColdFeatures 0 (length current))
                  considered_policies None
      | Some prev \<Rightarrow>
          (let f = token_transition_features prev current 4;
               (policy, reason) =
                 (if tf_exact_match f then (VLLM_NATIVE_APC, EXACT_MATCH)
                  else if tf_previous_is_exact_prefix f then (VLLM_NATIVE_APC, APPEND_ONLY)
                  else if 0 < tf_common_prefix_tokens f then (VLLM_NATIVE_APC, REUSABLE_NATIVE_PREFIX)
                  else (FULL_RECOMPUTE, NO_COMMON_PREFIX))
           in policy_decision_new policy reason (TransitionFeatures f) considered_policies None))"

section \<open>The prefix cache's own hit\<close>

datatype kv_reuse_reason = NO_NATIVE_PREFIX | KV_REUSABLE_NATIVE_PREFIX

record kv_reuse_decision =
  krd_policy :: reuse_policy
  krd_reason :: kv_reuse_reason
  krd_prompt_tokens :: int
  krd_native_cached_tokens :: int

definition decide_native :: "int \<Rightarrow> int \<Rightarrow> kv_reuse_decision res" where
  "decide_native prompt_tokens native_cached_tokens =
     bind_res (check_res (\<not> prompt_tokens < 1) (ValueError ''prompt_tokens must be positive'')) (\<lambda>_.
     bind_res (check_res (0 \<le> native_cached_tokens \<and> native_cached_tokens \<le> prompt_tokens)
       (ValueError ''native_cached_tokens must be between zero and prompt_tokens'')) (\<lambda>_.
       (let (policy, reason) =
          (if native_cached_tokens = 0 then (FULL_RECOMPUTE, NO_NATIVE_PREFIX)
           else (VLLM_NATIVE_APC, KV_REUSABLE_NATIVE_PREFIX))
        in Inr \<lparr>krd_policy = policy, krd_reason = reason, krd_prompt_tokens = prompt_tokens,
                krd_native_cached_tokens = native_cached_tokens\<rparr>)))"

section \<open>The contract\<close>

text \<open>
  \<open>reusable i\<close> is the number of prompt tokens whose cached state is exactly valid for the
  input \<open>i\<close>.
\<close>

locale reuse_planner =
  fixes decide :: "'i \<Rightarrow> 'd res" and policy :: "'d \<Rightarrow> reuse_policy"
    and valid :: "'i \<Rightarrow> bool" and reusable :: "'i \<Rightarrow> nat"
  assumes total: "valid i \<Longrightarrow> \<exists>d. decide i = Inr d"
    and rejects: "\<not> valid i \<Longrightarrow> \<exists>msg. decide i = Inl (ValueError msg)"
    and keeps_prefix: "decide i = Inr d \<Longrightarrow> 0 < reusable i \<Longrightarrow> policy d = VLLM_NATIVE_APC"
    and no_partial: "decide i = Inr d \<Longrightarrow> policy d \<noteq> PARTIAL_KV_REUSE"
begin

text \<open>The planner answers exactly the valid inputs, and recomputing costs no valid prefix.\<close>

lemma decide_iff_valid: "(\<exists>d. decide i = Inr d) \<longleftrightarrow> valid i"
  using total rejects by fastforce

lemma recompute_loses_nothing:
  assumes "decide i = Inr d" and "policy d = FULL_RECOMPUTE"
  shows "reusable i = 0"
  using keeps_prefix[OF assms(1)] assms(2) by fastforce

lemma two_policies: "decide i = Inr d \<Longrightarrow> policy d = FULL_RECOMPUTE \<or> policy d = VLLM_NATIVE_APC"
  using no_partial[of i d] by (cases "policy d") auto

end

lemma policy_decision_new_ok [simp]:
  "policy_decision_new FULL_RECOMPUTE r f considered_policies None =
     Inr \<lparr>pd_policy = FULL_RECOMPUTE, pd_reason = r, pd_features = f,
          pd_considered_policies = considered_policies, pd_confidence = None\<rparr>"
  "policy_decision_new VLLM_NATIVE_APC r f considered_policies None =
     Inr \<lparr>pd_policy = VLLM_NATIVE_APC, pd_reason = r, pd_features = f,
          pd_considered_policies = considered_policies, pd_confidence = None\<rparr>"
  by (simp_all add: policy_decision_new_def considered_policies_def)

definition reusable_prefix :: "int list option \<times> int list \<Rightarrow> nat" where
  "reusable_prefix i = (case fst i of None \<Rightarrow> 0 | Some prev \<Rightarrow> common_prefix_length prev (snd i))"

text \<open>What the comparing planner decides, case by case.\<close>

lemma decide_adjacent_cases:
  assumes "current \<noteq> []"
  shows "decide_adjacent (Some prev) current =
    (let f = token_transition_features prev current 4;
         d = (\<lambda>p r. Inr \<lparr>pd_policy = p, pd_reason = r, pd_features = TransitionFeatures f,
                pd_considered_policies = considered_policies, pd_confidence = None\<rparr>)
     in if prev = current then d VLLM_NATIVE_APC EXACT_MATCH
        else if take (length prev) current = prev then d VLLM_NATIVE_APC APPEND_ONLY
        else if 0 < common_prefix_length prev current then d VLLM_NATIVE_APC REUSABLE_NATIVE_PREFIX
        else d FULL_RECOMPUTE NO_COMMON_PREFIX)"
proof -
  have "tf_previous_is_exact_prefix (token_transition_features prev current 4) \<longleftrightarrow>
      take (length prev) current = prev"
    using prefix_flag_iff[of prev current] by (simp add: token_transition_features_def Let_def)
  moreover have "tf_exact_match (token_transition_features prev current 4) \<longleftrightarrow> prev = current"
    "tf_common_prefix_tokens (token_transition_features prev current 4) = common_prefix_length prev current"
    by (simp_all add: token_transition_features_def Let_def)
  ultimately show ?thesis using assms by (simp add: decide_adjacent_def Let_def)
qed

interpretation adjacent: reuse_planner "\<lambda>i. decide_adjacent (fst i) (snd i)" pd_policy
  "\<lambda>i. snd i \<noteq> []" reusable_prefix
proof
  fix i :: "int list option \<times> int list" and d
  obtain p c where i: "i = (p, c)" by force
  show "\<exists>d. decide_adjacent (fst i) (snd i) = Inr d" if "snd i \<noteq> []"
    using that i by (cases p) (auto simp: decide_adjacent_cases Let_def, simp add: decide_adjacent_def)
  show "\<exists>msg. decide_adjacent (fst i) (snd i) = Inl (ValueError msg)" if "\<not> snd i \<noteq> []"
    using that by (simp add: decide_adjacent_def)
  show "pd_policy d = VLLM_NATIVE_APC" if d: "decide_adjacent (fst i) (snd i) = Inr d" and "0 < reusable_prefix i"
  proof (cases p)
    case None
    then show ?thesis using that i by (simp add: reusable_prefix_def)
  next
    case (Some prev)
    then have c: "c \<noteq> []" "0 < common_prefix_length prev c"
      using that i by (auto simp: reusable_prefix_def)
    then show ?thesis using d i Some by (auto simp: decide_adjacent_cases Let_def split: if_splits)
  qed
  show "pd_policy d \<noteq> PARTIAL_KV_REUSE" if d: "decide_adjacent (fst i) (snd i) = Inr d"
  proof (cases "c = []")
    case True
    then show ?thesis using d i by (simp add: decide_adjacent_def)
  next
    case False
    then show ?thesis using d i
      by (cases p) (auto simp: decide_adjacent_cases Let_def split: if_splits, auto simp: decide_adjacent_def)
  qed
qed

interpretation native: reuse_planner "\<lambda>i. decide_native (fst i) (snd i)" krd_policy
  "\<lambda>i. 1 \<le> fst i \<and> 0 \<le> snd i \<and> snd i \<le> fst i" "\<lambda>i. nat (snd i)"
  by unfold_locales (auto simp: decide_native_def check_res_def split: if_splits)

text \<open>The planner comparing adjacent prompts is total and safe: it rejects exactly the empty
  prompt, recomputes everything exactly on a cold start or when a non-empty previous prompt shares
  no first token, and chooses the native prefix cache otherwise.\<close>

theorem decide_adjacent_policy:
  "(case decide_adjacent previous current of
      Inl e \<Rightarrow> current = [] \<and> (\<exists>msg. e = ValueError msg)
    | Inr d \<Rightarrow> current \<noteq> [] \<and> pd_policy d =
        (if previous = None \<or> (previous \<noteq> Some [] \<and> reusable_prefix (previous, current) = 0)
         then FULL_RECOMPUTE else VLLM_NATIVE_APC))"
proof (cases "current = []")
  case True
  then show ?thesis by (simp add: decide_adjacent_def)
next
  case False
  show ?thesis
  proof (cases previous)
    case None
    then show ?thesis using False by (simp add: decide_adjacent_def)
  next
    case (Some prev)
    obtain d where d: "decide_adjacent previous current = Inr d"
      using adjacent.total[of "(previous, current)"] False by auto
    show ?thesis
    proof (cases "reusable_prefix (previous, current) = 0")
      case True
      then have z: "common_prefix_length prev current = 0" using Some by (simp add: reusable_prefix_def)
      have "take (length prev) current = prev \<longleftrightarrow> prev = []"
        using z False by (cases prev; cases current) (auto split: if_splits)
      moreover have "prev = current \<longrightarrow> prev = []" using z by auto
      ultimately show ?thesis
        using d Some False True z by (auto simp: decide_adjacent_cases Let_def split: if_splits)
    next
      case nz: False
      then have "previous \<noteq> Some []" using Some by (auto simp: reusable_prefix_def)
      with adjacent.keeps_prefix[of "(previous, current)" d] d False nz Some show ?thesis by simp
    qed
  qed
qed

text \<open>The run-time planner validates its inputs and keeps every native hit: it raises
  \<open>ValueError\<close> exactly for an empty prompt or a hit outside the prompt, and otherwise
  recomputes if and only if there is no hit.\<close>

theorem decide_native_policy:
  "(case decide_native n k of
      Inl e \<Rightarrow> \<not> (1 \<le> n \<and> 0 \<le> k \<and> k \<le> n) \<and> (\<exists>msg. e = ValueError msg)
    | Inr d \<Rightarrow> 1 \<le> n \<and> 0 \<le> k \<and> k \<le> n \<and>
        krd_policy d = (if k = 0 then FULL_RECOMPUTE else VLLM_NATIVE_APC) \<and>
        krd_prompt_tokens d = n \<and> krd_native_cached_tokens d = k)"
  using native.decide_iff_valid[of "(n, k)"] native.rejects[of "(n, k)"]
  by (auto simp: decide_native_def check_res_def split: sum.splits if_splits)

end
