(* ===== verification/Heapq.thy ===== *)
theory Heapq
  imports Prelude
begin

text \<open>
  Python's \<open>heapq\<close> on an array, parametric in the order \<open>lt\<close> (\<open>__lt__\<close> of the elements):
  \<open>heappush\<close>, \<open>heappop\<close> and \<open>heapify\<close> with the two sifting loops of the standard library.
  The locale \<open>heap_order\<close> states what the loops need of the order and proves that they keep
  the heap condition and the elements, so that the root is a minimum.
\<close>

section \<open>The loops\<close>

definition heap_parent :: "nat \<Rightarrow> nat" where
  "heap_parent i = (i - 1) div 2"

lemma heap_parent_less [simp]: "0 < i \<Longrightarrow> heap_parent i < i"
  by (simp add: heap_parent_def)

text \<open>The item on its way up is carried as \<open>x\<close>; position \<open>pos\<close> is the hole.\<close>

function siftdown :: "('a \<Rightarrow> 'a \<Rightarrow> bool) \<Rightarrow> 'a list \<Rightarrow> nat \<Rightarrow> nat \<Rightarrow> 'a \<Rightarrow> 'a list" where
  "siftdown lt h start pos x =
     (if start < pos \<and> lt x (h ! heap_parent pos)
      then siftdown lt (h[pos := h ! heap_parent pos]) start (heap_parent pos) x
      else h[pos := x])"
  by pat_completeness auto
termination by (relation "measure (\<lambda>(lt, h, start, pos, x). pos)") auto

declare siftdown.simps [simp del]

definition smaller_child :: "('a \<Rightarrow> 'a \<Rightarrow> bool) \<Rightarrow> 'a list \<Rightarrow> nat \<Rightarrow> nat" where
  "smaller_child lt h pos =
     (let child = 2 * pos + 1
      in if child + 1 < length h \<and> \<not> lt (h ! child) (h ! (child + 1)) then child + 1 else child)"

text \<open>The hole sinks to a leaf along the smaller children.\<close>

function sink :: "('a \<Rightarrow> 'a \<Rightarrow> bool) \<Rightarrow> 'a list \<Rightarrow> nat \<Rightarrow> 'a list \<times> nat" where
  "sink lt h pos =
     (if 2 * pos + 1 < length h
      then let c = smaller_child lt h pos in sink lt (h[pos := h ! c]) c
      else (h, pos))"
  by pat_completeness auto
termination
  by (relation "measure (\<lambda>(lt, h, pos). length h - pos)") (auto simp: smaller_child_def Let_def)

declare sink.simps [simp del]

definition siftup :: "('a \<Rightarrow> 'a \<Rightarrow> bool) \<Rightarrow> 'a list \<Rightarrow> nat \<Rightarrow> 'a list" where
  "siftup lt h pos = (case sink lt h pos of (h', leaf) \<Rightarrow> siftdown lt h' pos leaf (h ! pos))"

definition heappush :: "('a \<Rightarrow> 'a \<Rightarrow> bool) \<Rightarrow> 'a \<Rightarrow> 'a list \<Rightarrow> 'a list" where
  "heappush lt x h = siftdown lt (h @ [x]) 0 (length h) x"

definition heappop :: "('a \<Rightarrow> 'a \<Rightarrow> bool) \<Rightarrow> 'a list \<Rightarrow> ('a \<times> 'a list) res" where
  "heappop lt h =
     (if h = [] then Inl (IndexError ''pop from empty list'')
      else let rest = butlast h
           in if rest = [] then Inr (last h, [])
              else Inr (rest ! 0, siftup lt (rest[0 := last h]) 0))"

definition heapify :: "('a \<Rightarrow> 'a \<Rightarrow> bool) \<Rightarrow> 'a list \<Rightarrow> 'a list" where
  "heapify lt h = fold (\<lambda>i h. siftup lt h i) (rev [0..<length h div 2]) h"

lemma siftdown_length [simp]: "length (siftdown lt h s pos x) = length h"
  by (induction lt h s pos x rule: siftdown.induct) (subst siftdown.simps, simp)

lemma sink_length: "length (fst (sink lt h pos)) = length h"
  by (induction lt h pos rule: sink.induct) (subst sink.simps, simp add: Let_def)

lemma siftup_length [simp]: "length (siftup lt h pos) = length h"
  using sink_length[of lt h pos] by (cases "sink lt h pos") (simp add: siftup_def)

lemma heappop_length:
  assumes "heappop lt h = Inr (x, h')"
  shows "Suc (length h') = length h"
proof -
  have "h \<noteq> []" using assms by (auto simp: heappop_def)
  moreover have "length h' = length (butlast h)"
    using assms by (cases "butlast h = []") (auto simp: heappop_def Let_def split: if_splits)
  ultimately show ?thesis by simp
qed

section \<open>The heap condition\<close>

text \<open>\<open>heap_from s\<close>: no element is smaller than its parent, for the parents from \<open>s\<close> on.\<close>

definition heap_edge :: "('a \<Rightarrow> 'a \<Rightarrow> bool) \<Rightarrow> 'a list \<Rightarrow> nat \<Rightarrow> bool" where
  "heap_edge lt h i \<longleftrightarrow> \<not> lt (h ! i) (h ! heap_parent i)"

definition heap_from :: "('a \<Rightarrow> 'a \<Rightarrow> bool) \<Rightarrow> nat \<Rightarrow> 'a list \<Rightarrow> bool" where
  "heap_from lt s h \<longleftrightarrow> (\<forall>i < length h. 0 < i \<longrightarrow> s \<le> heap_parent i \<longrightarrow> heap_edge lt h i)"

text \<open>\<open>under s i\<close>: position \<open>i\<close> lies in the subtree of \<open>s\<close>.\<close>

function under :: "nat \<Rightarrow> nat \<Rightarrow> bool" where
  "under s i = (if s < i then under s (heap_parent i) else i = s)"
  by pat_completeness auto
termination by (relation "measure snd") auto

declare under.simps [simp del]

lemma under_ge: "under s i \<Longrightarrow> s \<le> i"
  by (subst (asm) under.simps) (auto split: if_splits)

lemma under_parent: "under s i \<Longrightarrow> s < i \<Longrightarrow> under s (heap_parent i) \<and> s \<le> heap_parent i"
  by (subst (asm) under.simps) (auto dest: under_ge)

lemma under_self [simp]: "under s s"
  by (subst under.simps) simp

lemma under_child: "under s i \<Longrightarrow> heap_parent c = i \<Longrightarrow> 0 < c \<Longrightarrow> under s c"
  using under_ge[of s i] heap_parent_less[of c] by (subst under.simps) auto

text \<open>What the hole leaves true while an item travels: every edge that does not lead from the hole
  up, and the children of the hole are not below its parent.\<close>

definition rising :: "('a \<Rightarrow> 'a \<Rightarrow> bool) \<Rightarrow> nat \<Rightarrow> 'a list \<Rightarrow> nat \<Rightarrow> bool" where
  "rising lt s g pos \<longleftrightarrow> pos < length g \<and> under s pos \<and>
     (\<forall>i < length g. i \<noteq> pos \<longrightarrow> 0 < i \<longrightarrow> s \<le> heap_parent i \<longrightarrow> heap_edge lt g i) \<and>
     (\<forall>i < length g. 0 < i \<longrightarrow> heap_parent i = pos \<longrightarrow> s < pos \<longrightarrow> \<not> lt (g ! i) (g ! heap_parent pos))"

definition sinking :: "('a \<Rightarrow> 'a \<Rightarrow> bool) \<Rightarrow> nat \<Rightarrow> 'a list \<Rightarrow> nat \<Rightarrow> bool" where
  "sinking lt s h pos \<longleftrightarrow> pos < length h \<and> under s pos \<and>
     (\<forall>i < length h. i \<noteq> pos \<longrightarrow> heap_parent i \<noteq> pos \<longrightarrow> 0 < i \<longrightarrow> s \<le> heap_parent i \<longrightarrow> heap_edge lt h i) \<and>
     (\<forall>i < length h. 0 < i \<longrightarrow> heap_parent i = pos \<longrightarrow> s < pos \<longrightarrow> \<not> lt (h ! i) (h ! heap_parent pos))"

lemma mset_hole:
  assumes "i < length h" "j < length h" "i \<noteq> j"
  shows "mset (h[i := h ! j, j := x]) = mset (h[i := x])"
  using mset_swap[of j "h[i := x]" i] assms by simp

lemma smaller_child:
  assumes "2 * pos + 1 < length h"
  shows "pos < smaller_child lt h pos \<and> smaller_child lt h pos < length h \<and>
    heap_parent (smaller_child lt h pos) = pos"
  using assms by (auto simp: smaller_child_def Let_def heap_parent_def)

lemma heap_parent_child: "0 < i \<Longrightarrow> heap_parent i = p \<longleftrightarrow> i = 2 * p + 1 \<or> i = 2 * p + 2"
  by (auto simp: heap_parent_def)

locale heap_order =
  fixes lt :: "'a \<Rightarrow> 'a \<Rightarrow> bool"
  assumes irrefl: "\<not> lt x x"
    and trans: "lt x y \<Longrightarrow> lt y z \<Longrightarrow> lt x z"
    and not_trans: "\<not> lt x y \<Longrightarrow> \<not> lt y z \<Longrightarrow> \<not> lt x z"
begin

lemma asym: "lt x y \<Longrightarrow> \<not> lt y x"
  using irrefl trans by blast

lemma rising_step:
  assumes r: "rising lt s (h[pos := x]) pos" and pos: "s < pos" and less: "lt x (h ! heap_parent pos)"
  shows "rising lt s ((h[pos := h ! heap_parent pos])[heap_parent pos := x]) (heap_parent pos)"
proof -
  let ?p = "heap_parent pos" and ?g = "h[pos := x]"
  let ?g' = "(h[pos := h ! heap_parent pos])[heap_parent pos := x]"
  have p: "?p < pos" "pos < length h" "s \<le> ?p" "under s ?p"
    using pos r under_parent by (auto simp: rising_def)
  have edge: "\<not> lt (?g ! i) (?g ! heap_parent i)"
    if "i < length h" "i \<noteq> pos" "0 < i" "s \<le> heap_parent i" for i
    using r that by (simp add: rising_def heap_edge_def)
  have grand: "\<not> lt (h ! i) (h ! ?p)" if "i < length h" "0 < i" "heap_parent i = pos" for i
  proof -
    have "i \<noteq> pos" using that heap_parent_less[of i] by auto
    moreover have "\<not> lt (?g ! i) (?g ! ?p)" using r that pos unfolding rising_def by simp
    ultimately show ?thesis using p by simp
  qed
  have nth: "?g' ! i = (if i = ?p then x else if i = pos then h ! ?p else h ! i)" if "i < length h" for i
    using that p by auto
  have up: "\<not> lt (?g' ! i) (?g' ! heap_parent i)"
    if i: "i < length h" "i \<noteq> ?p" "0 < i" "s \<le> heap_parent i" for i
  proof -
    have pi: "heap_parent i < length h" "heap_parent i \<noteq> i"
      using heap_parent_less[OF i(3)] i(1) by linarith+
    consider "i = pos" | "i \<noteq> pos" "heap_parent i = pos" | "i \<noteq> pos" "heap_parent i = ?p"
      | "i \<noteq> pos" "heap_parent i \<noteq> pos" "heap_parent i \<noteq> ?p" by blast
    then show ?thesis
    proof cases
      case 1
      then show ?thesis using i pi p asym[OF less] by (simp add: nth)
    next
      case 2
      then show ?thesis using i pi p grand[of i] by (simp add: nth)
    next
      case 3
      then show ?thesis using i pi p edge[of i] less trans by (auto simp: nth)
    next
      case 4
      then show ?thesis using i pi p edge[of i] by (simp add: nth)
    qed
  qed
  have down: "\<not> lt (?g' ! i) (?g' ! heap_parent ?p)"
    if i: "i < length h" "0 < i" "heap_parent i = ?p" "s < ?p" for i
  proof -
    have pp: "heap_parent ?p < ?p" using i(4) by simp
    have e: "\<not> lt (h ! ?p) (h ! heap_parent ?p)"
      using edge[of ?p] p i(4) under_parent[OF p(4) i(4)] pp by simp
    have "?g' ! heap_parent ?p = h ! heap_parent ?p" using nth pp p by simp
    moreover have "?g' ! i = (if i = pos then h ! ?p else h ! i)" using nth i heap_parent_less[of i] by auto
    moreover have "\<not> lt (h ! i) (h ! ?p)" if "i \<noteq> pos" using edge[of i] i p that by simp
    ultimately show ?thesis using e not_trans by (cases "i = pos") auto
  qed
  show ?thesis using p up down by (simp add: rising_def heap_edge_def)
qed

lemma siftdown_correct:
  "rising lt s (h[pos := x]) pos \<Longrightarrow>
    heap_from lt s (siftdown lt h s pos x) \<and> mset (siftdown lt h s pos x) = mset (h[pos := x]) \<and>
    length (siftdown lt h s pos x) = length h"
proof (induction pos arbitrary: h rule: less_induct)
  case (less pos)
  show ?case
  proof (cases "s < pos \<and> lt x (h ! heap_parent pos)")
    case True
    have p: "heap_parent pos < pos" "pos < length h" using True less.prems by (simp_all add: rising_def)
    note IH = less.IH[OF p(1) rising_step[OF less.prems]]
    have "mset (h[pos := h ! heap_parent pos, heap_parent pos := x]) = mset (h[pos := x])"
      using mset_hole[of pos h "heap_parent pos" x] p by simp
    then show ?thesis using IH True by (subst (1 2 3) siftdown.simps) simp
  next
    case False
    have "heap_edge lt (h[pos := x]) pos" if "0 < pos" "s \<le> heap_parent pos"
    proof -
      have "s < pos" "heap_parent pos < pos" using that heap_parent_less[of pos] by linarith+
      then show ?thesis using False less.prems by (simp add: heap_edge_def rising_def nth_list_update irrefl)
    qed
    then have "heap_from lt s (h[pos := x])" using less.prems by (auto simp: heap_from_def rising_def)
    then show ?thesis using False by (subst (1 2 3) siftdown.simps) auto
  qed
qed

lemma sink_step:
  assumes k: "sinking lt s h pos" and leaf: "2 * pos + 1 < length h"
  defines "c \<equiv> smaller_child lt h pos"
  shows "sinking lt s (h[pos := h ! c]) c"
proof -
  note C = smaller_child[OF leaf, of lt, folded c_def]
  let ?h' = "h[pos := h ! c]"
  have p: "pos < length h" "under s pos" "s \<le> pos" using k under_ge by (auto simp: sinking_def)
  have under_c: "under s c" using under_child[OF p(2)] C by simp
  have min: "\<not> lt (h ! i) (h ! c)" if "0 < i" "i < length h" "heap_parent i = pos" for i
  proof -
    have "i = 2 * pos + 1 \<or> i = 2 * pos + 2" using that heap_parent_child by blast
    then show ?thesis using that(2) irrefl asym
      by (auto simp: c_def smaller_child_def Let_def)
  qed
  have edge: "\<not> lt (h ! i) (h ! heap_parent i)"
    if "i < length h" "i \<noteq> pos" "heap_parent i \<noteq> pos" "0 < i" "s \<le> heap_parent i" for i
    using k that by (simp add: sinking_def heap_edge_def)
  have up: "\<not> lt (?h' ! i) (?h' ! heap_parent i)"
    if i: "i < length h" "i \<noteq> c" "heap_parent i \<noteq> c" "0 < i" "s \<le> heap_parent i" for i
  proof -
    have pi: "heap_parent i < length h" "heap_parent i \<noteq> i"
      using heap_parent_less[OF i(4)] i(1) by linarith+
    consider "i = pos" | "i \<noteq> pos" "heap_parent i = pos" | "i \<noteq> pos" "heap_parent i \<noteq> pos" by blast
    then show ?thesis
    proof cases
      case 1
      then have "s < pos" using pi(2) heap_parent_less[OF i(4)] i(5) by linarith
      then have "\<not> lt (h ! c) (h ! heap_parent pos)" using k C by (auto simp: sinking_def)
      then show ?thesis using 1 i pi by simp
    next
      case 2
      then show ?thesis using i pi min[of i] p by simp
    next
      case 3
      then show ?thesis using i pi edge[of i] by simp
    qed
  qed
  have down: "\<not> lt (?h' ! i) (?h' ! heap_parent c)" if i: "i < length h" "0 < i" "heap_parent i = c" for i
  proof -
    have "c < i" using heap_parent_less[OF i(2)] i(3) by simp
    then have ne: "i \<noteq> pos" "heap_parent i \<noteq> pos" "s \<le> heap_parent i" using C p i by auto
    have "\<not> lt (h ! i) (h ! c)" using edge[OF i(1) ne(1,2) i(2) ne(3)] i(3) by simp
    then show ?thesis using C p ne by simp
  qed
  show ?thesis using C under_c up down by (simp add: sinking_def heap_edge_def)
qed

lemma sink_correct:
  assumes "sink lt h pos = (h', leaf)" "sinking lt s h pos"
  shows "sinking lt s h' leaf \<and> length h' = length h \<and> \<not> 2 * leaf + 1 < length h \<and>
    mset (h'[leaf := x]) = mset (h[pos := x])"
  using assms
proof (induction "length h - pos" arbitrary: h pos rule: less_induct)
  case less
  show ?case
  proof (cases "2 * pos + 1 < length h")
    case True
    let ?c = "smaller_child lt h pos"
    note C = smaller_child[OF True, of lt]
    have run: "sink lt (h[pos := h ! ?c]) ?c = (h', leaf)"
      using less.prems(1) True by (subst (asm) sink.simps) (simp add: Let_def)
    have meas: "length (h[pos := h ! ?c]) - ?c < length h - pos" using C by (simp add: diff_less_mono2)
    have "mset (h[pos := h ! ?c, ?c := x]) = mset (h[pos := x])"
      using mset_hole[of pos h ?c x] C True by simp
    with less.hyps[OF meas run sink_step[OF less.prems(2) True]] show ?thesis by simp
  next
    case False
    then have "h' = h" "leaf = pos" using less.prems(1) by (simp_all add: sink.simps[of lt h pos])
    then show ?thesis using less.prems(2) False by simp
  qed
qed

lemma siftup_correct:
  assumes h: "heap_from lt (Suc s) h" and s: "s < length h"
  shows "heap_from lt s (siftup lt h s) \<and> mset (siftup lt h s) = mset h \<and> length (siftup lt h s) = length h"
proof -
  obtain h' leaf where run: "sink lt h s = (h', leaf)" by (cases "sink lt h s")
  have "sinking lt s h s" using h s by (auto simp: sinking_def heap_from_def)
  note S = sink_correct[OF run this, of "h ! s"]
  have "rising lt s (h'[leaf := h ! s]) leaf"
  proof -
    have k: "sinking lt s h' leaf" and len: "length h' = length h" "\<not> 2 * leaf + 1 < length h" using S by auto
    have kids: "heap_parent i \<noteq> leaf" if "i < length h" "0 < i" for i
      using heap_parent_child[OF that(2), of leaf] that(1) len(2) by auto
    have "heap_edge lt (h'[leaf := h ! s]) i"
      if "i < length h" "i \<noteq> leaf" "0 < i" "s \<le> heap_parent i" for i
      using k len(1) that kids[OF that(1,3)] by (simp add: sinking_def heap_edge_def)
    then show ?thesis using k len(1) kids by (simp add: rising_def sinking_def)
  qed
  note D = siftdown_correct[OF this]
  show ?thesis using D S s by (simp add: siftup_def run)
qed

lemma heap_root_min:
  assumes "heap_from lt 0 h" "i < length h"
  shows "\<not> lt (h ! i) (h ! 0)"
  using assms(2)
proof (induction i rule: less_induct)
  case (less i)
  show ?case
  proof (cases "i = 0")
    case False
    then have "\<not> lt (h ! i) (h ! heap_parent i)" using assms(1) less.prems by (simp add: heap_from_def heap_edge_def)
    moreover have "heap_parent i < i" using False by simp
    then have "\<not> lt (h ! heap_parent i) (h ! 0)" using less.IH less.prems by simp
    ultimately show ?thesis by (rule not_trans)
  qed (simp add: irrefl)
qed

lemma heappush_correct:
  assumes "heap_from lt 0 h"
  shows "heap_from lt 0 (heappush lt x h) \<and> mset (heappush lt x h) = add_mset x (mset h)"
proof -
  have "rising lt 0 ((h @ [x])[length h := x]) (length h)"
  proof -
    have u: "under 0 i" for i
    proof (induction i rule: less_induct)
      case (less i)
      then show ?case by (subst under.simps) simp
    qed
    have "heap_parent i \<noteq> length h" if "i < Suc (length h)" "0 < i" for i
      using heap_parent_less[OF that(2)] that(1) by linarith
    moreover have "heap_parent i < length h" if "i < length h" "0 < i" for i
      using heap_parent_less[OF that(2)] that(1) by linarith
    ultimately show ?thesis using assms u by (auto simp: rising_def heap_from_def heap_edge_def nth_append)
  qed
  from siftdown_correct[OF this] show ?thesis by (simp add: heappush_def)
qed

lemma heappop_correct:
  assumes h: "heap_from lt 0 h" and pop: "heappop lt h = Inr (x, h')"
  shows "heap_from lt 0 h' \<and> mset h = add_mset x (mset h') \<and> x = h ! 0 \<and> (\<forall>y \<in> set h. \<not> lt y x)"
proof -
  have ne: "h \<noteq> []" using pop by (auto simp: heappop_def)
  have min: "\<forall>y \<in> set h. \<not> lt y (h ! 0)" using heap_root_min[OF h] by (auto simp: in_set_conv_nth)
  show ?thesis
  proof (cases "butlast h")
    case Nil
    then obtain y where "h = [y]" using ne by (metis append_butlast_last_id append_Nil)
    then show ?thesis using pop irrefl by (simp add: heappop_def heap_from_def)
  next
    case (Cons y rest)
    have hh: "h = y # rest @ [last h]" using Cons ne by (metis append_Cons append_butlast_last_id)
    then have x: "x = y" "h' = siftup lt (last h # rest) 0" using pop ne Cons by (auto simp: heappop_def)
    have "heap_from lt (Suc 0) (last h # rest)"
      unfolding heap_from_def
    proof (intro allI impI)
      fix i assume i: "i < length (last h # rest)" "0 < i" "Suc 0 \<le> heap_parent i"
      have len: "i < length h" using i(1) by (subst hh) simp
      have e: "heap_edge lt h i" using h i len unfolding heap_from_def by simp
      have same: "h ! j = (last h # rest) ! j" if "0 < j" "j < length (last h # rest)" for j
        using that by (subst hh, cases j) (simp_all add: nth_append)
      show "heap_edge lt (last h # rest) i"
        using e same[of i] same[of "heap_parent i"] i heap_parent_less[OF i(2)] by (simp add: heap_edge_def)
    qed
    from siftup_correct[OF this] have S: "heap_from lt 0 h'" "mset h' = mset (last h # rest)" by (simp_all add: x)
    have "mset h = add_mset y (mset (last h # rest))" by (subst hh) simp
    moreover have "x = h ! 0" by (subst hh) (simp add: x)
    ultimately show ?thesis using S min x by simp
  qed
qed

lemma heapify_correct: "heap_from lt 0 (heapify lt h) \<and> mset (heapify lt h) = mset h"
proof -
  have step: "heap_from lt 0 (fold (\<lambda>i h. siftup lt h i) (rev [0..<n]) g) \<and>
      mset (fold (\<lambda>i h. siftup lt h i) (rev [0..<n]) g) = mset g"
    if "heap_from lt n g" "n \<le> length g" for n g
    using that
  proof (induction n arbitrary: g)
    case (Suc n)
    have S: "heap_from lt n (siftup lt g n) \<and> mset (siftup lt g n) = mset g \<and> length (siftup lt g n) = length g"
      using Suc.prems by (intro siftup_correct) simp_all
    with Suc.IH[of "siftup lt g n"] Suc.prems(2) show ?case by simp
  qed simp
  have "heap_from lt (length h div 2) h"
    by (auto simp: heap_from_def heap_parent_def)
  from step[OF this] show ?thesis by (simp add: heapify_def)
qed

end

end
