(* ===== verification/RequestQueue.thy ===== *)
theory RequestQueue
  imports Heapq Request
begin

text \<open>
  The waiting queues of the scheduler, \<^verbatim>\<open>vllm/v1/core/sched/request_queue.py\<close>: the
  first-come-first-served deque and the priority heap behind one interface.  The locale
  \<open>waiting_queue\<close> is that interface, interpreted on the two classes, and both classes refine a
  plain list: its front is the request that is served next.
\<close>

section \<open>The two queues\<close>

datatype scheduling_policy = FCFS | PRIORITY

text \<open>A deque, front first, or the array \<open>_heap\<close>.  Requests have no \<open>__eq__\<close>: \<open>==\<close>, \<open>in\<close> and
  sets compare object identities.\<close>

datatype request_queue = Fcfs "request list" | Prio "request list"

definition same_request :: "request \<Rightarrow> request \<Rightarrow> bool" where
  "same_request a b \<longleftrightarrow> py_id a = py_id b"

fun create_request_queue :: "scheduling_policy \<Rightarrow> request_queue" where
  "create_request_queue PRIORITY = Prio []"
| "create_request_queue FCFS = Fcfs []"

text \<open>\<open>FCFSRequestQueue\<close>: a deque of requests, front first.\<close>

definition fcfs_add :: "request \<Rightarrow> request list \<Rightarrow> request list" where
  "fcfs_add r q = q @ [r]"

fun fcfs_pop :: "request list \<Rightarrow> (request \<times> request list) res" where
  "fcfs_pop [] = Inl (IndexError ''pop from an empty deque'')"
| "fcfs_pop (r # q) = Inr (r, q)"

definition fcfs_peek :: "request list \<Rightarrow> request res" where
  "fcfs_peek q = (if q = [] then Inl (IndexError ''peek from an empty queue'') else Inr (q ! 0))"

definition fcfs_prepend :: "request \<Rightarrow> request list \<Rightarrow> request list" where
  "fcfs_prepend r q = r # q"

text \<open>The other queue is any iterable of requests, in its own order.\<close>

definition fcfs_prepend_requests :: "request list \<Rightarrow> request list \<Rightarrow> request list" where
  "fcfs_prepend_requests rs q = rev rs @ q"

fun remove_first :: "request \<Rightarrow> request list \<Rightarrow> request list option" where
  "remove_first r [] = None"
| "remove_first r (x # xs) = (if same_request x r then Some xs else map_option ((#) x) (remove_first r xs))"

definition fcfs_remove :: "request \<Rightarrow> request list \<Rightarrow> request list res" where
  "fcfs_remove r q =
     (case remove_first r q of
        None \<Rightarrow> Inl (ValueError ''deque.remove(x): x not in deque'')
      | Some q' \<Rightarrow> Inr q')"

definition keep_others :: "request list \<Rightarrow> request list \<Rightarrow> request list" where
  "keep_others rs q = filter (\<lambda>x. \<not> list_ex (same_request x) rs) q"

definition fcfs_remove_requests :: "request list \<Rightarrow> request list \<Rightarrow> request list" where
  "fcfs_remove_requests rs q = keep_others rs q"

text \<open>\<open>PriorityRequestQueue\<close>: the array \<open>_heap\<close>.  Iterating pops a copy of it until it is empty.\<close>

definition prio_add :: "request \<Rightarrow> request list \<Rightarrow> request list" where
  "prio_add r h = heappush request_lt r h"

definition prio_pop :: "request list \<Rightarrow> (request \<times> request list) res" where
  "prio_pop h = (if h = [] then Inl (IndexError ''pop from empty heap'') else heappop request_lt h)"

definition prio_peek :: "request list \<Rightarrow> request res" where
  "prio_peek h = (if h = [] then Inl (IndexError ''peek from empty heap'') else Inr (h ! 0))"

definition prio_prepend :: "request \<Rightarrow> request list \<Rightarrow> request list" where
  "prio_prepend r h = prio_add r h"

definition prio_prepend_requests :: "request list \<Rightarrow> request list \<Rightarrow> request list" where
  "prio_prepend_requests rs h = fold prio_add rs h"

definition prio_remove :: "request \<Rightarrow> request list \<Rightarrow> request list res" where
  "prio_remove r h =
     (case remove_first r h of
        None \<Rightarrow> Inl (ValueError ''list.remove(x): x not in list'')
      | Some h' \<Rightarrow> Inr (heapify request_lt h'))"

definition prio_remove_requests :: "request list \<Rightarrow> request list \<Rightarrow> request list" where
  "prio_remove_requests rs h = heapify request_lt (keep_others rs h)"

function heap_iter :: "request list \<Rightarrow> request list" where
  "heap_iter h = (case heappop request_lt h of Inl _ \<Rightarrow> [] | Inr (r, h') \<Rightarrow> r # heap_iter h')"
  by pat_completeness auto
termination
  by (relation "measure length") (auto dest: heappop_length)

declare heap_iter.simps [simp del]

text \<open>Method calls on either class.\<close>

fun rq_add :: "request \<Rightarrow> request_queue \<Rightarrow> request_queue" where
  "rq_add r (Fcfs q) = Fcfs (fcfs_add r q)"
| "rq_add r (Prio h) = Prio (prio_add r h)"

fun rq_pop :: "request_queue \<Rightarrow> (request \<times> request_queue) res" where
  "rq_pop (Fcfs q) = bind_res (fcfs_pop q) (\<lambda>(r, q'). Inr (r, Fcfs q'))"
| "rq_pop (Prio h) = bind_res (prio_pop h) (\<lambda>(r, h'). Inr (r, Prio h'))"

fun rq_peek :: "request_queue \<Rightarrow> request res" where
  "rq_peek (Fcfs q) = fcfs_peek q"
| "rq_peek (Prio h) = prio_peek h"

fun rq_prepend :: "request \<Rightarrow> request_queue \<Rightarrow> request_queue" where
  "rq_prepend r (Fcfs q) = Fcfs (fcfs_prepend r q)"
| "rq_prepend r (Prio h) = Prio (prio_prepend r h)"

fun rq_prepend_requests :: "request list \<Rightarrow> request_queue \<Rightarrow> request_queue" where
  "rq_prepend_requests rs (Fcfs q) = Fcfs (fcfs_prepend_requests rs q)"
| "rq_prepend_requests rs (Prio h) = Prio (prio_prepend_requests rs h)"

fun rq_remove :: "request \<Rightarrow> request_queue \<Rightarrow> request_queue res" where
  "rq_remove r (Fcfs q) = bind_res (fcfs_remove r q) (\<lambda>q'. Inr (Fcfs q'))"
| "rq_remove r (Prio h) = bind_res (prio_remove r h) (\<lambda>h'. Inr (Prio h'))"

fun rq_remove_requests :: "request list \<Rightarrow> request_queue \<Rightarrow> request_queue" where
  "rq_remove_requests rs (Fcfs q) = Fcfs (fcfs_remove_requests rs q)"
| "rq_remove_requests rs (Prio h) = Prio (prio_remove_requests rs h)"

fun rq_iter :: "request_queue \<Rightarrow> request list" where
  "rq_iter (Fcfs q) = q"
| "rq_iter (Prio h) = heap_iter h"

fun rq_len :: "request_queue \<Rightarrow> nat" where
  "rq_len (Fcfs q) = length q"
| "rq_len (Prio h) = length h"

definition rq_bool :: "request_queue \<Rightarrow> bool" where
  "rq_bool q \<longleftrightarrow> 0 < rq_len q"

lemma fcfs_pop_eq [simp]:
  "fcfs_pop q = (if q = [] then Inl (IndexError ''pop from an empty deque'') else Inr (q ! 0, tl q))"
  by (cases q) simp_all

lemmas [simp] = fcfs_add_def fcfs_peek_def fcfs_prepend_def fcfs_prepend_requests_def fcfs_remove_def
  fcfs_remove_requests_def prio_add_def prio_pop_def prio_peek_def prio_prepend_def prio_remove_def
  prio_remove_requests_def

section \<open>The interface\<close>

text \<open>What the scheduler relies on: the contents change as the operations say, and iterating shows
  the order in which \<open>pop\<close> serves.\<close>

locale waiting_queue =
  fixes inv :: "'q \<Rightarrow> bool"
    and elems :: "'q \<Rightarrow> 'r multiset"
    and add :: "'r \<Rightarrow> 'q \<Rightarrow> 'q"
    and pop :: "'q \<Rightarrow> ('r \<times> 'q) res"
    and peek :: "'q \<Rightarrow> 'r res"
    and iter :: "'q \<Rightarrow> 'r list"
  assumes inv_add: "inv q \<Longrightarrow> inv (add r q)"
    and elems_add: "inv q \<Longrightarrow> elems (add r q) = add_mset r (elems q)"
    and pop_some: "inv q \<Longrightarrow> pop q = Inr (r, q') \<Longrightarrow> inv q' \<and> elems q = add_mset r (elems q') \<and> peek q = Inr r"
    and pop_none: "inv q \<Longrightarrow> pop q = Inl e \<Longrightarrow> elems q = {#}"
    and iter_pop: "inv q \<Longrightarrow> iter q = (case pop q of Inl _ \<Rightarrow> [] | Inr (r, q') \<Rightarrow> r # iter q')"
begin

lemma iter_elems: "inv q \<Longrightarrow> mset (iter q) = elems q"
proof (induction "size (elems q)" arbitrary: q)
  case 0
  then have "pop q = Inr x \<Longrightarrow> False" for x using pop_some[of q "fst x" "snd x"] by auto
  then obtain e where "pop q = Inl e" by (cases "pop q") auto
  then show ?case using 0 iter_pop[of q] by simp
next
  case (Suc n)
  then have "pop q \<noteq> Inl e" for e using pop_none[of q e] by auto
  then obtain r q' where p: "pop q = Inr (r, q')" by (cases "pop q") auto
  note P = pop_some[OF Suc.prems p]
  then have "n = size (elems q')" using Suc.hyps(2) by simp
  from Suc.hyps(1)[OF this] P show ?case using iter_pop[OF Suc.prems] p by simp
qed

lemma pop_iff: "inv q \<Longrightarrow> (\<exists>x. pop q = Inr x) \<longleftrightarrow> elems q \<noteq> {#}"
  using pop_some pop_none by (cases "pop q") force+

lemma pop_hd:
  assumes "inv q" "iter q = r # rs"
  shows "\<exists>q'. pop q = Inr (r, q') \<and> inv q' \<and> iter q' = rs \<and> peek q = Inr r"
  using iter_pop[OF assms(1)] pop_some[OF assms(1)] assms(2) by (cases "pop q") auto

end

section \<open>Laws of the implementations\<close>

interpretation rh: heap_order request_lt
proof
  show "\<not> request_lt x x" for x by simp
  show "request_lt x y \<Longrightarrow> request_lt y z \<Longrightarrow> request_lt x z" for x y z by (rule request_lt_trans)
  show "\<not> request_lt x z" if "\<not> request_lt x y" "\<not> request_lt y z" for x y z
    using that string_less_linear[of "request_id x" "request_id y"] string_less_linear[of "request_id y" "request_id z"]
      string_less_trans[of "request_id z" "request_id y" "request_id x"] string_less_asym[of "request_id x" "request_id z"]
    by (auto simp: request_lt_def split: if_splits)
qed

fun rq_elems :: "request_queue \<Rightarrow> request multiset" where
  "rq_elems (Fcfs q) = mset q"
| "rq_elems (Prio h) = mset h"

fun rq_heap :: "request_queue \<Rightarrow> bool" where
  "rq_heap (Fcfs q) = True"
| "rq_heap (Prio h) = heap_from request_lt 0 h"

interpretation rq: waiting_queue rq_heap rq_elems rq_add rq_pop rq_peek rq_iter
proof
  fix q r assume "rq_heap q"
  then show "rq_heap (rq_add r q)" "rq_elems (rq_add r q) = add_mset r (rq_elems q)"
    using rh.heappush_correct by (cases q; simp)+
next
  fix q r q' assume q: "rq_heap q" "rq_pop q = Inr (r, q')"
  show "rq_heap q' \<and> rq_elems q = add_mset r (rq_elems q') \<and> rq_peek q = Inr r"
  proof (cases q)
    case (Prio h)
    with q obtain h' where
      "h \<noteq> []" "heappop request_lt h = Inr (r, h')" "q' = Prio h'" "heap_from request_lt 0 h"
      by (auto split: if_splits)
    with Prio rh.heappop_correct[of h r h'] show ?thesis by simp
  qed (use q in \<open>auto split: if_splits simp: neq_Nil_conv\<close>)
next
  fix q e assume "rq_heap q" "rq_pop q = Inl e"
  then show "rq_elems q = {#}"
    by (cases q rule: rq_pop.cases) (auto simp: heappop_def Let_def bind_res_eq_Inl split: if_splits)
next
  fix q assume "rq_heap q"
  then show "rq_iter q = (case rq_pop q of Inl _ \<Rightarrow> [] | Inr (r, q') \<Rightarrow> r # rq_iter q')"
    by (cases q) (auto simp: heap_iter.simps heappop_def neq_Nil_conv split: sum.split)
qed

section \<open>Refinement of a list\<close>

text \<open>The abstract queue is the list of waiting requests, next one first: the priority policy inserts
  in scheduling order, first-come-first-served appends.\<close>

fun insert_by_priority :: "request \<Rightarrow> request list \<Rightarrow> request list" where
  "insert_by_priority r [] = [r]"
| "insert_by_priority r (x # xs) = (if request_lt r x then r # x # xs else x # insert_by_priority r xs)"

fun spec_add :: "scheduling_policy \<Rightarrow> request \<Rightarrow> request list \<Rightarrow> request list" where
  "spec_add FCFS r xs = xs @ [r]"
| "spec_add PRIORITY r xs = insert_by_priority r xs"

fun spec_prepend_requests :: "scheduling_policy \<Rightarrow> request list \<Rightarrow> request list \<Rightarrow> request list" where
  "spec_prepend_requests FCFS rs xs = rev rs @ xs"
| "spec_prepend_requests PRIORITY rs xs = fold insert_by_priority rs xs"

fun rq_policy :: "request_queue \<Rightarrow> scheduling_policy" where
  "rq_policy (Fcfs q) = FCFS"
| "rq_policy (Prio h) = PRIORITY"

text \<open>A request waits at most once in a queue.\<close>

definition ids :: "request list \<Rightarrow> int list" where
  "ids = map py_id"

inductive rq_reach :: "scheduling_policy \<Rightarrow> request_queue \<Rightarrow> bool" where
  rq_create: "rq_reach p (create_request_queue p)"
| rq_added: "rq_reach p q \<Longrightarrow> py_id r \<notin> set (ids (rq_iter q)) \<Longrightarrow> rq_reach p (rq_add r q)"
| rq_popped: "rq_reach p q \<Longrightarrow> rq_pop q = Inr (r, q') \<Longrightarrow> rq_reach p q'"
| rq_prepended: "rq_reach p q \<Longrightarrow> py_id r \<notin> set (ids (rq_iter q)) \<Longrightarrow> rq_reach p (rq_prepend r q)"
| rq_prepended_all: "rq_reach p q \<Longrightarrow> distinct (ids (rs @ rq_iter q)) \<Longrightarrow> rq_reach p (rq_prepend_requests rs q)"
| rq_removed: "rq_reach p q \<Longrightarrow> rq_remove r q = Inr q' \<Longrightarrow> rq_reach p q'"
| rq_removed_all: "rq_reach p q \<Longrightarrow> rq_reach p (rq_remove_requests rs q)"

definition rq_inv :: "scheduling_policy \<Rightarrow> request_queue \<Rightarrow> bool" where
  "rq_inv p q \<longleftrightarrow> rq_policy q = p \<and> rq_heap q \<and> distinct (ids (rq_iter q))"

lemma ids_mset: "mset xs = mset ys \<Longrightarrow> distinct (ids xs) = distinct (ids ys) \<and> set (ids xs) = set (ids ys)"
proof -
  assume "mset xs = mset ys"
  then have m: "mset (ids xs) = mset (ids ys)" by (simp add: ids_def)
  show ?thesis using mset_eq_imp_distinct_iff[OF m] mset_eq_setD[OF m] by blast
qed

lemma sorted_unique_list:
  assumes "sorted_wrt request_lt xs" "sorted_wrt request_lt ys" "set xs = set ys"
  shows "xs = ys"
  using assms
proof (induction xs arbitrary: ys)
  case (Cons x xs)
  then obtain y ys' where ys: "ys = y # ys'" by (cases ys) auto
  have irr: "x \<notin> set xs" "y \<notin> set ys'" using Cons.prems ys by auto
  have "x = y"
  proof (rule ccontr)
    assume "x \<noteq> y"
    then have "y \<in> set xs" "x \<in> set ys'" using Cons.prems(3) ys by auto
    then have "request_lt x y" "request_lt y x" using Cons.prems ys by auto
    then show False using rh.asym by blast
  qed
  moreover have "set xs = set ys'" using irr Cons.prems(3) ys \<open>x = y\<close> by auto
  ultimately show ?case using Cons ys by auto
qed simp

lemma heap_iter_mset: "heap_from request_lt 0 h \<Longrightarrow> mset (heap_iter h) = mset h"
  using rq.iter_elems[of "Prio h"] by simp

lemma heap_iter_sorted:
  assumes "heap_from request_lt 0 h" "distinct (ids h)"
  shows "sorted_wrt request_lt (heap_iter h)"
  using assms
proof (induction h rule: heap_iter.induct)
  case (1 h)
  show ?case
  proof (cases "heappop request_lt h")
    case (Inr x)
    then obtain r h' where p: "heappop request_lt h = Inr (r, h')" by (cases x) auto
    note P = rh.heappop_correct[OF "1.prems"(1) p]
    have d: "distinct (ids (r # h'))" using ids_mset[of h "r # h'"] P "1.prems"(2) by simp
    have set: "set (heap_iter h') = set h'" using P heap_iter_mset mset_eq_setD by blast
    have "request_lt r y" if "y \<in> set h'" for y
    proof -
      have "py_id r \<noteq> py_id y" using d that by (auto simp: ids_def)
      moreover have "y \<in> set h" using P that mset_eq_setD[of h "r # h'"] by simp
      then have "\<not> request_lt y r" using P by blast
      ultimately show ?thesis using request_lt_linear by blast
    qed
    moreover have "sorted_wrt request_lt (heap_iter h')"
      using "1.IH"[OF p] P d by (simp add: ids_def)
    ultimately show ?thesis using p set by (simp add: heap_iter.simps[of h])
  qed (simp add: heap_iter.simps[of h])
qed

lemma insert_by_priority_mset [simp]: "mset (insert_by_priority r xs) = add_mset r (mset xs)"
  by (induction xs) auto

lemma insert_by_priority_sorted:
  assumes "sorted_wrt request_lt xs" "py_id r \<notin> set (ids xs)"
  shows "sorted_wrt request_lt (insert_by_priority r xs)"
  using assms
proof (induction xs)
  case (Cons x xs)
  have set: "set (insert_by_priority r xs) = insert r (set xs)"
    using mset_eq_setD[of "insert_by_priority r xs" "r # xs"] by simp
  show ?case
  proof (cases "request_lt r x")
    case True
    then show ?thesis using Cons.prems(1) by (auto intro: request_lt_trans)
  next
    case False
    then have "request_lt x r" using request_lt_linear[of x r] Cons.prems(2) by (auto simp: ids_def)
    then show ?thesis using Cons False set by (auto simp: ids_def)
  qed
qed simp

lemma fold_insert_mset: "mset (fold insert_by_priority rs xs) = mset rs + mset xs"
  by (induction rs arbitrary: xs) auto

lemma fold_insert_sorted:
  assumes "sorted_wrt request_lt xs" "distinct (ids (rs @ xs))"
  shows "sorted_wrt request_lt (fold insert_by_priority rs xs)"
  using assms
proof (induction rs arbitrary: xs)
  case (Cons r rs)
  have "mset (rs @ insert_by_priority r xs) = mset ((r # rs) @ xs)" by simp
  then have "distinct (ids (rs @ insert_by_priority r xs))" using ids_mset Cons.prems(2) by blast
  with Cons.IH[OF insert_by_priority_sorted] Cons.prems show ?case by (simp add: ids_def)
qed simp

text \<open>A heap with given contents shows the one sorted list of them.\<close>

lemma heap_iter_is:
  assumes "heap_from request_lt 0 h" "mset h = mset xs" "sorted_wrt request_lt xs" "distinct (ids xs)"
  shows "heap_iter h = xs"
proof (rule sorted_unique_list[OF _ assms(3)])
  show "sorted_wrt request_lt (heap_iter h)"
    using heap_iter_sorted[OF assms(1)] ids_mset[OF assms(2)] assms(4) by simp
  show "set (heap_iter h) = set xs" using heap_iter_mset[OF assms(1)] assms(2) mset_eq_setD by metis
qed

lemma remove_first_None: "remove_first r xs = None \<longleftrightarrow> py_id r \<notin> set (ids xs)"
  by (induction xs) (auto simp: same_request_def ids_def)

lemma remove_first_keep:
  "distinct (ids xs) \<Longrightarrow> remove_first r xs = Some ys \<Longrightarrow> ys = keep_others [r] xs"
proof (induction xs arbitrary: ys)
  case (Cons x xs)
  show ?case
  proof (cases "same_request x r")
    case True
    then have "py_id r \<notin> py_id ` set xs" using Cons.prems(1) by (simp add: same_request_def ids_def)
    then have "filter (\<lambda>x. \<not> same_request x r) xs = xs"
      unfolding filter_id_conv same_request_def by (metis imageI)
    then show ?thesis using Cons.prems(2) True by (simp add: keep_others_def)
  qed (use Cons in \<open>auto simp: keep_others_def ids_def\<close>)
qed simp

lemma keep_others_sub: "mset (keep_others rs xs) = filter_mset (\<lambda>x. \<not> list_ex (same_request x) rs) (mset xs)"
  by (simp add: keep_others_def)

lemma keep_others_sorted: "sorted_wrt request_lt xs \<Longrightarrow> sorted_wrt request_lt (keep_others rs xs)"
  by (simp add: keep_others_def sorted_wrt_filter)

lemma keep_others_distinct: "distinct (ids xs) \<Longrightarrow> distinct (ids (keep_others rs xs))"
  unfolding ids_def keep_others_def by (induction xs) auto


section \<open>Every reachable queue\<close>

lemma prio_prepend_requests:
  assumes "heap_from request_lt 0 h" "distinct (ids (rs @ h))"
  shows "\<exists>h'. prio_prepend_requests rs h = h' \<and> heap_from request_lt 0 h' \<and> mset h' = mset rs + mset h"
  using assms
proof (induction rs arbitrary: h)
  case (Cons r rs)
  note P = rh.heappush_correct[OF Cons.prems(1), of r]
  have "mset (rs @ heappush request_lt r h) = mset ((r # rs) @ h)" using P by simp
  then have "distinct (ids (rs @ heappush request_lt r h))" using ids_mset Cons.prems(2) by blast
  with Cons.IH[of "heappush request_lt r h"] P show ?case by (simp add: prio_prepend_requests_def)
qed (simp add: prio_prepend_requests_def)

lemma prio_inv:
  assumes "rq_inv PRIORITY q"
  shows "\<exists>h. q = Prio h \<and> heap_from request_lt 0 h \<and> distinct (ids h) \<and> sorted_wrt request_lt (heap_iter h)"
proof (cases q)
  case (Prio h)
  then have h: "heap_from request_lt 0 h" "distinct (ids h)"
    using assms ids_mset[OF heap_iter_mset[of h]] by (auto simp: rq_inv_def)
  with Prio heap_iter_sorted[OF h] show ?thesis by simp
qed (use assms in \<open>simp add: rq_inv_def\<close>)

lemma fcfs_inv: "rq_inv FCFS q \<Longrightarrow> \<exists>xs. q = Fcfs xs \<and> distinct (ids xs)"
  by (cases q) (auto simp: rq_inv_def)

text \<open>A heap whose contents are those of a sorted list shows that list.\<close>

lemma prio_shows:
  assumes "heap_from request_lt 0 h" "mset h = mset xs" "sorted_wrt request_lt xs" "distinct (ids xs)"
  shows "rq_inv PRIORITY (Prio h) \<and> rq_iter (Prio h) = xs"
  using heap_iter_is[OF assms] assms by (simp add: rq_inv_def)

lemma add_refines:
  assumes "rq_inv p q" "py_id r \<notin> set (ids (rq_iter q))"
  shows "rq_inv p (rq_add r q) \<and> rq_iter (rq_add r q) = spec_add p r (rq_iter q)"
proof (cases p)
  case FCFS
  then show ?thesis using fcfs_inv assms by (fastforce simp: rq_inv_def ids_def)
next
  case PRIORITY
  then obtain h where h: "q = Prio h" "heap_from request_lt 0 h" "distinct (ids h)" "sorted_wrt request_lt (heap_iter h)"
    using prio_inv assms by blast
  have m: "mset (insert_by_priority r (heap_iter h)) = mset (r # h)" using heap_iter_mset[OF h(2)] by simp
  have "py_id r \<notin> set (ids h)" using assms(2) ids_mset[OF heap_iter_mset[OF h(2)]] h(1) by simp
  then have d: "distinct (ids (insert_by_priority r (heap_iter h)))" using ids_mset[OF m] h(3) by (simp add: ids_def)
  have "heap_from request_lt 0 (heappush request_lt r h)" "mset (heappush request_lt r h) = mset (insert_by_priority r (heap_iter h))"
    using rh.heappush_correct[OF h(2), of r] m by simp_all
  from prio_shows[OF this insert_by_priority_sorted[OF h(4)] d] assms(2) h(1) PRIORITY show ?thesis by simp
qed

lemma prepend_all_refines:
  assumes "rq_inv p q" "distinct (ids (rs @ rq_iter q))"
  shows "rq_inv p (rq_prepend_requests rs q) \<and>
    rq_iter (rq_prepend_requests rs q) = spec_prepend_requests p rs (rq_iter q)"
proof (cases p)
  case FCFS
  then show ?thesis using fcfs_inv assms by (fastforce simp: rq_inv_def ids_def simp flip: rev_map)
next
  case PRIORITY
  then obtain h where h: "q = Prio h" "heap_from request_lt 0 h" "distinct (ids h)" "sorted_wrt request_lt (heap_iter h)"
    using prio_inv assms by blast
  have "mset (rs @ heap_iter h) = mset (rs @ h)" using heap_iter_mset[OF h(2)] by simp
  then have dh: "distinct (ids (rs @ h))" using ids_mset assms(2) h(1) by fastforce
  obtain h' where h': "prio_prepend_requests rs h = h'" "heap_from request_lt 0 h'" "mset h' = mset rs + mset h"
    using prio_prepend_requests[OF h(2) dh] by blast
  let ?s = "fold insert_by_priority rs (heap_iter h)"
  have m: "mset h' = mset ?s" using h'(3) heap_iter_mset[OF h(2)] by (simp add: fold_insert_mset)
  have "mset ?s = mset (rs @ h)" using m h'(3) by simp
  then have "distinct (ids ?s)" using ids_mset dh by blast
  with prio_shows[OF h'(2) m fold_insert_sorted[OF h(4)]] assms(2) h(1) h'(1) PRIORITY show ?thesis by simp
qed

lemma remove_all_refines:
  assumes "rq_inv p q"
  shows "rq_inv p (rq_remove_requests rs q) \<and> rq_iter (rq_remove_requests rs q) = keep_others rs (rq_iter q)"
proof (cases p)
  case FCFS
  then show ?thesis using fcfs_inv assms keep_others_distinct by (fastforce simp: rq_inv_def)
next
  case PRIORITY
  then obtain h where h: "q = Prio h" "heap_from request_lt 0 h" "distinct (ids h)" "sorted_wrt request_lt (heap_iter h)"
    using prio_inv assms by blast
  let ?h = "heapify request_lt (keep_others rs h)"
  have m: "mset ?h = mset (keep_others rs (heap_iter h))"
    using rh.heapify_correct[of "keep_others rs h"] heap_iter_mset[OF h(2)] by (simp add: keep_others_sub)
  have "distinct (ids (heap_iter h))" using ids_mset[OF heap_iter_mset[OF h(2)]] h(3) by simp
  with prio_shows[OF _ m keep_others_sorted[OF h(4)] keep_others_distinct] rh.heapify_correct h(1) PRIORITY
  show ?thesis by simp
qed

lemma remove_refines:
  assumes "rq_inv p q"
  shows "case rq_remove r q of
      Inl e \<Rightarrow> py_id r \<notin> set (ids (rq_iter q)) \<and> (\<exists>m. e = ValueError m)
    | Inr q' \<Rightarrow> py_id r \<in> set (ids (rq_iter q)) \<and> q' = rq_remove_requests [r] q"
proof (cases q)
  case (Fcfs xs)
  then show ?thesis using assms remove_first_None[of r xs] remove_first_keep[of xs r]
    by (cases "remove_first r xs") (auto simp: rq_inv_def)
next
  case (Prio h)
  then have h: "heap_from request_lt 0 h" "distinct (ids h)"
    using assms ids_mset[OF heap_iter_mset[of h]] by (auto simp: rq_inv_def)
  have s: "set (ids (heap_iter h)) = set (ids h)" using ids_mset[OF heap_iter_mset[OF h(1)]] by simp
  show ?thesis using h(2) s remove_first_None[of r h] remove_first_keep[of h r] Prio
    by (cases "remove_first r h") auto
qed

lemma pop_refines:
  assumes "rq_inv p q"
  shows "case rq_iter q of
      [] \<Rightarrow> (\<exists>m. rq_pop q = Inl (IndexError m)) \<and> (\<exists>m. rq_peek q = Inl (IndexError m))
    | r # rs \<Rightarrow> \<exists>q'. rq_pop q = Inr (r, q') \<and> rq_peek q = Inr r \<and> rq_inv p q' \<and> rq_iter q' = rs"
proof -
  have hp: "rq_heap q" using assms by (simp add: rq_inv_def)
  show ?thesis
  proof (cases "rq_iter q")
    case Nil
    then have "rq_elems q = {#}" using rq.iter_elems[OF hp] by simp
    then show ?thesis using Nil by (cases q rule: rq_pop.cases) auto
  next
    case (Cons r rs)
    then obtain q' where q': "rq_pop q = Inr (r, q')" "rq_heap q'" "rq_iter q' = rs" "rq_peek q = Inr r"
      using rq.pop_hd[OF hp] by blast
    have "rq_policy q' = rq_policy q"
      using q'(1) by (cases q rule: rq_pop.cases) (auto split: if_splits)
    then show ?thesis using q' Cons assms by (simp add: rq_inv_def ids_def)
  qed
qed

lemma prepend_refines:
  assumes "rq_inv p q" "py_id r \<notin> set (ids (rq_iter q))"
  shows "rq_inv p (rq_prepend r q) \<and> rq_iter (rq_prepend r q) = spec_prepend_requests p [r] (rq_iter q)"
proof (cases p)
  case FCFS
  then show ?thesis using fcfs_inv assms by (fastforce simp: rq_inv_def ids_def)
next
  case PRIORITY
  then obtain h where "q = Prio h" using prio_inv assms by blast
  then show ?thesis using add_refines[OF assms] PRIORITY by simp
qed

lemma rq_reach_inv: "rq_reach p q \<Longrightarrow> rq_inv p q"
proof (induction rule: rq_reach.induct)
  case (rq_create p)
  then show ?case by (cases p) (simp_all add: rq_inv_def ids_def heap_from_def heap_iter.simps heappop_def)
next
  case (rq_popped p q r q')
  then have "rq_iter q = r # rq_iter q'" using rq.iter_pop[of q] by (simp add: rq_inv_def)
  with pop_refines[OF rq_popped.IH] rq_popped.hyps(2) show ?case by simp
next
  case (rq_removed p q r q')
  then show ?case using remove_refines[OF rq_removed.IH, of r] remove_all_refines by simp
qed (simp_all add: add_refines prepend_refines prepend_all_refines remove_all_refines)

text \<open>C16. Both queue classes are the list their iteration shows.  On every queue reached without
  queueing a request twice, \<open>pop\<close> and \<open>peek\<close> give the front of that list or raise
  \<open>IndexError\<close> when it is empty; adding appends, or inserts in the order of priority, arrival
  time, id and identity; prepending puts the requests in front in reverse order, or inserts
  them; removing filters the list, and removing an absent request raises \<open>ValueError\<close>.\<close>

theorem request_queue_refines_list:
  assumes "rq_reach p q"
  shows "(case rq_iter q of
      [] \<Rightarrow> (\<exists>m. rq_pop q = Inl (IndexError m)) \<and> (\<exists>m. rq_peek q = Inl (IndexError m))
    | r # rs \<Rightarrow> \<exists>q'. rq_pop q = Inr (r, q') \<and> rq_peek q = Inr r \<and> rq_iter q' = rs) \<and>
    (\<forall>r. py_id r \<notin> set (ids (rq_iter q)) \<longrightarrow> rq_iter (rq_add r q) = spec_add p r (rq_iter q)) \<and>
    (\<forall>rs. distinct (ids (rs @ rq_iter q)) \<longrightarrow>
       rq_iter (rq_prepend_requests rs q) = spec_prepend_requests p rs (rq_iter q)) \<and>
    (\<forall>rs. rq_iter (rq_remove_requests rs q) = keep_others rs (rq_iter q)) \<and>
    (\<forall>r. case rq_remove r q of
       Inl e \<Rightarrow> py_id r \<notin> set (ids (rq_iter q)) \<and> (\<exists>m. e = ValueError m)
     | Inr q' \<Rightarrow> py_id r \<in> set (ids (rq_iter q)) \<and> rq_iter q' = keep_others [r] (rq_iter q)) \<and>
    (p = PRIORITY \<longrightarrow> sorted_wrt request_lt (rq_iter q)) \<and> rq_len q = length (rq_iter q)"
proof -
  note inv = rq_reach_inv[OF assms]
  have hp: "rq_heap q" using inv by (simp add: rq_inv_def)
  have srt: "p = PRIORITY \<longrightarrow> sorted_wrt request_lt (rq_iter q)" using prio_inv inv by fastforce
  have "mset (rq_iter q) = rq_elems q" by (rule rq.iter_elems[OF hp])
  then have "length (rq_iter q) = size (rq_elems q)" by (metis size_mset)
  then have "rq_len q = length (rq_iter q)" by (cases q) simp_all
  moreover have "case rq_remove r q of
       Inl e \<Rightarrow> py_id r \<notin> set (ids (rq_iter q)) \<and> (\<exists>m. e = ValueError m)
     | Inr q' \<Rightarrow> py_id r \<in> set (ids (rq_iter q)) \<and> rq_iter q' = keep_others [r] (rq_iter q)" for r
    using remove_refines[OF inv, of r] remove_all_refines[OF inv, of "[r]"] by (auto split: sum.splits)
  moreover have "case rq_iter q of
      [] \<Rightarrow> (\<exists>m. rq_pop q = Inl (IndexError m)) \<and> (\<exists>m. rq_peek q = Inl (IndexError m))
    | r # rs \<Rightarrow> \<exists>q'. rq_pop q = Inr (r, q') \<and> rq_peek q = Inr r \<and> rq_iter q' = rs"
    using pop_refines[OF inv] by (auto split: list.splits)
  ultimately show ?thesis
    using srt add_refines[OF inv] prepend_all_refines[OF inv] remove_all_refines[OF inv] by blast
qed


text \<open>Two requests in a priority queue: the later, more urgent one is served first.\<close>

lemma request_queue_refines_list_witness:
  "rq_iter (rq_add (demo_waiting ''b'' 0 2) (rq_add (demo_waiting ''a'' 1 1) (create_request_queue PRIORITY))) =
     [demo_waiting ''b'' 0 2, demo_waiting ''a'' 1 1]"
proof -
  let ?a = "demo_waiting ''a'' 1 1" and ?q0 = "create_request_queue PRIORITY"
  have r0: "rq_reach PRIORITY ?q0" by (rule rq_create)
  have i0: "rq_iter ?q0 = []" by (simp add: heap_iter.simps heappop_def)
  have i1: "rq_iter (rq_add ?a ?q0) = [?a]"
    using add_refines[OF rq_reach_inv[OF r0], of ?a] i0 by (simp add: ids_def)
  have r1: "rq_reach PRIORITY (rq_add ?a ?q0)" using r0 i0 by (intro rq_added) (simp_all add: ids_def)
  have "py_id (demo_waiting ''b'' 0 2) \<notin> set (ids (rq_iter (rq_add ?a ?q0)))"
    unfolding i1 by (simp add: ids_def demo_waiting_def)
  then have "rq_iter (rq_add (demo_waiting ''b'' 0 2) (rq_add ?a ?q0)) =
      spec_add PRIORITY (demo_waiting ''b'' 0 2) (rq_iter (rq_add ?a ?q0))"
    using request_queue_refines_list[OF r1] by blast
  then show ?thesis unfolding i1 by (simp add: demo_waiting_def request_lt_def)
qed

end
