(* ===== verification/EncoderCache.thy ===== *)
theory EncoderCache
  imports Request
begin

text \<open>
  The bookkeeping of multimodal encoder outputs, \<^verbatim>\<open>vllm/v1/core/encoder_cache_manager.py\<close>:
  references of requests to cached outputs, eviction of unreferenced ones when space is needed,
  and the budget.  The entries are identified by the hash of the input; sizes are numbers of
  embeddings.
\<close>

section \<open>Positions of an input\<close>

text \<open>\<open>PlaceholderRange\<close> of \<^verbatim>\<open>vllm/multimodal/inputs.py\<close>: which of the placeholder
  tokens take an embedding.\<close>

definition embeds_cumsum :: "mm_feature \<Rightarrow> nat list option" where
  "embeds_cumsum f = map_option (\<lambda>m. map (\<lambda>k. length (filter id (take (k + 1) m))) [0..<length m]) (mm_is_embed f)"

definition get_num_embeds :: "mm_feature \<Rightarrow> nat" where
  "get_num_embeds f =
     (case embeds_cumsum f of
        None \<Rightarrow> mm_length f
      | Some cs \<Rightarrow> if cs = [] then 0 else last cs)"

text \<open>\<open>cumsum[idx - 1] if idx > 0 else 0\<close>.\<close>

definition cumsum_before :: "nat list \<Rightarrow> int \<Rightarrow> int res" where
  "cumsum_before cs idx =
     (if 0 < idx
      then if idx \<le> int (length cs) then Inr (int (cs ! nat (idx - 1))) else Inl (IndexError ''list index out of range'')
      else Inr 0)"

definition get_embeds_indices_in_range :: "mm_feature \<Rightarrow> int \<Rightarrow> int \<Rightarrow> (int \<times> int) res" where
  "get_embeds_indices_in_range f start_idx end_idx =
     (case embeds_cumsum f of
        None \<Rightarrow> Inr (start_idx, end_idx)
      | Some cs \<Rightarrow> bind_res (cumsum_before cs start_idx) (\<lambda>a.
                  bind_res (cumsum_before cs end_idx) (\<lambda>b. Inr (a, b))))"

definition has_encoder_inputs :: "request \<Rightarrow> bool" where
  "has_encoder_inputs req \<longleftrightarrow> 0 < length (mm_features req)"

definition get_num_encoder_embeds :: "request \<Rightarrow> nat \<Rightarrow> nat res" where
  "get_num_encoder_embeds req i =
     bind_res (check_res (i < length (mm_features req)) (AssertionError ''input_id < len(self.mm_features)''))
       (\<lambda>_. Inr (get_num_embeds (mm_features req ! i)))"

type_synonym mm_hash = "string option"

definition feature_hash :: "request \<Rightarrow> nat \<Rightarrow> mm_hash res" where
  "feature_hash req i =
     (if i < length (mm_features req) then Inr (mm_identifier (mm_features req ! i))
      else Inl (IndexError ''list index out of range''))"

section \<open>The shared cache\<close>

record encoder_cache =
  ec_cache_size :: int
  ec_num_free_slots :: int
  ec_num_freeable_slots :: int
  ec_cached :: "(mm_hash, string set) odict"
  ec_request_cached_ids :: "(string, nat set) odict"
  ec_freeable :: "(mm_hash, int) odict"
  ec_freed :: "mm_hash list"

definition enc_init :: "int \<Rightarrow> encoder_cache" where
  "enc_init cap =
     \<lparr>ec_cache_size = cap, ec_num_free_slots = cap, ec_num_freeable_slots = cap, ec_cached = [],
      ec_request_cached_ids = [], ec_freeable = [], ec_freed = []\<rparr>"

definition enc_reset :: "encoder_cache \<Rightarrow> encoder_cache" where
  "enc_reset c =
     c\<lparr>ec_cached := [], ec_request_cached_ids := [], ec_freeable := [], ec_freed := [],
       ec_num_free_slots := ec_cache_size c, ec_num_freeable_slots := ec_cache_size c\<rparr>"

text \<open>\<open>self.cached[h].add(rid)\<close> and \<open>self.request_cached_ids.setdefault(rid, set()).add(i)\<close>.\<close>

definition enc_refer :: "mm_hash \<Rightarrow> string \<Rightarrow> nat \<Rightarrow> encoder_cache \<Rightarrow> encoder_cache" where
  "enc_refer h rid i c =
     c\<lparr>ec_cached := od_set h (insert rid (case od_get (ec_cached c) h of None \<Rightarrow> {} | Some rs \<Rightarrow> rs)) (ec_cached c),
       ec_request_cached_ids := od_set rid
         (insert i (case od_get (ec_request_cached_ids c) rid of None \<Rightarrow> {} | Some is \<Rightarrow> is)) (ec_request_cached_ids c)\<rparr>"

definition check_and_update_cache :: "request \<Rightarrow> nat \<Rightarrow> encoder_cache \<Rightarrow> (bool \<times> encoder_cache) res" where
  "check_and_update_cache req i c =
     bind_res (feature_hash req i) (\<lambda>h.
       case od_get (ec_cached c) h of
         None \<Rightarrow> Inr (False, c)
       | Some refs \<Rightarrow>
           bind_res
             (if refs = {}
              then (case od_get (ec_freeable c) h of
                      None \<Rightarrow> Inl (KeyError ''mm_hash'')
                    | Some n \<Rightarrow> Inr (c\<lparr>ec_freeable := od_pop h (ec_freeable c),
                        ec_num_freeable_slots := ec_num_freeable_slots c - n\<rparr>))
              else Inr c)
             (\<lambda>c1. Inr (True, enc_refer h (request_id req) i c1)))"

text \<open>The eviction loop: \<open>popitem(last=False)\<close> while the need exceeds the free slots.\<close>

fun reclaim :: "int \<Rightarrow> (mm_hash, int) odict \<Rightarrow> encoder_cache \<Rightarrow> encoder_cache res" where
  "reclaim need [] c =
     (if ec_num_free_slots c < need then Inl (KeyError ''dictionary is empty'') else Inr (c\<lparr>ec_freeable := []\<rparr>))"
| "reclaim need ((h, n) # rest) c =
     (if ec_num_free_slots c < need
      then (if od_get (ec_cached c) h = None then Inl (KeyError ''mm_hash'')
            else reclaim need rest
              (c\<lparr>ec_cached := od_pop h (ec_cached c), ec_freed := ec_freed c @ [h],
                 ec_num_free_slots := ec_num_free_slots c + n\<rparr>))
      else Inr (c\<lparr>ec_freeable := (h, n) # rest\<rparr>))"

definition can_allocate :: "request \<Rightarrow> nat \<Rightarrow> int \<Rightarrow> int \<Rightarrow> encoder_cache \<Rightarrow> (bool \<times> encoder_cache) res" where
  "can_allocate req i budget to_schedule c =
     bind_res (get_num_encoder_embeds req i) (\<lambda>n.
       if budget < int n then Inr (False, c)
       else let need = int n + to_schedule
            in if need \<le> ec_num_free_slots c then Inr (True, c)
               else if ec_num_freeable_slots c < need then Inr (False, c)
               else bind_res (reclaim need (ec_freeable c) c) (\<lambda>c'. Inr (True, c')))"

definition allocate :: "request \<Rightarrow> nat \<Rightarrow> encoder_cache \<Rightarrow> encoder_cache res" where
  "allocate req i c =
     bind_res (feature_hash req i) (\<lambda>h.
     bind_res (get_num_encoder_embeds req i) (\<lambda>n.
     bind_res (check_res (int n \<le> ec_num_free_slots c) (AssertionError ''self.num_free_slots >= num_encoder_embeds'')) (\<lambda>_.
     bind_res (check_res (int n \<le> ec_num_freeable_slots c) (AssertionError ''self.num_freeable_slots >= num_encoder_embeds'')) (\<lambda>_.
       let c1 = enc_refer h (request_id req) i c
       in Inr (c1\<lparr>ec_num_free_slots := ec_num_free_slots c - int n,
                  ec_num_freeable_slots := ec_num_freeable_slots c - int n\<rparr>)))))"

definition get_cached_input_ids :: "request \<Rightarrow> encoder_cache \<Rightarrow> nat set" where
  "get_cached_input_ids req c =
     (case od_get (ec_request_cached_ids c) (request_id req) of None \<Rightarrow> {} | Some is \<Rightarrow> is)"

definition drop_input_id :: "string \<Rightarrow> nat \<Rightarrow> (string, nat set) odict \<Rightarrow> (string, nat set) odict" where
  "drop_input_id rid i d =
     (case od_get d rid of
        None \<Rightarrow> d
      | Some is \<Rightarrow> if is - {i} = {} then od_pop rid d else od_set rid (is - {i}) d)"

definition free_encoder_input :: "request \<Rightarrow> nat \<Rightarrow> encoder_cache \<Rightarrow> encoder_cache res" where
  "free_encoder_input req i c =
     bind_res (feature_hash req i) (\<lambda>h.
       let c1 = c\<lparr>ec_request_cached_ids := drop_input_id (request_id req) i (ec_request_cached_ids c)\<rparr>
       in case od_get (ec_cached c1) h of
            None \<Rightarrow> Inr c1
          | Some refs \<Rightarrow>
              if refs = {} then Inr c1
              else let refs' = refs - {request_id req};
                       c2 = c1\<lparr>ec_cached := od_set h refs' (ec_cached c1)\<rparr>
                   in if refs' = {}
                      then bind_res (get_num_encoder_embeds req i) (\<lambda>n.
                        Inr (c2\<lparr>ec_freeable := od_set h (int n) (ec_freeable c2),
                                ec_num_freeable_slots := ec_num_freeable_slots c2 + int n\<rparr>))
                      else Inr c2)"

text \<open>\<open>list(set)\<close> lists a set in the order \<open>ord\<close> of the interpreter.\<close>

definition enc_free :: "(nat set \<Rightarrow> nat list) \<Rightarrow> request \<Rightarrow> encoder_cache \<Rightarrow> encoder_cache res" where
  "enc_free ord req c = fold_res (free_encoder_input req) (ord (get_cached_input_ids req c)) c"

definition get_freed_mm_hashes :: "encoder_cache \<Rightarrow> mm_hash list \<times> encoder_cache" where
  "get_freed_mm_hashes c = (ec_freed c, c\<lparr>ec_freed := []\<rparr>)"

section \<open>The budget\<close>

record scheduler_config =
  disable_chunked_mm_input :: bool
  max_num_batched_tokens :: int
  max_num_encoder_input_tokens :: int
  sc_encoder_cache_size :: int

definition compute_mm_encoder_budget :: "scheduler_config \<Rightarrow> (string, int) odict \<Rightarrow> (int \<times> int) res" where
  "compute_mm_encoder_budget cfg per_item =
     (if per_item = [] then Inr (0, 0)
      else let mx = Max (snd ` set per_item)
           in if disable_chunked_mm_input cfg \<and> max_num_batched_tokens cfg < mx
              then Inl (ValueError ''Chunked MM input disabled but max_tokens_per_mm_item is larger than max_num_batched_tokens'')
              else Inr (max (max_num_encoder_input_tokens cfg) mx, max (sc_encoder_cache_size cfg) mx))"

section \<open>Encoder-decoder models\<close>

text \<open>\<open>EncoderDecoderCacheManager\<close>: nothing is shared, slots return when a step's outputs are freed.\<close>

record encdec_cache =
  ed_cache_size :: int
  ed_num_free_slots :: int
  ed_allocated :: "mm_hash list"
  ed_to_free :: "mm_hash list"

definition encdec_init :: "int \<Rightarrow> encdec_cache" where
  "encdec_init cap = \<lparr>ed_cache_size = cap, ed_num_free_slots = cap, ed_allocated = [], ed_to_free = []\<rparr>"

definition encdec_reset :: "encdec_cache \<Rightarrow> encdec_cache" where
  "encdec_reset c = c\<lparr>ed_num_free_slots := ed_cache_size c, ed_allocated := [], ed_to_free := []\<rparr>"

definition encdec_check_and_update_cache :: "request \<Rightarrow> nat \<Rightarrow> encdec_cache \<Rightarrow> bool \<times> encdec_cache" where
  "encdec_check_and_update_cache req i c = (False, c)"

definition encdec_can_allocate :: "request \<Rightarrow> nat \<Rightarrow> int \<Rightarrow> int \<Rightarrow> encdec_cache \<Rightarrow> bool res" where
  "encdec_can_allocate req i budget to_schedule c =
     bind_res (get_num_encoder_embeds req i) (\<lambda>n.
       Inr (int n \<le> budget \<and> int n + to_schedule \<le> ed_num_free_slots c))"

definition encdec_allocate :: "request \<Rightarrow> nat \<Rightarrow> encdec_cache \<Rightarrow> encdec_cache res" where
  "encdec_allocate req i c =
     bind_res (get_num_encoder_embeds req i) (\<lambda>n.
     bind_res (feature_hash req i) (\<lambda>h.
       Inr (c\<lparr>ed_num_free_slots := ed_num_free_slots c - int n, ed_allocated := ed_allocated c @ [h]\<rparr>)))"

definition encdec_free_encoder_input :: "request \<Rightarrow> nat \<Rightarrow> encdec_cache \<Rightarrow> encdec_cache res" where
  "encdec_free_encoder_input req i c =
     bind_res (get_num_encoder_embeds req i) (\<lambda>n.
       Inr (c\<lparr>ed_num_free_slots := ed_num_free_slots c + int n\<rparr>))"

definition encdec_free :: "request \<Rightarrow> encdec_cache \<Rightarrow> encdec_cache res" where
  "encdec_free req c = fold_res (encdec_free_encoder_input req) [0..<length (mm_features req)] c"

definition encdec_get_cached_input_ids :: "request \<Rightarrow> nat set" where
  "encdec_get_cached_input_ids req = {0..<length (mm_features req)}"

definition encdec_get_freed_mm_hashes :: "encdec_cache \<Rightarrow> mm_hash list \<times> encdec_cache" where
  "encdec_get_freed_mm_hashes c = (ed_to_free c, c\<lparr>ed_to_free := ed_allocated c, ed_allocated := []\<rparr>)"

end
