(* ===== verification/EncoderProps.thy ===== *)
theory EncoderProps
  imports EncoderCache
begin

text \<open>
  The encoder cache keeps its books: an invariant of every reachable cache, eviction of the oldest
  unreferenced entries only, and the return of a request's references.
\<close>

declare map_of_eq_Some_iff [simp del]

section \<open>Reachable caches\<close>

text \<open>\<open>feats\<close> gives the inputs of each request id and \<open>sz\<close> the number of embeddings of each input
  hash.\<close>

definition sizes_ok :: "(string \<Rightarrow> mm_feature list) \<Rightarrow> (mm_hash \<Rightarrow> nat) \<Rightarrow> bool" where
  "sizes_ok feats sz \<longleftrightarrow> (\<forall>rid. \<forall>f \<in> set (feats rid). get_num_embeds f = sz (mm_identifier f))"

definition knows :: "(string \<Rightarrow> mm_feature list) \<Rightarrow> request \<Rightarrow> bool" where
  "knows feats req \<longleftrightarrow> mm_features req = feats (request_id req)"

inductive enc_reach :: "(string \<Rightarrow> mm_feature list) \<Rightarrow> int \<Rightarrow> encoder_cache \<Rightarrow> bool"
  for feats cap where
  enc_initial: "0 \<le> cap \<Longrightarrow> enc_reach feats cap (enc_init cap)"
| enc_resets: "enc_reach feats cap c \<Longrightarrow> enc_reach feats cap (enc_reset c)"
| enc_checks: "enc_reach feats cap c \<Longrightarrow> knows feats req \<Longrightarrow>
    check_and_update_cache req i c = Inr (b, c') \<Longrightarrow> enc_reach feats cap c'"
| enc_makes_room: "enc_reach feats cap c \<Longrightarrow> can_allocate req i budget sched c = Inr (b, c') \<Longrightarrow>
    enc_reach feats cap c'"
| enc_allocates: "enc_reach feats cap c \<Longrightarrow> knows feats req \<Longrightarrow> feature_hash req i = Inr h \<Longrightarrow>
    od_get (ec_cached c) h = None \<Longrightarrow> allocate req i c = Inr c' \<Longrightarrow> enc_reach feats cap c'"
| enc_frees: "enc_reach feats cap c \<Longrightarrow> knows feats req \<Longrightarrow> free_encoder_input req i c = Inr c' \<Longrightarrow>
    enc_reach feats cap c'"
| enc_drains: "enc_reach feats cap c \<Longrightarrow> get_freed_mm_hashes c = (hs, c') \<Longrightarrow> enc_reach feats cap c'"

section \<open>The invariant\<close>

definition space :: "(mm_hash \<Rightarrow> nat) \<Rightarrow> (mm_hash, 'v) odict \<Rightarrow> int" where
  "space sz d = (\<Sum>h \<in> od_dom d. int (sz h))"

lemma space_nil [simp]: "space sz [] = 0"
  by (simp add: space_def)

lemma space_set_new: "h \<notin> od_dom d \<Longrightarrow> space sz (od_set h v d) = int (sz h) + space sz d"
  by (simp add: space_def)

lemma space_set_old: "h \<in> od_dom d \<Longrightarrow> space sz (od_set h v d) = space sz d"
  by (simp add: space_def insert_absorb)

lemma space_pop: "h \<in> od_dom d \<Longrightarrow> space sz (od_pop h d) = space sz d - int (sz h)"
  by (simp add: space_def sum_diff1)

lemma space_Cons: "distinct (od_keys ((h, v) # d)) \<Longrightarrow> space sz ((h, v) # d) = int (sz h) + space sz d"
  by (simp add: space_def)

lemma space_nonneg [simp]: "0 \<le> space sz d"
  by (simp add: space_def sum_nonneg)

definition books_ok :: "(mm_hash \<Rightarrow> nat) \<Rightarrow> int \<Rightarrow> encoder_cache \<Rightarrow> bool" where
  "books_ok sz cap c \<longleftrightarrow>
     ec_cache_size c = cap \<and> ec_num_free_slots c = cap - space sz (ec_cached c) \<and>
     ec_num_freeable_slots c = ec_num_free_slots c + space sz (ec_freeable c) \<and> 0 \<le> ec_num_free_slots c"

definition entries_ok :: "(mm_hash \<Rightarrow> nat) \<Rightarrow> encoder_cache \<Rightarrow> bool" where
  "entries_ok sz c \<longleftrightarrow>
     distinct (od_keys (ec_cached c)) \<and> distinct (od_keys (ec_freeable c)) \<and>
     (\<forall>h n. od_get (ec_freeable c) h = Some n \<longrightarrow> n = int (sz h)) \<and>
     (\<forall>h. h \<in> od_dom (ec_freeable c) \<longleftrightarrow> od_get (ec_cached c) h = Some {})"

text \<open>A reference belongs to a cached input id of the request with that hash.\<close>

definition refs_ok :: "(string \<Rightarrow> mm_feature list) \<Rightarrow> encoder_cache \<Rightarrow> bool" where
  "refs_ok feats c \<longleftrightarrow>
     (\<forall>h refs rid. od_get (ec_cached c) h = Some refs \<longrightarrow> rid \<in> refs \<longrightarrow>
        (\<exists>is i. od_get (ec_request_cached_ids c) rid = Some is \<and> i \<in> is \<and> i < length (feats rid) \<and>
           mm_identifier (feats rid ! i) = h)) \<and>
     (\<forall>rid is. od_get (ec_request_cached_ids c) rid = Some is \<longrightarrow>
        finite is \<and> (\<forall>i \<in> is. i < length (feats rid)))"

definition enc_inv :: "(string \<Rightarrow> mm_feature list) \<Rightarrow> (mm_hash \<Rightarrow> nat) \<Rightarrow> int \<Rightarrow> encoder_cache \<Rightarrow> bool" where
  "enc_inv feats sz cap c \<longleftrightarrow> books_ok sz cap c \<and> entries_ok sz c \<and> refs_ok feats c"

lemma feature_hash_ok:
  assumes "feature_hash req i = Inr h" "knows feats req"
  shows "i < length (feats (request_id req)) \<and> mm_identifier (feats (request_id req) ! i) = h"
  using assms by (auto simp: feature_hash_def knows_def split: if_splits)

lemma size_of_input:
  assumes "get_num_encoder_embeds req i = Inr n" "feature_hash req i = Inr h" "knows feats req" "sizes_ok feats sz"
  shows "n = sz h"
proof -
  have "i < length (mm_features req)" "n = get_num_embeds (mm_features req ! i)" "h = mm_identifier (mm_features req ! i)"
    using assms(1,2) by (auto simp: get_num_encoder_embeds_def feature_hash_def split: if_splits)
  moreover from this have "mm_features req ! i \<in> set (feats (request_id req))" using assms(3) by (simp add: knows_def)
  ultimately show ?thesis using assms(4) unfolding sizes_ok_def by blast
qed

lemma refer_refs:
  assumes ok: "refs_ok feats c" and i: "i < length (feats rid)" "mm_identifier (feats rid ! i) = h"
  shows "refs_ok feats (enc_refer h rid i c)"
proof -
  let ?c = "enc_refer h rid i c"
  have grow: "\<exists>is'. od_get (ec_request_cached_ids ?c) r = Some is' \<and> is \<subseteq> is'"
    if "od_get (ec_request_cached_ids c) r = Some is" for r "is"
    using that by (auto simp: enc_refer_def)
  have new: "\<exists>is'. od_get (ec_request_cached_ids ?c) rid = Some is' \<and> i \<in> is'"
    by (simp add: enc_refer_def)
  have old: "\<exists>is i. od_get (ec_request_cached_ids c) r = Some is \<and> i \<in> is \<and> i < length (feats r) \<and>
      mm_identifier (feats r ! i) = h'"
    if "od_get (ec_cached c) h' = Some refs" "r \<in> refs" for h' refs r
    using ok that unfolding refs_ok_def by blast
  have "\<exists>is i. od_get (ec_request_cached_ids ?c) r = Some is \<and> i \<in> is \<and> i < length (feats r) \<and>
      mm_identifier (feats r ! i) = h'"
    if r: "od_get (ec_cached ?c) h' = Some refs" "r \<in> refs" for h' refs r
  proof (cases "h' = h \<and> r = rid")
    case True
    then show ?thesis using new i by blast
  next
    case False
    then obtain refs0 where "od_get (ec_cached c) h' = Some refs0" "r \<in> refs0"
      using r by (auto simp: enc_refer_def split: if_splits option.splits)
    from old[OF this] obtain "is" j where j: "od_get (ec_request_cached_ids c) r = Some is" "j \<in> is"
      "j < length (feats r)" "mm_identifier (feats r ! j) = h'" by blast
    with grow[OF j(1)] show ?thesis by blast
  qed
  moreover have "finite is \<and> (\<forall>j \<in> is. j < length (feats r))"
    if "od_get (ec_request_cached_ids ?c) r = Some is" for r "is"
    using ok that i unfolding refs_ok_def enc_refer_def by (auto split: option.splits if_splits)
  ultimately show ?thesis unfolding refs_ok_def by blast
qed

lemma refs_same:
  assumes "refs_ok feats c" "ec_request_cached_ids c' = ec_request_cached_ids c"
    and "\<And>h refs. od_get (ec_cached c') h = Some refs \<Longrightarrow> od_get (ec_cached c) h = Some refs"
  shows "refs_ok feats c'"
  using assms(1,3) unfolding refs_ok_def assms(2) by blast


section \<open>The operations keep the books\<close>

lemma enc_inv_init: "0 \<le> cap \<Longrightarrow> enc_inv feats sz cap (enc_init cap)"
  by (simp add: enc_inv_def books_ok_def entries_ok_def refs_ok_def enc_init_def)

lemma books_cap: "books_ok sz cap c \<Longrightarrow> 0 \<le> cap"
  using space_nonneg[of sz "ec_cached c"] unfolding books_ok_def by linarith

lemma enc_inv_reset: "enc_inv feats sz cap c \<Longrightarrow> enc_inv feats sz cap (enc_reset c)"
  using books_cap[of sz cap c] by (simp add: enc_inv_def books_ok_def entries_ok_def refs_ok_def enc_reset_def)

lemma feature_hash_iff: "(\<exists>h. feature_hash req i = Inr h) \<longleftrightarrow> i < length (mm_features req)"
  by (simp add: feature_hash_def)

lemma num_embeds_hash: "feature_hash req i = Inr h \<Longrightarrow> \<exists>n. get_num_encoder_embeds req i = Inr n"
  by (simp add: feature_hash_def get_num_encoder_embeds_def split: if_splits)

text \<open>A referenced or cached input is found; finding it takes it out of the evictable entries.\<close>

lemma refer_books:
  assumes "books_ok sz cap c" "h \<in> od_dom (ec_cached c)"
  shows "books_ok sz cap (enc_refer h rid i c)"
  using assms by (simp add: books_ok_def enc_refer_def space_set_old)

lemma check_hit:
  assumes inv: "enc_inv feats sz cap c" and k: "knows feats req" and h: "feature_hash req i = Inr h"
    and hit: "od_get (ec_cached c) h = Some refs"
  shows "\<exists>c'. check_and_update_cache req i c = Inr (True, c') \<and> enc_inv feats sz cap c' \<and>
    (\<exists>refs'. od_get (ec_cached c') h = Some refs' \<and> request_id req \<in> refs') \<and>
    od_dom (ec_cached c') = od_dom (ec_cached c) \<and> ec_num_free_slots c' = ec_num_free_slots c \<and>
    (\<forall>h' rs rid. od_get (ec_cached c) h' = Some rs \<longrightarrow> rid \<in> rs \<longrightarrow>
       (\<exists>rs'. od_get (ec_cached c') h' = Some rs' \<and> rid \<in> rs'))"
proof -
  define c1 where "c1 = (if refs = {} then c\<lparr>ec_freeable := od_pop h (ec_freeable c),
      ec_num_freeable_slots := ec_num_freeable_slots c - int (sz h)\<rparr> else c)"
  have ok: "books_ok sz cap c" "entries_ok sz c" "refs_ok feats c" using inv by (simp_all add: enc_inv_def)
  have fr: "h \<in> od_dom (ec_freeable c) \<longleftrightarrow> refs = {}" using ok(2) hit by (simp add: entries_ok_def)
  have got: "od_get (ec_freeable c) h = Some (int (sz h))" if "refs = {}"
  proof -
    obtain n where n: "od_get (ec_freeable c) h = Some n" using fr \<open>refs = {}\<close> od_get_None_iff[of "ec_freeable c" h] by blast
    then have "n = int (sz h)" using ok(2) unfolding entries_ok_def by blast
    with n show ?thesis by simp
  qed
  have run: "check_and_update_cache req i c = Inr (True, enc_refer h (request_id req) i c1)"
    using h hit got by (cases "refs = {}") (simp_all add: check_and_update_cache_def c1_def)
  have same: "ec_cached c1 = ec_cached c" "ec_request_cached_ids c1 = ec_request_cached_ids c"
    "ec_num_free_slots c1 = ec_num_free_slots c" by (simp_all add: c1_def)
  have dom: "h \<in> od_dom (ec_cached c)" using hit by (rule od_get_Some_dom)
  have "books_ok sz cap c1" using ok(1) fr by (simp add: books_ok_def c1_def space_pop)
  then have b: "books_ok sz cap (enc_refer h (request_id req) i c1)" using dom same by (intro refer_books) simp_all
  have e: "entries_ok sz (enc_refer h (request_id req) i c1)"
  proof -
    have "h' \<in> od_dom (ec_freeable c1) \<longleftrightarrow> h' \<noteq> h \<and> od_get (ec_cached c) h' = Some {}" for h'
    proof -
      have "h' \<in> od_dom (ec_freeable c) \<longleftrightarrow> od_get (ec_cached c) h' = Some {}"
        using ok(2) unfolding entries_ok_def by blast
      then show ?thesis using hit by (cases "refs = {}"; cases "h' = h") (simp_all add: c1_def)
    qed
    moreover have "m = int (sz h')" if "od_get (ec_freeable c1) h' = Some m" for h' m
    proof -
      have "od_get (ec_freeable c) h' = Some m" using that by (simp add: c1_def split: if_splits)
      then show ?thesis using ok(2) unfolding entries_ok_def by blast
    qed
    moreover have "distinct (od_keys (ec_freeable c1))" "distinct (od_keys (ec_cached c))"
      using ok(2) by (simp_all add: entries_ok_def c1_def)
    ultimately show ?thesis by (simp add: entries_ok_def enc_refer_def same)
  qed
  have "refs_ok feats c1" by (rule refs_same[OF ok(3)]) (simp_all add: same)
  then have r: "refs_ok feats (enc_refer h (request_id req) i c1)"
    using feature_hash_ok[OF h k] by (intro refer_refs) simp_all
  show ?thesis
    using run b e r dom hit same by (intro exI[of _ "enc_refer h (request_id req) i c1"])
      (auto simp: enc_inv_def enc_refer_def insert_absorb)
qed

lemma check_miss:
  "feature_hash req i = Inr h \<Longrightarrow> od_get (ec_cached c) h = None \<Longrightarrow> check_and_update_cache req i c = Inr (False, c)"
  by (simp add: check_and_update_cache_def)

lemma evict_one_entry:
  assumes inv: "enc_inv feats sz cap (c\<lparr>ec_freeable := (h, n) # rest\<rparr>)"
  shows "enc_inv feats sz cap (c\<lparr>ec_cached := od_pop h (ec_cached c), ec_freed := ec_freed c @ [h],
      ec_num_free_slots := ec_num_free_slots c + n, ec_freeable := rest\<rparr>) \<and>
    od_get (ec_cached c) h = Some {} \<and> n = int (sz h) \<and> h \<notin> od_dom rest"
proof -
  let ?c = "c\<lparr>ec_freeable := (h, n) # rest\<rparr>"
  let ?d = "c\<lparr>ec_cached := od_pop h (ec_cached c), ec_freed := ec_freed c @ [h],
      ec_num_free_slots := ec_num_free_slots c + n, ec_freeable := rest\<rparr>"
  have ok: "books_ok sz cap ?c" "entries_ok sz ?c" "refs_ok feats ?c" using inv by (simp_all add: enc_inv_def)
  have dist: "distinct (od_keys ((h, n) # rest))" using ok(2) by (simp add: entries_ok_def)
  have n: "n = int (sz h)" and hit: "od_get (ec_cached c) h = Some {}" and out: "h \<notin> od_dom rest"
    using ok(2) by (auto simp: entries_ok_def)
  have dom: "h \<in> od_dom (ec_cached c)" using hit by (rule od_get_Some_dom)
  have b: "books_ok sz cap ?d"
    using ok(1) n dist by (simp add: books_ok_def space_pop[OF dom] space_Cons)
  have free: "h' \<in> od_dom rest \<longleftrightarrow> h' \<noteq> h \<and> od_get (ec_cached c) h' = Some {}" for h'
    using ok(2) out unfolding entries_ok_def by auto
  have vals: "m = int (sz h')" if "od_get rest h' = Some m" for h' m
  proof -
    have "h' \<noteq> h" using that out od_get_Some_dom by metis
    then show ?thesis using ok(2) that unfolding entries_ok_def by simp
  qed
  have e: "entries_ok sz ?d" using ok(2) free vals by (simp add: entries_ok_def)
  have r: "refs_ok feats ?d" by (rule refs_same[OF ok(3)]) (auto split: if_splits)
  show ?thesis using b e r n hit out by (simp add: enc_inv_def)
qed

text \<open>Eviction takes the shortest prefix of the evictable entries that makes enough room.\<close>

lemma reclaim_ok:
  assumes "enc_inv feats sz cap (c\<lparr>ec_freeable := fs\<rparr>)" "need \<le> ec_num_freeable_slots c"
  shows "\<exists>c' k. reclaim need fs c = Inr c' \<and> enc_inv feats sz cap c' \<and> k \<le> length fs \<and>
    ec_freeable c' = drop k fs \<and> ec_freed c' = ec_freed c @ map fst (take k fs) \<and>
    (\<forall>h. od_get (ec_cached c') h = (if h \<in> od_dom (take k fs) then None else od_get (ec_cached c) h)) \<and>
    (\<forall>h \<in> od_dom (take k fs). od_get (ec_cached c) h = Some {}) \<and>
    ec_num_freeable_slots c' = ec_num_freeable_slots c \<and>
    ec_num_free_slots c' = ec_num_free_slots c + sum_list (map snd (take k fs)) \<and>
    need \<le> ec_num_free_slots c' \<and>
    (\<forall>j < k. ec_num_free_slots c + sum_list (map snd (take j fs)) < need)"
  using assms
proof (induction fs arbitrary: c)
  case Nil
  then have "ec_num_freeable_slots c = ec_num_free_slots c" by (simp add: enc_inv_def books_ok_def)
  with Nil show ?case by simp
next
  case (Cons e rest)
  obtain h n where e: "e = (h, n)" by (cases e)
  note E = evict_one_entry[OF Cons.prems(1)[unfolded e]]
  show ?case
  proof (cases "ec_num_free_slots c < need")
    case False
    then show ?thesis using Cons.prems(1) unfolding e by (intro exI[of _ "c\<lparr>ec_freeable := (h, n) # rest\<rparr>"] exI[of _ 0]) simp
  next
    case True
    let ?c1 = "c\<lparr>ec_cached := od_pop h (ec_cached c), ec_freed := ec_freed c @ [h],
        ec_num_free_slots := ec_num_free_slots c + n\<rparr>"
    have inv1: "enc_inv feats sz cap (?c1\<lparr>ec_freeable := rest\<rparr>)" using conjunct1[OF E] by (simp only: encoder_cache.simps)
    have "need \<le> ec_num_freeable_slots ?c1" using Cons.prems(2) by simp
    from Cons.IH[OF inv1 this] obtain c' k where I: "reclaim need rest ?c1 = Inr c'" "enc_inv feats sz cap c'"
      "k \<le> length rest" "ec_freeable c' = drop k rest" "ec_freed c' = ec_freed ?c1 @ map fst (take k rest)"
      "\<forall>h. od_get (ec_cached c') h = (if h \<in> od_dom (take k rest) then None else od_get (ec_cached ?c1) h)"
      "\<forall>h \<in> od_dom (take k rest). od_get (ec_cached ?c1) h = Some {}"
      "ec_num_freeable_slots c' = ec_num_freeable_slots ?c1"
      "ec_num_free_slots c' = ec_num_free_slots ?c1 + sum_list (map snd (take k rest))"
      "need \<le> ec_num_free_slots c'" "\<forall>j < k. ec_num_free_slots ?c1 + sum_list (map snd (take j rest)) < need"
      by (elim exE conjE) (rule that)
    have run: "reclaim need (e # rest) c = Inr c'" using True E I(1) by (simp add: e)
    have least: "ec_num_free_slots c + sum_list (map snd (take j (e # rest))) < need" if "j < Suc k" for j
      using that I(11) True by (cases j) (simp_all add: e algebra_simps)
    have gone: "\<forall>h' \<in> od_dom (take (Suc k) (e # rest)). od_get (ec_cached c) h' = Some {}"
      using I(7) E by (auto simp: e split: if_splits)
    show ?thesis
      by (intro exI[of _ c'] exI[of _ "Suc k"] conjI run I(2))
        (use I(3-10) least gone in \<open>auto simp: e\<close>)
  qed
qed


definition evicted :: "nat \<Rightarrow> encoder_cache \<Rightarrow> encoder_cache \<Rightarrow> bool" where
  "evicted k c c' \<longleftrightarrow>
     k \<le> length (ec_freeable c) \<and> ec_freeable c' = drop k (ec_freeable c) \<and>
     ec_freed c' = ec_freed c @ map fst (take k (ec_freeable c)) \<and>
     (\<forall>h. od_get (ec_cached c') h = (if h \<in> od_dom (take k (ec_freeable c)) then None else od_get (ec_cached c) h)) \<and>
     (\<forall>h \<in> od_dom (take k (ec_freeable c)). od_get (ec_cached c) h = Some {}) \<and>
     ec_num_freeable_slots c' = ec_num_freeable_slots c \<and>
     ec_num_free_slots c' = ec_num_free_slots c + sum_list (map snd (take k (ec_freeable c)))"

lemma evicted_0 [simp]: "evicted 0 c c"
  by (simp add: evicted_def)

lemma reclaim_evicted:
  assumes inv: "enc_inv feats sz cap c" and need: "need \<le> ec_num_freeable_slots c"
  shows "\<exists>c' k. reclaim need (ec_freeable c) c = Inr c' \<and> enc_inv feats sz cap c' \<and> evicted k c c' \<and>
    need \<le> ec_num_free_slots c' \<and>
    (\<forall>j < k. ec_num_free_slots c + sum_list (map snd (take j (ec_freeable c))) < need)"
proof -
  have "enc_inv feats sz cap (c\<lparr>ec_freeable := ec_freeable c\<rparr>)" using inv by simp
  from reclaim_ok[OF this need] show ?thesis
    unfolding evicted_def by (elim exE conjE) (intro exI conjI; assumption)
qed

lemma can_allocate_ok:
  assumes inv: "enc_inv feats sz cap c" and k: "knows feats req" and sz: "sizes_ok feats sz"
    and h: "feature_hash req i = Inr h"
    and need: "need = int (sz h) + sched"
  shows "\<exists>c' k. can_allocate req i budget sched c =
      Inr (int (sz h) \<le> budget \<and> need \<le> ec_num_freeable_slots c, c') \<and> enc_inv feats sz cap c' \<and>
    evicted k c c' \<and> (\<forall>j < k. ec_num_free_slots c + sum_list (map snd (take j (ec_freeable c))) < need) \<and>
    (int (sz h) \<le> budget \<and> need \<le> ec_num_freeable_slots c \<longrightarrow> need \<le> ec_num_free_slots c') \<and>
    (\<not> (int (sz h) \<le> budget \<and> need \<le> ec_num_freeable_slots c) \<longrightarrow> k = 0)"
proof -
  obtain n where "get_num_encoder_embeds req i = Inr n" using num_embeds_hash[OF h] by blast
  with size_of_input[OF this h k sz] have n: "get_num_encoder_embeds req i = Inr (sz h)" by simp
  have le: "ec_num_free_slots c \<le> ec_num_freeable_slots c" using inv by (simp add: enc_inv_def books_ok_def)
  consider "budget < int (sz h) \<or> ec_num_freeable_slots c < need" | "int (sz h) \<le> budget" "need \<le> ec_num_free_slots c"
    | "int (sz h) \<le> budget" "ec_num_free_slots c < need" "need \<le> ec_num_freeable_slots c" by linarith
  then show ?thesis
  proof cases
    case 1
    then have "can_allocate req i budget sched c = Inr (False, c)" using n le by (auto simp: can_allocate_def need)
    with 1 inv show ?thesis by (intro exI[of _ c] exI[of _ 0]) auto
  next
    case 2
    then have "can_allocate req i budget sched c = Inr (True, c)" using n by (simp add: can_allocate_def need)
    with 2 inv le show ?thesis by (intro exI[of _ c] exI[of _ 0]) auto
  next
    case 3
    from reclaim_evicted[OF inv 3(3)] obtain c' k where R: "reclaim need (ec_freeable c) c = Inr c'" "enc_inv feats sz cap c'"
      "evicted k c c'" "need \<le> ec_num_free_slots c'"
      "\<forall>j < k. ec_num_free_slots c + sum_list (map snd (take j (ec_freeable c))) < need" by blast
    then have "can_allocate req i budget sched c = Inr (True, c')"
      using n 3 by (simp add: can_allocate_def need)
    with 3 R show ?thesis by auto
  qed
qed

lemma allocate_ok:
  assumes inv: "enc_inv feats sz cap c" and k: "knows feats req" and sz: "sizes_ok feats sz"
    and h: "feature_hash req i = Inr h" and new: "od_get (ec_cached c) h = None"
    and room: "int (sz h) \<le> ec_num_free_slots c"
  shows "\<exists>c'. allocate req i c = Inr c' \<and> enc_inv feats sz cap c' \<and>
    (\<forall>h'. od_get (ec_cached c') h' = (if h' = h then Some {request_id req} else od_get (ec_cached c) h')) \<and>
    ec_num_free_slots c' = ec_num_free_slots c - int (sz h)"
proof -
  obtain n where "get_num_encoder_embeds req i = Inr n" using num_embeds_hash[OF h] by blast
  with size_of_input[OF this h k sz] have n: "get_num_encoder_embeds req i = Inr (sz h)" by simp
  have ok: "books_ok sz cap c" "entries_ok sz c" "refs_ok feats c" using inv by (simp_all add: enc_inv_def)
  have out: "h \<notin> od_dom (ec_cached c)" using new by (simp add: od_get_None_iff)
  have out2: "h \<notin> od_dom (ec_freeable c)" using ok(2) new unfolding entries_ok_def by (metis option.distinct(1))
  have le: "ec_num_free_slots c \<le> ec_num_freeable_slots c" using ok(1) by (simp add: books_ok_def)
  let ?c' = "(enc_refer h (request_id req) i c)\<lparr>ec_num_free_slots := ec_num_free_slots c - int (sz h),
      ec_num_freeable_slots := ec_num_freeable_slots c - int (sz h)\<rparr>"
  have run: "allocate req i c = Inr ?c'" using h n room le by (simp add: allocate_def Let_def)
  have b: "books_ok sz cap ?c'" using ok(1) room new by (simp add: books_ok_def enc_refer_def space_set_new[OF out])
  have e: "entries_ok sz ?c'" using ok(2) out2 unfolding entries_ok_def by (simp add: enc_refer_def)
  have "refs_ok feats (enc_refer h (request_id req) i c)"
    using ok(3) feature_hash_ok[OF h k] by (intro refer_refs) simp_all
  then have r: "refs_ok feats ?c'" by (rule refs_same) simp_all
  show ?thesis using run b e r new by (intro exI[of _ ?c']) (simp add: enc_inv_def enc_refer_def)
qed

lemma drop_input_ids:
  "(case od_get (drop_input_id rid i d) r of None \<Rightarrow> {} | Some is \<Rightarrow> is) =
   (case od_get d r of None \<Rightarrow> {} | Some is \<Rightarrow> if r = rid then is - {i} else is)"
  by (auto simp: drop_input_id_def split: option.split)

lemma drop_input_get:
  assumes "od_get (drop_input_id rid i d) r = Some is'"
  shows "\<exists>is. od_get d r = Some is \<and> is' \<subseteq> is"
  using assms by (auto simp: drop_input_id_def split: option.splits if_splits)

lemma drop_input_other: "r \<noteq> rid \<Longrightarrow> od_get (drop_input_id rid i d) r = od_get d r"
  by (auto simp: drop_input_id_def split: option.split)

lemma drop_input_stays: "od_get d rid = Some is \<Longrightarrow> j \<in> is \<Longrightarrow> j \<noteq> i \<Longrightarrow>
    od_get (drop_input_id rid i d) rid = Some (is - {i})"
  by (auto simp: drop_input_id_def)

text \<open>Dropping a reference keeps what the references say about the request, once the reference to
  the hash of the dropped input is gone as well.\<close>

lemma drop_refs:
  assumes ok: "refs_ok feats c" and h: "mm_identifier (feats rid ! i) = h"
    and ids: "ec_request_cached_ids c' = drop_input_id rid i (ec_request_cached_ids c)"
    and refs: "\<And>h' rs'. od_get (ec_cached c') h' = Some rs' \<Longrightarrow>
      \<exists>rs. od_get (ec_cached c) h' = Some rs \<and> rs' \<subseteq> rs \<and> (h' = h \<longrightarrow> rid \<notin> rs')"
  shows "refs_ok feats c'"
  unfolding refs_ok_def
proof (intro conjI allI impI)
  fix h' rs' r assume r: "od_get (ec_cached c') h' = Some rs'" "r \<in> rs'"
  from refs[OF r(1)] obtain rs where rs: "od_get (ec_cached c) h' = Some rs" "r \<in> rs" "h' = h \<longrightarrow> rid \<notin> rs'"
    using r(2) by blast
  from rs(1,2) ok obtain "is" j where j: "od_get (ec_request_cached_ids c) r = Some is" "j \<in> is"
    "j < length (feats r)" "mm_identifier (feats r ! j) = h'" unfolding refs_ok_def by blast
  show "\<exists>is i. od_get (ec_request_cached_ids c') r = Some is \<and> i \<in> is \<and> i < length (feats r) \<and>
      mm_identifier (feats r ! i) = h'"
  proof (cases "r = rid")
    case True
    then have "j \<noteq> i" using j(4) h rs(3) r(2) by auto
    with j True drop_input_stays[of "ec_request_cached_ids c" rid "is" j i] ids show ?thesis by auto
  next
    case False
    with j drop_input_other[OF False] ids show ?thesis by auto
  qed
next
  fix r is' assume "od_get (ec_request_cached_ids c') r = Some is'"
  with ids drop_input_get obtain "is" where "od_get (ec_request_cached_ids c) r = Some is" "is' \<subseteq> is" by metis
  with ok show "finite is'" "\<forall>j \<in> is'. j < length (feats r)"
    unfolding refs_ok_def by (meson finite_subset subsetD)+
qed


lemma free_input_ok:
  assumes inv: "enc_inv feats sz cap c" and k: "knows feats req" and sz: "sizes_ok feats sz"
    and h: "feature_hash req i = Inr h"
  shows "\<exists>c'. free_encoder_input req i c = Inr c' \<and> enc_inv feats sz cap c' \<and>
    ec_request_cached_ids c' = drop_input_id (request_id req) i (ec_request_cached_ids c) \<and>
    od_get (ec_cached c') = (od_get (ec_cached c))(h := map_option (\<lambda>rs. rs - {request_id req}) (od_get (ec_cached c) h)) \<and>
    ec_num_free_slots c' = ec_num_free_slots c"
proof -
  let ?rid = "request_id req"
  obtain n where "get_num_encoder_embeds req i = Inr n" using num_embeds_hash[OF h] by blast
  with size_of_input[OF this h k sz] have n: "get_num_encoder_embeds req i = Inr (sz h)" by simp
  have ok: "books_ok sz cap c" "entries_ok sz c" "refs_ok feats c" using inv by (simp_all add: enc_inv_def)
  define c1 where "c1 = c\<lparr>ec_request_cached_ids := drop_input_id ?rid i (ec_request_cached_ids c)\<rparr>"
  have fh: "mm_identifier (feats ?rid ! i) = h" using feature_hash_ok[OF h k] by simp
  consider "od_get (ec_cached c) h = None \<or> od_get (ec_cached c) h = Some {}"
    | refs where "od_get (ec_cached c) h = Some refs" "refs \<noteq> {}" "refs - {?rid} \<noteq> {}"
    | refs where "od_get (ec_cached c) h = Some refs" "refs \<noteq> {}" "refs - {?rid} = {}"
    by (cases "od_get (ec_cached c) h") auto
  then show ?thesis
  proof cases
    case 1
    then have run: "free_encoder_input req i c = Inr c1" using h by (auto simp: free_encoder_input_def c1_def)
    have "refs_ok feats c1" by (rule drop_refs[OF ok(3) fh]) (use 1 in \<open>auto simp: c1_def\<close>)
    with ok have "enc_inv feats sz cap c1" by (simp add: enc_inv_def books_ok_def entries_ok_def c1_def)
    with run 1 show ?thesis by (intro exI[of _ c1]) (auto simp: c1_def fun_eq_iff)
  next
    case (2 refs)
    define c2 where "c2 = c1\<lparr>ec_cached := od_set h (refs - {?rid}) (ec_cached c1)\<rparr>"
    have run: "free_encoder_input req i c = Inr c2" using h 2 by (simp add: free_encoder_input_def c1_def c2_def Let_def)
    have dom: "h \<in> od_dom (ec_cached c)" using 2(1) by (rule od_get_Some_dom)
    have f: "h \<notin> od_dom (ec_freeable c)" using ok(2) 2 unfolding entries_ok_def by (metis option.inject)
    have "refs_ok feats c2" by (rule drop_refs[OF ok(3) fh]) (use 2 in \<open>auto simp: c1_def c2_def split: if_splits\<close>)
    moreover have "books_ok sz cap c2" using ok(1) by (simp add: books_ok_def c1_def c2_def space_set_old[OF dom])
    moreover have "entries_ok sz c2" using ok(2) f 2 unfolding entries_ok_def by (simp add: c1_def c2_def)
    ultimately have "enc_inv feats sz cap c2" by (simp add: enc_inv_def)
    with run 2 show ?thesis by (intro exI[of _ c2]) (simp add: c1_def c2_def fun_eq_iff)
  next
    case (3 refs)
    define c2 where "c2 = c1\<lparr>ec_cached := od_set h {} (ec_cached c1), ec_freeable := od_set h (int (sz h)) (ec_freeable c1),
        ec_num_freeable_slots := ec_num_freeable_slots c1 + int (sz h)\<rparr>"
    have "refs = {?rid}" using 3(2,3) by auto
    then have run: "free_encoder_input req i c = Inr c2" using h 3(1) n by (simp add: free_encoder_input_def c1_def c2_def Let_def)
    have dom: "h \<in> od_dom (ec_cached c)" using 3(1) by (rule od_get_Some_dom)
    have f: "h \<notin> od_dom (ec_freeable c)" using ok(2) 3 unfolding entries_ok_def by (metis option.inject)
    have "refs_ok feats c2" by (rule drop_refs[OF ok(3) fh]) (use 3 in \<open>auto simp: c1_def c2_def split: if_splits\<close>)
    moreover have "books_ok sz cap c2"
      using ok(1) by (simp add: books_ok_def c1_def c2_def space_set_old[OF dom] space_set_new[OF f])
    moreover have "entries_ok sz c2" using ok(2) f unfolding entries_ok_def by (simp add: c1_def c2_def)
    ultimately have "enc_inv feats sz cap c2" by (simp add: enc_inv_def)
    with run 3 show ?thesis by (intro exI[of _ c2]) (simp add: c1_def c2_def fun_eq_iff)
  qed
qed

lemma check_total:
  assumes "enc_inv feats sz cap c" "knows feats req" "feature_hash req i = Inr h"
  shows "\<exists>b c'. check_and_update_cache req i c = Inr (b, c') \<and> enc_inv feats sz cap c'"
  using check_hit[OF assms] check_miss[OF assms(3), of c] assms(1) by (cases "od_get (ec_cached c) h") blast+

lemma enc_reach_inv:
  assumes "enc_reach feats cap c" and sz: "sizes_ok feats sz"
  shows "enc_inv feats sz cap c"
  using assms(1)
proof induction
  case enc_initial
  then show ?case by (rule enc_inv_init)
next
  case (enc_resets c)
  then show ?case by (simp add: enc_inv_reset)
next
  case (enc_checks c req i b c')
  then obtain h where "feature_hash req i = Inr h" by (auto simp: check_and_update_cache_def)
  from check_total[OF enc_checks.IH enc_checks.hyps(2) this] enc_checks.hyps(3) show ?case by auto
next
  case (enc_makes_room c req i budget sched b c')
  let ?n = "get_num_embeds (mm_features req ! i)"
  have "i < length (mm_features req)" using enc_makes_room.hyps(2)
    by (auto simp: can_allocate_def get_num_encoder_embeds_def split: if_splits)
  then have run: "can_allocate req i budget sched c =
      (if budget < int ?n then Inr (False, c)
       else if int ?n + sched \<le> ec_num_free_slots c then Inr (True, c)
       else if ec_num_freeable_slots c < int ?n + sched then Inr (False, c)
       else bind_res (reclaim (int ?n + sched) (ec_freeable c) c) (\<lambda>c'. Inr (True, c')))"
    by (simp add: can_allocate_def get_num_encoder_embeds_def Let_def)
  show ?case
  proof (cases "int ?n + sched \<le> ec_num_freeable_slots c")
    case True
    then show ?thesis using reclaim_evicted[OF enc_makes_room.IH True] run enc_makes_room
      by (auto split: if_splits)
  next
    case False
    then show ?thesis using run enc_makes_room by (auto split: if_splits)
  qed
next
  case (enc_allocates c req i h c')
  then obtain n where n: "get_num_encoder_embeds req i = Inr n" "int n \<le> ec_num_free_slots c"
    by (auto simp: allocate_def split: if_splits)
  then have "n = sz h" using size_of_input enc_allocates.hyps(2,3) sz by blast
  from allocate_ok[OF enc_allocates.IH enc_allocates.hyps(2) sz enc_allocates.hyps(3,4)] n(2) this
    enc_allocates.hyps(5) show ?case by auto
next
  case (enc_frees c req i c')
  then obtain h where "feature_hash req i = Inr h" by (auto simp: free_encoder_input_def)
  from free_input_ok[OF enc_frees.IH enc_frees.hyps(2) sz this] enc_frees.hyps(3) show ?case by auto
next
  case (enc_drains c hs c')
  then have "c' = c\<lparr>ec_freed := []\<rparr>" by (simp add: get_freed_mm_hashes_def)
  then show ?case using enc_drains.IH by (simp add: enc_inv_def books_ok_def entries_ok_def refs_ok_def)
qed

section \<open>Releasing a request\<close>

definition lists_sets :: "(nat set \<Rightarrow> nat list) \<Rightarrow> bool" where
  "lists_sets ord \<longleftrightarrow> (\<forall>A. finite A \<longrightarrow> set (ord A) = A)"

lemma free_inputs_ok:
  assumes inv: "enc_inv feats sz cap c" and k: "knows feats req" and sz: "sizes_ok feats sz"
    and ins: "\<forall>i \<in> set ins. i < length (feats (request_id req))"
  shows "\<exists>c'. fold_res (free_encoder_input req) ins c = Inr c' \<and> enc_inv feats sz cap c' \<and>
    get_cached_input_ids req c' = get_cached_input_ids req c - set ins \<and>
    (\<forall>h rid. rid \<noteq> request_id req \<longrightarrow>
       (\<exists>rs. od_get (ec_cached c) h = Some rs \<and> rid \<in> rs) = (\<exists>rs. od_get (ec_cached c') h = Some rs \<and> rid \<in> rs))"
  using inv ins
proof (induction ins arbitrary: c)
  case (Cons i rest)
  then have "i < length (mm_features req)" using k by (simp add: knows_def)
  then obtain h where h: "feature_hash req i = Inr h" using feature_hash_iff by blast
  from free_input_ok[OF Cons.prems(1) k sz h] obtain c1 where F: "free_encoder_input req i c = Inr c1"
    "enc_inv feats sz cap c1" "ec_request_cached_ids c1 = drop_input_id (request_id req) i (ec_request_cached_ids c)"
    "od_get (ec_cached c1) = (od_get (ec_cached c))(h := map_option (\<lambda>rs. rs - {request_id req}) (od_get (ec_cached c) h))"
    by blast
  from Cons.IH[OF F(2)] Cons.prems(2) obtain c' where I: "fold_res (free_encoder_input req) rest c1 = Inr c'"
    "enc_inv feats sz cap c'" "get_cached_input_ids req c' = get_cached_input_ids req c1 - set rest"
    "\<forall>h rid. rid \<noteq> request_id req \<longrightarrow>
       (\<exists>rs. od_get (ec_cached c1) h = Some rs \<and> rid \<in> rs) = (\<exists>rs. od_get (ec_cached c') h = Some rs \<and> rid \<in> rs)"
    by auto
  have "get_cached_input_ids req c1 = get_cached_input_ids req c - {i}"
    using drop_input_ids[of "request_id req" i "ec_request_cached_ids c" "request_id req"]
    unfolding get_cached_input_ids_def F(3) by (auto split: option.splits)
  moreover have "(\<exists>rs. od_get (ec_cached c) h' = Some rs \<and> rid \<in> rs) = (\<exists>rs. od_get (ec_cached c1) h' = Some rs \<and> rid \<in> rs)"
    if "rid \<noteq> request_id req" for h' rid
    using that unfolding F(4) by (cases "h' = h"; cases "od_get (ec_cached c) h") auto
  ultimately show ?case using F(1) I by (intro exI[of _ c']) auto
qed simp


lemma allocate_raises_iff:
  assumes "feature_hash req i = Inr h" "get_num_encoder_embeds req i = Inr k"
    "ec_num_free_slots c \<le> ec_num_freeable_slots c"
  shows "allocate req i c = Inl (AssertionError ''self.num_free_slots >= num_encoder_embeds'') \<longleftrightarrow>
      ec_num_free_slots c < int k"
    and "is_ok (allocate req i c) \<longleftrightarrow> int k \<le> ec_num_free_slots c"
  using assms by (auto simp: allocate_def check_res_def is_ok_def Let_def)

text \<open>C18. The encoder cache keeps its books.  In every reachable cache the free slots are the
  capacity less the sizes of the cached inputs, the freeable slots add the sizes of the
  unreferenced ones, neither count is negative or above the capacity, and the evictable entries
  are exactly the cached ones without a reference.  On an existing input, checking, asking for room
  and freeing never raise; allocating succeeds exactly when the input fits the free slots, and
  otherwise raises the \<open>AssertionError\<close> of the free slots, so the assertion on the freeable slots
  is never the one that fires.\<close>

theorem encoder_books:
  assumes "enc_reach feats cap c" "sizes_ok feats sz"
  shows "ec_num_free_slots c = cap - space sz (ec_cached c) \<and>
    ec_num_freeable_slots c = ec_num_free_slots c + space sz (ec_freeable c) \<and>
    0 \<le> ec_num_free_slots c \<and> ec_num_freeable_slots c \<le> cap \<and>
    (\<forall>h. h \<in> od_dom (ec_freeable c) \<longleftrightarrow> od_get (ec_cached c) h = Some {}) \<and>
    (\<forall>req i budget sched h. knows feats req \<longrightarrow> feature_hash req i = Inr h \<longrightarrow>
       is_ok (check_and_update_cache req i c) \<and> is_ok (can_allocate req i budget sched c) \<and>
       is_ok (free_encoder_input req i c) \<and>
       (is_ok (allocate req i c) \<longleftrightarrow> int (sz h) \<le> ec_num_free_slots c) \<and>
       (ec_num_free_slots c < int (sz h) \<longrightarrow>
          allocate req i c = Inl (AssertionError ''self.num_free_slots >= num_encoder_embeds'')))"
proof -
  note inv = enc_reach_inv[OF assms]
  have books: "books_ok sz cap c" and free: "\<forall>h. h \<in> od_dom (ec_freeable c) \<longleftrightarrow> od_get (ec_cached c) h = Some {}"
    using inv by (simp_all add: enc_inv_def entries_ok_def)
  have "od_dom (ec_freeable c) \<subseteq> od_dom (ec_cached c)" using free od_get_Some_dom by (metis subsetI)
  then have "space sz (ec_freeable c) \<le> space sz (ec_cached c)" unfolding space_def by (intro sum_mono2) auto
  then have "ec_num_freeable_slots c \<le> cap" using books by (simp add: books_ok_def)
  moreover have "is_ok (check_and_update_cache req i c) \<and> is_ok (can_allocate req i budget sched c) \<and>
      is_ok (free_encoder_input req i c) \<and>
      (is_ok (allocate req i c) \<longleftrightarrow> int (sz h) \<le> ec_num_free_slots c) \<and>
      (ec_num_free_slots c < int (sz h) \<longrightarrow>
         allocate req i c = Inl (AssertionError ''self.num_free_slots >= num_encoder_embeds''))"
    if ks: "knows feats req" "feature_hash req i = Inr h" for req i budget sched h
  proof -
    obtain k where k': "get_num_encoder_embeds req i = Inr k" using num_embeds_hash[OF ks(2)] by blast
    with size_of_input[OF this ks(2,1) assms(2)] have k: "get_num_encoder_embeds req i = Inr (sz h)" by simp
    have le: "ec_num_free_slots c \<le> ec_num_freeable_slots c"
      using books by (auto simp: books_ok_def space_def intro: sum_nonneg)
    show ?thesis
      using check_total[OF inv ks(1,2)] can_allocate_ok[OF inv ks(1) assms(2) ks(2) refl, of budget sched]
        free_input_ok[OF inv ks(1) assms(2) ks(2)] allocate_raises_iff[OF ks(2) k le]
      unfolding is_ok_iff by blast
  qed
  ultimately show ?thesis using books free unfolding books_ok_def by blast
qed


text \<open>C20. A finished request leaves no reference.  Freeing a request succeeds, whatever the order
  in which its inputs are listed; afterwards no cached entry refers to it and it has no cached
  inputs, while the references of every other request are as before.\<close>

theorem enc_free_releases:
  assumes "enc_reach feats cap c" "sizes_ok feats sz" "knows feats req" "lists_sets ord"
  shows "\<exists>c'. enc_free ord req c = Inr c' \<and> get_cached_input_ids req c' = {} \<and>
    (\<forall>h rs. od_get (ec_cached c') h = Some rs \<longrightarrow> request_id req \<notin> rs) \<and>
    (\<forall>h rid. rid \<noteq> request_id req \<longrightarrow>
       (\<exists>rs. od_get (ec_cached c) h = Some rs \<and> rid \<in> rs) = (\<exists>rs. od_get (ec_cached c') h = Some rs \<and> rid \<in> rs))"
proof -
  note inv = enc_reach_inv[OF assms(1,2)]
  let ?ids = "get_cached_input_ids req c"
  have fin: "finite ?ids" and bound: "\<forall>i \<in> ?ids. i < length (feats (request_id req))"
    using inv by (auto simp: enc_inv_def refs_ok_def get_cached_input_ids_def split: option.split)
  then have s: "set (ord ?ids) = ?ids" using assms(4) by (simp add: lists_sets_def)
  obtain c' where F: "fold_res (free_encoder_input req) (ord ?ids) c = Inr c'" "enc_inv feats sz cap c'"
    "get_cached_input_ids req c' = ?ids - set (ord ?ids)"
    "\<forall>h rid. rid \<noteq> request_id req \<longrightarrow>
       (\<exists>rs. od_get (ec_cached c) h = Some rs \<and> rid \<in> rs) = (\<exists>rs. od_get (ec_cached c') h = Some rs \<and> rid \<in> rs)"
    using free_inputs_ok[OF inv assms(3,2), of "ord ?ids"] bound s by auto
  have empty: "get_cached_input_ids req c' = {}" using F(3) s by simp
  have "request_id req \<notin> rs" if "od_get (ec_cached c') h = Some rs" for h rs
  proof
    assume "request_id req \<in> rs"
    with F(2) that obtain "is" i where "od_get (ec_request_cached_ids c') (request_id req) = Some is" "i \<in> is"
      unfolding enc_inv_def refs_ok_def by blast
    then show False using empty by (simp add: get_cached_input_ids_def)
  qed
  with F empty show ?thesis unfolding enc_free_def by blast
qed

section \<open>A small cache\<close>

text \<open>One image of three embeddings in a cache of four slots.\<close>

definition demo_image :: mm_feature where
  "demo_image = \<lparr>mm_identifier = Some ''x'', mm_offset = 0, mm_length = 3, mm_is_embed = None\<rparr>"

definition image_request :: "string \<Rightarrow> request" where
  "image_request rid = (demo_waiting rid 0 0)\<lparr>mm_features := [demo_image]\<rparr>"

definition demo_encoder_cache :: encoder_cache where
  "demo_encoder_cache =
     \<lparr>ec_cache_size = 4, ec_num_free_slots = 1, ec_num_freeable_slots = 1, ec_cached = [(Some ''x'', {''a''})],
      ec_request_cached_ids = [(''a'', {0})], ec_freeable = [], ec_freed = []\<rparr>"

lemma demo_sizes: "sizes_ok (\<lambda>_. [demo_image]) (\<lambda>_. 3)"
  by (simp add: sizes_ok_def demo_image_def get_num_embeds_def embeds_cumsum_def)

lemma demo_knows: "knows (\<lambda>_. [demo_image]) (image_request rid)"
  by (simp add: knows_def image_request_def)

lemma demo_hash: "feature_hash (image_request rid) 0 = Inr (Some ''x'')"
  by (simp add: feature_hash_def image_request_def demo_image_def)

lemma demo_encoder_reach: "enc_reach (\<lambda>_. [demo_image]) 4 demo_encoder_cache"
proof (rule enc_allocates)
  show "enc_reach (\<lambda>_. [demo_image]) 4 (enc_init 4)" by (rule enc_initial) simp
  show "allocate (image_request ''a'') 0 (enc_init 4) = Inr demo_encoder_cache"
    by (simp add: allocate_def demo_hash enc_init_def get_num_encoder_embeds_def image_request_def demo_image_def
        get_num_embeds_def embeds_cumsum_def enc_refer_def demo_encoder_cache_def demo_waiting_def feature_hash_def Let_def)
qed (simp_all add: demo_knows demo_hash enc_init_def)

lemma encoder_books_witness: "ec_num_free_slots demo_encoder_cache = 4 - space (\<lambda>_. 3) (ec_cached demo_encoder_cache)"
  using encoder_books[OF demo_encoder_reach demo_sizes] by blast


lemma enc_free_releases_witness:
  "\<exists>c'. enc_free sorted_list_of_set (image_request ''a'') demo_encoder_cache = Inr c' \<and>
     get_cached_input_ids (image_request ''a'') c' = {}"
proof -
  have "lists_sets sorted_list_of_set" by (simp add: lists_sets_def)
  from enc_free_releases[OF demo_encoder_reach demo_sizes demo_knows this, of "''a''"] show ?thesis by blast
qed

end
