(* ===== verification/EncoderScheduling.thy ===== *)
theory EncoderScheduling
  imports EncoderProps
begin

text \<open>
  How the scheduler plans the encoder inputs of one request in one step:
  \<open>_try_schedule_encoder_inputs\<close> and the allocations that follow it in \<open>schedule\<close>
  (\<^verbatim>\<open>vllm/v1/core/sched/scheduler.py\<close>), with \<open>get_mm_features_in_window\<close>
  (\<^verbatim>\<open>vllm/multimodal/utils.py\<close>).  The tokens that remain scheduled never need an encoder
  output that is neither cached nor planned, and the planned allocations fit.
\<close>

section \<open>The window\<close>

definition feature_end :: "mm_feature \<Rightarrow> int" where
  "feature_end f = int (mm_offset f) + int (mm_length f)"

definition get_mm_features_in_window :: "mm_feature list \<Rightarrow> int \<Rightarrow> int \<Rightarrow> nat \<times> nat" where
  "get_mm_features_in_window fs start end_pos =
     (bisect_left feature_end fs (start + 1) 0 (length fs),
      bisect_left (\<lambda>f. int (mm_offset f)) fs end_pos 0 (length fs))"

section \<open>The manager\<close>

text \<open>The scheduler holds one of the two managers.\<close>

datatype encoder_manager = Shared encoder_cache | PerStep encdec_cache

fun em_check :: "request \<Rightarrow> nat \<Rightarrow> encoder_manager \<Rightarrow> (bool \<times> encoder_manager) res" where
  "em_check req i (Shared c) = bind_res (check_and_update_cache req i c) (\<lambda>(b, c'). Inr (b, Shared c'))"
| "em_check req i (PerStep c) = (case encdec_check_and_update_cache req i c of (b, c') \<Rightarrow> Inr (b, PerStep c'))"

fun em_can_allocate :: "request \<Rightarrow> nat \<Rightarrow> int \<Rightarrow> int \<Rightarrow> encoder_manager \<Rightarrow> (bool \<times> encoder_manager) res" where
  "em_can_allocate req i budget sched (Shared c) =
     bind_res (can_allocate req i budget sched c) (\<lambda>(b, c'). Inr (b, Shared c'))"
| "em_can_allocate req i budget sched (PerStep c) =
     bind_res (encdec_can_allocate req i budget sched c) (\<lambda>b. Inr (b, PerStep c))"

fun em_allocate :: "request \<Rightarrow> nat \<Rightarrow> encoder_manager \<Rightarrow> encoder_manager res" where
  "em_allocate req i (Shared c) = bind_res (allocate req i c) (\<lambda>c'. Inr (Shared c'))"
| "em_allocate req i (PerStep c) = bind_res (encdec_allocate req i c) (\<lambda>c'. Inr (PerStep c'))"

section \<open>Planning\<close>

record try_state =
  ts_inputs :: "nat list"
  ts_num_new_tokens :: int
  ts_budget :: int
  ts_external :: "nat list"
  ts_hashes :: "mm_hash set"
  ts_num_embeds :: int
  ts_manager :: encoder_manager

text \<open>An input that is planned already or cached needs nothing; asking refers to the cached one.\<close>

definition input_known :: "bool \<Rightarrow> request \<Rightarrow> nat \<Rightarrow> mm_hash \<Rightarrow> try_state \<Rightarrow> (bool \<times> try_state) res" where
  "input_known encdec req i h st =
     (if encdec then Inr (False, st)
      else if h \<in> ts_hashes st then Inr (True, st)
      else bind_res (em_check req i (ts_manager st)) (\<lambda>(b, m). Inr (b, st\<lparr>ts_manager := m\<rparr>)))"

text \<open>The connector \<open>conn\<close> answers \<open>has_cache_item\<close>, when there is one.\<close>

fun try_inputs ::
  "(mm_hash \<Rightarrow> bool) option \<Rightarrow> bool \<Rightarrow> bool \<Rightarrow> request \<Rightarrow> int \<Rightarrow> int \<Rightarrow> nat list \<Rightarrow> try_state \<Rightarrow> try_state res" where
  "try_inputs conn encdec whole req computed shift [] st = Inr st"
| "try_inputs conn encdec whole req computed shift (i # rest) st =
     (let f = mm_features req ! i;
          start_pos = int (mm_offset f);
          num_tokens = int (mm_length f);
          num_embeds = int (get_num_embeds f);
          h = mm_identifier f
      in if encdec \<and> 0 < computed
         then bind_res (check_res (start_pos = 0) (AssertionError ''Encoder input should be processed at the beginning''))
                (\<lambda>_. try_inputs conn encdec whole req computed shift rest st)
         else bind_res (input_known encdec req i h st) (\<lambda>(known, st1).
           if known then try_inputs conn encdec whole req computed shift rest st1
           else if whole \<and> computed < start_pos \<and> computed + ts_num_new_tokens st1 < start_pos + num_tokens
           then Inr (st1\<lparr>ts_num_new_tokens := max 0 (start_pos - (computed + shift))\<rparr>)
           else bind_res (em_can_allocate req i (ts_budget st1) (ts_num_embeds st1) (ts_manager st1)) (\<lambda>(ok, m).
             let st2 = st1\<lparr>ts_manager := m\<rparr>
             in if \<not> ok
                then Inr (st2\<lparr>ts_num_new_tokens :=
                       (if computed + shift < start_pos then start_pos - (computed + shift) else 0)\<rparr>)
                else bind_res (get_embeds_indices_in_range f (max 0 (computed - start_pos))
                       (min num_tokens (computed + ts_num_new_tokens st2 - start_pos))) (\<lambda>(a, b).
                  if b - a = 0 then try_inputs conn encdec whole req computed shift rest st2
                  else if (case conn of None \<Rightarrow> False | Some has \<Rightarrow> has h)
                  then try_inputs conn encdec whole req computed shift rest
                         (st2\<lparr>ts_hashes := insert h (ts_hashes st2), ts_external := ts_external st2 @ [i],
                              ts_num_embeds := ts_num_embeds st2 + num_embeds\<rparr>)
                  else try_inputs conn encdec whole req computed shift rest
                         (st2\<lparr>ts_num_embeds := ts_num_embeds st2 + num_embeds,
                              ts_budget := ts_budget st2 - num_embeds,
                              ts_hashes := insert h (ts_hashes st2), ts_inputs := ts_inputs st2 @ [i]\<rparr>)))))"

definition try_schedule_encoder_inputs ::
  "(mm_hash \<Rightarrow> bool) option \<Rightarrow> bool \<Rightarrow> bool \<Rightarrow> request \<Rightarrow> int \<Rightarrow> int \<Rightarrow> int \<Rightarrow> int \<Rightarrow> encoder_manager \<Rightarrow>
   (nat list \<times> int \<times> int \<times> nat list \<times> encoder_manager) res" where
  "try_schedule_encoder_inputs conn encdec whole req computed new budget shift m =
     (if new = 0 \<or> \<not> has_encoder_inputs req then Inr ([], new, budget, [], m)
      else let (lo, hi) = get_mm_features_in_window (mm_features req) computed (computed + new + shift);
               lo' = (if encdec then 0 else lo)
           in bind_res (try_inputs conn encdec whole req computed shift [lo'..<hi]
                \<lparr>ts_inputs = [], ts_num_new_tokens = new, ts_budget = budget, ts_external = [], ts_hashes = {},
                 ts_num_embeds = 0, ts_manager = m\<rparr>)
              (\<lambda>st. Inr (ts_inputs st, ts_num_new_tokens st, ts_budget st, ts_external st, ts_manager st)))"

text \<open>The allocations of \<open>schedule\<close>: computed inputs, then external ones; the connector, when there
  is one, is told each of them (\<open>update_state_after_alloc\<close>), in this order.\<close>

definition allocate_scheduled ::
  "bool \<Rightarrow> request \<Rightarrow> nat list \<Rightarrow> nat list \<Rightarrow> encoder_manager \<Rightarrow> (nat list \<times> encoder_manager) res" where
  "allocate_scheduled has_conn req inputs external m =
     bind_res (fold_res (em_allocate req) inputs m) (\<lambda>m1.
     bind_res (fold_res (em_allocate req) external m1) (\<lambda>m2.
       Inr (if has_conn then inputs @ external else [], m2)))"

section \<open>The window is the window\<close>

text \<open>The features lie in the order of their offsets and of their ends.\<close>

definition ordered_features :: "mm_feature list \<Rightarrow> bool" where
  "ordered_features fs \<longleftrightarrow> sorted (map (\<lambda>f. int (mm_offset f)) fs) \<and> sorted (map feature_end fs)"

lemma window_ok:
  assumes "ordered_features fs" "get_mm_features_in_window fs a b = (lo, hi)"
  shows "hi \<le> length fs \<and> (\<forall>i < length fs. i < lo \<longrightarrow> feature_end (fs ! i) \<le> a) \<and>
    (\<forall>i < length fs. lo \<le> i \<longrightarrow> a < feature_end (fs ! i)) \<and>
    (\<forall>i < length fs. i < hi \<longrightarrow> int (mm_offset (fs ! i)) < b) \<and>
    (\<forall>i < length fs. hi \<le> i \<longrightarrow> b \<le> int (mm_offset (fs ! i)))"
proof -
  have s: "sorted (map (\<lambda>f. int (mm_offset f)) fs)" "sorted (map feature_end fs)"
    using assms(1) by (simp_all add: ordered_features_def)
  have lohi: "lo = bisect_left feature_end fs (a + 1) 0 (length fs)"
    "hi = bisect_left (\<lambda>f. int (mm_offset f)) fs b 0 (length fs)"
    using assms(2) by (simp_all add: get_mm_features_in_window_def)
  show ?thesis
    using bisect_left_ok[OF s(1), of "length fs" 0 b] bisect_left_ok[OF s(2), of "length fs" 0 "a + 1"]
    unfolding lohi by auto
qed


section \<open>Which inputs a range of tokens needs\<close>

definition embeds_at :: "mm_feature \<Rightarrow> nat \<Rightarrow> bool" where
  "embeds_at f p \<longleftrightarrow> p < mm_length f \<and> (case mm_is_embed f of None \<Rightarrow> True | Some m \<Rightarrow> m ! p)"

definition needed :: "mm_feature \<Rightarrow> int \<Rightarrow> int \<Rightarrow> bool" where
  "needed f a b \<longleftrightarrow> (\<exists>p. embeds_at f p \<and> a \<le> int (mm_offset f) + int p \<and> int (mm_offset f) + int p < b)"

definition mask_ok :: "mm_feature \<Rightarrow> bool" where
  "mask_ok f \<longleftrightarrow> (\<forall>m. mm_is_embed f = Some m \<longrightarrow> length m = mm_length f)"

lemma needed_mono: "needed f a b \<Longrightarrow> b \<le> c \<Longrightarrow> needed f a c"
  by (fastforce simp: needed_def)

lemma needed_overlap: "needed f a b \<Longrightarrow> a < feature_end f \<and> int (mm_offset f) < b"
  by (auto simp: needed_def embeds_at_def feature_end_def)

lemma length_filter_take_mono: "a \<le> b \<Longrightarrow> length (filter id (take a m)) \<le> length (filter id (take b m))"
  by (auto simp: le_iff_add take_add)

lemma length_filter_take_less:
  assumes "a \<le> p" "p < b" "p < length m" "m ! p"
  shows "length (filter id (take a m)) < length (filter id (take b m))"
proof -
  have "length (filter id (take (Suc p) m)) = Suc (length (filter id (take p m)))"
    using assms(3,4) by (simp add: take_Suc_conv_app_nth)
  with length_filter_take_mono[of a p m] length_filter_take_mono[of "Suc p" b m] assms(1,2) show ?thesis by linarith
qed

lemma cumsum_before:
  assumes "0 \<le> idx" "idx \<le> int (length m)"
  shows "cumsum_before (map (\<lambda>k. length (filter id (take (k + 1) m))) [0..<length m]) idx =
    Inr (int (length (filter id (take (nat idx) m))))"
proof (cases "0 < idx")
  case True
  then have "nat (idx - 1) < length m" "nat (idx - 1) + 1 = nat idx" using assms(2) by linarith+
  then show ?thesis using assms(2) True by (simp add: cumsum_before_def)
qed (use assms in \<open>simp add: cumsum_before_def\<close>)

text \<open>The embeddings in the range are counted without error, and a count of zero means that the
  range needs none.\<close>

lemma embeds_range:
  fixes computed new :: int
  assumes ok: "mask_ok f" and win: "computed < feature_end f"
  defines "s \<equiv> max 0 (computed - int (mm_offset f))"
    and "e \<equiv> min (int (mm_length f)) (computed + new - int (mm_offset f))"
  shows "\<exists>a b. get_embeds_indices_in_range f s e = Inr (a, b) \<and> (b - a = 0 \<longrightarrow> \<not> needed f computed (computed + new))"
proof (cases "mm_is_embed f")
  case None
  then have "get_embeds_indices_in_range f s e = Inr (s, e)"
    by (simp add: get_embeds_indices_in_range_def embeds_cumsum_def)
  moreover have "\<not> needed f computed (computed + new)" if "e - s = 0"
    using that by (auto simp: needed_def embeds_at_def s_def e_def)
  ultimately show ?thesis by blast
next
  case (Some m)
  then have len: "length m = mm_length f" using ok by (simp add: mask_ok_def)
  let ?cs = "map (\<lambda>k. length (filter id (take (k + 1) m))) [0..<length m]"
  have s: "0 \<le> s" "s \<le> int (length m)" using win len by (auto simp: s_def feature_end_def)
  have e: "e \<le> int (length m)" using len by (simp add: e_def)
  have cs: "cumsum_before ?cs s = Inr (int (length (filter id (take (nat s) m))))" using cumsum_before[OF s] .
  have ce: "cumsum_before ?cs e = Inr (int (length (filter id (take (nat e) m))))"
  proof (cases "0 \<le> e")
    case True
    then show ?thesis using cumsum_before e by blast
  qed (simp add: cumsum_before_def)
  have run: "get_embeds_indices_in_range f s e =
      Inr (int (length (filter id (take (nat s) m))), int (length (filter id (take (nat e) m))))"
    using cs ce Some by (simp add: get_embeds_indices_in_range_def embeds_cumsum_def)
  moreover have "\<not> needed f computed (computed + new)"
    if eq: "int (length (filter id (take (nat e) m))) - int (length (filter id (take (nat s) m))) = 0"
  proof
    assume "needed f computed (computed + new)"
    then obtain p where p: "p < length m" "m ! p" "computed \<le> int (mm_offset f) + int p"
      "int (mm_offset f) + int p < computed + new"
      using Some len by (auto simp: needed_def embeds_at_def)
    have "nat s \<le> p" "p < nat e" using p len by (auto simp: s_def e_def)
    from length_filter_take_less[OF this p(1,2)] eq show False by simp
  qed
  ultimately show ?thesis by blast
qed

section \<open>The loop\<close>

definition hash_of :: "request \<Rightarrow> nat \<Rightarrow> mm_hash" where
  "hash_of req i = mm_identifier (mm_features req ! i)"

definition refers :: "encoder_cache \<Rightarrow> mm_hash \<Rightarrow> string \<Rightarrow> bool" where
  "refers c h rid \<longleftrightarrow> (\<exists>rs. od_get (ec_cached c) h = Some rs \<and> rid \<in> rs)"

definition planned_size :: "(mm_hash \<Rightarrow> nat) \<Rightarrow> request \<Rightarrow> nat list \<Rightarrow> int" where
  "planned_size sz req xs = (\<Sum>i\<leftarrow>xs. int (sz (hash_of req i)))"

lemma planned_size_simps [simp]:
  "planned_size sz req [] = 0"
  "planned_size sz req (xs @ ys) = planned_size sz req xs + planned_size sz req ys"
  "planned_size sz req (i # xs) = int (sz (hash_of req i)) + planned_size sz req xs"
  by (simp_all add: planned_size_def)

lemma planned_size_nonneg: "0 \<le> planned_size sz req xs"
  by (induction xs) simp_all

text \<open>A plan: distinct uncached inputs that fit the free slots and the budget.\<close>

definition plan_fits :: "(mm_hash \<Rightarrow> nat) \<Rightarrow> request \<Rightarrow> int \<Rightarrow> nat list \<Rightarrow> nat list \<Rightarrow> int \<Rightarrow> encoder_cache \<Rightarrow> bool" where
  "plan_fits sz req budget0 ins ext budget c \<longleftrightarrow>
     (\<forall>i \<in> set (ins @ ext). i < length (mm_features req)) \<and>
     distinct (map (hash_of req) (ins @ ext)) \<and>
     (\<forall>i \<in> set (ins @ ext). od_get (ec_cached c) (hash_of req i) = None) \<and>
     planned_size sz req (ins @ ext) \<le> ec_num_free_slots c \<and>
     budget = budget0 - planned_size sz req ins \<and> (0 \<le> budget0 \<longrightarrow> 0 \<le> budget)"

definition covered :: "request \<Rightarrow> int \<Rightarrow> int \<Rightarrow> nat set \<Rightarrow> mm_hash set \<Rightarrow> encoder_cache \<Rightarrow> bool" where
  "covered req computed new D hs c \<longleftrightarrow>
     (\<forall>i \<in> D. needed (mm_features req ! i) computed (computed + new) \<longrightarrow>
        hash_of req i \<in> hs \<or> refers c (hash_of req i) (request_id req))"

lemma covered_less: "covered req computed new D hs c \<Longrightarrow> new' \<le> new \<Longrightarrow> covered req computed new' D hs c"
  unfolding covered_def by (meson add_left_mono needed_mono)

text \<open>A step of the manager that keeps references and never adds an entry or takes a free slot.\<close>

definition keeps :: "encoder_cache \<Rightarrow> encoder_cache \<Rightarrow> bool" where
  "keeps c c' \<longleftrightarrow> ec_num_free_slots c \<le> ec_num_free_slots c' \<and>
     (\<forall>h. od_get (ec_cached c) h = None \<longrightarrow> od_get (ec_cached c') h = None) \<and>
     (\<forall>h rid. refers c h rid \<longrightarrow> refers c' h rid)"

lemma keeps_refl [simp]: "keeps c c"
  by (simp add: keeps_def)

lemma plan_fits_keeps: "plan_fits sz req b0 ins ext b c \<Longrightarrow> keeps c c' \<Longrightarrow> plan_fits sz req b0 ins ext b c'"
  unfolding plan_fits_def keeps_def by auto

lemma covered_keeps: "covered req computed new D hs c \<Longrightarrow> keeps c c' \<Longrightarrow> covered req computed new D hs c'"
  unfolding covered_def keeps_def by blast

lemma evicted_keeps:
  assumes inv: "enc_inv feats sz cap c" and ev: "evicted k c c'"
  shows "keeps c c'"
proof -
  have "0 \<le> n" if "(h, n) \<in> set (ec_freeable c)" for h n
  proof -
    have "distinct (od_keys (ec_freeable c))" using inv by (simp add: enc_inv_def entries_ok_def)
    then have "od_get (ec_freeable c) h = Some n" using that by (rule map_of_is_SomeI)
    then have "n = int (sz h)" using inv unfolding enc_inv_def entries_ok_def by blast
    then show ?thesis by simp
  qed
  then have "0 \<le> sum_list (map snd (take k (ec_freeable c)))"
    by (intro sum_list_nonneg) (auto dest: in_set_takeD)
  then show ?thesis using ev by (auto simp: evicted_def keeps_def refers_def)
qed

lemma check_keeps:
  assumes "enc_inv feats sz cap c" "knows feats req" "feature_hash req i = Inr h" "od_get (ec_cached c) h = Some refs"
  shows "\<exists>c'. check_and_update_cache req i c = Inr (True, c') \<and> enc_inv feats sz cap c' \<and> keeps c c' \<and>
    refers c' h (request_id req)"
proof -
  from check_hit[OF assms] obtain c' where C: "check_and_update_cache req i c = Inr (True, c')" "enc_inv feats sz cap c'"
    "\<exists>refs'. od_get (ec_cached c') h = Some refs' \<and> request_id req \<in> refs'"
    "od_dom (ec_cached c') = od_dom (ec_cached c)" "ec_num_free_slots c' = ec_num_free_slots c"
    "\<forall>h' rs rid. od_get (ec_cached c) h' = Some rs \<longrightarrow> rid \<in> rs \<longrightarrow>
       (\<exists>rs'. od_get (ec_cached c') h' = Some rs' \<and> rid \<in> rs')" by blast
  have "\<forall>h rid. refers c h rid \<longrightarrow> refers c' h rid" using C(6) unfolding refers_def by blast
  then have "keeps c c'" using C(4,5) unfolding keeps_def od_get_None_iff by simp
  with C(1-3) show ?thesis unfolding refers_def by blast
qed


definition try_ok ::
  "(string \<Rightarrow> mm_feature list) \<Rightarrow> (mm_hash \<Rightarrow> nat) \<Rightarrow> int \<Rightarrow> request \<Rightarrow> int \<Rightarrow> int \<Rightarrow> nat set \<Rightarrow>
   encoder_cache \<Rightarrow> try_state \<Rightarrow> bool" where
  "try_ok feats sz cap req b0 computed D c st \<longleftrightarrow>
     ts_manager st = Shared c \<and> enc_reach feats cap c \<and>
     plan_fits sz req b0 (ts_inputs st) (ts_external st) (ts_budget st) c \<and>
     ts_hashes st = hash_of req ` set (ts_inputs st @ ts_external st) \<and>
     ts_num_embeds st = planned_size sz req (ts_inputs st @ ts_external st) \<and>
     0 \<le> ts_num_new_tokens st \<and> covered req computed (ts_num_new_tokens st) D (ts_hashes st) c"

lemma try_ok_manager:
  "try_ok feats sz cap req b0 computed D c st \<Longrightarrow> keeps c c' \<Longrightarrow> enc_reach feats cap c' \<Longrightarrow>
    try_ok feats sz cap req b0 computed D c' (st\<lparr>ts_manager := Shared c'\<rparr>)"
  unfolding try_ok_def by (elim conjE) (simp add: plan_fits_keeps covered_keeps)

lemma try_ok_covers:
  assumes "try_ok feats sz cap req b0 computed D c st"
    and "\<And>i. i \<in> X \<Longrightarrow> needed (mm_features req ! i) computed (computed + ts_num_new_tokens st) \<Longrightarrow>
      hash_of req i \<in> ts_hashes st \<or> refers c (hash_of req i) (request_id req)"
  shows "try_ok feats sz cap req b0 computed (D \<union> X) c st"
  using assms unfolding try_ok_def covered_def by blast

lemma try_ok_break:
  assumes "try_ok feats sz cap req b0 computed D c st" "0 \<le> new'" "new' \<le> ts_num_new_tokens st"
    and "\<And>i. i \<in> X \<Longrightarrow> \<not> needed (mm_features req ! i) computed (computed + new')"
  shows "try_ok feats sz cap req b0 computed (D \<union> X) c (st\<lparr>ts_num_new_tokens := new'\<rparr>)"
proof -
  have "try_ok feats sz cap req b0 computed D c (st\<lparr>ts_num_new_tokens := new'\<rparr>)"
    using assms(1-3) unfolding try_ok_def by (elim conjE) (simp add: covered_less)
  then show ?thesis by (rule try_ok_covers) (use assms(4) in simp)
qed

lemma known_step:
  assumes ok: "try_ok feats sz cap req b0 computed D c st" and k: "knows feats req" and sz: "sizes_ok feats sz"
    and i: "i < length (mm_features req)"
  defines "h \<equiv> hash_of req i"
  shows "(\<exists>c' st'. input_known False req i h st = Inr (True, st') \<and>
      try_ok feats sz cap req b0 computed (D \<union> {i}) c' st' \<and> ts_num_new_tokens st' = ts_num_new_tokens st) \<or>
    (input_known False req i h st = Inr (False, st) \<and> h \<notin> ts_hashes st \<and> od_get (ec_cached c) h = None)"
proof (cases "h \<in> ts_hashes st")
  case True
  have "try_ok feats sz cap req b0 computed (D \<union> {i}) c st"
    by (rule try_ok_covers[OF ok]) (use True in \<open>simp add: h_def\<close>)
  with True show ?thesis by (auto simp: input_known_def)
next
  case False
  have m: "ts_manager st = Shared c" and reach: "enc_reach feats cap c" using ok by (simp_all add: try_ok_def)
  have fh: "feature_hash req i = Inr h" using i by (simp add: feature_hash_def h_def hash_of_def)
  show ?thesis
  proof (cases "od_get (ec_cached c) h")
    case None
    then have "input_known False req i h st = Inr (False, st\<lparr>ts_manager := Shared c\<rparr>)"
      using False m check_miss[OF fh, of c] by (simp add: input_known_def)
    then have "input_known False req i h st = Inr (False, st)" using m by simp
    with False None show ?thesis by blast
  next
    case (Some refs)
    from check_keeps[OF enc_reach_inv[OF reach sz] k fh Some] obtain c' where
      C: "check_and_update_cache req i c = Inr (True, c')" "keeps c c'" "refers c' h (request_id req)" by blast
    have r: "enc_reach feats cap c'" by (rule enc_checks[OF reach k C(1)])
    have "try_ok feats sz cap req b0 computed (D \<union> {i}) c' (st\<lparr>ts_manager := Shared c'\<rparr>)"
      by (rule try_ok_covers[OF try_ok_manager[OF ok C(2) r]]) (use C(3) in \<open>simp add: h_def\<close>)
    then show ?thesis using False m C(1) by (auto simp: input_known_def)
  qed
qed

lemma planned_step:
  assumes ok: "try_ok feats sz cap req b0 computed D c st" and i: "i < length (mm_features req)"
    and new: "hash_of req i \<notin> ts_hashes st" "od_get (ec_cached c) (hash_of req i) = None"
    and room: "int (sz (hash_of req i)) + ts_num_embeds st \<le> ec_num_free_slots c"
    and n: "n = int (sz (hash_of req i))"
  shows "try_ok feats sz cap req b0 computed (D \<union> {i}) c
      (st\<lparr>ts_hashes := insert (hash_of req i) (ts_hashes st), ts_external := ts_external st @ [i],
          ts_num_embeds := ts_num_embeds st + n\<rparr>)"
    and "n \<le> ts_budget st \<Longrightarrow> try_ok feats sz cap req b0 computed (D \<union> {i}) c
      (st\<lparr>ts_num_embeds := ts_num_embeds st + n, ts_budget := ts_budget st - n,
          ts_hashes := insert (hash_of req i) (ts_hashes st), ts_inputs := ts_inputs st @ [i]\<rparr>)"
proof -
  have parts: "ts_manager st = Shared c" "enc_reach feats cap c"
    "plan_fits sz req b0 (ts_inputs st) (ts_external st) (ts_budget st) c"
    "ts_hashes st = hash_of req ` set (ts_inputs st @ ts_external st)"
    "ts_num_embeds st = planned_size sz req (ts_inputs st @ ts_external st)"
    "0 \<le> ts_num_new_tokens st" "covered req computed (ts_num_new_tokens st) D (ts_hashes st) c"
    using ok unfolding try_ok_def by blast+
  have cov: "covered req computed (ts_num_new_tokens st) (D \<union> {i}) (insert (hash_of req i) (ts_hashes st)) c"
    using parts(7) by (auto simp: covered_def)
  have ext: "plan_fits sz req b0 (ts_inputs st) (ts_external st @ [i]) (ts_budget st) c"
    using parts(3-5) i new room by (auto simp: plan_fits_def)
  show "try_ok feats sz cap req b0 computed (D \<union> {i}) c
      (st\<lparr>ts_hashes := insert (hash_of req i) (ts_hashes st), ts_external := ts_external st @ [i],
          ts_num_embeds := ts_num_embeds st + n\<rparr>)"
    using parts ext cov n by (simp add: try_ok_def)
  assume b: "n \<le> ts_budget st"
  have ins: "plan_fits sz req b0 (ts_inputs st @ [i]) (ts_external st) (ts_budget st - n) c"
    using parts(3-5) i new room n b by (auto simp: plan_fits_def)
  show "try_ok feats sz cap req b0 computed (D \<union> {i}) c
      (st\<lparr>ts_num_embeds := ts_num_embeds st + n, ts_budget := ts_budget st - n,
          ts_hashes := insert (hash_of req i) (ts_hashes st), ts_inputs := ts_inputs st @ [i]\<rparr>)"
    using parts ins cov n by (auto simp: try_ok_def)
qed

lemma room_step:
  assumes ok: "try_ok feats sz cap req b0 computed D c st" and k: "knows feats req" and sz: "sizes_ok feats sz"
    and i: "i < length (mm_features req)" and new: "od_get (ec_cached c) (hash_of req i) = None"
  shows "\<exists>b c'. em_can_allocate req i (ts_budget st) (ts_num_embeds st) (ts_manager st) = Inr (b, Shared c') \<and>
    try_ok feats sz cap req b0 computed D c' (st\<lparr>ts_manager := Shared c'\<rparr>) \<and>
    od_get (ec_cached c') (hash_of req i) = None \<and>
    (b \<longrightarrow> int (sz (hash_of req i)) \<le> ts_budget st \<and>
       int (sz (hash_of req i)) + ts_num_embeds st \<le> ec_num_free_slots c')"
proof -
  have m: "ts_manager st = Shared c" and reach: "enc_reach feats cap c" using ok by (simp_all add: try_ok_def)
  have fh: "feature_hash req i = Inr (hash_of req i)" using i by (simp add: feature_hash_def hash_of_def)
  note inv = enc_reach_inv[OF reach sz]
  from can_allocate_ok[OF inv k sz fh refl, of "ts_budget st" "ts_num_embeds st"] obtain c' k' where
    C: "can_allocate req i (ts_budget st) (ts_num_embeds st) c = Inr (int (sz (hash_of req i)) \<le> ts_budget st \<and>
        int (sz (hash_of req i)) + ts_num_embeds st \<le> ec_num_freeable_slots c, c')" "evicted k' c c'"
      "int (sz (hash_of req i)) \<le> ts_budget st \<and> int (sz (hash_of req i)) + ts_num_embeds st \<le> ec_num_freeable_slots c
        \<longrightarrow> int (sz (hash_of req i)) + ts_num_embeds st \<le> ec_num_free_slots c'" by blast
  have kp: "keeps c c'" by (rule evicted_keeps[OF inv C(2)])
  have "try_ok feats sz cap req b0 computed D c' (st\<lparr>ts_manager := Shared c'\<rparr>)"
    by (rule try_ok_manager[OF ok kp enc_makes_room[OF reach C(1)]])
  then show ?thesis using C(1,3) kp new m by (auto simp: keeps_def)
qed


lemma not_needed_before: "computed + n \<le> int (mm_offset f) \<or> n = 0 \<Longrightarrow> \<not> needed f computed (computed + n)"
  by (auto simp: needed_def)

lemma try_inputs_ok:
  assumes k: "knows feats req" and sz: "sizes_ok feats sz" and shift: "0 \<le> shift"
    and masks: "\<forall>f \<in> set (mm_features req). mask_ok f"
    and ok: "try_ok feats sz cap req b0 computed D c st"
    and xs: "\<forall>i \<in> set xs. i < length (mm_features req) \<and> computed < feature_end (mm_features req ! i) \<and>
       int (mm_offset (mm_features req ! i)) < computed + ts_num_new_tokens st + shift"
      "sorted (map (\<lambda>i. mm_offset (mm_features req ! i)) xs)"
  shows "\<exists>c' st'. try_inputs conn False whole req computed shift xs st = Inr st' \<and>
    try_ok feats sz cap req b0 computed (D \<union> set xs) c' st' \<and> ts_num_new_tokens st' \<le> ts_num_new_tokens st"
  using ok xs
proof (induction xs arbitrary: st D c)
  case Nil
  then show ?case by auto
next
  case (Cons i rest)
  let ?f = "mm_features req ! i" and ?h = "hash_of req i"
  let ?start = "int (mm_offset ?f)"
  note ok = Cons.prems(1)
  have i: "i < length (mm_features req)" "computed < feature_end ?f"
    "?start < computed + ts_num_new_tokens st + shift" using Cons.prems(2) by auto
  have hh: "mm_identifier ?f = ?h" by (simp add: hash_of_def)
  have later: "?start \<le> int (mm_offset (mm_features req ! j))" if "j \<in> set (i # rest)" for j
    using Cons.prems(3) that by auto
  have stop: "\<exists>c' st'. Inr (st'\<lparr>ts_num_new_tokens := n\<rparr>) = Inr st'' \<and>
      try_ok feats sz cap req b0 computed (D \<union> set (i # rest)) c' st'' \<and> ts_num_new_tokens st'' \<le> ts_num_new_tokens st"
    if t: "try_ok feats sz cap req b0 computed D c0 st'" "ts_num_new_tokens st' = ts_num_new_tokens st"
      "st'' = st'\<lparr>ts_num_new_tokens := n\<rparr>" "0 \<le> n" "n \<le> ts_num_new_tokens st" "computed + n \<le> ?start \<or> n = 0"
    for c0 st' st'' n
  proof -
    have "try_ok feats sz cap req b0 computed (D \<union> set (i # rest)) c0 (st'\<lparr>ts_num_new_tokens := n\<rparr>)"
      by (rule try_ok_break[OF t(1)]) (use t later not_needed_before in force)+
    then show ?thesis using t by auto
  qed
  have go: "\<exists>c' st''. try_inputs conn False whole req computed shift rest st' = Inr st'' \<and>
      try_ok feats sz cap req b0 computed (D \<union> set (i # rest)) c' st'' \<and> ts_num_new_tokens st'' \<le> ts_num_new_tokens st"
    if t: "try_ok feats sz cap req b0 computed (D \<union> {i}) c0 st'" "ts_num_new_tokens st' = ts_num_new_tokens st" for c0 st'
    using Cons.IH[OF t(1)] Cons.prems(2,3) t(2) by simp
  have new0: "0 \<le> ts_num_new_tokens st" using ok by (simp add: try_ok_def)
  from known_step[OF ok k sz i(1)] show ?case
  proof (elim disjE exE conjE)
    fix c' st' assume s: "input_known False req i ?h st = Inr (True, st')"
      "try_ok feats sz cap req b0 computed (D \<union> {i}) c' st'" "ts_num_new_tokens st' = ts_num_new_tokens st"
    then show ?case using go[OF s(2,3)] hh by (simp add: Let_def)
  next
    assume s: "input_known False req i ?h st = Inr (False, st)" and new: "?h \<notin> ts_hashes st" "od_get (ec_cached c) ?h = None"
    show ?case
    proof (cases "whole \<and> computed < ?start \<and> computed + ts_num_new_tokens st < ?start + int (mm_length ?f)")
      case True
      let ?n = "max 0 (?start - (computed + shift))"
      have "try_inputs conn False whole req computed shift (i # rest) st = Inr (st\<lparr>ts_num_new_tokens := ?n\<rparr>)"
        using s True hh by (simp add: Let_def)
      moreover have "0 \<le> ?n" "?n \<le> ts_num_new_tokens st" "computed + ?n \<le> ?start \<or> ?n = 0"
        using i(3) new0 shift True by auto
      ultimately show ?thesis using stop[OF ok refl refl] by auto
    next
      case part: False
      from room_step[OF ok k sz i(1) new(2)] obtain b c1 where
        R: "em_can_allocate req i (ts_budget st) (ts_num_embeds st) (ts_manager st) = Inr (b, Shared c1)"
          "try_ok feats sz cap req b0 computed D c1 (st\<lparr>ts_manager := Shared c1\<rparr>)"
          "od_get (ec_cached c1) ?h = None"
          "b \<Longrightarrow> int (sz ?h) \<le> ts_budget st \<and> int (sz ?h) + ts_num_embeds st \<le> ec_num_free_slots c1" by blast
      let ?st2 = "st\<lparr>ts_manager := Shared c1\<rparr>"
      show ?thesis
      proof (cases b)
        case False
        let ?n = "if computed + shift < ?start then ?start - (computed + shift) else 0"
        have "try_inputs conn False whole req computed shift (i # rest) st = Inr (?st2\<lparr>ts_num_new_tokens := ?n\<rparr>)"
          using s part R(1) False hh by (auto simp: Let_def)
        moreover have "0 \<le> ?n" "?n \<le> ts_num_new_tokens st" "computed + ?n \<le> ?start \<or> ?n = 0"
          using i(3) new0 shift by auto
        ultimately show ?thesis using stop[OF R(2) _ refl] by auto
      next
        case True
        have "mask_ok ?f" using masks i(1) by simp
        from embeds_range[OF this i(2), of "ts_num_new_tokens st"] obtain a e where
          E: "get_embeds_indices_in_range ?f (max 0 (computed - ?start))
               (min (int (mm_length ?f)) (computed + ts_num_new_tokens st - ?start)) = Inr (a, e)"
            "e - a = 0 \<Longrightarrow> \<not> needed ?f computed (computed + ts_num_new_tokens st)" by blast
        have size: "int (get_num_embeds ?f) = int (sz ?h)"
          using sz k nth_mem[OF i(1)] unfolding sizes_ok_def knows_def hash_of_def by metis
        note P = planned_step[OF R(2) i(1) _ R(3)]
        have room: "int (sz ?h) + ts_num_embeds ?st2 \<le> ec_num_free_slots c1" "?h \<notin> ts_hashes ?st2"
          "int (sz ?h) \<le> ts_budget ?st2" using R(4)[OF True] new(1) by simp_all
        have run: "try_inputs conn False whole req computed shift (i # rest) st =
            (if e - a = 0 then try_inputs conn False whole req computed shift rest ?st2
             else if (case conn of None \<Rightarrow> False | Some has \<Rightarrow> has ?h)
             then try_inputs conn False whole req computed shift rest
               (?st2\<lparr>ts_hashes := insert ?h (ts_hashes ?st2), ts_external := ts_external ?st2 @ [i],
                     ts_num_embeds := ts_num_embeds ?st2 + int (get_num_embeds ?f)\<rparr>)
             else try_inputs conn False whole req computed shift rest
               (?st2\<lparr>ts_num_embeds := ts_num_embeds ?st2 + int (get_num_embeds ?f),
                     ts_budget := ts_budget ?st2 - int (get_num_embeds ?f),
                     ts_hashes := insert ?h (ts_hashes ?st2), ts_inputs := ts_inputs ?st2 @ [i]\<rparr>))"
        proof -
          have sel: "ts_num_new_tokens ?st2 = ts_num_new_tokens st" by simp
          have bT: "b = True" using True by simp
          show ?thesis
            by (simp only: try_inputs.simps(2) Let_def hh s bind_res.simps prod.case if_not_P[OF part] R(1)[unfolded bT]
                E(1) sel simp_thms if_True if_False)
        qed
        consider "e - a = 0" | "e - a \<noteq> 0" "case conn of None \<Rightarrow> False | Some has \<Rightarrow> has ?h"
          | "e - a \<noteq> 0" "\<not> (case conn of None \<Rightarrow> False | Some has \<Rightarrow> has ?h)" by blast
        then show ?thesis
        proof cases
          case 1
          have "try_ok feats sz cap req b0 computed (D \<union> {i}) c1 ?st2"
            by (rule try_ok_covers[OF R(2)]) (use E(2)[OF 1] in simp)
          from go[OF this] 1 show ?thesis unfolding run by simp
        next
          case 2
          from go[OF P(1)[OF room(2,1) size]] 2 show ?thesis unfolding run by simp
        next
          case 3
          have "int (get_num_embeds ?f) \<le> ts_budget ?st2" using room(3) size by simp
          from go[OF P(2)[OF room(2,1) size this]] 3 show ?thesis unfolding run by simp
        qed
      qed
    qed
  qed
qed


section \<open>Allocating the plan\<close>

lemma allocate_plan:
  assumes reach: "enc_reach feats cap c" and k: "knows feats req" and sz: "sizes_ok feats sz"
    and xs: "\<forall>i \<in> set xs. i < length (mm_features req)" "distinct (map (hash_of req) xs)"
      "\<forall>i \<in> set xs. od_get (ec_cached c) (hash_of req i) = None" "planned_size sz req xs \<le> ec_num_free_slots c"
  shows "\<exists>c'. fold_res (em_allocate req) xs (Shared c) = Inr (Shared c') \<and> enc_reach feats cap c' \<and>
    (\<forall>i \<in> set xs. refers c' (hash_of req i) (request_id req)) \<and> (\<forall>h rid. refers c h rid \<longrightarrow> refers c' h rid)"
  using reach xs
proof (induction xs arbitrary: c)
  case (Cons i rest)
  let ?h = "hash_of req i"
  have fh: "feature_hash req i = Inr ?h" using Cons.prems(2) by (simp add: feature_hash_def hash_of_def)
  have new: "od_get (ec_cached c) ?h = None" using Cons.prems(4) by simp
  have "int (sz ?h) \<le> ec_num_free_slots c" using Cons.prems(5) planned_size_nonneg[of sz req rest] by simp
  from allocate_ok[OF enc_reach_inv[OF Cons.prems(1) sz] k sz fh new this] obtain c1 where
    A: "allocate req i c = Inr c1"
      "\<forall>h'. od_get (ec_cached c1) h' = (if h' = ?h then Some {request_id req} else od_get (ec_cached c) h')"
      "ec_num_free_slots c1 = ec_num_free_slots c - int (sz ?h)" by blast
  have r1: "enc_reach feats cap c1" by (rule enc_allocates[OF Cons.prems(1) k fh new A(1)])
  have "hash_of req j \<noteq> ?h" if "j \<in> set rest" for j using Cons.prems(3) that by (auto simp: image_iff)
  then have u: "\<forall>j \<in> set rest. od_get (ec_cached c1) (hash_of req j) = None" using Cons.prems(4) A(2) by simp
  have "planned_size sz req rest \<le> ec_num_free_slots c1" using Cons.prems(5) A(3) by simp
  from Cons.IH[OF r1 _ _ u this] Cons.prems(2,3) obtain c' where
    I: "fold_res (em_allocate req) rest (Shared c1) = Inr (Shared c')" "enc_reach feats cap c'"
      "\<forall>i \<in> set rest. refers c' (hash_of req i) (request_id req)" "\<forall>h rid. refers c1 h rid \<longrightarrow> refers c' h rid"
    by auto
  have grow: "refers c1 ?h (request_id req)" "\<And>h rid. refers c h rid \<Longrightarrow> refers c1 h rid"
    using A(2) new by (auto simp: refers_def)
  show ?case using A(1) I grow by (intro exI[of _ c']) auto
qed simp

lemma try_schedule_total:
  assumes reach: "enc_reach feats cap c" and sz: "sizes_ok feats sz" and k: "knows feats req"
    and ord: "ordered_features (mm_features req)" and masks: "\<forall>f \<in> set (mm_features req). mask_ok f"
    and nn: "0 \<le> new" "0 \<le> shift"
  shows "\<exists>c' st. try_schedule_encoder_inputs conn False whole req computed new budget shift (Shared c) =
      Inr (ts_inputs st, ts_num_new_tokens st, ts_budget st, ts_external st, Shared c') \<and>
    try_ok feats sz cap req budget computed {..<length (mm_features req)} c' st \<and> ts_num_new_tokens st \<le> new"
proof -
  let ?st = "\<lparr>ts_inputs = [], ts_num_new_tokens = new, ts_budget = budget, ts_external = [], ts_hashes = {},
      ts_num_embeds = 0, ts_manager = Shared c\<rparr>"
  let ?n = "length (mm_features req)"
  have free: "0 \<le> ec_num_free_slots c" using enc_reach_inv[OF reach sz] by (simp add: enc_inv_def books_ok_def)
  have ok0: "try_ok feats sz cap req budget computed {} c ?st"
    using reach free nn by (simp add: try_ok_def plan_fits_def covered_def)
  show ?thesis
  proof (cases "new = 0 \<or> \<not> has_encoder_inputs req")
    case True
    have "try_ok feats sz cap req budget computed ({} \<union> {..<?n}) c ?st"
      by (rule try_ok_covers[OF ok0]) (use True not_needed_before[of computed 0] in \<open>auto simp: has_encoder_inputs_def\<close>)
    then show ?thesis using True by (intro exI[of _ c] exI[of _ ?st]) (simp add: try_schedule_encoder_inputs_def)
  next
    case False
    obtain lo hi where w: "get_mm_features_in_window (mm_features req) computed (computed + new + shift) = (lo, hi)"
      by (cases "get_mm_features_in_window (mm_features req) computed (computed + new + shift)")
    note W = window_ok[OF ord w]
    have offs: "mm_offset (mm_features req ! i) \<le> mm_offset (mm_features req ! j)" if "i \<le> j" "j < ?n" for i j
      using ord that unfolding ordered_features_def by (auto simp: sorted_iff_nth_mono)
    have srt: "sorted (map (\<lambda>i. mm_offset (mm_features req ! i)) [lo..<hi])"
      using offs W by (auto simp: sorted_iff_nth_mono)
    have mem: "\<forall>i \<in> set [lo..<hi]. i < ?n \<and> computed < feature_end (mm_features req ! i) \<and>
       int (mm_offset (mm_features req ! i)) < computed + ts_num_new_tokens ?st + shift" using W by auto
    from try_inputs_ok[OF k sz nn(2) masks ok0 mem srt, of conn whole] obtain c' st' where
      T: "try_inputs conn False whole req computed shift [lo..<hi] ?st = Inr st'"
        "try_ok feats sz cap req budget computed ({} \<union> set [lo..<hi]) c' st'" "ts_num_new_tokens st' \<le> new" by auto
    have "try_ok feats sz cap req budget computed (({} \<union> set [lo..<hi]) \<union> ({..<?n} - {lo..<hi})) c' st'"
    proof (rule try_ok_covers[OF T(2)])
      fix i assume i: "i \<in> {..<?n} - {lo..<hi}" "needed (mm_features req ! i) computed (computed + ts_num_new_tokens st')"
      have ov: "computed < feature_end (mm_features req ! i)" "int (mm_offset (mm_features req ! i)) < computed + new + shift"
        using needed_overlap[OF i(2)] T(3) nn(2) by linarith+
      have "i < ?n" using i(1) by simp
      have "lo \<le> i" using W ov(1) \<open>i < ?n\<close> by (meson not_le)
      moreover have "i < hi" using W ov(2) \<open>i < ?n\<close> by (meson not_le)
      ultimately have False using i(1) by simp
      then show "hash_of req i \<in> ts_hashes st' \<or> refers c' (hash_of req i) (request_id req)" ..
    qed
    moreover have "({} \<union> set [lo..<hi]) \<union> ({..<?n} - {lo..<hi}) = {..<?n}" using W by auto
    moreover have "ts_manager st' = Shared c'" using T(2) by (simp add: try_ok_def)
    ultimately show ?thesis using T False w
      by (intro exI[of _ c'] exI[of _ st']) (simp add: try_schedule_encoder_inputs_def)
  qed
qed

section \<open>What the worker gathers\<close>

text \<open>The loop of \<open>_gather_mm_embeddings\<close> (\<^verbatim>\<open>vllm/v1/worker/gpu_model_runner.py\<close>) over one
  request: for each input its index and the range of embeddings that is read; \<open>has\<close> tells which
  outputs the worker holds.\<close>

fun gather_loop ::
  "mm_feature list \<Rightarrow> int \<Rightarrow> int \<Rightarrow> int \<Rightarrow> (mm_hash \<Rightarrow> bool) \<Rightarrow> nat list \<Rightarrow> (nat \<times> int \<times> int) list res" where
  "gather_loop fs computed shift scheduled has [] = Inr []"
| "gather_loop fs computed shift scheduled has (i # rest) =
     (let f = fs ! i;
          start_pos = int (mm_offset f);
          num_computed = computed + shift;
          start_idx = max (num_computed - start_pos) 0;
          end_idx = min (num_computed - start_pos + scheduled) (int (mm_length f));
          more = gather_loop fs computed shift scheduled has rest
      in bind_res (check_res (start_idx < end_idx) (AssertionError ''start_idx < end_idx'')) (\<lambda>_.
         bind_res (get_embeds_indices_in_range f start_idx end_idx) (\<lambda>(a, b).
           if a = b then more
           else if \<not> has (mm_identifier f)
           then (if computed + scheduled \<le> start_pos then more else Inl (RuntimeError ''Encoder cache miss''))
           else bind_res more (\<lambda>xs. Inr ((i, a, b) # xs)))))"

definition gather_mm_embeddings ::
  "mm_feature list \<Rightarrow> int \<Rightarrow> int \<Rightarrow> int \<Rightarrow> (mm_hash \<Rightarrow> bool) \<Rightarrow> (nat \<times> int \<times> int) list res" where
  "gather_mm_embeddings fs computed shift scheduled has =
     (let (lo, hi) = get_mm_features_in_window fs (computed + shift) (computed + shift + scheduled)
      in gather_loop fs computed shift scheduled has [lo..<hi])"

lemma range_total:
  assumes ok: "mask_ok f" and win: "a < feature_end f"
    and se: "s = max (a - int (mm_offset f)) 0" "e = min (a - int (mm_offset f) + n) (int (mm_length f))" "s < e"
  shows "\<exists>x y. get_embeds_indices_in_range f s e = Inr (x, y) \<and> (x \<noteq> y \<longrightarrow> needed f a (a + n))"
proof (cases "mm_is_embed f")
  case None
  then have "get_embeds_indices_in_range f s e = Inr (s, e)"
    by (simp add: get_embeds_indices_in_range_def embeds_cumsum_def)
  moreover have "needed f a (a + n)"
    unfolding needed_def embeds_at_def using None se by (intro exI[of _ "nat s"]) auto
  ultimately show ?thesis by blast
next
  case (Some m)
  then have len: "length m = mm_length f" using ok by (simp add: mask_ok_def)
  let ?cs = "map (\<lambda>k. length (filter id (take (k + 1) m))) [0..<length m]"
  have b: "0 \<le> s" "s \<le> int (length m)" "0 \<le> e" "e \<le> int (length m)" using se len by auto
  have run: "get_embeds_indices_in_range f s e =
      Inr (int (length (filter id (take (nat s) m))), int (length (filter id (take (nat e) m))))"
    using cumsum_before[OF b(1,2)] cumsum_before[OF b(3,4)] Some by (simp add: get_embeds_indices_in_range_def embeds_cumsum_def)
  have "needed f a (a + n)" if ne: "length (filter id (take (nat s) m)) \<noteq> length (filter id (take (nat e) m))"
  proof -
    have "take (nat e) m = take (nat s) m @ take (nat e - nat s) (drop (nat s) m)"
      using se(3) by (metis le_add_diff_inverse nat_le_eq_zle order_less_imp_le take_add b(1) dual_order.trans)
    with ne have "filter id (take (nat e - nat s) (drop (nat s) m)) \<noteq> []" by auto
    then obtain q where q: "q < nat e - nat s" "nat s + q < length m" "m ! (nat s + q)"
      unfolding filter_empty_conv by (auto simp: in_set_conv_nth)
    have "s \<le> int (nat s + q)" "int (nat s + q) < e" using q(1) b(1,3) by linarith+
    moreover have "a - int (mm_offset f) \<le> s" "e \<le> a - int (mm_offset f) + n" using se(1,2) by simp_all
    ultimately have "a \<le> int (mm_offset f) + int (nat s + q)" "int (mm_offset f) + int (nat s + q) < a + n" by linarith+
    moreover have "embeds_at f (nat s + q)" using Some len q(2,3) by (simp add: embeds_at_def)
    ultimately show ?thesis unfolding needed_def by blast
  qed
  with run show ?thesis by auto
qed

lemma gather_loop_ok:
  assumes "\<forall>i \<in> set xs. mask_ok (fs ! i) \<and> computed < feature_end (fs ! i) \<and> int (mm_offset (fs ! i)) < computed + n \<and>
      mm_length (fs ! i) \<noteq> 0 \<and> (needed (fs ! i) computed (computed + n) \<longrightarrow> has (mm_identifier (fs ! i)))"
    and "0 < n"
  shows "\<exists>out. gather_loop fs computed 0 n has xs = Inr out"
  using assms
proof (induction xs)
  case (Cons i rest)
  let ?f = "fs ! i"
  let ?s = "max (computed - int (mm_offset ?f)) 0" and ?e = "min (computed - int (mm_offset ?f) + n) (int (mm_length ?f))"
  have i: "mask_ok ?f" "computed < feature_end ?f" "int (mm_offset ?f) < computed + n" "mm_length ?f \<noteq> 0"
    "needed ?f computed (computed + n) \<longrightarrow> has (mm_identifier ?f)" using Cons.prems(1) by auto
  have lt: "?s < ?e" using i Cons.prems(2) by (auto simp: feature_end_def)
  from range_total[OF i(1,2) refl refl lt] obtain x y where
    R: "get_embeds_indices_in_range ?f ?s ?e = Inr (x, y)" "x \<noteq> y \<longrightarrow> needed ?f computed (computed + n)" by blast
  obtain out where "gather_loop fs computed 0 n has rest = Inr out" using Cons by auto
  then show ?case using R lt i(5) by (simp add: Let_def)
qed simp

lemma gather_ok:
  assumes ord: "ordered_features fs" and f: "\<forall>f \<in> set fs. mask_ok f \<and> mm_length f \<noteq> 0" and n: "0 < n"
    and has: "\<forall>i < length fs. needed (fs ! i) computed (computed + n) \<longrightarrow> has (mm_identifier (fs ! i))"
  shows "\<exists>out. gather_mm_embeddings fs computed 0 n has = Inr out"
proof -
  obtain lo hi where w: "get_mm_features_in_window fs computed (computed + n) = (lo, hi)"
    by (cases "get_mm_features_in_window fs computed (computed + n)")
  note W = window_ok[OF ord w]
  have "\<exists>out. gather_loop fs computed 0 n has [lo..<hi] = Inr out"
    by (rule gather_loop_ok[OF _ n]) (use W f has in auto)
  then show ?thesis using w by (simp add: gather_mm_embeddings_def)
qed

text \<open>C17. What is scheduled can be computed.  For a request with ordered inputs, planning succeeds
  within the asked tokens and the budget, the allocations it plans all succeed, and afterwards
  every input with an embedding among the tokens that remain scheduled is cached with a
  reference of the request: it was cached, is computed in this step or is loaded externally.
  So the worker, holding the cached outputs, gathers the embeddings of these tokens without a
  cache miss.\<close>

theorem encoder_plan_safe:
  assumes "enc_reach feats cap c" "sizes_ok feats sz" "knows feats req"
    and "ordered_features (mm_features req)" "\<forall>f \<in> set (mm_features req). mask_ok f" "0 \<le> new" "0 \<le> shift"
    and "\<forall>f \<in> set (mm_features req). mm_length f \<noteq> 0"
  shows "\<exists>ins new' budget' ext c'.
    try_schedule_encoder_inputs conn False whole req computed new budget shift (Shared c) =
      Inr (ins, new', budget', ext, Shared c') \<and>
    0 \<le> new' \<and> new' \<le> new \<and> budget' = budget - planned_size sz req ins \<and> (0 \<le> budget \<longrightarrow> 0 \<le> budget') \<and>
    (\<exists>out c''. allocate_scheduled has_conn req ins ext (Shared c') = Inr (out, Shared c'') \<and> enc_reach feats cap c'' \<and>
       (\<forall>i < length (mm_features req). needed (mm_features req ! i) computed (computed + new') \<longrightarrow>
          refers c'' (hash_of req i) (request_id req)) \<and>
       (0 < new' \<longrightarrow> is_ok (gather_mm_embeddings (mm_features req) computed 0 new' (\<lambda>h. h \<in> od_dom (ec_cached c'')))))"
proof -
  from try_schedule_total[OF assms(1-7)] obtain c' st where
    T: "try_schedule_encoder_inputs conn False whole req computed new budget shift (Shared c) =
      Inr (ts_inputs st, ts_num_new_tokens st, ts_budget st, ts_external st, Shared c')"
      "try_ok feats sz cap req budget computed {..<length (mm_features req)} c' st" "ts_num_new_tokens st \<le> new" by blast
  let ?xs = "ts_inputs st @ ts_external st"
  have parts: "enc_reach feats cap c'" "plan_fits sz req budget (ts_inputs st) (ts_external st) (ts_budget st) c'"
    "ts_hashes st = hash_of req ` set ?xs" "0 \<le> ts_num_new_tokens st"
    "covered req computed (ts_num_new_tokens st) {..<length (mm_features req)} (ts_hashes st) c'"
    using T(2) unfolding try_ok_def by blast+
  have fit: "\<forall>i \<in> set ?xs. i < length (mm_features req)" "distinct (map (hash_of req) ?xs)"
    "\<forall>i \<in> set ?xs. od_get (ec_cached c') (hash_of req i) = None" "planned_size sz req ?xs \<le> ec_num_free_slots c'"
    "ts_budget st = budget - planned_size sz req (ts_inputs st)" "0 \<le> budget \<longrightarrow> 0 \<le> ts_budget st"
    using parts(2) unfolding plan_fits_def by blast+
  from allocate_plan[OF parts(1) assms(3,2) fit(1-4)] obtain c'' where
    A: "fold_res (em_allocate req) ?xs (Shared c') = Inr (Shared c'')" "enc_reach feats cap c''"
      "\<forall>i \<in> set ?xs. refers c'' (hash_of req i) (request_id req)" "\<forall>h rid. refers c' h rid \<longrightarrow> refers c'' h rid" by blast
  have "\<exists>out. allocate_scheduled has_conn req (ts_inputs st) (ts_external st) (Shared c') = Inr (out, Shared c'')"
    using A(1) unfolding allocate_scheduled_def fold_res_append by auto
  moreover have "refers c'' (hash_of req i) (request_id req)"
    if "i < length (mm_features req)" "needed (mm_features req ! i) computed (computed + ts_num_new_tokens st)" for i
  proof -
    have "hash_of req i \<in> hash_of req ` set ?xs \<or> refers c' (hash_of req i) (request_id req)"
      using parts(5) that unfolding covered_def parts(3) by blast
    then show ?thesis using A(3,4) by (metis imageE)
  qed
  moreover from this have "is_ok (gather_mm_embeddings (mm_features req) computed 0 (ts_num_new_tokens st)
      (\<lambda>h. h \<in> od_dom (ec_cached c'')))" if "0 < ts_num_new_tokens st"
    unfolding is_ok_iff
    by (intro gather_ok[OF assms(4) _ that])
      (use assms(5,8) in \<open>auto simp: refers_def hash_of_def dest: od_get_Some_dom\<close>)
  ultimately show ?thesis using T(1,3) parts(4) fit(5,6) A(2) by blast
qed


lemma encoder_plan_safe_witness:
  "\<exists>ins new' budget' ext c'.
    try_schedule_encoder_inputs None False True (image_request ''a'') 0 5 4 0 (Shared (enc_init 4)) =
      Inr (ins, new', budget', ext, Shared c') \<and> budget' = 4 - planned_size (\<lambda>_. 3) (image_request ''a'') ins"
proof -
  have fs: "mm_features (image_request ''a'') = [demo_image]" by (simp add: image_request_def)
  have "ordered_features [demo_image]" "\<forall>f \<in> set [demo_image]. mask_ok f" "\<forall>f \<in> set [demo_image]. mm_length f \<noteq> 0"
    by (simp_all add: ordered_features_def mask_ok_def demo_image_def)
  from encoder_plan_safe[OF enc_initial demo_sizes demo_knows, of 4 "''a''", unfolded fs, OF _ this(1,2) _ _ this(3),
      of 5 0 None True 0 4 True]
  show ?thesis by (simp del: planned_size_simps) blast
qed

section \<open>The drafter's look-ahead\<close>

text \<open>With speculative decoding the window is one token longer, but the embeddings are counted in the
  scheduled tokens only.\<close>

lemma embeds_count:
  assumes "mm_is_embed f = Some m" "0 \<le> s" "s \<le> int (length m)" "0 \<le> e" "e \<le> int (length m)"
  shows "get_embeds_indices_in_range f s e =
      Inr (int (length (filter id (take (nat s) m))), int (length (filter id (take (nat e) m))))"
  using cumsum_before[OF assms(2,3)] cumsum_before[OF assms(4,5)] assms(1)
  by (simp add: get_embeds_indices_in_range_def embeds_cumsum_def)

lemma single_window:
  "computed < feature_end f \<Longrightarrow> int (mm_offset f) < b \<Longrightarrow> get_mm_features_in_window [f] computed b = (0, 1)"
  by (simp add: get_mm_features_in_window_def bisect_left.simps)

text \<open>C21. The look-ahead can miss the encoder cache.  Take a request whose only input starts at the
  last scheduled token with a token that takes no embedding, followed by one that does, and is not
  cached.  With the shift of speculative decoding the scheduler plans nothing for it, although its
  first embedding belongs to the look-ahead token, and the worker's gathering for the drafter
  raises \<open>Encoder cache miss\<close>.\<close>

theorem lookahead_cache_miss:
  assumes "enc_reach feats cap c" "sizes_ok feats sz" "knows feats req"
    and f: "mm_features req = [f]" "mm_is_embed f = Some (False # True # m)" "mm_length f = length m + 2"
    and pos: "int (mm_offset f) = computed + new - 1" "0 \<le> computed" "1 \<le> new"
    and un: "od_get (ec_cached c) (mm_identifier f) = None"
    and room: "int (sz (mm_identifier f)) \<le> budget" "int (sz (mm_identifier f)) \<le> ec_num_freeable_slots c"
    and has: "\<not> has (mm_identifier f)"
  shows "\<exists>c'. try_schedule_encoder_inputs conn False False req computed new budget 1 (Shared c) =
      Inr ([], new, budget, [], Shared c') \<and> od_get (ec_cached c') (mm_identifier f) = None \<and>
    gather_mm_embeddings [f] computed 1 new has = Inl (RuntimeError ''Encoder cache miss'')"
proof -
  let ?h = "mm_identifier f"
  have fh: "feature_hash req 0 = Inr ?h" by (simp add: feature_hash_def f)
  note inv = enc_reach_inv[OF assms(1,2)]
  from can_allocate_ok[OF inv assms(3,2) fh, of "int (sz ?h)" 0 budget] obtain c' k where
    C: "can_allocate req 0 budget 0 c = Inr (True, c')" "evicted k c c'" using room by auto
  have un': "od_get (ec_cached c') ?h = None" using evicted_keeps[OF inv C(2)] un by (simp add: keeps_def)
  have fe: "feature_end f = computed + new + 1 + int (length m)" using f pos by (simp add: feature_end_def)
  have w: "get_mm_features_in_window [f] computed (computed + new + 1) = (0, 1)"
    by (rule single_window) (use fe pos in simp_all)
  have r0: "get_embeds_indices_in_range f 0 1 = Inr (0, 0)"
    using embeds_count[OF f(2), of 0 1] by simp
  have rng: "max 0 (computed - int (mm_offset f)) = 0" "min (int (mm_length f)) (computed + new - int (mm_offset f)) = 1"
    using pos f by auto
  have known: "input_known False req 0 ?h st = Inr (False, st)" if "ts_hashes st = {}" "ts_manager st = Shared c" for st
    using check_miss[OF fh un] that by (simp add: input_known_def)
  have plan: "try_schedule_encoder_inputs conn False False req computed new budget 1 (Shared c) =
      Inr ([], new, budget, [], Shared c')"
    using w pos(3) f C(1) rng r0
    by (simp add: try_schedule_encoder_inputs_def has_encoder_inputs_def known Let_def upt_rec)
  have w2: "get_mm_features_in_window [f] (computed + 1) (computed + 1 + new) = (0, 1)"
    by (rule single_window) (use fe pos in simp_all)
  have r1: "get_embeds_indices_in_range f (max (computed + 1 - int (mm_offset f)) 0)
      (min (computed + 1 - int (mm_offset f) + new) (int (mm_length f))) = Inr (0, 1)"
  proof -
    have e: "min (computed + 1 - int (mm_offset f) + new) (int (mm_length f)) = 2" using pos f by simp
    have s: "max (computed + 1 - int (mm_offset f)) 0 = (if new = 1 then 1 else 0)" using pos by auto
    show ?thesis unfolding e s using embeds_count[OF f(2), of 0 2] embeds_count[OF f(2), of 1 2]
      by (simp add: numeral_2_eq_2)
  qed
  have lt: "max (computed + 1 - int (mm_offset f)) 0 < min (computed + 1 - int (mm_offset f) + new) (int (mm_length f))"
    using pos f by auto
  have "gather_mm_embeddings [f] computed 1 new has = Inl (RuntimeError ''Encoder cache miss'')"
    using w2 r1 lt has pos by (simp add: gather_mm_embeddings_def Let_def upt_rec)
  with plan un' show ?thesis by blast
qed

definition framed_image :: mm_feature where
  "framed_image = \<lparr>mm_identifier = Some ''x'', mm_offset = 3, mm_length = 2, mm_is_embed = Some [False, True]\<rparr>"

lemma lookahead_cache_miss_witness:
  "gather_mm_embeddings [framed_image] 0 1 4 (\<lambda>_. False) = Inl (RuntimeError ''Encoder cache miss'')"
proof -
  let ?req = "(demo_waiting ''a'' 0 0)\<lparr>mm_features := [framed_image]\<rparr>"
  have "sizes_ok (\<lambda>_. [framed_image]) (\<lambda>_. 1)" "knows (\<lambda>_. [framed_image]) ?req"
    by (simp_all add: sizes_ok_def framed_image_def get_num_embeds_def embeds_cumsum_def knows_def upt_rec)
  then have "\<exists>c'. try_schedule_encoder_inputs None False False ?req 0 4 4 1 (Shared (enc_init 4)) =
      Inr ([], 4, 4, [], Shared c') \<and> od_get (ec_cached c') (mm_identifier framed_image) = None \<and>
    gather_mm_embeddings [framed_image] 0 1 4 (\<lambda>_. False) = Inl (RuntimeError ''Encoder cache miss'')"
    by (intro lookahead_cache_miss[OF enc_initial, where m = "[]" and sz = "\<lambda>_. 1" and cap = 4])
      (simp_all add: framed_image_def enc_init_def)
  then show ?thesis by blast
qed

end
