(* ===== verification/Repair.thy ===== *)
theory Repair
  imports Locator
begin

text \<open>
  What the worker makes of a reuse plan, first half of
  \<^verbatim>\<open>vllm/v1/worker/gpu/partial_reuse.py\<close>: the plan's candidates get their physical target
  blocks, a selector decides which of them are recomputed, and the prompt tokens that are neither
  recomputed nor part of a short island are reused, after copying their blocks.  The call sequence
  is that of \<open>add_requests\<close> in \<^verbatim>\<open>vllm/v1/worker/gpu/model_runner.py\<close>.
\<close>

section \<open>Candidates and instructions\<close>

record resolved_candidate =
  rc_source_block_index :: nat
  rc_target_block_index :: nat
  rc_source_block_id :: int
  rc_target_block_id :: int
  rc_source_resident :: bool
  rc_requires_repair :: bool
  rc_block_displacement :: int
  rc_nearest_changed_block_distance :: "int option"
  rc_source_block_ids :: "int list"
  rc_source_block_offset :: nat
  rc_selector_features :: "(string \<times> rat) list"

record copy_instruction =
  ci_source_block_id :: int
  ci_target_block_id :: int
  ci_target_block_index :: nat
  ci_requires_repair :: bool
  ci_source_block_index :: nat
  ci_source_block_ids :: "int list"
  ci_source_block_offset :: nat

definition ci_physical_source_block_ids :: "copy_instruction \<Rightarrow> int list" where
  "ci_physical_source_block_ids c =
     (if ci_source_block_ids c \<noteq> [] then ci_source_block_ids c else [ci_source_block_id c])"

definition ci_requires_repacking :: "copy_instruction \<Rightarrow> bool" where
  "ci_requires_repacking c \<longleftrightarrow> ci_source_block_offset c \<noteq> 0"

record repair_instruction =
  ri_source_block_id :: int
  ri_target_block_id :: int
  ri_target_block_index :: nat
  ri_target_token_indices :: "nat list"

section \<open>Resolving targets\<close>

definition resolve_candidate :: "int \<Rightarrow> reuse_candidate \<Rightarrow> resolved_candidate" where
  "resolve_candidate target_id c =
     \<lparr>rc_source_block_index = pc_source_block_index c, rc_target_block_index = pc_target_block_index c,
      rc_source_block_id = pc_source_block_id c, rc_target_block_id = target_id,
      rc_source_resident = pc_source_resident c, rc_requires_repair = pc_requires_repair c,
      rc_block_displacement = pc_block_displacement c,
      rc_nearest_changed_block_distance = pc_nearest_changed_block_distance c,
      rc_source_block_ids = pc_source_block_ids c, rc_source_block_offset = pc_source_block_offset c,
      rc_selector_features = pc_selector_features c\<rparr>"

text \<open>Target indices are natural numbers here, so the test for negative ones is implied.\<close>

fun resolve_loop :: "bool \<Rightarrow> int list \<Rightarrow> reuse_candidate list \<Rightarrow> resolved_candidate list res" where
  "resolve_loop allow_unallocated blocks [] = Inr []"
| "resolve_loop allow_unallocated blocks (c # cs) =
     (if length blocks \<le> pc_target_block_index c
      then (if allow_unallocated then resolve_loop allow_unallocated blocks cs
            else Inl (ValueError ''target block index is outside the request block table''))
      else bind_res (resolve_loop allow_unallocated blocks cs)
             (\<lambda>rs. Inr (resolve_candidate (blocks ! pc_target_block_index c) c # rs)))"

definition resolve_target_block_ids :: "reuse_plan \<Rightarrow> int list list \<Rightarrow> bool \<Rightarrow> resolved_candidate list res" where
  "resolve_target_block_ids plan target_block_ids allow_unallocated =
     (case target_block_ids of
        [blocks] \<Rightarrow> resolve_loop allow_unallocated blocks (pp_candidates plan)
      | _ \<Rightarrow> Inl (ValueError ''partial reuse currently requires one KV cache blocks''))"

definition copy_of :: "resolved_candidate \<Rightarrow> copy_instruction" where
  "copy_of c =
     \<lparr>ci_source_block_id = rc_source_block_id c, ci_target_block_id = rc_target_block_id c,
      ci_target_block_index = rc_target_block_index c, ci_requires_repair = rc_requires_repair c,
      ci_source_block_index = rc_source_block_index c, ci_source_block_ids = rc_source_block_ids c,
      ci_source_block_offset = rc_source_block_offset c\<rparr>"

definition build_partial_reuse_copy_instructions :: "resolved_candidate list \<Rightarrow> copy_instruction list" where
  "build_partial_reuse_copy_instructions cs = map copy_of cs"

definition filter_partial_reuse_copy_instructions ::
  "copy_instruction list \<Rightarrow> nat list \<Rightarrow> nat \<Rightarrow> copy_instruction list res" where
  "filter_partial_reuse_copy_instructions instrs reused bs =
     bind_res (check_res (1 \<le> bs) (ValueError ''block_size must be positive'')) (\<lambda>_.
       let reused_blocks = (\<lambda>t. t div bs) ` set reused
       in Inr (filter (\<lambda>i. ci_target_block_index i \<in> reused_blocks) instrs))"

definition build_kv_cache_block_copies :: "copy_instruction list \<Rightarrow> (int \<times> int) list res" where
  "build_kv_cache_block_copies instrs =
     bind_res (check_res (\<not> list_ex ci_requires_repacking instrs) (ValueError ''unaligned mappings require KV repacking''))
       (\<lambda>_. Inr (map (\<lambda>i. (ci_source_block_id i, ci_target_block_id i)) instrs))"

section \<open>Selectors\<close>

definition full_block_repair :: "nat \<Rightarrow> resolved_candidate \<Rightarrow> repair_instruction" where
  "full_block_repair bs c =
     (let token_start = rc_target_block_index c * bs
      in \<lparr>ri_source_block_id = rc_source_block_id c, ri_target_block_id = rc_target_block_id c,
          ri_target_block_index = rc_target_block_index c,
          ri_target_token_indices = [token_start..<token_start + bs]\<rparr>)"

definition build_full_block_repair_instructions :: "resolved_candidate list \<Rightarrow> nat \<Rightarrow> repair_instruction list res" where
  "build_full_block_repair_instructions cs bs =
     bind_res (check_res (1 \<le> bs) (ValueError ''block_size must be positive''))
       (\<lambda>_. Inr (map (full_block_repair bs) (filter rc_requires_repair cs)))"

definition build_counterfactual_repair_instructions ::
  "resolved_candidate list \<Rightarrow> nat \<Rightarrow> int \<Rightarrow> repair_instruction list res" where
  "build_counterfactual_repair_instructions cs bs reused =
     bind_res (check_res (0 \<le> reused) (ValueError ''counterfactual target block index must be non-negative'')) (\<lambda>_.
     bind_res (check_res (length (filter (\<lambda>c. int (rc_target_block_index c) = reused) cs) = 1)
       (ValueError ''counterfactual target must identify exactly one resolved candidate'')) (\<lambda>_.
       build_full_block_repair_instructions (filter (\<lambda>c. int (rc_target_block_index c) \<noteq> reused) cs) bs))"

text \<open>The MLP model is its \<open>should_repair\<close>: floating-point inference on an exported file.\<close>

datatype repair_selector =
    FullBlockRepair
  | EditProximityRepair int
  | MLPRepair "(string \<times> rat) list \<Rightarrow> bool res"

definition edit_proximity_init :: "int \<Rightarrow> repair_selector res" where
  "edit_proximity_init radius =
     bind_res (check_res (0 \<le> radius) (ValueError ''max_block_distance must be non-negative''))
       (\<lambda>_. Inr (EditProximityRepair radius))"

definition create_repair_selector ::
  "(string \<Rightarrow> ((string \<times> rat) list \<Rightarrow> bool res) res) \<Rightarrow> string \<Rightarrow> int \<Rightarrow> string option \<Rightarrow> repair_selector res" where
  "create_repair_selector load_model name edit_radius path =
     (if name = ''full_block'' then Inr FullBlockRepair
      else if name = ''edit_proximity'' then edit_proximity_init edit_radius
      else if name = ''mlp''
      then (case path of
              None \<Rightarrow> Inl (ValueError ''MLP repair selector requires an exported model path'')
            | Some p \<Rightarrow> bind_res (load_model p) (\<lambda>m. Inr (MLPRepair m)))
      else Inl (ValueError ''unknown CacheSelect repair selector''))"

text \<open>\<open>except (KeyError, TypeError, ValueError, OverflowError)\<close>: repair when in doubt.\<close>

fun mlp_repair :: "bool res \<Rightarrow> bool res" where
  "mlp_repair (Inr b) = Inr b"
| "mlp_repair (Inl (KeyError m)) = Inr True"
| "mlp_repair (Inl (TypeError m)) = Inr True"
| "mlp_repair (Inl (ValueError m)) = Inr True"
| "mlp_repair (Inl (OverflowError m)) = Inr True"
| "mlp_repair (Inl e) = Inl e"

fun mlp_selected :: "((string \<times> rat) list \<Rightarrow> bool res) \<Rightarrow> resolved_candidate list \<Rightarrow> resolved_candidate list res" where
  "mlp_selected should_repair [] = Inr []"
| "mlp_selected should_repair (c # cs) =
     (if \<not> rc_requires_repair c then mlp_selected should_repair cs
      else bind_res (mlp_repair (should_repair (rc_selector_features c))) (\<lambda>repair.
           bind_res (mlp_selected should_repair cs) (\<lambda>rest. Inr (if repair then c # rest else rest))))"

definition near_edit :: "int \<Rightarrow> resolved_candidate \<Rightarrow> bool" where
  "near_edit radius c \<longleftrightarrow> rc_requires_repair c \<and>
     (case rc_nearest_changed_block_distance c of None \<Rightarrow> True | Some d \<Rightarrow> d \<le> radius)"

fun select_repairs :: "repair_selector \<Rightarrow> resolved_candidate list \<Rightarrow> nat \<Rightarrow> repair_instruction list res" where
  "select_repairs FullBlockRepair cs bs = build_full_block_repair_instructions cs bs"
| "select_repairs (EditProximityRepair radius) cs bs =
     build_full_block_repair_instructions (filter (near_edit radius) cs) bs"
| "select_repairs (MLPRepair should_repair) cs bs =
     bind_res (mlp_selected should_repair cs) (\<lambda>selected. build_full_block_repair_instructions selected bs)"

section \<open>Reused tokens\<close>

fun repair_tokens_of :: "nat \<Rightarrow> nat list \<Rightarrow> repair_instruction list \<Rightarrow> nat set res" where
  "repair_tokens_of bs targets [] = Inr {}"
| "repair_tokens_of bs targets (r # rs) =
     bind_res (check_res (ri_target_block_index r \<in> set targets) (ValueError ''repair plan references a non-candidate block'')) (\<lambda>_.
       let block_start = ri_target_block_index r * bs; block_end = block_start + bs
       in bind_res (check_res (list_all (\<lambda>t. block_start \<le> t \<and> t < block_end) (ri_target_token_indices r))
            (ValueError ''repair token lies outside its target block'')) (\<lambda>_.
          bind_res (repair_tokens_of bs targets rs) (\<lambda>rest. Inr (set (ri_target_token_indices r) \<union> rest))))"

definition build_reused_token_indices :: "copy_instruction list \<Rightarrow> repair_instruction list \<Rightarrow> nat \<Rightarrow> nat list res" where
  "build_reused_token_indices copies repairs bs =
     bind_res (check_res (1 \<le> bs) (ValueError ''block_size must be positive'')) (\<lambda>_.
       let targets = map ci_target_block_index copies
       in bind_res (check_res (length targets = card (set targets)) (ValueError ''copy plan contains duplicate target blocks'')) (\<lambda>_.
          let candidate_tokens = \<Union> ((\<lambda>b. set [b * bs..<(b + 1) * bs]) ` set targets)
          in bind_res (repair_tokens_of bs targets repairs)
               (\<lambda>repaired. Inr (sorted_list_of_set (candidate_tokens - repaired)))))"

text \<open>One iteration of the loop over \<open>run_end\<close>: a run of consecutive indices ends here or goes on.\<close>

definition short_step ::
  "nat list \<Rightarrow> nat \<Rightarrow> nat \<Rightarrow> nat \<Rightarrow> nat set \<Rightarrow> nat \<Rightarrow> nat list \<times> nat \<Rightarrow> nat list \<times> nat" where
  "short_step ix bs minimum repacked_minimum repacked run_end st =
     (case st of (retained, run_start) \<Rightarrow>
        if run_end < length ix \<and> ix ! run_end = ix ! (run_end - 1) + 1 then st
        else let first_block = ix ! run_start div bs;
                 last_block = ix ! (run_end - 1) div bs;
                 run_minimum = (if repacked \<inter> {first_block..<last_block + 1} \<noteq> {} then repacked_minimum else minimum)
             in (if run_minimum * bs \<le> run_end - run_start then retained @ slice run_start run_end ix else retained,
                 run_end))"

definition filter_short_reuse_spans ::
  "nat list \<Rightarrow> nat \<Rightarrow> nat \<Rightarrow> nat list \<Rightarrow> nat option \<Rightarrow> nat list res" where
  "filter_short_reuse_spans ix bs minimum repacked_blocks repacked_opt =
     (let repacked_minimum = (case repacked_opt of None \<Rightarrow> minimum | Some m \<Rightarrow> m)
      in bind_res (check_res (1 \<le> bs \<and> 1 \<le> min minimum repacked_minimum)
           (ValueError ''block size and minimum spans must be positive'')) (\<lambda>_.
         bind_res (check_res (sorted_unique ix) (ValueError ''reused token indices must be sorted and unique'')) (\<lambda>_.
           if ix = [] \<or> minimum = 1 \<and> repacked_minimum = 1 then Inr ix
           else Inr (fst (fold (short_step ix bs minimum repacked_minimum (set repacked_blocks))
                  [1..<length ix + 1] ([], 0))))))"

section \<open>Adding a request\<close>

definition select_for_plan ::
  "repair_selector \<Rightarrow> reuse_plan \<Rightarrow> resolved_candidate list \<Rightarrow> repair_instruction list res" where
  "select_for_plan selector plan resolved =
     (case pp_counterfactual_reuse_block_index plan of
        None \<Rightarrow> select_repairs selector resolved (pp_block_size plan)
      | Some i \<Rightarrow> build_counterfactual_repair_instructions resolved (pp_block_size plan) i)"

definition prepare_reuse ::
  "repair_selector \<Rightarrow> nat \<Rightarrow> nat option \<Rightarrow> reuse_plan \<Rightarrow> int list list \<Rightarrow> nat \<Rightarrow>
   (copy_instruction list \<times> repair_instruction list \<times> nat list) res" where
  "prepare_reuse selector minimum repacked_minimum plan block_ids prompt_length =
     (let bs = pp_block_size plan;
          allow = (case block_ids of [blocks] \<Rightarrow> length blocks * bs < prompt_length | _ \<Rightarrow> False)
      in bind_res (resolve_target_block_ids plan block_ids allow) (\<lambda>resolved.
         let copies = build_partial_reuse_copy_instructions resolved
         in bind_res (select_for_plan selector plan resolved) (\<lambda>repairs.
            bind_res (build_reused_token_indices copies repairs bs) (\<lambda>reused.
            bind_res (filter_short_reuse_spans reused bs minimum
                (map ci_target_block_index (filter ci_requires_repacking copies)) repacked_minimum) (\<lambda>kept.
            bind_res (filter_partial_reuse_copy_instructions copies kept bs) (\<lambda>kept_copies.
              Inr (kept_copies, repairs, kept)))))))"

end
