(* ===== verification/Spans.thy ===== *)
theory Spans
  imports Repair
begin

text \<open>
  Second half of \<^verbatim>\<open>vllm/v1/worker/gpu/partial_reuse.py\<close>: the rows of a batch that need not be
  computed, the spans of rows that are, the inputs of each span, their execution in order and the
  output put back in place; and the metrics kept along the way.  Tensors are lists of their rows.
  A two-dimensional one also has its number of columns.  Row and token numbers are natural numbers,
  so the tests for negative ones are implied, as are tests of dimensions and devices.
\<close>

section \<open>Rows of the batch\<close>

text \<open>\<open>map_reused_tokens_to_batch_rows\<close>, one round of its loop and the loop.\<close>

definition batch_rows_step ::
  "string list \<Rightarrow> nat list \<Rightarrow> nat list \<Rightarrow> nat list \<Rightarrow> (string, nat list) odict \<Rightarrow> nat \<Rightarrow>
   (string, nat list) odict \<Rightarrow> (string, nat list) odict res" where
  "batch_rows_step req_ids query_start num_computed num_scheduled reused index rows_by_request =
     (let batch_start = query_start ! index; batch_end = query_start ! (index + 1);
          scheduled = num_scheduled ! index
      in bind_res (check_res (batch_end = batch_start + scheduled)
           (ValueError ''query boundaries disagree with scheduled token counts'')) (\<lambda>_.
         let prompt_start = num_computed ! index; prompt_end = prompt_start + scheduled;
             indices = (case od_get reused (req_ids ! index) of None \<Rightarrow> [] | Some ix \<Rightarrow> ix)
         in bind_res (check_res (sorted_unique indices)
              (ValueError ''reused token indices must be sorted and unique'')) (\<lambda>_.
            let rows = map (\<lambda>i. batch_start + i - prompt_start)
                  (filter (\<lambda>i. prompt_start \<le> i \<and> i < prompt_end) indices)
            in Inr (if rows \<noteq> [] then od_set (req_ids ! index) rows rows_by_request else rows_by_request))))"

definition map_reused_tokens_to_batch_rows ::
  "string list \<Rightarrow> nat list \<Rightarrow> nat list \<Rightarrow> nat list \<Rightarrow> (string, nat list) odict \<Rightarrow> (string, nat list) odict res" where
  "map_reused_tokens_to_batch_rows req_ids query_start num_computed num_scheduled reused =
     bind_res (check_res (length query_start = length req_ids + 1)
       (ValueError ''query_start_locations must contain one boundary per request'')) (\<lambda>_.
     bind_res (check_res (length num_computed = length req_ids)
       (ValueError ''num_computed_tokens must match req_ids'')) (\<lambda>_.
     bind_res (check_res (length num_scheduled = length req_ids)
       (ValueError ''num_scheduled_tokens must match req_ids'')) (\<lambda>_.
       fold_res (batch_rows_step req_ids query_start num_computed num_scheduled reused) [0..<length req_ids] [])))"

section \<open>Decision for a batch\<close>

record batch_decision =
  bd_eligible :: bool
  bd_reason :: string
  bd_request_id :: "string option"
  bd_reused_batch_rows :: "nat list"

record batch_conditions =
  execution_enabled :: bool
  prompt_logprobs :: bool
  single_gpu :: bool
  eager_execution :: bool
  supported_kv_layout :: bool
  speculative_decoding :: bool
  multimodal_model :: bool
  encoder_decoder_model :: bool
  pooling_model :: bool

definition assess_partial_reuse_batch ::
  "batch_conditions \<Rightarrow> string list \<Rightarrow> bool list \<Rightarrow> (string, nat list) odict \<Rightarrow> int list \<Rightarrow> batch_decision res" where
  "assess_partial_reuse_batch cond req_ids is_prefilling reused_rows required_rows =
     bind_res (check_res (length is_prefilling = length req_ids)
       (ValueError ''is_prefilling must match req_ids'')) (\<lambda>_.
     if reused_rows = []
     then Inr \<lparr>bd_eligible = False,
        bd_reason = (if \<not> execution_enabled cond then ''execution_disabled'' else ''no_reusable_rows''),
        bd_request_id = None, bd_reused_batch_rows = []\<rparr>
     else if length reused_rows \<noteq> 1
     then Inr \<lparr>bd_eligible = False, bd_reason = ''multiple_reuse_requests'', bd_request_id = None, bd_reused_batch_rows = []\<rparr>
     else case hd reused_rows of (rid, rows) \<Rightarrow>
       bind_res (check_res (rid \<in> set req_ids)
         (ValueError ''reused rows reference a request outside the batch'')) (\<lambda>_.
       if required_rows = []
       then Inr \<lparr>bd_eligible = False, bd_reason = ''missing_output_rows'', bd_request_id = Some rid,
              bd_reused_batch_rows = rows\<rparr>
       else let protected = filter (\<lambda>row. int row \<notin> set required_rows) rows;
                decide = (\<lambda>ok reason. Inr \<lparr>bd_eligible = ok, bd_reason = reason, bd_request_id = Some rid,
                  bd_reused_batch_rows = protected\<rparr>)
            in (if protected = [] then decide False ''no_reusable_rows_after_output_protection''
                else if \<not> execution_enabled cond then decide False ''execution_disabled''
                else if length req_ids \<noteq> 1 then decide False ''batched_requests_unsupported''
                else if \<not> is_prefilling ! 0 then decide False ''non_prefill_request''
                else if \<not> single_gpu cond then decide False ''parallelism_unsupported''
                else if \<not> eager_execution cond then decide False ''non_eager_execution_unsupported''
                else if \<not> supported_kv_layout cond then decide False ''kv_layout_unsupported''
                else if speculative_decoding cond then decide False ''speculative_decoding_unsupported''
                else if multimodal_model cond then decide False ''multimodal_unsupported''
                else if encoder_decoder_model cond then decide False ''encoder_decoder_unsupported''
                else if pooling_model cond then decide False ''pooling_unsupported''
                else if prompt_logprobs cond then decide False ''prompt_logprobs_unsupported''
                else decide True ''eligible'')))"

section \<open>Compute rows and spans\<close>

definition build_partial_reuse_compute_rows :: "batch_decision \<Rightarrow> nat \<Rightarrow> nat list res" where
  "build_partial_reuse_compute_rows decision num_tokens =
     (let all_rows = [0..<num_tokens]; reused = bd_reused_batch_rows decision
      in if \<not> bd_eligible decision then Inr all_rows
         else bind_res (check_res (sorted_unique reused) (ValueError ''reused batch rows must be sorted and unique'')) (\<lambda>_.
              bind_res (check_res (list_all (\<lambda>row. row < num_tokens) reused)
                (ValueError ''reused batch row is outside the input batch'')) (\<lambda>_.
              let compute = filter (\<lambda>row. row \<notin> set reused) all_rows
              in bind_res (check_res (compute \<noteq> []) (ValueError ''partial reuse must retain at least one compute row''))
                   (\<lambda>_. Inr compute))))"

definition validate_compaction_rows :: "nat list \<Rightarrow> nat \<Rightarrow> nat list res" where
  "validate_compaction_rows rows num_rows =
     bind_res (check_res (rows \<noteq> []) (ValueError ''partial reuse must retain at least one compute row'')) (\<lambda>_.
     bind_res (check_res (sorted_unique rows) (ValueError ''compute rows must be sorted and unique'')) (\<lambda>_.
     bind_res (check_res (list_all (\<lambda>row. row < num_rows) rows)
       (ValueError ''compute row is outside the compacted input'')) (\<lambda>_. Inr rows)))"

record compute_span =
  sp_start :: nat
  sp_end :: nat

definition mk_span :: "nat \<Rightarrow> nat \<Rightarrow> compute_span" where
  "mk_span a b = \<lparr>sp_start = a, sp_end = b\<rparr>"

fun span_loop :: "nat list \<Rightarrow> compute_span list \<Rightarrow> nat \<Rightarrow> nat \<Rightarrow> compute_span list" where
  "span_loop [] spans span_start previous = spans @ [mk_span span_start (previous + 1)]"
| "span_loop (row # rows) spans span_start previous =
     (if row \<noteq> previous + 1 then span_loop rows (spans @ [mk_span span_start (previous + 1)]) row row
      else span_loop rows spans span_start row)"

definition build_partial_reuse_compute_spans :: "nat list \<Rightarrow> nat \<Rightarrow> compute_span list res" where
  "build_partial_reuse_compute_spans compute_rows num_rows =
     bind_res (validate_compaction_rows compute_rows num_rows)
       (\<lambda>selected. Inr (span_loop (tl selected) [] (hd selected) (hd selected)))"

section \<open>Compacted inputs\<close>

record 'a tensor2 =
  t2_cols :: nat
  t2_rows :: "'a list list"

text \<open>\<open>index_select\<close> along the rows of a vector and along the columns of a matrix.\<close>

definition select_rows :: "nat list \<Rightarrow> 'a list \<Rightarrow> 'a list" where
  "select_rows ix xs = map ((!) xs) ix"

definition compact_partial_reuse_model_inputs :: "int list \<Rightarrow> nat list \<Rightarrow> nat list \<Rightarrow> (int list \<times> nat list) res" where
  "compact_partial_reuse_model_inputs input_ids positions compute_rows =
     bind_res (check_res (length input_ids = length positions)
       (ValueError ''input IDs and positions must contain the same rows'')) (\<lambda>_.
     bind_res (validate_compaction_rows compute_rows (length input_ids))
       (\<lambda>ix. Inr (select_rows ix input_ids, select_rows ix positions)))"

definition compact_partial_reuse_slot_mappings :: "int tensor2 \<Rightarrow> nat list \<Rightarrow> int tensor2 res" where
  "compact_partial_reuse_slot_mappings slots compute_rows =
     bind_res (validate_compaction_rows compute_rows (t2_cols slots))
       (\<lambda>ix. Inr \<lparr>t2_cols = length ix, t2_rows = map (select_rows ix) (t2_rows slots)\<rparr>)"

definition compact_partial_reuse_query_start_locations :: "nat list \<Rightarrow> nat list \<Rightarrow> nat list res" where
  "compact_partial_reuse_query_start_locations boundaries compute_rows =
     bind_res (check_res (2 \<le> length boundaries) (ValueError ''query boundaries require at least one request'')) (\<lambda>_.
     bind_res (check_res (boundaries ! 0 = 0) (ValueError ''query boundaries must start at zero'')) (\<lambda>_.
     bind_res (check_res (sorted boundaries) (ValueError ''query boundaries must be non-decreasing'')) (\<lambda>_.
     bind_res (validate_compaction_rows compute_rows (last boundaries)) (\<lambda>selected.
       Inr (map (\<lambda>boundary. bisect_left int selected (int boundary) 0 (length selected)) boundaries)))))"

record span_inputs =
  si_span :: compute_span
  si_input_ids :: "int list"
  si_positions :: "nat list"
  si_slot_mappings :: "int tensor2"
  si_query_start_locations :: "nat \<times> nat"
  si_sequence_length :: nat

definition build_partial_reuse_span_inputs ::
  "int list \<Rightarrow> nat list \<Rightarrow> int tensor2 \<Rightarrow> compute_span \<Rightarrow> nat \<Rightarrow> span_inputs res" where
  "build_partial_reuse_span_inputs input_ids positions slots sp initial_computed =
     bind_res (check_res (sp_start sp < sp_end sp) (ValueError ''compute span must be a non-empty forward range'')) (\<lambda>_.
     bind_res (check_res (sp_end sp \<le> length input_ids)
       (ValueError ''compute span extends beyond the model input'')) (\<lambda>_.
     let span_rows = [sp_start sp..<sp_end sp]
     in bind_res (compact_partial_reuse_model_inputs input_ids positions span_rows) (\<lambda>(ids, pos).
        bind_res (compact_partial_reuse_slot_mappings slots span_rows) (\<lambda>span_slots.
          Inr \<lparr>si_span = sp, si_input_ids = ids, si_positions = pos, si_slot_mappings = span_slots,
               si_query_start_locations = (0, sp_end sp - sp_start sp),
               si_sequence_length = initial_computed + sp_end sp\<rparr>))))"

fun spans_ordered :: "nat \<Rightarrow> compute_span list \<Rightarrow> bool" where
  "spans_ordered previous_end [] \<longleftrightarrow> True"
| "spans_ordered previous_end (sp # spans) \<longleftrightarrow> previous_end \<le> sp_start sp \<and> spans_ordered (sp_end sp) spans"

definition build_partial_reuse_span_input_sequence ::
  "int list \<Rightarrow> nat list \<Rightarrow> int tensor2 \<Rightarrow> compute_span list \<Rightarrow> nat \<Rightarrow> span_inputs list res" where
  "build_partial_reuse_span_input_sequence input_ids positions slots spans initial_computed =
     bind_res (check_res (spans \<noteq> []) (ValueError ''partial reuse requires at least one compute span'')) (\<lambda>_.
     bind_res (check_res (spans_ordered 0 spans) (ValueError ''compute spans must be ordered and non-overlapping'')) (\<lambda>_.
       map_res (\<lambda>sp. build_partial_reuse_span_inputs input_ids positions slots sp initial_computed) spans))"

text \<open>The keyword arguments of the model; \<open>inputs_embeds\<close> and \<open>intermediate_tensors\<close> are \<open>None\<close>.\<close>

record model_inputs =
  mi_input_ids :: "int list"
  mi_positions :: "nat list"

definition build_partial_reuse_span_model_inputs :: "span_inputs \<Rightarrow> model_inputs res" where
  "build_partial_reuse_span_model_inputs si =
     bind_res (check_res (length (si_input_ids si) = length (si_positions si))
       (ValueError ''span input IDs and positions must contain the same rows'')) (\<lambda>_.
     bind_res (check_res (length (si_input_ids si) \<noteq> 0) (ValueError ''span model inputs cannot be empty'')) (\<lambda>_.
     bind_res (check_res (sp_start (si_span si) + length (si_input_ids si) = sp_end (si_span si))
       (ValueError ''span model inputs must cover the complete compute span'')) (\<lambda>_.
       Inr \<lparr>mi_input_ids = si_input_ids si, mi_positions = si_positions si\<rparr>)))"

definition build_partial_reuse_span_model_input_sequence :: "span_inputs list \<Rightarrow> model_inputs list res" where
  "build_partial_reuse_span_model_input_sequence inputs =
     bind_res (check_res (inputs \<noteq> []) (ValueError ''partial reuse requires at least one span input''))
       (\<lambda>_. map_res build_partial_reuse_span_model_inputs inputs)"

record attention_inputs =
  ai_span :: compute_span
  ai_num_tokens :: nat
  ai_query_start_loc :: "nat list"
  ai_seq_lens :: "nat list"
  ai_max_query_len :: nat
  ai_max_seq_len :: nat
  ai_block_tables :: "int tensor2 list"
  ai_slot_mappings :: "int tensor2"
  ai_positions :: "nat list"

definition build_partial_reuse_span_attention_inputs :: "span_inputs \<Rightarrow> int tensor2 list \<Rightarrow> attention_inputs res" where
  "build_partial_reuse_span_attention_inputs si tables =
     bind_res (check_res (tables \<noteq> []) (ValueError ''partial reuse requires at least one block table'')) (\<lambda>_.
     bind_res (check_res (list_all (\<lambda>t. t2_rows t \<noteq> []) tables)
       (ValueError ''block tables must contain the isolated request'')) (\<lambda>_.
     bind_res (check_res (length (t2_rows (si_slot_mappings si)) = length tables)
       (ValueError ''slot mappings must match the KV cache groups'')) (\<lambda>_.
     let n = length (si_input_ids si)
     in bind_res (check_res (si_query_start_locations si = (0, n))
          (ValueError ''span query boundaries must cover every span token'')) (\<lambda>_.
        bind_res (check_res (n \<le> si_sequence_length si)
          (ValueError ''span sequence length cannot be shorter than its query'')) (\<lambda>_.
          Inr \<lparr>ai_span = si_span si, ai_num_tokens = n, ai_query_start_loc = [0, n],
               ai_seq_lens = [si_sequence_length si], ai_max_query_len = n, ai_max_seq_len = si_sequence_length si,
               ai_block_tables = map (\<lambda>t. t\<lparr>t2_rows := take 1 (t2_rows t)\<rparr>) tables,
               ai_slot_mappings = si_slot_mappings si, ai_positions = si_positions si\<rparr>)))))"

definition build_partial_reuse_span_attention_input_sequence ::
  "span_inputs list \<Rightarrow> int tensor2 list \<Rightarrow> attention_inputs list res" where
  "build_partial_reuse_span_attention_input_sequence inputs tables =
     bind_res (check_res (inputs \<noteq> []) (ValueError ''partial reuse requires at least one span input''))
       (\<lambda>_. map_res (\<lambda>item. build_partial_reuse_span_attention_inputs item tables) inputs)"

record compacted_batch =
  cb_compute_rows :: "nat list"
  cb_compute_spans :: "compute_span list"
  cb_span_inputs :: "span_inputs list"
  cb_span_model_inputs :: "model_inputs list"
  cb_span_attention_inputs :: "attention_inputs list"
  cb_input_ids :: "int list"
  cb_positions :: "nat list"
  cb_slot_mappings :: "int tensor2"
  cb_query_start_locations :: "nat list"

definition build_partial_reuse_compacted_batch ::
  "int list \<Rightarrow> nat list \<Rightarrow> int tensor2 \<Rightarrow> int tensor2 list \<Rightarrow> nat list \<Rightarrow> nat list \<Rightarrow> nat \<Rightarrow> compacted_batch res" where
  "build_partial_reuse_compacted_batch input_ids positions slots tables boundaries compute_rows initial_computed =
     bind_res (check_res (2 \<le> length boundaries) (ValueError ''query boundaries require at least one request'')) (\<lambda>_.
     bind_res (check_res (last boundaries = length input_ids)
       (ValueError ''query boundaries must cover every model input row'')) (\<lambda>_.
     bind_res (check_res (t2_cols slots = length input_ids)
       (ValueError ''slot mappings must cover every model input row'')) (\<lambda>_.
     bind_res (validate_compaction_rows compute_rows (length input_ids)) (\<lambda>selected.
     bind_res (compact_partial_reuse_model_inputs input_ids positions selected) (\<lambda>(ids, pos).
     bind_res (build_partial_reuse_compute_spans selected (length input_ids)) (\<lambda>spans.
     bind_res (build_partial_reuse_span_input_sequence input_ids positions slots spans initial_computed) (\<lambda>inputs.
     bind_res (build_partial_reuse_span_model_input_sequence inputs) (\<lambda>models.
     bind_res (build_partial_reuse_span_attention_input_sequence inputs tables) (\<lambda>attention.
     bind_res (compact_partial_reuse_slot_mappings slots selected) (\<lambda>packed_slots.
     bind_res (compact_partial_reuse_query_start_locations boundaries selected) (\<lambda>packed_boundaries.
       Inr \<lparr>cb_compute_rows = selected, cb_compute_spans = spans, cb_span_inputs = inputs, cb_span_model_inputs = models,
            cb_span_attention_inputs = attention, cb_input_ids = ids, cb_positions = pos,
            cb_slot_mappings = packed_slots, cb_query_start_locations = packed_boundaries\<rparr>)))))))))))"

section \<open>Execution\<close>

text \<open>The attention backends' \<open>build_attn_metadata\<close> is a parameter: it turns the inputs of a span into
  metadata that only the model reads.\<close>

definition build_partial_reuse_span_attention_metadata ::
  "(attention_inputs \<Rightarrow> 'meta res) \<Rightarrow> attention_inputs list \<Rightarrow> 'meta list res" where
  "build_partial_reuse_span_attention_metadata build_attn inputs =
     bind_res (check_res (inputs \<noteq> []) (ValueError ''partial reuse requires span attention inputs''))
       (\<lambda>_. map_res build_attn inputs)"

record 'meta execution_step =
  es_span :: compute_span
  es_model_inputs :: model_inputs
  es_attention_metadata :: 'meta
  es_slot_mappings :: "int tensor2"

definition build_partial_reuse_span_execution_steps ::
  "compacted_batch \<Rightarrow> 'meta list \<Rightarrow> 'meta execution_step list res" where
  "build_partial_reuse_span_execution_steps batch metadata =
     (let spans = cb_compute_spans batch; models = cb_span_model_inputs batch; attention = cb_span_attention_inputs batch
      in bind_res (check_res (spans \<noteq> []) (ValueError ''partial reuse requires at least one compute span'')) (\<lambda>_.
         bind_res (check_res (length models = length spans) (ValueError ''every compute span requires model inputs'')) (\<lambda>_.
         bind_res (check_res (length metadata = length spans) (ValueError ''every compute span requires attention metadata'')) (\<lambda>_.
         bind_res (check_res (length attention = length spans) (ValueError ''every compute span requires attention inputs'')) (\<lambda>_.
           Inr (map (\<lambda>(sp, inputs, attn, meta).
               \<lparr>es_span = sp, es_model_inputs = inputs, es_attention_metadata = meta, es_slot_mappings = ai_slot_mappings attn\<rparr>)
             (zip spans (zip models (zip attention metadata)))))))))"

text \<open>\<open>execute_partial_reuse_span_steps\<close> calls back into the model, which writes the KV cache: the
  callback takes and returns a state.\<close>

fun run_steps :: "('meta execution_step \<Rightarrow> 's \<Rightarrow> ('out \<times> 's) res) \<Rightarrow> nat \<Rightarrow> 'meta execution_step list \<Rightarrow> 's \<Rightarrow> ('out list \<times> 's) res" where
  "run_steps execute_step previous_end [] s = Inr ([], s)"
| "run_steps execute_step previous_end (st # steps) s =
     bind_res (check_res (previous_end \<le> sp_start (es_span st))
       (ValueError ''execution steps must be ordered and non-overlapping'')) (\<lambda>_.
     bind_res (execute_step st s) (\<lambda>(out, s1).
     bind_res (run_steps execute_step (sp_end (es_span st)) steps s1) (\<lambda>(outs, s2). Inr (out # outs, s2))))"

definition execute_partial_reuse_span_steps ::
  "'meta execution_step list \<Rightarrow> ('meta execution_step \<Rightarrow> 's \<Rightarrow> ('out \<times> 's) res) \<Rightarrow> 's \<Rightarrow> ('out list \<times> 's) res" where
  "execute_partial_reuse_span_steps steps execute_step s =
     bind_res (check_res (steps \<noteq> []) (ValueError ''partial reuse requires at least one execution step''))
       (\<lambda>_. run_steps execute_step 0 steps s)"

text \<open>An output tensor: the shape of a row and the rows.\<close>

record 'h span_output =
  so_trailing :: "nat list"
  so_rows :: "'h list"

fun stitch_loop :: "nat \<Rightarrow> nat list \<Rightarrow> nat \<Rightarrow> ('meta execution_step \<times> 'h span_output) list \<Rightarrow> 'h list \<Rightarrow> 'h list res" where
  "stitch_loop total_rows trailing previous_end [] stitched = Inr stitched"
| "stitch_loop total_rows trailing previous_end ((st, out) # rest) stitched =
     (let start_row = sp_start (es_span st); end_row = sp_end (es_span st)
      in bind_res (check_res (previous_end \<le> start_row \<and> end_row \<le> total_rows)
           (ValueError ''span outputs must be ordered within the full batch'')) (\<lambda>_.
         bind_res (check_res (start_row + length (so_rows out) = end_row)
           (ValueError ''span output rows must match the execution span'')) (\<lambda>_.
         bind_res (check_res (so_trailing out = trailing)
           (ValueError ''span model outputs must share a trailing shape'')) (\<lambda>_.
           stitch_loop total_rows trailing end_row rest
             (take start_row stitched @ so_rows out @ drop end_row stitched)))))"

definition stitch_partial_reuse_span_outputs ::
  "(nat list \<Rightarrow> 'h) \<Rightarrow> 'meta execution_step list \<Rightarrow> 'h span_output list \<Rightarrow> nat \<Rightarrow> 'h span_output res" where
  "stitch_partial_reuse_span_outputs zero_row steps outputs total_rows =
     bind_res (check_res (1 \<le> total_rows) (ValueError ''partial reuse output must contain at least one row'')) (\<lambda>_.
     bind_res (check_res (steps \<noteq> []) (ValueError ''partial reuse requires at least one execution step'')) (\<lambda>_.
     bind_res (check_res (length outputs = length steps) (ValueError ''every execution step requires one model output'')) (\<lambda>_.
     let trailing = so_trailing (hd outputs)
     in bind_res (stitch_loop total_rows trailing 0 (zip steps outputs) (replicate total_rows (zero_row trailing)))
          (\<lambda>rows. Inr \<lparr>so_trailing = trailing, so_rows = rows\<rparr>))))"

datatype forward_path = Full | Spans

definition select_partial_reuse_forward_path ::
  "batch_decision \<Rightarrow> 'meta execution_step list \<Rightarrow> bool \<Rightarrow> forward_path res" where
  "select_partial_reuse_forward_path decision steps dummy_run =
     (if dummy_run \<or> \<not> bd_eligible decision then Inr Full
      else bind_res (check_res (steps \<noteq> []) (ValueError ''eligible partial reuse requires execution steps'')) (\<lambda>_. Inr Spans))"

end
