(* ===== verification/KvCopies.thy ===== *)
theory KvCopies
  imports Spans
begin

text \<open>
  The writes to the KV cache that a plan causes before the forward pass (\<open>repack_kv_cache_blocks_inplace\<close>,
  \<open>copy_kv_cache_blocks_inplace\<close>, \<open>correct_qwen3_kv_positions_inplace\<close> and their caller
  \<open>_apply_cacheselect_block_copies\<close>) and the metrics of a request (\<open>CacheSelectRepairMetrics\<close>).  A cache
  tensor is a list of blocks, a block a list of the values of its positions; the rotation of the keys
  of one position is a parameter, it is floating-point arithmetic.
\<close>

section \<open>Metrics\<close>

text \<open>Times are rationals here and floats in the code.\<close>

record repair_metrics =
  me_selector :: string
  me_candidate_tokens :: nat
  me_repair_tokens :: nat
  me_skipped_repair_tokens :: nat
  me_copied_blocks :: nat
  me_copied_tokens :: nat
  me_execution_eligible :: bool
  me_execution_reason :: string
  me_reused_batch_rows :: nat
  me_compute_batch_rows :: nat
  me_compute_span_count :: nat
  me_compacted_batch_built :: bool
  me_compacted_batch_executed :: bool
  me_span_metadata_built :: bool
  me_span_metadata_count :: nat
  me_copy_time_ms :: rat
  me_preparation_time_ms :: rat
  me_forward_time_ms :: rat

definition new_metrics :: "string \<Rightarrow> nat \<Rightarrow> nat \<Rightarrow> nat \<Rightarrow> repair_metrics" where
  "new_metrics selector candidate repair skipped =
     \<lparr>me_selector = selector, me_candidate_tokens = candidate, me_repair_tokens = repair, me_skipped_repair_tokens = skipped,
      me_copied_blocks = 0, me_copied_tokens = 0, me_execution_eligible = False, me_execution_reason = ''not_evaluated'',
      me_reused_batch_rows = 0, me_compute_batch_rows = 0, me_compute_span_count = 0, me_compacted_batch_built = False,
      me_compacted_batch_executed = False, me_span_metadata_built = False, me_span_metadata_count = 0,
      me_copy_time_ms = 0, me_preparation_time_ms = 0, me_forward_time_ms = 0\<rparr>"

definition summarize_repair_selection ::
  "string \<Rightarrow> resolved_candidate list \<Rightarrow> repair_instruction list \<Rightarrow> nat \<Rightarrow> repair_metrics res" where
  "summarize_repair_selection selector candidates repairs bs =
     bind_res (check_res (1 \<le> bs) (ValueError ''block_size must be positive'')) (\<lambda>_.
       let candidate_tokens = length candidates * bs;
           required = length (filter rc_requires_repair candidates) * bs;
           repair_tokens = sum_list (map (\<lambda>r. length (ri_target_token_indices r)) repairs)
       in bind_res (check_res (repair_tokens \<le> required) (ValueError ''repair plan exceeds tokens marked for repair''))
            (\<lambda>_. Inr (new_metrics selector candidate_tokens repair_tokens (required - repair_tokens))))"

definition record_copy_execution :: "repair_metrics \<Rightarrow> nat \<Rightarrow> nat \<Rightarrow> repair_metrics res" where
  "record_copy_execution m copied_blocks bs =
     bind_res (check_res (1 \<le> bs) (ValueError ''block_size must be positive'')) (\<lambda>_.
     bind_res (check_res (copied_blocks * bs \<le> me_candidate_tokens m) (ValueError ''copied tokens exceed candidate tokens''))
       (\<lambda>_. Inr (m\<lparr>me_copied_blocks := copied_blocks, me_copied_tokens := copied_blocks * bs\<rparr>)))"

definition record_batch_execution_decision :: "repair_metrics \<Rightarrow> bool \<Rightarrow> string \<Rightarrow> nat \<Rightarrow> nat \<Rightarrow> repair_metrics res" where
  "record_batch_execution_decision m eligible reason reused_rows compute_rows =
     bind_res (check_res (\<not> (eligible \<and> reused_rows = 0)) (ValueError ''eligible execution requires reusable batch rows'')) (\<lambda>_.
     bind_res (check_res (\<not> (eligible \<and> compute_rows = 0)) (ValueError ''eligible execution requires compute batch rows''))
       (\<lambda>_. Inr (m\<lparr>me_execution_eligible := eligible, me_execution_reason := reason,
              me_reused_batch_rows := reused_rows, me_compute_batch_rows := compute_rows\<rparr>)))"

definition record_compacted_batch_construction :: "repair_metrics \<Rightarrow> nat \<Rightarrow> nat \<Rightarrow> repair_metrics res" where
  "record_compacted_batch_construction m compacted_rows span_count =
     bind_res (check_res (1 \<le> compacted_rows) (ValueError ''compacted batch must contain at least one row'')) (\<lambda>_.
     bind_res (check_res (1 \<le> span_count) (ValueError ''compacted batch must contain at least one compute span'')) (\<lambda>_.
     bind_res (check_res (compacted_rows = me_compute_batch_rows m) (ValueError ''compacted rows must match selected compute rows''))
       (\<lambda>_. Inr (m\<lparr>me_compute_span_count := span_count, me_compacted_batch_built := True\<rparr>))))"

definition record_span_attention_metadata_construction :: "repair_metrics \<Rightarrow> nat \<Rightarrow> repair_metrics res" where
  "record_span_attention_metadata_construction m metadata_count =
     bind_res (check_res (1 \<le> metadata_count) (ValueError ''partial reuse requires at least one metadata object'')) (\<lambda>_.
     bind_res (check_res (metadata_count = me_compute_span_count m) (ValueError ''span metadata count must match compute span count''))
       (\<lambda>_. Inr (m\<lparr>me_span_metadata_built := True, me_span_metadata_count := metadata_count\<rparr>)))"

definition record_compacted_batch_execution :: "repair_metrics \<Rightarrow> nat \<Rightarrow> repair_metrics res" where
  "record_compacted_batch_execution m executed =
     bind_res (check_res (me_compacted_batch_built m \<and> me_span_metadata_built m)
       (ValueError ''span execution requires a fully prepared compacted batch'')) (\<lambda>_.
     bind_res (check_res (executed = me_compute_span_count m) (ValueError ''executed spans must match the prepared compute spans''))
       (\<lambda>_. Inr (m\<lparr>me_compacted_batch_executed := True\<rparr>)))"

definition record_preparation_time :: "repair_metrics \<Rightarrow> rat \<Rightarrow> repair_metrics res" where
  "record_preparation_time m elapsed =
     bind_res (check_res (0 \<le> elapsed) (ValueError ''preparation time must be non-negative''))
       (\<lambda>_. Inr (m\<lparr>me_preparation_time_ms := me_preparation_time_ms m + elapsed\<rparr>))"

definition record_gpu_execution_times :: "repair_metrics \<Rightarrow> rat option \<Rightarrow> rat option \<Rightarrow> repair_metrics res" where
  "record_gpu_execution_times m copy_time forward_time =
     bind_res (check_res (case copy_time of None \<Rightarrow> True | Some t \<Rightarrow> 0 \<le> t) (ValueError ''copy time must be non-negative'')) (\<lambda>_.
     bind_res (check_res (case forward_time of None \<Rightarrow> True | Some t \<Rightarrow> 0 \<le> t) (ValueError ''forward time must be non-negative'')) (\<lambda>_.
       Inr (m\<lparr>me_copy_time_ms := (case copy_time of None \<Rightarrow> me_copy_time_ms m | Some t \<Rightarrow> t),
              me_forward_time_ms := (case forward_time of None \<Rightarrow> me_forward_time_ms m | Some t \<Rightarrow> t)\<rparr>)))"

section \<open>Cache tensors\<close>

record 'v kv_tensor =
  kt_block_size :: nat
  kt_width :: nat
  kt_blocks :: "'v list list"

text \<open>Indexed reads see the tensor as it was, indexed writes happen in order.\<close>

definition write_blocks :: "(nat \<times> 'v list) list \<Rightarrow> 'v list list \<Rightarrow> 'v list list" where
  "write_blocks writes blocks = fold (\<lambda>(b, vs) bl. bl[b := vs]) writes blocks"

definition block_in :: "nat \<Rightarrow> int \<Rightarrow> bool" where
  "block_in n b \<longleftrightarrow> 0 \<le> b \<and> b < int n"

definition repack_ok :: "nat \<Rightarrow> nat \<Rightarrow> copy_instruction \<Rightarrow> bool" where
  "repack_ok bs num_blocks i \<longleftrightarrow> length (ci_physical_source_block_ids i) = 2 \<and>
     0 < ci_source_block_offset i \<and> ci_source_block_offset i < bs \<and>
     list_all (block_in num_blocks) (ci_physical_source_block_ids i) \<and> block_in num_blocks (ci_target_block_id i)"

definition gather_block :: "nat \<Rightarrow> 'v list list \<Rightarrow> copy_instruction \<Rightarrow> 'v list" where
  "gather_block bs blocks i =
     map (\<lambda>p. let q = ci_source_block_offset i + p;
                  source = (if q < bs then ci_physical_source_block_ids i ! 0 else ci_physical_source_block_ids i ! 1)
              in blocks ! nat source ! (q mod bs)) [0..<bs]"

definition repack_kv_cache_blocks_inplace ::
  "copy_instruction list \<Rightarrow> nat \<Rightarrow> 'v kv_tensor list \<Rightarrow> 'v kv_tensor list res" where
  "repack_kv_cache_blocks_inplace instrs bs caches =
     (if instrs = [] then Inr caches
      else bind_res (check_res (1 \<le> bs) (ValueError ''block_size must be positive'')) (\<lambda>_.
        bind_res (check_res (caches \<noteq> [] \<and> list_all (\<lambda>c. kt_block_size c = bs) caches)
          (ValueError ''KV repacking requires a four-dimensional attention cache'')) (\<lambda>_.
        let num_blocks = length (kt_blocks (hd caches))
        in bind_res (check_res (list_all (\<lambda>c. length (kt_blocks c) = num_blocks) caches)
             (ValueError ''KV repacking requires one shared physical block count'')) (\<lambda>_.
           bind_res (check_res (list_all (repack_ok bs num_blocks) instrs) (ValueError ''invalid KV repacking instruction'')) (\<lambda>_.
             Inr (map (\<lambda>c. c\<lparr>kt_blocks := write_blocks
                 (map (\<lambda>i. (nat (ci_target_block_id i), gather_block bs (kt_blocks c) i)) instrs) (kt_blocks c)\<rparr>) caches))))))"

text \<open>The copy by pages of the backing storage.  Each tensor has its own storage, of as many pages as
  blocks; a page number outside the storage is an indexing error.\<close>

definition copy_kv_cache_blocks_inplace :: "(int \<times> int) list \<Rightarrow> 'v kv_tensor list \<Rightarrow> 'v kv_tensor list res" where
  "copy_kv_cache_blocks_inplace copies caches =
     (if copies = [] \<or> caches = [] then Inr caches
      else map_res (\<lambda>c.
        bind_res (check_res (list_all (\<lambda>(src, dst). block_in (length (kt_blocks c)) src \<and> block_in (length (kt_blocks c)) dst) copies)
          (IndexError ''index is out of bounds''))
          (\<lambda>_. Inr (c\<lparr>kt_blocks := write_blocks (map (\<lambda>(src, dst). (nat dst, kt_blocks c ! nat src)) copies) (kt_blocks c)\<rparr>))) caches)"

section \<open>Position correction\<close>

definition moved_by :: "nat \<Rightarrow> copy_instruction \<Rightarrow> int" where
  "moved_by bs i = int (ci_target_block_index i * bs) - int (ci_source_block_index i * bs) - int (ci_source_block_offset i)"

definition correct_qwen3_kv_positions_inplace ::
  "(int \<Rightarrow> 'v \<Rightarrow> 'v) \<Rightarrow> copy_instruction list \<Rightarrow> nat \<Rightarrow> nat \<Rightarrow> rat \<Rightarrow> 'v kv_tensor list \<Rightarrow> 'v kv_tensor list res" where
  "correct_qwen3_kv_positions_inplace rot instrs bs head_size rope_theta caches =
     (let moved = filter (\<lambda>i. ci_target_block_index i * bs \<noteq> ci_source_block_index i * bs + ci_source_block_offset i) instrs
      in if moved = [] then Inr caches
         else bind_res (check_res (2 \<le> head_size \<and> head_size mod 2 = 0 \<and> 0 < rope_theta) (ValueError ''invalid Qwen3 RoPE parameters'')) (\<lambda>_.
           bind_res (check_res (caches \<noteq> [] \<and> list_all (\<lambda>c. kt_block_size c = bs \<and> kt_width c = 2 * head_size) caches)
             (ValueError ''RoPE correction requires a floating-point Qwen3 KV cache'')) (\<lambda>_.
           bind_res (check_res (list_all (\<lambda>c. list_all (\<lambda>i. block_in (length (kt_blocks c)) (ci_target_block_id i)) moved) caches)
             (IndexError ''index is out of bounds'')) (\<lambda>_.
             Inr (map (\<lambda>c. c\<lparr>kt_blocks := write_blocks
                 (map (\<lambda>i. (nat (ci_target_block_id i),
                     map (rot (moved_by bs i)) (kt_blocks c ! nat (ci_target_block_id i)))) moved) (kt_blocks c)\<rparr>) caches)))))"

section \<open>Applying the copies of a step\<close>

record copy_config =
  execute_partial_reuse :: bool
  repack_partial_reuse :: bool
  correct_kv_positions :: bool
  cache_block_size :: nat
  standard_qwen3_rope :: bool
  qwen3_head_size :: nat
  qwen3_rope_theta :: rat

definition plan_sizes :: "(string, reuse_plan) odict \<Rightarrow> (string \<times> copy_instruction list) list \<Rightarrow> nat list res" where
  "plan_sizes plans by_request =
     map_res (\<lambda>(rid, _). case od_get plans rid of Some plan \<Rightarrow> Inr (pp_block_size plan) | None \<Rightarrow> Inl (KeyError rid))
       (filter (\<lambda>(_, instrs). list_ex ci_requires_repacking instrs) by_request)"

definition copy_operation ::
  "(int \<Rightarrow> 'v \<Rightarrow> 'v) \<Rightarrow> copy_config \<Rightarrow> (string, reuse_plan) odict \<Rightarrow> (string \<times> copy_instruction list) list \<Rightarrow>
   (int \<times> int) list \<Rightarrow> 'v kv_tensor list \<Rightarrow> 'v kv_tensor list res" where
  "copy_operation rot cfg plans by_request block_copies caches =
     (let instrs = concat (map snd by_request); repacked = filter ci_requires_repacking instrs
      in bind_res
           (if repacked \<noteq> []
            then bind_res (plan_sizes plans by_request) (\<lambda>sizes.
                 bind_res (check_res (card (set sizes) = 1) (RuntimeError ''KV repacking requires one block size''))
                   (\<lambda>_. repack_kv_cache_blocks_inplace repacked (hd sizes) caches))
            else Inr caches) (\<lambda>caches1.
         bind_res (copy_kv_cache_blocks_inplace block_copies caches1) (\<lambda>caches2.
           if correct_kv_positions cfg
           then bind_res (check_res (standard_qwen3_rope cfg)
                  (RuntimeError ''CacheSelect position correction supports only standard Qwen3 RoPE'')) (\<lambda>_.
                correct_qwen3_kv_positions_inplace rot instrs (cache_block_size cfg) (qwen3_head_size cfg)
                  (qwen3_rope_theta cfg) caches2)
           else Inr caches2)))"

fun record_copies ::
  "(string, reuse_plan) odict \<Rightarrow> (string \<times> copy_instruction list) list \<Rightarrow> (string, repair_metrics) odict \<Rightarrow> (string, repair_metrics) odict res" where
  "record_copies plans [] pending = Inr pending"
| "record_copies plans ((rid, instrs) # rest) pending =
     (if instrs = [] then record_copies plans rest pending
      else case od_get pending rid of
        None \<Rightarrow> Inl (KeyError rid)
      | Some m \<Rightarrow> (case od_get plans rid of
          None \<Rightarrow> Inl (KeyError rid)
        | Some plan \<Rightarrow> bind_res (record_copy_execution m (length instrs) (pp_block_size plan))
            (\<lambda>m'. record_copies plans rest (od_set rid m' pending))))"

definition apply_cacheselect_block_copies ::
  "(int \<Rightarrow> 'v \<Rightarrow> 'v) \<Rightarrow> copy_config \<Rightarrow> (string, reuse_plan) odict \<Rightarrow> (string \<times> copy_instruction list) list \<Rightarrow>
   (string, repair_metrics) odict \<times> 'v kv_tensor list \<Rightarrow> ((string, repair_metrics) odict \<times> 'v kv_tensor list) res" where
  "apply_cacheselect_block_copies rot cfg plans by_request st =
     (case st of (pending, caches) \<Rightarrow>
        if \<not> execute_partial_reuse cfg then Inr st
        else let instrs = concat (map snd by_request);
                 repacked = filter ci_requires_repacking instrs;
                 aligned = filter (\<lambda>i. \<not> ci_requires_repacking i) instrs
             in bind_res (check_res (repacked = [] \<or> repack_partial_reuse cfg)
                  (RuntimeError ''KV repacking was planned without being enabled'')) (\<lambda>_.
                bind_res (build_kv_cache_block_copies aligned) (\<lambda>block_copies.
                  if instrs = [] then Inr st
                  else bind_res (copy_operation rot cfg plans by_request block_copies caches) (\<lambda>caches'.
                       bind_res (record_copies plans by_request pending) (\<lambda>pending'. Inr (pending', caches'))))))"

end
