(* ===== verification/WorkerForward.thy ===== *)
theory WorkerForward
  imports KvCopies
begin

text \<open>
  The CacheSelect part of the worker, \<open>GPUModelRunner\<close> in \<^verbatim>\<open>vllm/v1/worker/gpu/model_runner.py\<close>: what it
  keeps per request and per step, and its handlers in the order of a step (requests are added, copies
  applied, rows selected, the compacted batch and its steps built, the forward path executed, the
  metrics handed out).  The model, the attention backends and the clocks are parameters.
\<close>

section \<open>State\<close>

record 'meta worker =
  wk_plans :: "(string, reuse_plan) odict"
  wk_resolved :: "(string, resolved_candidate list) odict"
  wk_copies :: "(string, copy_instruction list) odict"
  wk_repairs :: "(string, repair_instruction list) odict"
  wk_reused_tokens :: "(string, nat list) odict"
  wk_reused_rows :: "(string, nat list) odict"
  wk_metrics :: "(string, repair_metrics) odict"
  wk_copy_events :: "(string, rat) odict"
  wk_decision :: batch_decision
  wk_compute_rows :: "nat list"
  wk_compacted :: "compacted_batch option"
  wk_metadata :: "'meta list"
  wk_steps :: "'meta execution_step list"
  wk_path :: forward_path

definition worker_init :: "'meta worker" where
  "worker_init = \<lparr>wk_plans = [], wk_resolved = [], wk_copies = [], wk_repairs = [], wk_reused_tokens = [], wk_reused_rows = [],
     wk_metrics = [], wk_copy_events = [],
     wk_decision = \<lparr>bd_eligible = False, bd_reason = ''not_evaluated'', bd_request_id = None, bd_reused_batch_rows = []\<rparr>,
     wk_compute_rows = [], wk_compacted = None, wk_metadata = [], wk_steps = [], wk_path = Full\<rparr>"

definition remove_request_state :: "string \<Rightarrow> 'meta worker \<Rightarrow> 'meta worker" where
  "remove_request_state rid w =
     w\<lparr>wk_plans := od_pop rid (wk_plans w), wk_resolved := od_pop rid (wk_resolved w), wk_copies := od_pop rid (wk_copies w),
       wk_repairs := od_pop rid (wk_repairs w), wk_reused_tokens := od_pop rid (wk_reused_tokens w),
       wk_reused_rows := od_pop rid (wk_reused_rows w), wk_metrics := od_pop rid (wk_metrics w),
       wk_copy_events := od_pop rid (wk_copy_events w)\<rparr>"

definition allow_unallocated :: "int list list \<Rightarrow> nat \<Rightarrow> nat \<Rightarrow> bool" where
  "allow_unallocated block_ids bs prompt_length = (case block_ids of [blocks] \<Rightarrow> length blocks * bs < prompt_length | _ \<Rightarrow> False)"

definition add_request_state ::
  "repair_selector \<Rightarrow> string \<Rightarrow> nat \<Rightarrow> nat option \<Rightarrow> string \<Rightarrow> reuse_plan option \<Rightarrow> int list list \<Rightarrow> nat \<Rightarrow>
   'meta worker \<Rightarrow> 'meta worker res" where
  "add_request_state selector selector_name minimum repacked_minimum rid plan_opt block_ids prompt_length w0 =
     (let w = remove_request_state rid w0
      in case plan_opt of None \<Rightarrow> Inr w | Some plan \<Rightarrow>
        bind_res (resolve_target_block_ids plan block_ids (allow_unallocated block_ids (pp_block_size plan) prompt_length)) (\<lambda>resolved.
        bind_res (prepare_reuse selector minimum repacked_minimum plan block_ids prompt_length) (\<lambda>(copies, repairs, kept).
        let name = (case pp_counterfactual_reuse_block_index plan of None \<Rightarrow> selector_name | Some _ \<Rightarrow> ''counterfactual_single_block'')
        in bind_res (summarize_repair_selection name resolved repairs (pp_block_size plan)) (\<lambda>m.
           Inr (w\<lparr>wk_plans := od_set rid plan (wk_plans w), wk_resolved := od_set rid resolved (wk_resolved w),
             wk_copies := od_set rid copies (wk_copies w), wk_repairs := od_set rid repairs (wk_repairs w),
             wk_reused_tokens := od_set rid kept (wk_reused_tokens w), wk_metrics := od_set rid m (wk_metrics w)\<rparr>)))))"

text \<open>The copies of the newly scheduled requests; \<open>elapsed\<close> is what the copy events will report.\<close>

definition update_requests_copies ::
  "(int \<Rightarrow> 'v \<Rightarrow> 'v) \<Rightarrow> copy_config \<Rightarrow> rat \<Rightarrow> string list \<Rightarrow> 'meta worker \<times> 'v kv_tensor list \<Rightarrow> ('meta worker \<times> 'v kv_tensor list) res" where
  "update_requests_copies rot cfg elapsed new_ids st =
     (case st of (w, caches) \<Rightarrow>
        let by_request = map (\<lambda>rid. (rid, case od_get (wk_copies w) rid of None \<Rightarrow> [] | Some instrs \<Rightarrow> instrs)) new_ids
        in bind_res (apply_cacheselect_block_copies rot cfg (wk_plans w) by_request (wk_metrics w, caches)) (\<lambda>(pending, caches').
           Inr (w\<lparr>wk_metrics := pending,
                  wk_copy_events := (if execute_partial_reuse cfg
                    then fold (\<lambda>(rid, instrs) ev. if instrs = [] then ev else od_set rid elapsed ev) by_request (wk_copy_events w)
                    else wk_copy_events w)\<rparr>, caches')))"

section \<open>Rows of a step\<close>

record input_batch =
  ib_req_ids :: "string list"
  ib_num_tokens :: nat
  ib_query_start :: "nat list"
  ib_num_computed :: "nat list"
  ib_num_scheduled :: "nat list"
  ib_is_prefilling :: "bool list"
  ib_input_ids :: "int list"
  ib_positions :: "nat list"

fun decision_metrics ::
  "batch_decision \<Rightarrow> nat list \<Rightarrow> (string \<times> nat) list \<Rightarrow> (string, repair_metrics) odict \<Rightarrow> (string, repair_metrics) odict res" where
  "decision_metrics d compute_rows [] pending = Inr pending"
| "decision_metrics d compute_rows ((rid, scheduled) # rest) pending =
     (case od_get pending rid of
        None \<Rightarrow> decision_metrics d compute_rows rest pending
      | Some m \<Rightarrow>
          let chosen = (bd_request_id d = Some rid)
          in bind_res (record_batch_execution_decision m (bd_eligible d \<and> chosen)
               (if bd_request_id d = None \<or> chosen then bd_reason d else ''request_not_selected'')
               (if chosen then length (bd_reused_batch_rows d) else 0)
               (if bd_eligible d \<and> chosen then length compute_rows else scheduled))
             (\<lambda>m'. decision_metrics d compute_rows rest (od_set rid m' pending)))"

definition prepare_reuse_rows :: "batch_conditions \<Rightarrow> input_batch \<Rightarrow> 'meta worker \<Rightarrow> 'meta worker res" where
  "prepare_reuse_rows cond ib w =
     (let n = length (ib_req_ids ib); boundaries = take (n + 1) (ib_query_start ib)
      in bind_res (map_reused_tokens_to_batch_rows (ib_req_ids ib) boundaries (ib_num_computed ib) (ib_num_scheduled ib)
           (wk_reused_tokens w)) (\<lambda>rows_by.
         bind_res (assess_partial_reuse_batch cond (ib_req_ids ib) (ib_is_prefilling ib) rows_by
           (map (\<lambda>query_end. int query_end - 1) (slice 1 (n + 1) (ib_query_start ib)))) (\<lambda>d.
         bind_res (build_partial_reuse_compute_rows d (ib_num_tokens ib)) (\<lambda>compute_rows.
         bind_res (decision_metrics d compute_rows (zip (ib_req_ids ib) (ib_num_scheduled ib)) (wk_metrics w)) (\<lambda>pending.
           Inr (w\<lparr>wk_reused_rows := rows_by, wk_decision := d, wk_compute_rows := compute_rows, wk_metrics := pending\<rparr>))))))"

section \<open>Compacted batch and steps\<close>

definition first_cols :: "nat \<Rightarrow> 'a tensor2 \<Rightarrow> 'a tensor2" where
  "first_cols n t = \<lparr>t2_cols = min n (t2_cols t), t2_rows = map (take n) (t2_rows t)\<rparr>"

definition record_compacted_batch ::
  "rat \<Rightarrow> input_batch \<Rightarrow> int tensor2 list \<Rightarrow> int tensor2 \<Rightarrow> 'meta worker \<Rightarrow> 'meta worker res" where
  "record_compacted_batch elapsed ib tables slots w =
     (if \<not> bd_eligible (wk_decision w) then Inr (w\<lparr>wk_compacted := None\<rparr>)
      else case bd_request_id (wk_decision w) of
        None \<Rightarrow> Inl (ValueError ''eligible compact batch requires a request ID'')
      | Some rid \<Rightarrow>
          bind_res (check_res (length (ib_req_ids ib) = 1 \<and> ib_req_ids ib ! 0 = rid)
            (ValueError ''eligible compact batch requires its isolated request'')) (\<lambda>_.
          let n = ib_num_tokens ib
          in bind_res (build_partial_reuse_compacted_batch (take n (ib_input_ids ib)) (take n (ib_positions ib))
               (first_cols n slots) tables (take (length (ib_req_ids ib) + 1) (ib_query_start ib))
               (wk_compute_rows w) (ib_num_computed ib ! 0)) (\<lambda>batch.
             case od_get (wk_metrics w) rid of
               None \<Rightarrow> Inl (ValueError ''eligible compact batch requires request metrics'')
             | Some m \<Rightarrow>
                 bind_res (record_compacted_batch_construction m (length (wk_compute_rows w)) (length (cb_compute_spans batch))) (\<lambda>m1.
                 bind_res (record_preparation_time m1 elapsed) (\<lambda>m2.
                   Inr (w\<lparr>wk_compacted := Some batch, wk_metrics := od_set rid m2 (wk_metrics w)\<rparr>))))))"

definition record_span_attention_metadata ::
  "(attention_inputs \<Rightarrow> 'meta res) \<Rightarrow> rat \<Rightarrow> 'meta worker \<Rightarrow> 'meta worker res" where
  "record_span_attention_metadata build_attn elapsed w =
     (case wk_compacted w of
        None \<Rightarrow> Inr (w\<lparr>wk_metadata := [], wk_steps := []\<rparr>)
      | Some batch \<Rightarrow>
          bind_res (build_partial_reuse_span_attention_metadata build_attn (cb_span_attention_inputs batch)) (\<lambda>metadata.
          bind_res (build_partial_reuse_span_execution_steps batch metadata) (\<lambda>steps.
          case bd_request_id (wk_decision w) of
            None \<Rightarrow> Inl (ValueError ''span metadata requires a request ID'')
          | Some rid \<Rightarrow> (case od_get (wk_metrics w) rid of
              None \<Rightarrow> Inl (ValueError ''span metadata requires request metrics'')
            | Some m \<Rightarrow>
                bind_res (record_span_attention_metadata_construction m (length metadata)) (\<lambda>m1.
                bind_res (record_preparation_time m1 elapsed) (\<lambda>m2.
                  Inr (w\<lparr>wk_metadata := metadata, wk_steps := steps, wk_metrics := od_set rid m2 (wk_metrics w)\<rparr>)))))))"

section \<open>The forward pass\<close>

definition execute_span_step ::
  "('meta execution_step \<Rightarrow> 's \<Rightarrow> ('h span_output \<times> 's) res) \<Rightarrow> 'meta execution_step \<Rightarrow> 's \<Rightarrow> ('h span_output \<times> 's) res" where
  "execute_span_step model st s =
     (let num_tokens = sp_end (es_span st) - sp_start (es_span st)
      in bind_res (check_res (1 \<le> num_tokens) (ValueError ''CacheSelect execution spans cannot be empty'')) (\<lambda>_.
         bind_res (check_res (t2_cols (es_slot_mappings st) = num_tokens)
           (ValueError ''span slot mappings must cover every model input row'')) (\<lambda>_. model st s)))"

definition execute_and_stitch ::
  "(nat list \<Rightarrow> 'h) \<Rightarrow> ('meta execution_step \<Rightarrow> 's \<Rightarrow> ('h span_output \<times> 's) res) \<Rightarrow> nat \<Rightarrow> 'meta worker \<Rightarrow> 's \<Rightarrow>
   ('h span_output \<times> 's) res" where
  "execute_and_stitch zero_row model total_rows w s =
     bind_res (execute_partial_reuse_span_steps (wk_steps w) (execute_span_step model) s) (\<lambda>(outputs, s').
     bind_res (stitch_partial_reuse_span_outputs zero_row (wk_steps w) outputs total_rows) (\<lambda>out. Inr (out, s')))"

definition take_copy_time :: "string \<Rightarrow> 'meta worker \<Rightarrow> rat option \<times> 'meta worker" where
  "take_copy_time rid w = (od_get (wk_copy_events w) rid, w\<lparr>wk_copy_events := od_pop rid (wk_copy_events w)\<rparr>)"

definition record_forward_time :: "string \<Rightarrow> rat \<Rightarrow> 'meta worker \<Rightarrow> 'meta worker res" where
  "record_forward_time rid forward_time w =
     (case od_get (wk_metrics w) rid of
        None \<Rightarrow> Inl (KeyError rid)
      | Some m \<Rightarrow> (case take_copy_time rid w of (copy_time, w1) \<Rightarrow>
          bind_res (record_gpu_execution_times m copy_time (Some forward_time))
            (\<lambda>m'. Inr (w1\<lparr>wk_metrics := od_set rid m' (wk_metrics w1)\<rparr>))))"

definition execute_selected_forward ::
  "(nat list \<Rightarrow> 'h) \<Rightarrow> ('meta execution_step \<Rightarrow> 's \<Rightarrow> ('h span_output \<times> 's) res) \<Rightarrow> ('s \<Rightarrow> ('h span_output \<times> 's) res) \<Rightarrow>
   rat \<Rightarrow> nat \<Rightarrow> bool \<Rightarrow> 'meta worker \<Rightarrow> 's \<Rightarrow> ('h span_output \<times> 'meta worker \<times> 's) res" where
  "execute_selected_forward zero_row model execute_full forward_time total_rows dummy_run w0 s =
     bind_res (select_partial_reuse_forward_path (wk_decision w0) (wk_steps w0) dummy_run) (\<lambda>path.
     let w = w0\<lparr>wk_path := path\<rparr>
     in case path of
       Full \<Rightarrow>
         bind_res (execute_full s) (\<lambda>(out, s').
         (case bd_request_id (wk_decision w) of
            None \<Rightarrow> Inr (out, w, s')
          | Some rid \<Rightarrow>
              if od_get (wk_metrics w) rid = None then Inr (out, w, s')
              else bind_res (record_forward_time rid forward_time w) (\<lambda>w'. Inr (out, w', s'))))
     | Spans \<Rightarrow>
         bind_res (execute_and_stitch zero_row model total_rows w s) (\<lambda>(out, s').
         (case bd_request_id (wk_decision w) of
            None \<Rightarrow> Inl (ValueError ''executed CacheSelect spans require a request ID'')
          | Some rid \<Rightarrow> (case od_get (wk_metrics w) rid of
              None \<Rightarrow> Inl (ValueError ''executed CacheSelect spans require request metrics'')
            | Some m \<Rightarrow>
                bind_res (record_compacted_batch_execution m (length (wk_steps w))) (\<lambda>m1.
                (case take_copy_time rid w of (copy_time, w1) \<Rightarrow>
                  bind_res (record_gpu_execution_times m1 copy_time (Some forward_time)) (\<lambda>m2.
                    Inr (out, w1\<lparr>wk_metrics := od_set rid m2 (wk_metrics w1)\<rparr>, s'))))))))"

text \<open>\<open>_take_cacheselect_repair_metrics\<close>: the metrics leave with the output of the step.\<close>

fun take_metrics :: "string list \<Rightarrow> (string, repair_metrics) odict \<Rightarrow> (string, repair_metrics) odict \<times> (string, repair_metrics) odict" where
  "take_metrics [] pending = ([], pending)"
| "take_metrics (rid # rids) pending =
     (case od_get pending rid of
        None \<Rightarrow> take_metrics rids pending
      | Some m \<Rightarrow> (case take_metrics rids (od_pop rid pending) of (taken, rest) \<Rightarrow> ((rid, m) # taken, rest)))"

definition take_repair_metrics :: "string list \<Rightarrow> 'meta worker \<Rightarrow> (string, repair_metrics) odict option \<times> 'meta worker" where
  "take_repair_metrics rids w =
     (case take_metrics rids (wk_metrics w) of (taken, rest) \<Rightarrow>
        (if taken = [] then None else Some taken, w\<lparr>wk_metrics := rest\<rparr>))"

text \<open>The CacheSelect part of one execution of the model on a real batch.\<close>

definition forward_step ::
  "batch_conditions \<Rightarrow> (attention_inputs \<Rightarrow> 'meta res) \<Rightarrow> (nat list \<Rightarrow> 'h) \<Rightarrow> ('meta execution_step \<Rightarrow> 's \<Rightarrow> ('h span_output \<times> 's) res) \<Rightarrow>
   ('s \<Rightarrow> ('h span_output \<times> 's) res) \<Rightarrow> rat \<times> rat \<times> rat \<Rightarrow> input_batch \<Rightarrow> int tensor2 list \<Rightarrow> int tensor2 \<Rightarrow> nat \<Rightarrow>
   'meta worker \<Rightarrow> 's \<Rightarrow> ('h span_output \<times> 'meta worker \<times> 's) res" where
  "forward_step cond build_attn zero_row model execute_full clock ib tables slots total_rows w s =
     (case clock of (t_batch, t_meta, t_forward) \<Rightarrow>
        bind_res (prepare_reuse_rows cond ib w) (\<lambda>w1.
        bind_res (record_compacted_batch t_batch ib tables slots w1) (\<lambda>w2.
        bind_res (record_span_attention_metadata build_attn t_meta w2) (\<lambda>w3.
          execute_selected_forward zero_row model execute_full t_forward total_rows False w3 s))))"

end
