(* ===== verification/RepairProps.thy ===== *)
theory RepairProps
  imports Repair ReusePlans
begin

text \<open>
  What reuse rests on: the tokens left out of computation lie in copied blocks that the selection
  did not send to repair, in runs that are long enough; and a plan of the locator is prepared
  without error.
\<close>

section \<open>Runs of consecutive tokens\<close>

text \<open>The run of \<open>t\<close>: everything connected with it inside \<open>A\<close>.\<close>

definition run_of :: "nat set \<Rightarrow> nat \<Rightarrow> nat set" where
  "run_of A t = {x. {min x t..max x t} \<subseteq> A}"

definition long_enough :: "nat \<Rightarrow> nat \<Rightarrow> nat \<Rightarrow> nat set \<Rightarrow> nat set \<Rightarrow> nat \<Rightarrow> bool" where
  "long_enough bs minimum repacked_minimum repacked A t \<longleftrightarrow>
     (if \<exists>x \<in> run_of A t. x div bs \<in> repacked then repacked_minimum else minimum) * bs \<le> card (run_of A t)"

lemma run_interval:
  assumes "{a..b} \<subseteq> A" "b + 1 \<notin> A" "a = 0 \<or> a - 1 \<notin> A" "a \<le> t" "t \<le> b"
  shows "run_of A t = {a..b}"
proof
  have "{min x t..max x t} \<subseteq> {a..b}" if "x \<in> {a..b}" for x using that assms(4,5) by simp
  then show "{a..b} \<subseteq> run_of A t" using assms(1) unfolding run_of_def by blast
  show "run_of A t \<subseteq> {a..b}"
  proof
    fix x assume "x \<in> run_of A t"
    then have sub: "{min x t..max x t} \<subseteq> A" by (simp add: run_of_def)
    have "x \<le> b"
    proof (rule ccontr)
      assume "\<not> x \<le> b"
      then have "b + 1 \<in> {min x t..max x t}" using assms(5) by auto
      with sub assms(2) show False by blast
    qed
    moreover have "a \<le> x"
    proof (rule ccontr)
      assume "\<not> a \<le> x"
      then have "a - 1 \<in> {min x t..max x t}" "a \<noteq> 0" using assms(4) by auto
      with sub assms(3) show False by blast
    qed
    ultimately show "x \<in> {a..b}" by simp
  qed
qed

lemma run_blocks:
  fixes bs :: nat
  assumes "0 < bs" "a \<le> b"
  shows "(\<exists>x \<in> {a..b}. x div bs \<in> R) \<longleftrightarrow> R \<inter> {a div bs..<b div bs + 1} \<noteq> {}"
proof
  assume "\<exists>x \<in> {a..b}. x div bs \<in> R"
  then obtain x where x: "a \<le> x" "x \<le> b" "x div bs \<in> R" by auto
  have "a div bs \<le> x div bs" "x div bs \<le> b div bs" using x(1,2) by (simp_all add: div_le_mono)
  then have "x div bs \<in> R \<inter> {a div bs..<b div bs + 1}" using x(3) by simp
  then show "R \<inter> {a div bs..<b div bs + 1} \<noteq> {}" by blast
next
  assume "R \<inter> {a div bs..<b div bs + 1} \<noteq> {}"
  then obtain k where k: "k \<in> R" "a div bs \<le> k" "k \<le> b div bs" by (auto simp: less_Suc_eq_le)
  show "\<exists>x \<in> {a..b}. x div bs \<in> R"
  proof (cases "k = a div bs")
    case True
    then show ?thesis using k assms(2) by (intro bexI[of _ a]) auto
  next
    case False
    then have "a div bs < k" using k(2) by simp
    then have "a < k * bs" using assms(1) by (simp add: div_less_iff_less_mult)
    moreover have "k * bs \<le> b" using k(3) assms(1) by (simp add: less_eq_div_iff_mult_less_eq)
    ultimately show ?thesis using k(1) assms(1) by (intro bexI[of _ "k * bs"]) auto
  qed
qed

lemma sorted_unique_nth_less: "sorted_unique ix \<Longrightarrow> i < j \<Longrightarrow> j < length ix \<Longrightarrow> ix ! i < ix ! j"
  by (simp add: sorted_unique_strict sorted_wrt_nth_less)

text \<open>A stretch of the list without gaps, and with gaps before and behind it, is a run.\<close>

lemma run_of_slice:
  assumes ix: "sorted_unique ix" and s: "s < k" "k \<le> length ix"
    and cont: "\<forall>j. s < j \<longrightarrow> j < k \<longrightarrow> ix ! j = ix ! (j - 1) + 1"
    and gaps: "k < length ix \<longrightarrow> ix ! k \<noteq> ix ! (k - 1) + 1" "s \<noteq> 0 \<longrightarrow> ix ! s \<noteq> ix ! (s - 1) + 1"
    and t: "s \<le> t" "t < k"
  shows "run_of (set ix) (ix ! t) = {ix ! s..ix ! (k - 1)} \<and> ix ! (k - 1) = ix ! s + (k - 1 - s)"
proof -
  note less = sorted_unique_nth_less[OF ix]
  have val: "ix ! (s + d) = ix ! s + d" if "s + d < k" for d
    using that
  proof (induction d)
    case (Suc d)
    then show ?case using cont[rule_format, of "s + Suc d"] by simp
  qed simp
  have last: "ix ! (k - 1) = ix ! s + (k - 1 - s)" using val[of "k - 1 - s"] s by simp
  have sub: "{ix ! s..ix ! (k - 1)} \<subseteq> set ix"
  proof
    fix x assume "x \<in> {ix ! s..ix ! (k - 1)}"
    then have "s + (x - ix ! s) < k" "x = ix ! s + (x - ix ! s)" using last s by auto
    then show "x \<in> set ix" using val[of "x - ix ! s"] s(2) by (metis nth_mem order_less_le_trans)
  qed
  have behind: "ix ! (k - 1) + 1 \<notin> set ix"
  proof
    assume "ix ! (k - 1) + 1 \<in> set ix"
    then obtain j where j: "j < length ix" "ix ! j = ix ! (k - 1) + 1" by (auto simp: in_set_conv_nth)
    have "k - 1 < length ix" using s by linarith
    then have "\<not> j < k - 1" using less[of j "k - 1"] j(2) by auto
    moreover have "j \<noteq> k - 1" using j(2) by auto
    ultimately have "j = k \<or> k < j" using s by auto
    then show False
    proof
      assume "j = k" then show False using gaps(1) j by auto
    next
      assume "k < j"
      then have "ix ! (k - 1) < ix ! k" "ix ! k < ix ! j" using less[of "k - 1" k] less[of k j] j s by auto
      then show False using j(2) by simp
    qed
  qed
  have before: "ix ! s = 0 \<or> ix ! s - 1 \<notin> set ix"
  proof (rule ccontr)
    assume "\<not> ?thesis"
    then obtain j where j: "j < length ix" "ix ! j + 1 = ix ! s" by (auto simp: in_set_conv_nth)
    have "\<not> s < j" using less[of s j] j by auto
    moreover have "j \<noteq> s" using j(2) by auto
    ultimately have "j < s" by simp
    then have "j = s - 1 \<or> j < s - 1" by auto
    then show False
    proof
      assume "j = s - 1" then show False using gaps(2) j \<open>j < s\<close> by auto
    next
      assume "j < s - 1"
      then have "ix ! j < ix ! (s - 1)" "ix ! (s - 1) < ix ! s" using less[of j "s - 1"] less[of "s - 1" s] s by auto
      then show False using j(2) by simp
    qed
  qed
  have "ix ! s \<le> ix ! t" "ix ! t \<le> ix ! (k - 1)" using val[of "t - s"] t last by auto
  from run_interval[OF sub behind before this] last show ?thesis by simp
qed

section \<open>Short islands\<close>

definition short_inv :: "nat list \<Rightarrow> (nat \<Rightarrow> bool) \<Rightarrow> nat \<Rightarrow> nat list \<times> nat \<Rightarrow> bool" where
  "short_inv ix P k st \<longleftrightarrow>
     (case st of (retained, s) \<Rightarrow> s < k \<and> retained = filter P (take s ix) \<and>
        (\<forall>j. s < j \<longrightarrow> j < k \<longrightarrow> ix ! j = ix ! (j - 1) + 1) \<and> (s \<noteq> 0 \<longrightarrow> ix ! s \<noteq> ix ! (s - 1) + 1))"

lemma short_step_inv:
  assumes ix: "sorted_unique ix" and k: "0 < k" "k \<le> length ix" and bs: "0 < bs"
    and inv: "short_inv ix (long_enough bs mn rmn R (set ix)) k st"
  shows "(k < length ix \<and> ix ! k = ix ! (k - 1) + 1 \<and> short_inv ix (long_enough bs mn rmn R (set ix)) (k + 1)
           (short_step ix bs mn rmn R k st)) \<or>
    ((k < length ix \<longrightarrow> ix ! k \<noteq> ix ! (k - 1) + 1) \<and> short_step ix bs mn rmn R k st =
       (filter (long_enough bs mn rmn R (set ix)) (take k ix), k))"
proof -
  let ?P = "long_enough bs mn rmn R (set ix)"
  obtain retained s where st: "st = (retained, s)" by (cases st)
  have I: "s < k" "retained = filter ?P (take s ix)" "\<forall>j. s < j \<longrightarrow> j < k \<longrightarrow> ix ! j = ix ! (j - 1) + 1"
    "s \<noteq> 0 \<longrightarrow> ix ! s \<noteq> ix ! (s - 1) + 1" using inv by (simp_all add: short_inv_def st)
  show ?thesis
  proof (cases "k < length ix \<and> ix ! k = ix ! (k - 1) + 1")
    case True
    have "ix ! j = ix ! (j - 1) + 1" if "s < j" "j < k + 1" for j
      using that I(3) True by (cases "j = k") auto
    then have "short_inv ix ?P (k + 1) st" using I(1,2,4) by (simp add: short_inv_def st)
    with True show ?thesis by (simp add: short_step_def st)
  next
    case False
    then have gap: "k < length ix \<longrightarrow> ix ! k \<noteq> ix ! (k - 1) + 1" by blast
    note R = run_of_slice[OF ix I(1) k(2) I(3) gap I(4)]
    have run: "run_of (set ix) (ix ! t) = {ix ! s..ix ! (k - 1)}" if "s \<le> t" "t < k" for t
      using R[OF that] by blast
    have len: "ix ! (k - 1) = ix ! s + (k - 1 - s)" using R[of s] I(1) by simp
    then have card: "card {ix ! s..ix ! (k - 1)} = k - s" using I(1) by simp
    let ?long = "(if R \<inter> {ix ! s div bs..<ix ! (k - 1) div bs + 1} \<noteq> {} then rmn else mn) * bs \<le> k - s"
    have P: "?P (ix ! t) \<longleftrightarrow> ?long" if "s \<le> t" "t < k" for t
      using run_blocks[OF bs, of "ix ! s" "ix ! (k - 1)" R] len
      unfolding long_enough_def run[OF that] card by simp
    have "\<forall>x \<in> set (slice s k ix). ?P x \<longleftrightarrow> ?long"
    proof
      fix x assume "x \<in> set (slice s k ix)"
      then obtain d where d: "d < k - s" "x = ix ! (s + d)"
        using k(2) by (auto simp: in_set_conv_nth slice_nth)
      then show "?P x \<longleftrightarrow> ?long" using P[of "s + d"] by simp
    qed
    then have "filter ?P (slice s k ix) = (if ?long then slice s k ix else [])"
      by (auto simp: filter_empty_conv filter_id_conv)
    moreover have "take k ix = take s ix @ slice s k ix"
      using I(1) by (metis le_add_diff_inverse less_imp_le_nat slice_def take_add)
    ultimately have "short_step ix bs mn rmn R k st = (filter ?P (take k ix), k)"
      using False I(2) by (auto simp: short_step_def st Let_def)
    with gap show ?thesis by blast
  qed
qed

lemma short_fold:
  assumes ix: "sorted_unique ix" "ix \<noteq> []" and bs: "0 < bs"
  shows "fst (fold (short_step ix bs mn rmn R) [1..<length ix + 1] ([], 0)) = filter (long_enough bs mn rmn R (set ix)) ix"
proof -
  let ?P = "long_enough bs mn rmn R (set ix)"
  have inv: "short_inv ix ?P k (fold (short_step ix bs mn rmn R) [1..<k] ([], 0))" if "1 \<le> k" "k \<le> length ix" for k
    using that
  proof (induction k rule: nat_induct_at_least)
    case base
    then show ?case by (simp add: short_inv_def)
  next
    case (Suc k)
    then have len: "k < length ix" by simp
    let ?st = "fold (short_step ix bs mn rmn R) [1..<k] ([], 0)"
    have cur: "short_inv ix ?P k ?st" using Suc by simp
    have k: "0 < k" "k \<le> length ix" using Suc by simp_all
    have "short_inv ix ?P (k + 1) (short_step ix bs mn rmn R k ?st)"
    proof (rule disjE[OF short_step_inv[OF ix(1) k bs cur]])
      assume "(k < length ix \<longrightarrow> ix ! k \<noteq> ix ! (k - 1) + 1) \<and>
        short_step ix bs mn rmn R k ?st = (filter ?P (take k ix), k)"
      then show ?thesis using len by (simp add: short_inv_def)
    qed (use Suc len in simp_all)
    moreover have "fold (short_step ix bs mn rmn R) [1..<Suc k] ([], 0) = short_step ix bs mn rmn R k ?st"
      using Suc by simp
    ultimately show ?case by simp
  qed
  have n: "1 \<le> length ix" using ix(2) by (cases ix) auto
  from short_step_inv[OF ix(1) _ _ bs inv[OF n order_refl]] n
  have "short_step ix bs mn rmn R (length ix) (fold (short_step ix bs mn rmn R) [1..<length ix] ([], 0)) =
      (filter ?P ix, length ix)" using ix(2) by auto
  then show ?thesis using n by simp
qed

lemma long_run_one:
  assumes "sorted_unique ix" "t \<in> set ix" "\<exists>B. set ix = \<Union> ((\<lambda>b. {b * bs..<(b + 1) * bs}) ` B)" "0 < bs"
  shows "bs \<le> card (run_of (set ix) t)"
proof -
  obtain B where B: "set ix = \<Union> ((\<lambda>b. {b * bs..<(b + 1) * bs}) ` B)" using assms(3) by blast
  then obtain b where b: "b \<in> B" "b * bs \<le> t" "t < (b + 1) * bs" using assms(2) by auto
  have "{b * bs..<(b + 1) * bs} \<subseteq> set ix" using B b(1) by blast
  moreover have "{min x t..max x t} \<subseteq> {b * bs..<(b + 1) * bs}" if "x \<in> {b * bs..<(b + 1) * bs}" for x
    using that b(2,3) by (simp add: subset_eq min_def max_def)
  ultimately have sub: "{b * bs..<(b + 1) * bs} \<subseteq> run_of (set ix) t" unfolding run_of_def by blast
  have "run_of (set ix) t \<subseteq> set ix"
  proof
    fix x assume "x \<in> run_of (set ix) t"
    then have "{min x t..max x t} \<subseteq> set ix" by (simp add: run_of_def)
    moreover have "x \<in> {min x t..max x t}" by simp
    ultimately show "x \<in> set ix" by blast
  qed
  then have "card {b * bs..<(b + 1) * bs} \<le> card (run_of (set ix) t)"
    using card_mono[OF _ sub] finite_subset by blast
  then show ?thesis by simp
qed

section \<open>What the selection repairs\<close>

definition picked :: "repair_selector \<Rightarrow> reuse_plan \<Rightarrow> reuse_candidate \<Rightarrow> bool" where
  "picked selector plan c \<longleftrightarrow> pc_requires_repair c \<and>
     (case pp_counterfactual_reuse_block_index plan of
        Some i \<Rightarrow> int (pc_target_block_index c) \<noteq> i
      | None \<Rightarrow> (case selector of
          FullBlockRepair \<Rightarrow> True
        | EditProximityRepair radius \<Rightarrow>
            (case pc_nearest_changed_block_distance c of None \<Rightarrow> True | Some d \<Rightarrow> d \<le> radius)
        | MLPRepair should_repair \<Rightarrow> mlp_repair (should_repair (pc_selector_features c)) = Inr True))"

text \<open>The candidates that have a block, resolved.\<close>

definition allocated :: "int list \<Rightarrow> reuse_candidate list \<Rightarrow> reuse_candidate list" where
  "allocated blocks cs = filter (\<lambda>c. pc_target_block_index c < length blocks) cs"

definition resolved_at :: "int list \<Rightarrow> reuse_candidate \<Rightarrow> resolved_candidate" where
  "resolved_at blocks c = resolve_candidate (blocks ! pc_target_block_index c) c"

lemma resolved_at_simps [simp]:
  "rc_target_block_index (resolved_at blocks c) = pc_target_block_index c"
  "rc_target_block_id (resolved_at blocks c) = blocks ! pc_target_block_index c"
  "rc_source_block_id (resolved_at blocks c) = pc_source_block_id c"
  "rc_requires_repair (resolved_at blocks c) = pc_requires_repair c"
  "rc_nearest_changed_block_distance (resolved_at blocks c) = pc_nearest_changed_block_distance c"
  "rc_selector_features (resolved_at blocks c) = pc_selector_features c"
  by (simp_all add: resolved_at_def resolve_candidate_def)

lemma resolve_loop_ok:
  "resolve_loop allow blocks cs = Inr rs \<Longrightarrow> rs = map (resolved_at blocks) (allocated blocks cs)"
  by (induction cs arbitrary: rs) (auto simp: allocated_def resolved_at_def split: if_splits)

lemma resolve_loop_total:
  "allow \<or> (\<forall>c \<in> set cs. pc_target_block_index c < length blocks) \<Longrightarrow>
    resolve_loop allow blocks cs = Inr (map (resolved_at blocks) (allocated blocks cs))"
  by (induction cs) (auto simp: allocated_def resolved_at_def)

lemma mlp_selected_ok:
  "mlp_selected m (map (resolved_at blocks) cs) = Inr out \<Longrightarrow>
    out = map (resolved_at blocks) (filter (\<lambda>c. pc_requires_repair c \<and> mlp_repair (m (pc_selector_features c)) = Inr True) cs)"
proof (induction cs arbitrary: out)
  case (Cons c cs)
  show ?case
  proof (cases "pc_requires_repair c")
    case True
    with Cons.prems obtain b rest where "mlp_repair (m (pc_selector_features c)) = Inr b"
      "mlp_selected m (map (resolved_at blocks) cs) = Inr rest" "out = (if b then resolved_at blocks c # rest else rest)"
      by auto
    with Cons.IH[of rest] True show ?thesis by simp
  qed (use Cons in simp)
qed simp

lemma full_repairs:
  "build_full_block_repair_instructions (map (resolved_at blocks) cs) bs = Inr repairs \<longleftrightarrow>
    1 \<le> bs \<and> repairs = map (full_block_repair bs) (map (resolved_at blocks) (filter pc_requires_repair cs))"
  by (auto simp: build_full_block_repair_instructions_def filter_map comp_def)

lemma selection_ok:
  assumes "select_for_plan selector plan (map (resolved_at blocks) cs) = Inr repairs"
  shows "repairs = map (full_block_repair (pp_block_size plan)) (map (resolved_at blocks) (filter (picked selector plan) cs))"
proof (cases "pp_counterfactual_reuse_block_index plan")
  case (Some i)
  then have "build_full_block_repair_instructions
      (filter (\<lambda>c. int (rc_target_block_index c) \<noteq> i) (map (resolved_at blocks) cs)) (pp_block_size plan) = Inr repairs"
    using assms by (simp add: select_for_plan_def build_counterfactual_repair_instructions_def)
  then have "build_full_block_repair_instructions
      (map (resolved_at blocks) (filter (\<lambda>c. int (pc_target_block_index c) \<noteq> i) cs)) (pp_block_size plan) = Inr repairs"
    by (simp add: filter_map comp_def)
  moreover have "picked selector plan = (\<lambda>c. int (pc_target_block_index c) \<noteq> i \<and> pc_requires_repair c)"
    using Some by (auto simp: picked_def fun_eq_iff)
  ultimately show ?thesis by (simp add: full_repairs)
next
  case None
  have sel: "select_repairs selector (map (resolved_at blocks) cs) (pp_block_size plan) = Inr repairs"
    using assms None by (simp add: select_for_plan_def)
  show ?thesis
  proof (cases selector)
    case FullBlockRepair
    have "picked FullBlockRepair plan = pc_requires_repair" using None by (simp add: picked_def fun_eq_iff)
    then show ?thesis using sel[unfolded FullBlockRepair select_repairs.simps full_repairs] FullBlockRepair by simp
  next
    case (EditProximityRepair r)
    have f: "filter (near_edit r) (map (resolved_at blocks) cs) = map (resolved_at blocks)
        (filter (\<lambda>c. near_edit r (resolved_at blocks c)) cs)" by (simp add: filter_map comp_def)
    have "filter pc_requires_repair (filter (\<lambda>c. near_edit r (resolved_at blocks c)) cs) = filter (picked selector plan) cs"
      using None EditProximityRepair by (auto simp: picked_def near_edit_def intro: filter_cong)
    then show ?thesis using sel[unfolded EditProximityRepair select_repairs.simps f full_repairs] by simp
  next
    case (MLPRepair m)
    then obtain out where out: "mlp_selected m (map (resolved_at blocks) cs) = Inr out"
      "build_full_block_repair_instructions out (pp_block_size plan) = Inr repairs" using sel by auto
    have "filter pc_requires_repair (filter (\<lambda>c. pc_requires_repair c \<and> mlp_repair (m (pc_selector_features c)) = Inr True) cs) =
        filter (picked selector plan) cs"
      using None MLPRepair by (auto simp: picked_def intro: filter_cong)
    then show ?thesis using out(2)[unfolded mlp_selected_ok[OF out(1)] full_repairs] by simp
  qed
qed

section \<open>The reused tokens\<close>

lemma repair_tokens_whole:
  assumes "set (map rc_target_block_index chosen) \<subseteq> set targets"
  shows "repair_tokens_of bs targets (map (full_block_repair bs) chosen) =
    Inr (\<Union> ((\<lambda>b. {b * bs..<b * bs + bs}) ` rc_target_block_index ` set chosen))"
  using assms by (induction chosen) (auto simp: full_block_repair_def Let_def list_all_iff)

lemma token_block:
  fixes bs :: nat
  assumes "0 < bs"
  shows "t \<in> {b * bs..<b * bs + bs} \<longleftrightarrow> t div bs = b"
proof
  assume "t \<in> {b * bs..<b * bs + bs}"
  then show "t div bs = b" using assms by (intro div_nat_eqI) (auto simp: algebra_simps)
next
  assume "t div bs = b"
  then show "t \<in> {b * bs..<b * bs + bs}" using assms div_mult_mod_eq[of t bs] mod_less_divisor[OF assms, of t]
    by (auto simp: dest: sym)
qed

lemma blocks_tokens:
  fixes bs :: nat
  assumes "0 < bs"
  shows "\<Union> ((\<lambda>b. {b * bs..<b * bs + bs}) ` B) = {t. t div bs \<in> B}"
  using token_block[OF assms] by auto

text \<open>The tokens of the allocated candidates that are not repaired.\<close>

definition reusable_tokens :: "repair_selector \<Rightarrow> reuse_plan \<Rightarrow> int list \<Rightarrow> nat set" where
  "reusable_tokens selector plan blocks =
     {t. \<exists>c \<in> set (pp_candidates plan). pc_target_block_index c = t div pp_block_size plan \<and>
        pc_target_block_index c < length blocks \<and> \<not> picked selector plan c}"

lemma finite_block_tokens:
  fixes bs :: nat
  assumes "0 < bs" "finite B"
  shows "finite {t. t div bs \<in> B}"
  using assms(2) unfolding blocks_tokens[OF assms(1), symmetric] by auto

lemma reused_tokens_ok:
  assumes bs: "1 \<le> bs" and dist: "distinct (map pc_target_block_index cs)"
  shows "build_reused_token_indices (build_partial_reuse_copy_instructions (map (resolved_at blocks) cs))
      (map (full_block_repair bs) (map (resolved_at blocks) (filter P cs))) bs =
    Inr (sorted_list_of_set {t. \<exists>c \<in> set cs. pc_target_block_index c = t div bs \<and> \<not> P c})"
proof -
  let ?targets = "map pc_target_block_index cs"
  have t: "map ci_target_block_index (build_partial_reuse_copy_instructions (map (resolved_at blocks) cs)) = ?targets"
    by (simp add: build_partial_reuse_copy_instructions_def copy_of_def comp_def)
  have r: "repair_tokens_of bs ?targets (map (full_block_repair bs) (map (resolved_at blocks) (filter P cs))) =
      Inr {t. t div bs \<in> pc_target_block_index ` {c \<in> set cs. P c}}"
  proof -
    let ?ch = "map (resolved_at blocks) (filter P cs)"
    have im: "rc_target_block_index ` set ?ch = pc_target_block_index ` {c \<in> set cs. P c}"
      by (simp add: image_image)
    have "set (map rc_target_block_index ?ch) \<subseteq> set ?targets" by auto
    from repair_tokens_whole[OF this, of bs] show ?thesis unfolding im using bs by (simp only: blocks_tokens)
  qed
  have c: "\<Union> ((\<lambda>b. set [b * bs..<(b + 1) * bs]) ` set ?targets) = {t. t div bs \<in> set ?targets}"
    using blocks_tokens[of bs "set ?targets"] bs by (simp add: add.commute)
  have diff: "{t. t div bs \<in> set ?targets} - {t. t div bs \<in> pc_target_block_index ` {c \<in> set cs. P c}} =
      {t. \<exists>c \<in> set cs. pc_target_block_index c = t div bs \<and> \<not> P c}"
  proof -
    have inj: "c = d" if "c \<in> set cs" "d \<in> set cs" "pc_target_block_index c = pc_target_block_index d" for c d
      using dist that by (simp add: distinct_map inj_on_def)
    show ?thesis
    proof (rule set_eqI, rule iffI)
      fix t assume "t \<in> {t. t div bs \<in> set ?targets} - {t. t div bs \<in> pc_target_block_index ` {c \<in> set cs. P c}}"
      then obtain c where c: "c \<in> set cs" "t div bs = pc_target_block_index c" "t div bs \<notin> pc_target_block_index ` {c \<in> set cs. P c}"
        by auto
      then have "\<not> P c" by blast
      with c show "t \<in> {t. \<exists>c \<in> set cs. pc_target_block_index c = t div bs \<and> \<not> P c}" by auto
    next
      fix t assume "t \<in> {t. \<exists>c \<in> set cs. pc_target_block_index c = t div bs \<and> \<not> P c}"
      then obtain c where c: "c \<in> set cs" "pc_target_block_index c = t div bs" "\<not> P c" by auto
      have "t div bs \<notin> pc_target_block_index ` {c \<in> set cs. P c}"
      proof
        assume "t div bs \<in> pc_target_block_index ` {c \<in> set cs. P c}"
        then obtain d where "d \<in> set cs" "P d" "pc_target_block_index d = t div bs" by auto
        with inj[of c d] c show False by simp
      qed
      moreover have "t div bs \<in> set ?targets" using c(1) c(2)[symmetric] by simp
      ultimately show "t \<in> {t. t div bs \<in> set ?targets} - {t. t div bs \<in> pc_target_block_index ` {c \<in> set cs. P c}}" by simp
    qed
  qed
  have n: "(1 \<le> bs) = True" "(length ?targets = card (set ?targets)) = True"
    using bs eqTrueI[OF sym[OF distinct_card[OF dist]]] by blast+
  show ?thesis
    unfolding build_reused_token_indices_def t Let_def r c n check_res_True bind_res.simps diff by (rule refl)
qed

lemma filter_short_whole:
  assumes bs: "1 \<le> bs" and mins: "1 \<le> mn" "1 \<le> (case ro of None \<Rightarrow> mn | Some m \<Rightarrow> m)"
    and T: "finite T" "T = {t. t div bs \<in> B}"
  shows "filter_short_reuse_spans (sorted_list_of_set T) bs mn rb ro =
    Inr (filter (long_enough bs mn (case ro of None \<Rightarrow> mn | Some m \<Rightarrow> m) (set rb) T) (sorted_list_of_set T))"
proof -
  define ix where "ix = sorted_list_of_set T"
  define rmn where "rmn = (case ro of None \<Rightarrow> mn | Some m \<Rightarrow> m)"
  have ix: "sorted_unique ix" "set ix = T" using T(1) by (simp_all add: ix_def)
  have B: "\<exists>B. set ix = \<Union> ((\<lambda>b. {b * bs..<(b + 1) * bs}) ` B)"
    using blocks_tokens[of bs B] bs T(2) ix(2) by (intro exI[of _ B]) (simp add: add.commute)
  have run: "filter_short_reuse_spans ix bs mn rb ro =
      (if ix = [] \<or> mn = 1 \<and> rmn = 1 then Inr ix
       else Inr (fst (fold (short_step ix bs mn rmn (set rb)) [1..<length ix + 1] ([], 0))))"
    using bs mins ix(1) by (simp add: filter_short_reuse_spans_def rmn_def Let_def)
  have "filter_short_reuse_spans ix bs mn rb ro = Inr (filter (long_enough bs mn rmn (set rb) (set ix)) ix)"
  proof (cases "ix \<noteq> [] \<and> mn = 1 \<and> rmn = 1")
    case True
    have "\<forall>t \<in> set ix. long_enough bs mn rmn (set rb) (set ix) t"
      using long_run_one[OF ix(1) _ B] bs True by (simp add: long_enough_def)
    then have "filter (long_enough bs mn rmn (set rb) (set ix)) ix = ix" by (simp add: filter_id_conv)
    with True run show ?thesis by simp
  next
    case False
    then show ?thesis using run short_fold[OF ix(1), of bs mn rmn "set rb"] bs by auto
  qed
  then show ?thesis by (simp add: ix_def rmn_def ix(2)[unfolded ix_def])
qed

text \<open>The whole preparation, when it succeeds and when it cannot fail.\<close>

definition repacked_targets :: "reuse_plan \<Rightarrow> int list \<Rightarrow> nat set" where
  "repacked_targets plan blocks =
     {pc_target_block_index c | c. c \<in> set (pp_candidates plan) \<and> pc_target_block_index c < length blocks \<and>
        pc_source_block_offset c \<noteq> 0}"

definition kept_tokens :: "repair_selector \<Rightarrow> nat \<Rightarrow> nat option \<Rightarrow> reuse_plan \<Rightarrow> int list \<Rightarrow> nat list" where
  "kept_tokens selector mn ro plan blocks =
     (let T = reusable_tokens selector plan blocks
      in filter (long_enough (pp_block_size plan) mn (case ro of None \<Rightarrow> mn | Some m \<Rightarrow> m) (repacked_targets plan blocks) T)
           (sorted_list_of_set T))"

definition kept_copies :: "reuse_plan \<Rightarrow> int list \<Rightarrow> nat list \<Rightarrow> copy_instruction list" where
  "kept_copies plan blocks kept =
     map (copy_of \<circ> resolved_at blocks)
       (filter (\<lambda>c. \<exists>t \<in> set kept. t div pp_block_size plan = pc_target_block_index c) (allocated blocks (pp_candidates plan)))"

lemma reusable_tokens_blocks:
  "reusable_tokens selector plan blocks =
    {t. t div pp_block_size plan \<in> pc_target_block_index ` {c \<in> set (allocated blocks (pp_candidates plan)). \<not> picked selector plan c}}"
  by (auto simp: reusable_tokens_def allocated_def image_iff)

lemma prepare_core:
  fixes plan :: reuse_plan and blocks :: "int list" and selector :: repair_selector
  defines "bs \<equiv> pp_block_size plan" and "al \<equiv> allocated blocks (pp_candidates plan)"
  assumes bs: "1 \<le> bs" and mins: "1 \<le> mn" "1 \<le> (case ro of None \<Rightarrow> mn | Some m \<Rightarrow> m)"
    and dist: "distinct (map pc_target_block_index al)"
  defines "copies \<equiv> build_partial_reuse_copy_instructions (map (resolved_at blocks) al)"
    and "repairs \<equiv> map (full_block_repair bs) (map (resolved_at blocks) (filter (picked selector plan) al))"
  shows "build_reused_token_indices copies repairs bs = Inr (sorted_list_of_set (reusable_tokens selector plan blocks))"
    and "filter_short_reuse_spans (sorted_list_of_set (reusable_tokens selector plan blocks)) bs mn
        (map ci_target_block_index (filter ci_requires_repacking copies)) ro = Inr (kept_tokens selector mn ro plan blocks)"
    and "filter_partial_reuse_copy_instructions copies kept bs = Inr (kept_copies plan blocks kept)"
proof -
  have T: "reusable_tokens selector plan blocks =
      {t. \<exists>c \<in> set al. pc_target_block_index c = t div bs \<and> \<not> picked selector plan c}"
    unfolding reusable_tokens_def allocated_def al_def bs_def by auto
  show "build_reused_token_indices copies repairs bs = Inr (sorted_list_of_set (reusable_tokens selector plan blocks))"
    unfolding T copies_def repairs_def by (rule reused_tokens_ok[OF bs dist])
  have fin: "finite (reusable_tokens selector plan blocks)"
    unfolding reusable_tokens_blocks using bs by (intro finite_block_tokens) (simp_all add: bs_def)
  have R: "set (map ci_target_block_index (filter ci_requires_repacking copies)) = repacked_targets plan blocks"
  proof -
    have "map ci_target_block_index (filter ci_requires_repacking copies) =
        map pc_target_block_index (filter (\<lambda>c. pc_source_block_offset c \<noteq> 0) al)"
      by (simp add: copies_def build_partial_reuse_copy_instructions_def copy_of_def resolved_at_def resolve_candidate_def
          ci_requires_repacking_def filter_map comp_def)
    then show ?thesis by (auto simp: repacked_targets_def al_def allocated_def)
  qed
  show "filter_short_reuse_spans (sorted_list_of_set (reusable_tokens selector plan blocks)) bs mn
        (map ci_target_block_index (filter ci_requires_repacking copies)) ro = Inr (kept_tokens selector mn ro plan blocks)"
    using filter_short_whole[OF bs mins fin reusable_tokens_blocks[of selector plan blocks, folded bs_def],
        of "map ci_target_block_index (filter ci_requires_repacking copies)"]
    unfolding R kept_tokens_def Let_def bs_def .
  show "filter_partial_reuse_copy_instructions copies kept bs = Inr (kept_copies plan blocks kept)"
    using bs by (auto simp: filter_partial_reuse_copy_instructions_def copies_def kept_copies_def bs_def al_def
        build_partial_reuse_copy_instructions_def filter_map comp_def copy_of_def image_iff eq_commute intro!: filter_cong)
qed

section \<open>The preparation as a whole\<close>

lemma mlp_selected_total:
  "\<forall>fs. \<exists>b. mlp_repair (m fs) = Inr b \<Longrightarrow> \<exists>out. mlp_selected m cs = Inr out"
proof (induction cs)
  case (Cons c cs)
  from Cons.prems obtain b where "mlp_repair (m (rc_selector_features c)) = Inr b" by blast
  with Cons show ?case by auto
qed simp

lemma select_total:
  assumes "pp_counterfactual_reuse_block_index plan = None" "1 \<le> pp_block_size plan"
    and "\<forall>m fs. selector = MLPRepair m \<longrightarrow> (\<exists>b. mlp_repair (m fs) = Inr b)"
  shows "\<exists>rp. select_for_plan selector plan cs = Inr rp"
proof (cases selector)
  case (MLPRepair m)
  then obtain out where "mlp_selected m cs = Inr out" using assms(3) mlp_selected_total[of m cs] by blast
  with assms MLPRepair show ?thesis
    by (simp add: select_for_plan_def build_full_block_repair_instructions_def)
qed (use assms in \<open>simp_all add: select_for_plan_def build_full_block_repair_instructions_def\<close>)

lemma block_range:
  fixes bs :: nat
  assumes "1 \<le> bs" "(native + bs - 1) div bs \<le> t div bs" "t div bs < len div bs"
  shows "native \<le> t \<and> t < len"
proof
  have "t < (t div bs + 1) * bs" using token_block[of bs t "t div bs"] assms(1) by simp
  also have "\<dots> \<le> len" using assms(1,3) by (metis Suc_eq_plus1 Suc_leI div_times_less_eq_dividend dual_order.trans mult_le_mono1)
  finally show "t < len" .
  have "(native + bs - 1) div bs * bs \<le> t"
    using assms(2) by (metis div_times_less_eq_dividend dual_order.trans mult_le_mono1)
  moreover have "native \<le> (native + bs - 1) div bs * bs"
  proof -
    have "(native + bs - 1) mod bs < bs" using assms(1) by simp
    then show ?thesis using div_mult_mod_eq[of "native + bs - 1" bs] assms(1) by linarith
  qed
  ultimately show "native \<le> t" by simp
qed


lemma prepare_resolved:
  assumes r: "resolve_loop (length blocks * pp_block_size plan < plen) blocks (pp_candidates plan) =
      Inr (map (resolved_at blocks) (allocated blocks (pp_candidates plan)))"
    and s: "select_for_plan selector plan (map (resolved_at blocks) (allocated blocks (pp_candidates plan))) = Inr repairs"
    and ok: "1 \<le> pp_block_size plan" "1 \<le> mn" "1 \<le> (case ro of None \<Rightarrow> mn | Some m \<Rightarrow> m)"
      "distinct (map pc_target_block_index (allocated blocks (pp_candidates plan)))"
  shows "prepare_reuse selector mn ro plan [blocks] plen =
    Inr (kept_copies plan blocks (kept_tokens selector mn ro plan blocks),
      map (full_block_repair (pp_block_size plan)) (map (resolved_at blocks)
        (filter (picked selector plan) (allocated blocks (pp_candidates plan)))),
      kept_tokens selector mn ro plan blocks)"
  using r s selection_ok[OF s] prepare_core(1,2)[where selector = selector, OF ok] prepare_core(3)[OF ok]
  by (simp add: prepare_reuse_def resolve_target_block_ids_def Let_def)

lemma prepare_success:
  assumes "prepare_reuse selector mn ro plan [blocks] plen = Inr out"
  shows "resolve_loop (length blocks * pp_block_size plan < plen) blocks (pp_candidates plan) =
      Inr (map (resolved_at blocks) (allocated blocks (pp_candidates plan)))"
    and "\<exists>repairs. select_for_plan selector plan (map (resolved_at blocks) (allocated blocks (pp_candidates plan))) = Inr repairs"
    and "1 \<le> pp_block_size plan" "1 \<le> mn" "1 \<le> (case ro of None \<Rightarrow> mn | Some m \<Rightarrow> m)"
    and "distinct (map pc_target_block_index (allocated blocks (pp_candidates plan)))"
proof -
  let ?al = "allocated blocks (pp_candidates plan)"
  obtain rs repairs reused kept where
    r: "resolve_loop (length blocks * pp_block_size plan < plen) blocks (pp_candidates plan) = Inr rs" and
    s: "select_for_plan selector plan rs = Inr repairs" and
    b: "build_reused_token_indices (build_partial_reuse_copy_instructions rs) repairs (pp_block_size plan) = Inr reused" and
    f: "filter_short_reuse_spans reused (pp_block_size plan) mn (map ci_target_block_index
         (filter ci_requires_repacking (build_partial_reuse_copy_instructions rs))) ro = Inr kept"
    using assms by (auto simp: prepare_reuse_def resolve_target_block_ids_def Let_def)
  note rs = resolve_loop_ok[OF r]
  show "resolve_loop (length blocks * pp_block_size plan < plen) blocks (pp_candidates plan) =
      Inr (map (resolved_at blocks) ?al)" using r rs by simp
  show "\<exists>repairs. select_for_plan selector plan (map (resolved_at blocks) ?al) = Inr repairs" using s rs by simp
  have t: "map ci_target_block_index (build_partial_reuse_copy_instructions rs) = map pc_target_block_index ?al"
    unfolding rs by (simp add: build_partial_reuse_copy_instructions_def copy_of_def comp_def)
  from b show "1 \<le> pp_block_size plan" by (auto simp: build_reused_token_indices_def)
  from b have "length (map pc_target_block_index ?al) = card (set (map pc_target_block_index ?al))"
    unfolding build_reused_token_indices_def t Let_def by auto
  then show "distinct (map pc_target_block_index ?al)" by (metis card_distinct)
  from f show "1 \<le> mn" "1 \<le> (case ro of None \<Rightarrow> mn | Some m \<Rightarrow> m)"
    by (auto simp: filter_short_reuse_spans_def Let_def min_def split: if_splits)
qed

lemma kept_tokens_set:
  assumes "1 \<le> pp_block_size plan"
  shows "set (kept_tokens selector mn ro plan blocks) =
    {t \<in> reusable_tokens selector plan blocks.
       long_enough (pp_block_size plan) mn (case ro of None \<Rightarrow> mn | Some m \<Rightarrow> m) (repacked_targets plan blocks)
         (reusable_tokens selector plan blocks) t}"
    and "sorted_unique (kept_tokens selector mn ro plan blocks)"
proof -
  have fin: "finite (reusable_tokens selector plan blocks)"
    unfolding reusable_tokens_blocks using assms by (intro finite_block_tokens) simp_all
  then show "set (kept_tokens selector mn ro plan blocks) =
    {t \<in> reusable_tokens selector plan blocks.
       long_enough (pp_block_size plan) mn (case ro of None \<Rightarrow> mn | Some m \<Rightarrow> m) (repacked_targets plan blocks)
         (reusable_tokens selector plan blocks) t}"
    by (auto simp: kept_tokens_def Let_def)
  show "sorted_unique (kept_tokens selector mn ro plan blocks)"
    by (simp add: kept_tokens_def Let_def sorted_unique_strict sorted_wrt_filter)
qed

text \<open>C11. Exactly what is reused.  When the worker prepares a plan, the tokens it leaves out of
  computation are those of the plan's allocated target blocks that the repair selection did not
  pick and that lie in a long enough run of such tokens; each of these blocks is copied from the
  candidate's source, every picked block is recomputed as a whole, and no token is both.\<close>

theorem prepare_reuse_exact:
  assumes "prepare_reuse selector mn ro plan [blocks] plen = Inr (copies, repairs, kept)"
  shows "sorted_unique kept \<and>
    set kept = {t \<in> reusable_tokens selector plan blocks.
      long_enough (pp_block_size plan) mn (case ro of None \<Rightarrow> mn | Some m \<Rightarrow> m) (repacked_targets plan blocks)
        (reusable_tokens selector plan blocks) t} \<and>
    (\<forall>t \<in> set kept. \<exists>c \<in> set (pp_candidates plan). pc_target_block_index c = t div pp_block_size plan \<and>
      \<not> picked selector plan c \<and> copy_of (resolve_candidate (blocks ! pc_target_block_index c) c) \<in> set copies) \<and>
    (\<forall>i \<in> set copies. \<exists>t \<in> set kept. ci_target_block_index i = t div pp_block_size plan) \<and>
    map ri_target_block_index repairs =
      map pc_target_block_index (filter (picked selector plan) (allocated blocks (pp_candidates plan))) \<and>
    (\<forall>r \<in> set repairs. set (ri_target_token_indices r) = {t. t div pp_block_size plan = ri_target_block_index r} \<and>
      set (ri_target_token_indices r) \<inter> set kept = {})"
proof -
  let ?al = "allocated blocks (pp_candidates plan)" and ?bs = "pp_block_size plan"
  note ok = prepare_success[OF assms]
  obtain rp where s: "select_for_plan selector plan (map (resolved_at blocks) ?al) = Inr rp" using ok(2) by blast
  have out: "copies = kept_copies plan blocks (kept_tokens selector mn ro plan blocks)"
    "repairs = map (full_block_repair ?bs) (map (resolved_at blocks) (filter (picked selector plan) ?al))"
    "kept = kept_tokens selector mn ro plan blocks"
    using prepare_resolved[OF ok(1) s ok(3,4,5,6)] assms by simp_all
  note K = kept_tokens_set[OF ok(3), of selector mn ro blocks, folded out(3)]
  have copied: "\<exists>c \<in> set (pp_candidates plan). pc_target_block_index c = t div ?bs \<and> \<not> picked selector plan c \<and>
      copy_of (resolve_candidate (blocks ! pc_target_block_index c) c) \<in> set copies" if "t \<in> set kept" for t
  proof -
    from that K(1) obtain c where c: "c \<in> set (pp_candidates plan)" "pc_target_block_index c = t div ?bs"
      "pc_target_block_index c < length blocks" "\<not> picked selector plan c"
      unfolding reusable_tokens_def by blast
    have "copy_of (resolved_at blocks c) \<in> set copies"
      using c that out(3) by (auto simp: out(1) kept_copies_def allocated_def intro!: imageI exI[of _ t])
    with c show ?thesis unfolding resolved_at_def by blast
  qed
  have used: "\<exists>t \<in> set kept. ci_target_block_index i = t div ?bs" if "i \<in> set copies" for i
    using that by (auto 0 3 simp: out(1) out(3)[symmetric] kept_copies_def copy_of_def dest: sym)
  have fix_tokens: "set (ri_target_token_indices r) = {t. t div ?bs = ri_target_block_index r} \<and>
      set (ri_target_token_indices r) \<inter> set kept = {}" if "r \<in> set repairs" for r
  proof -
    from that obtain c where c: "c \<in> set ?al" "picked selector plan c"
      "r = full_block_repair ?bs (resolved_at blocks c)" unfolding out(2) set_map set_filter by blast
    have r: "ri_target_block_index r = pc_target_block_index c" by (simp add: c(3) full_block_repair_def Let_def)
    have "set (ri_target_token_indices r) = {pc_target_block_index c * ?bs..<pc_target_block_index c * ?bs + ?bs}"
      by (simp add: c(3) full_block_repair_def Let_def)
    then have r2: "set (ri_target_token_indices r) = {t. t div ?bs = pc_target_block_index c}"
      using blocks_tokens[of ?bs "{pc_target_block_index c}"] ok(3) by simp
    have "t \<notin> set kept" if "t div ?bs = pc_target_block_index c" for t
    proof
      assume "t \<in> set kept"
      then obtain d where "d \<in> set ?al" "pc_target_block_index d = t div ?bs" "\<not> picked selector plan d"
        using K(1) unfolding reusable_tokens_def allocated_def by auto
      moreover from this(1,2) c(1) that ok(6) have "d = c" by (simp add: distinct_map inj_on_def)
      ultimately show False using c(2) by simp
    qed
    then show ?thesis unfolding r r2 by blast
  qed
  have "map ri_target_block_index repairs = map pc_target_block_index (filter (picked selector plan) ?al)"
    by (simp add: out(2) full_block_repair_def Let_def comp_def)
  with K copied used fix_tokens show ?thesis by blast
qed

text \<open>Plans of the locator: their targets are distinct full blocks of the prompt beyond the native
  hit, also after the candidates whose sources could not be pinned are dropped.\<close>

definition targets_ok :: "nat \<Rightarrow> nat \<Rightarrow> reuse_plan \<Rightarrow> bool" where
  "targets_ok native len plan \<longleftrightarrow> 1 \<le> pp_block_size plan \<and> distinct (map pc_target_block_index (pp_candidates plan)) \<and>
     (\<forall>c \<in> set (pp_candidates plan). (native + pp_block_size plan - 1) div pp_block_size plan \<le> pc_target_block_index c \<and>
        pc_target_block_index c < len div pp_block_size plan)"

lemma located_targets:
  assumes "loc_reach h loc" "locate h pool loc req native = Some (Inr (Some plan, req'))" "prompt_token_ids req = Some prompt"
  shows "targets_ok native (length prompt) plan" and "pp_counterfactual_reuse_block_index plan = cs_counterfactual_index req"
proof -
  let ?bs = "pp_block_size plan"
  have inv: "locator_inv loc" by (rule loc_reach_locator_inv[OF assms(1)])
  have ok: "plan_ok pool loc req native plan"
    using locate_located[OF inv, of pool req native h] assms(2) by (auto simp: located_ok_def)
  then show "pp_counterfactual_reuse_block_index plan = cs_counterfactual_index req" by (simp add: plan_ok_def)
  have bs: "1 \<le> ?bs" "?bs = loc_block_size loc" using ok inv by (auto simp: plan_ok_def locator_inv_def)
  show "targets_ok native (length prompt) plan"
  proof (cases "pp_candidates plan = []")
    case False
    then obtain src where ex: "exact_candidates pool loc src prompt native (pp_candidates plan)"
      using ok assms(3) by (auto simp: plan_ok_def)
    then have "distinct (map pc_target_block_index (pp_candidates plan))"
      unfolding exact_candidates_def by (metis distinct_filter distinct_upt)
    moreover have "(native + ?bs - 1) div ?bs \<le> pc_target_block_index c \<and> pc_target_block_index c < length prompt div ?bs"
      if "c \<in> set (pp_candidates plan)" for c
    proof -
      have "pc_target_block_index c \<in> set (map pc_target_block_index (pp_candidates plan))" using that by simp
      then have "pc_target_block_index c \<in> set [(native + ?bs - 1) div ?bs..<length prompt div ?bs]"
        using ex unfolding exact_candidates_def bs(2) by (metis filter_is_subset subsetD)
      then show ?thesis by simp
    qed
    ultimately show ?thesis using bs(1) by (simp add: targets_ok_def)
  qed (use bs(1) in \<open>simp add: targets_ok_def\<close>)
qed

lemma retained_targets:
  assumes "targets_ok native len plan" "for_retained_source_ids ids plan = Some plan'"
  shows "targets_ok native len plan'"
    and "pp_counterfactual_reuse_block_index plan' = pp_counterfactual_reuse_block_index plan"
  using assms by (auto simp: for_retained_source_ids_def targets_ok_def Let_def distinct_map_filter split: if_splits)

lemma targets_resolve:
  assumes "targets_ok native len plan"
  shows "resolve_loop (length blocks * pp_block_size plan < len) blocks (pp_candidates plan) =
    Inr (map (resolved_at blocks) (allocated blocks (pp_candidates plan)))"
proof (rule resolve_loop_total, rule disjCI)
  let ?bs = "pp_block_size plan"
  have bs: "0 < ?bs" using assms by (simp add: targets_ok_def)
  assume "\<not> (\<forall>c \<in> set (pp_candidates plan). pc_target_block_index c < length blocks)"
  then obtain c where "c \<in> set (pp_candidates plan)" "length blocks \<le> pc_target_block_index c" by auto
  then have "length blocks < len div ?bs" using assms unfolding targets_ok_def by fastforce
  then show "length blocks * ?bs < len" using bs
    by (metis div_le_mono div_mult_self_is_m leD linorder_not_le)
qed

lemma prepare_located:
  assumes "loc_reach h loc" "locate h pool loc req native = Some (Inr (Some plan, req'))"
    and "for_retained_source_ids ids plan = Some plan'"
    and "prompt_token_ids req = Some prompt" "cs_counterfactual_index req = None"
    and "\<forall>m fs. selector = MLPRepair m \<longrightarrow> (\<exists>b. mlp_repair (m fs) = Inr b)"
    and "1 \<le> mn" "1 \<le> (case ro of None \<Rightarrow> mn | Some m \<Rightarrow> m)"
  shows "\<exists>copies repairs. prepare_reuse selector mn ro plan' [blocks] (length prompt) =
    Inr (copies, repairs, kept_tokens selector mn ro plan' blocks)"
proof -
  let ?al = "allocated blocks (pp_candidates plan')" and ?bs = "pp_block_size plan'"
  note L = located_targets[OF assms(1,2,4)]
  note T = retained_targets[OF L(1) assms(3)]
  have bs: "1 \<le> ?bs" using T(1) by (simp add: targets_ok_def)
  have dal: "distinct (map pc_target_block_index ?al)"
    using T(1) by (simp add: targets_ok_def allocated_def distinct_map_filter)
  have "pp_counterfactual_reuse_block_index plan' = None" using T(2) L(2) assms(5) by simp
  then obtain rp where s: "select_for_plan selector plan' (map (resolved_at blocks) ?al) = Inr rp"
    using select_total[OF _ bs assms(6)] by blast
  show ?thesis using prepare_resolved[OF targets_resolve[OF T(1)] s bs assms(7,8) dal] by blast
qed

lemma kept_in_prompt:
  assumes "targets_ok native len plan" "t \<in> set (kept_tokens selector mn ro plan blocks)"
  shows "native \<le> t \<and> t < len"
proof -
  have bs: "1 \<le> pp_block_size plan" using assms(1) by (simp add: targets_ok_def)
  from assms(2) kept_tokens_set(1)[OF bs] obtain c where
    c: "c \<in> set (pp_candidates plan)" "pc_target_block_index c = t div pp_block_size plan"
    unfolding reusable_tokens_def by blast
  then show ?thesis using block_range[OF bs, of native t len] assms(1) unfolding targets_ok_def by fastforce
qed

text \<open>C12. Every plan of the locator can be prepared.  When \<open>locate\<close> returns a plan for a request that
  asks for no counterfactual block, and the candidates with pinned sources are passed on, the
  worker prepares them without error whatever blocks the request got (for a selector whose model
  raises nothing but the errors it is guarded against), and reuses prompt tokens beyond the
  native hit only.\<close>

theorem locate_then_prepare:
  assumes "loc_reach h loc" "locate h pool loc req native = Some (Inr (Some plan, req'))"
    and "for_retained_source_ids ids plan = Some plan'"
    and "prompt_token_ids req = Some prompt" "cs_counterfactual_index req = None"
    and "\<forall>m fs. selector = MLPRepair m \<longrightarrow> (\<exists>b. mlp_repair (m fs) = Inr b)"
    and "1 \<le> mn" "1 \<le> (case ro of None \<Rightarrow> mn | Some m \<Rightarrow> m)"
  shows "\<exists>copies repairs kept. prepare_reuse selector mn ro plan' [blocks] (length prompt) = Inr (copies, repairs, kept) \<and>
    (\<forall>t \<in> set kept. native \<le> t \<and> t < length prompt)"
proof -
  obtain copies repairs where "prepare_reuse selector mn ro plan' [blocks] (length prompt) =
      Inr (copies, repairs, kept_tokens selector mn ro plan' blocks)"
    using prepare_located[OF assms] by blast
  moreover note kept_in_prompt[OF retained_targets(1)[OF located_targets(1)[OF assms(1,2,4)] assms(3)]]
  ultimately show ?thesis by blast
qed

text \<open>C13. A counterfactual request can bring the worker down.  If the block that a request names for
  its counterfactual has no candidate with pinned sources and an allocated target block (it is
  no full prompt block, it has no match, or chunked prefill allocates it in a later step), while
  another block has, then preparing the plan raises \<open>ValueError\<close>.\<close>

theorem counterfactual_raises:
  assumes "loc_reach h loc" "locate h pool loc req native = Some (Inr (Some plan, req'))"
    and "for_retained_source_ids ids plan = Some plan'"
    and "prompt_token_ids req = Some prompt" "cs_counterfactual_index req = Some i" "0 \<le> i"
    and "\<forall>c \<in> set (pp_candidates plan'). int (pc_target_block_index c) = i \<longrightarrow> int (length blocks) \<le> i"
  shows "prepare_reuse selector mn ro plan' [blocks] (length prompt) =
    Inl (ValueError ''counterfactual target must identify exactly one resolved candidate'')"
proof -
  note L = located_targets[OF assms(1,2,4)]
  note T = retained_targets[OF L(1) assms(3)]
  have cf: "pp_counterfactual_reuse_block_index plan' = Some i" using T(2) L(2) assms(5) by simp
  have "filter (\<lambda>c. int (rc_target_block_index c) = i) (map (resolved_at blocks) (allocated blocks (pp_candidates plan'))) = []"
    using assms(7) by (auto simp: filter_empty_conv allocated_def)
  then show ?thesis using targets_resolve[OF T(1), of blocks] cf assms(6)
    by (simp add: prepare_reuse_def resolve_target_block_ids_def select_for_plan_def
        build_counterfactual_repair_instructions_def Let_def)
qed

text \<open>A plan of two blocks of two tokens: the first touches the edit and is repaired.\<close>

definition demo_candidate :: "nat \<Rightarrow> int option \<Rightarrow> reuse_candidate" where
  "demo_candidate t distance =
     \<lparr>pc_source_block_index = t, pc_target_block_index = t, pc_source_block_id = 5 + int t, pc_source_resident = True,
      pc_requires_repair = True, pc_block_displacement = 0, pc_nearest_changed_block_distance = distance,
      pc_source_contextual_hash = None, pc_source_block_offset = 0,
      pc_source_block_ids = [], pc_selector_features = []\<rparr>"

definition demo_plan :: reuse_plan where
  "demo_plan =
     \<lparr>pp_transition_id = None, pp_source_request_id = ''a'', pp_target_request_id = ''b'', pp_block_size = 2,
      pp_native_cached_tokens = 0, pp_reason = ''exact_content'', pp_source_selection = ''explicit'',
      pp_counterfactual_reuse_block_index = None,
      pp_candidates = [demo_candidate 0 (Some 0), demo_candidate 1 (Some 1)]\<rparr>"

lemma demo_prepared:
  "prepare_reuse (EditProximityRepair 0) 1 None demo_plan [[10, 11]] 5 =
    Inr ([copy_of (resolve_candidate 11 (demo_candidate 1 (Some 1)))],
      [full_block_repair 2 (resolve_candidate 10 (demo_candidate 0 (Some 0)))], [2, 3])"
  by code_simp

lemma prepare_reuse_exact_witness:
  "map ri_target_block_index [full_block_repair 2 (resolve_candidate 10 (demo_candidate 0 (Some 0)))] =
    map pc_target_block_index (filter (picked (EditProximityRepair 0) demo_plan) (allocated [10, 11] (pp_candidates demo_plan)))"
  using prepare_reuse_exact[OF demo_prepared] by blast

text \<open>A second prompt for the indexed one, where block 1 matches, with or without a counterfactual.\<close>

lemma demo_window:
  assumes "source_match (demo_locator False) demo_source [7] w"
  shows "map sb_block_id (snd w) = [0]"
proof -
  have "fst w = 0"
  proof (rule ccontr)
    assume "fst w \<noteq> 0"
    then have "fst w = 1" using assms by (auto simp: source_match_def demo_locator_def demo_source_def)
    then show False using assms by (simp add: source_match_def demo_locator_def demo_source_def slice_def)
  qed
  then have "covers 1 demo_source 0 (snd w)" using assms by (simp add: source_match_def demo_locator_def)
  then show ?thesis by (auto simp: covers_def demo_source_def list_all2_Cons1)
qed

lemma demo_retained:
  "\<exists>plan req' plan'. locate hd demo_pool (demo_locator False)
      ((demo_request ''b'' [5, 7] (Some ''a''))\<lparr>cs_counterfactual_index := cf\<rparr>) 1 = Some (Inr (Some plan, req')) \<and>
    for_retained_source_ids {0} plan = Some plan' \<and> (\<exists>c. pp_candidates plan' = [c] \<and> pc_target_block_index c = 1) \<and>
    pp_block_size plan' = 1 \<and> pp_source_request_id plan = ''a''"
proof -
  let ?loc = "demo_locator False"
  obtain plan where p: "locate hd demo_pool ?loc ((demo_request ''b'' [5, 7] (Some ''a''))\<lparr>cs_counterfactual_index := cf\<rparr>) 1 =
      Some (Inr (Some plan, (demo_request ''b'' [5, 7] (Some ''a''))\<lparr>cs_counterfactual_index := cf\<rparr>))"
    "exact_candidates demo_pool ?loc demo_source [5, 7] 1 (pp_candidates plan)"
    using demo_located[of cf] by blast
  have toks: "target_tokens ?loc [5, 7] 1 = [7]" by (simp add: target_tokens_def demo_locator_def slice_def)
  have "\<exists>w. source_match ?loc demo_source (target_tokens ?loc [5, 7] 1) w" using demo_match[of False] toks by auto
  moreover have "[(1 + loc_block_size ?loc - 1) div loc_block_size ?loc..<length [5, 7 :: int] div loc_block_size ?loc] = [1]"
    by (simp add: demo_locator_def upt_rec)
  ultimately have idx: "map pc_target_block_index (pp_candidates plan) = [1]"
    using p(2) unfolding exact_candidates_def by simp
  then obtain c where c: "pp_candidates plan = [c]" "pc_target_block_index c = 1" by auto
  obtain w where w: "source_match ?loc demo_source (target_tokens ?loc [5, 7] (pc_target_block_index c)) w"
      "physical_source_block_ids c = map sb_block_id (snd w)"
    using p(2) c(1) unfolding exact_candidates_def best_match_def stands_for_def by auto
  then have "physical_source_block_ids c = [0]" using demo_window[of w] unfolding c(2) toks by simp
  moreover have "located_ok demo_pool ?loc ((demo_request ''b'' [5, 7] (Some ''a''))\<lparr>cs_counterfactual_index := cf\<rparr>) 1
      (locate hd demo_pool ?loc ((demo_request ''b'' [5, 7] (Some ''a''))\<lparr>cs_counterfactual_index := cf\<rparr>) 1)"
    by (rule locate_located[OF loc_reach_locator_inv[OF demo_reach[of hd]]])
  then have "pp_block_size plan = 1" "pp_source_request_id plan = ''a''"
    using p(1) by (auto simp: located_ok_def plan_ok_def demo_locator_def demo_request_def)
  ultimately show ?thesis using p(1) c by (auto simp: for_retained_source_ids_def)
qed

lemma locate_then_prepare_witness:
  "\<exists>plan req' plan' copies repairs kept.
    locate hd demo_pool (demo_locator False) (demo_request ''b'' [5, 7] (Some ''a'')) 1 = Some (Inr (Some plan, req')) \<and>
    for_retained_source_ids {0} plan = Some plan' \<and>
    prepare_reuse FullBlockRepair 1 None plan' [[3, 4]] 2 = Inr (copies, repairs, kept)"
proof -
  have req: "(demo_request ''b'' [5, 7] (Some ''a''))\<lparr>cs_counterfactual_index := None\<rparr> = demo_request ''b'' [5, 7] (Some ''a'')"
    by (simp add: demo_request_def)
  obtain plan req' plan' where p: "locate hd demo_pool (demo_locator False) (demo_request ''b'' [5, 7] (Some ''a'')) 1 =
      Some (Inr (Some plan, req'))" "for_retained_source_ids {0} plan = Some plan'"
    using demo_retained[of None] unfolding req by blast
  have len: "length [5, 7 :: int] = 2" by simp
  obtain copies repairs kept where "prepare_reuse FullBlockRepair 1 None plan' [[3, 4]] (length [5, 7 :: int]) =
      Inr (copies, repairs, kept)"
    using locate_then_prepare[OF demo_reach p, of "[5, 7]" FullBlockRepair 1 None "[3, 4]"]
    by (auto simp: demo_request_def)
  with p show ?thesis unfolding len by blast
qed

lemma counterfactual_raises_witness:
  "\<exists>plan req' plan'.
    locate hd demo_pool (demo_locator False) ((demo_request ''b'' [5, 7] (Some ''a''))\<lparr>cs_counterfactual_index := Some 0\<rparr>) 1 =
      Some (Inr (Some plan, req')) \<and>
    for_retained_source_ids {0} plan = Some plan' \<and>
    prepare_reuse FullBlockRepair 1 None plan' [[3, 4]] 2 =
      Inl (ValueError ''counterfactual target must identify exactly one resolved candidate'')"
proof -
  let ?req = "(demo_request ''b'' [5, 7] (Some ''a''))\<lparr>cs_counterfactual_index := Some 0\<rparr>"
  obtain plan req' plan' where p: "locate hd demo_pool (demo_locator False) ?req 1 = Some (Inr (Some plan, req'))"
      "for_retained_source_ids {0} plan = Some plan'" "\<exists>c. pp_candidates plan' = [c] \<and> pc_target_block_index c = 1"
    using demo_retained[of "Some 0"] by blast
  have len: "length [5, 7 :: int] = 2" by simp
  have "prepare_reuse FullBlockRepair 1 None plan' [[3, 4]] (length [5, 7 :: int]) =
      Inl (ValueError ''counterfactual target must identify exactly one resolved candidate'')"
    by (rule counterfactual_raises[OF demo_reach p(1,2)]) (use p(3) in \<open>auto simp: demo_request_def\<close>)
  with p show ?thesis unfolding len by blast
qed

end
