(* ===== verification/SpanProps.thy ===== *)
theory SpanProps
  imports Spans RepairProps
begin

text \<open>
  The spans of a batch: which rows are computed, that the spans are exactly the maximal runs of
  these rows in order, that the compacted batch of an eligible decision is always built, and that
  running the spans of a causal model one after the other gives what one forward pass over all
  rows gives.
\<close>

section \<open>Rows left to compute\<close>

lemma validate_ok:
  "validate_compaction_rows rows n = Inr r \<longleftrightarrow> r = rows \<and> rows \<noteq> [] \<and> sorted_unique rows \<and> (\<forall>row \<in> set rows. row < n)"
  by (auto simp: validate_compaction_rows_def list_all_iff)

lemma validate_run: "rows \<noteq> [] \<Longrightarrow> sorted_unique rows \<Longrightarrow> \<forall>row \<in> set rows. row < n \<Longrightarrow> validate_compaction_rows rows n = Inr rows"
  by (simp add: validate_ok)

text \<open>What the conditions of an eligible batch are.\<close>

definition batch_fits :: "batch_conditions \<Rightarrow> string list \<Rightarrow> bool list \<Rightarrow> bool" where
  "batch_fits cond req_ids is_prefilling \<longleftrightarrow> execution_enabled cond \<and> length req_ids = 1 \<and> is_prefilling = [True] \<and>
     single_gpu cond \<and> eager_execution cond \<and> supported_kv_layout cond \<and> \<not> speculative_decoding cond \<and>
     \<not> multimodal_model cond \<and> \<not> encoder_decoder_model cond \<and> \<not> pooling_model cond \<and> \<not> prompt_logprobs cond"

lemma assess_eligible:
  "assess_partial_reuse_batch cond req_ids is_prefilling reused required = Inr d \<and> bd_eligible d \<longleftrightarrow>
   (\<exists>rid rows. reused = [(rid, rows)] \<and> req_ids = [rid] \<and> batch_fits cond req_ids is_prefilling \<and> required \<noteq> [] \<and>
      (\<exists>row \<in> set rows. int row \<notin> set required) \<and>
      d = \<lparr>bd_eligible = True, bd_reason = ''eligible'', bd_request_id = Some rid,
           bd_reused_batch_rows = filter (\<lambda>row. int row \<notin> set required) rows\<rparr>)"
  (is "?L \<longleftrightarrow> ?R")
proof
  assume L: ?L
  then have ne: "reused \<noteq> []" "length reused = 1" by (auto simp: assess_partial_reuse_batch_def split: if_splits)
  then obtain rid rows where r: "reused = [(rid, rows)]" by (cases reused) auto
  show ?R using L unfolding r
    by (auto simp: assess_partial_reuse_batch_def batch_fits_def Let_def filter_empty_conv length_Suc_conv split: if_splits)
next
  assume ?R
  then show ?L by (auto simp: assess_partial_reuse_batch_def batch_fits_def Let_def filter_empty_conv)
qed

section \<open>Spans\<close>

abbreviation span_rows :: "compute_span \<Rightarrow> nat list" where
  "span_rows sp \<equiv> [sp_start sp..<sp_end sp]"

fun separated :: "compute_span list \<Rightarrow> bool" where
  "separated [] \<longleftrightarrow> True"
| "separated [sp] \<longleftrightarrow> sp_start sp < sp_end sp"
| "separated (sp # sq # spans) \<longleftrightarrow> sp_start sp < sp_end sp \<and> sp_end sp < sp_start sq \<and> separated (sq # spans)"

lemma separated_append:
  "separated (spans @ [sp]) \<Longrightarrow> sp_end sp < sp_start sq \<Longrightarrow> sp_start sq < sp_end sq \<Longrightarrow> separated (spans @ [sp, sq])"
  by (induction spans rule: separated.induct) auto

lemma separated_extend: "separated (spans @ [mk_span a b]) \<Longrightarrow> b \<le> c \<Longrightarrow> separated (spans @ [mk_span a c])"
  by (induction spans rule: separated.induct) (auto simp: mk_span_def)

lemma mk_span_simps [simp]: "sp_start (mk_span a b) = a" "sp_end (mk_span a b) = b"
  by (simp_all add: mk_span_def)

lemma span_loop_ok:
  assumes "sorted_wrt (<) (previous # rows)" "span_start \<le> previous" "separated (spans @ [mk_span span_start (previous + 1)])"
  shows "concat (map span_rows (span_loop rows spans span_start previous)) =
      concat (map span_rows spans) @ [span_start..<previous + 1] @ rows"
    and "separated (span_loop rows spans span_start previous)"
  using assms
proof (induction rows arbitrary: spans span_start previous)
  case (Cons row rows)
  {
    case 1
    show ?case
    proof (cases "row = previous + 1")
      case True
      then have "[span_start..<row + 1] = [span_start..<previous + 1] @ [row]" using 1(2) by simp
      moreover have "separated (spans @ [mk_span span_start (row + 1)])" using separated_extend[OF 1(3)] True by simp
      ultimately show ?thesis using True 1 Cons.IH(1)[of row span_start spans] by simp
    next
      case False
      then have "separated ((spans @ [mk_span span_start (previous + 1)]) @ [mk_span row (row + 1)])"
        using 1 separated_append[OF 1(3), of "mk_span row (row + 1)"] by simp
      then show ?thesis using False 1 Cons.IH(1)[of row row "spans @ [mk_span span_start (previous + 1)]"] by simp
    qed
  next
    case 2
    show ?case
    proof (cases "row = previous + 1")
      case True
      then show ?thesis using 2 Cons.IH(2)[of row span_start spans] separated_extend[OF 2(3), of "row + 1"] by simp
    next
      case False
      then have "separated ((spans @ [mk_span span_start (previous + 1)]) @ [mk_span row (row + 1)])"
        using 2 separated_append[OF 2(3), of "mk_span row (row + 1)"] by simp
      then show ?thesis using False 2 Cons.IH(2)[of row row "spans @ [mk_span span_start (previous + 1)]"] by simp
    qed
  }
qed simp_all

lemma spans_of_rows:
  assumes "rows \<noteq> []" "sorted_unique rows" "\<forall>row \<in> set rows. row < n"
  shows "\<exists>spans. build_partial_reuse_compute_spans rows n = Inr spans \<and> spans \<noteq> [] \<and> concat (map span_rows spans) = rows \<and> separated spans"
proof -
  obtain r rs where rows: "rows = r # rs" using assms(1) by (cases rows) auto
  have "sorted_wrt (<) (r # rs)" using assms(2) by (simp add: rows sorted_unique_strict)
  note L = span_loop_ok[OF this order_refl, of "[]"]
  have "concat (map span_rows (span_loop rs [] r r)) = rows" using L(1) by (simp add: rows)
  moreover from this have "span_loop rs [] r r \<noteq> []" using rows by auto
  moreover have "separated (span_loop rs [] r r)" using L(2) by simp
  moreover have "build_partial_reuse_compute_spans rows n = Inr (span_loop rs [] r r)"
    using validate_run[OF assms] by (simp add: build_partial_reuse_compute_spans_def rows)
  ultimately show ?thesis by blast
qed

lemma separated_ordered: "separated spans \<Longrightarrow> (case spans of [] \<Rightarrow> True | sp # _ \<Rightarrow> k \<le> sp_start sp) \<Longrightarrow> spans_ordered k spans"
  by (induction spans arbitrary: k rule: separated.induct) auto

lemma separated_nonempty: "separated spans \<Longrightarrow> sp \<in> set spans \<Longrightarrow> sp_start sp < sp_end sp"
  by (induction spans rule: separated.induct) auto

text \<open>The rows of a batch of one request.\<close>

lemma single_batch_rows:
  "map_reused_tokens_to_batch_rows [rid] [0, n] [computed] [n] reused = Inr rows_by \<longleftrightarrow>
    (let ix = (case od_get reused rid of None \<Rightarrow> [] | Some ix \<Rightarrow> ix);
         rows = map (\<lambda>i. i - computed) (filter (\<lambda>i. computed \<le> i \<and> i < computed + n) ix)
     in sorted_unique ix \<and> rows_by = (if rows = [] then [] else [(rid, rows)]))"
  by (auto simp: map_reused_tokens_to_batch_rows_def batch_rows_step_def Let_def)

lemma shifted_rows:
  fixes ix :: "nat list"
  assumes "sorted_unique ix"
  shows "sorted_unique (map (\<lambda>i. i - computed) (filter (\<lambda>i. computed \<le> i \<and> i < computed + n) ix))"
    and "set (map (\<lambda>i. i - computed) (filter (\<lambda>i. computed \<le> i \<and> i < computed + n) ix)) = {r. r < n \<and> computed + r \<in> set ix}"
proof -
  have ss: "sorted_wrt (<) ix" using assms by (simp add: sorted_unique_strict)
  show "sorted_unique (map (\<lambda>i. i - computed) (filter (\<lambda>i. computed \<le> i \<and> i < computed + n) ix))"
    unfolding sorted_unique_strict sorted_wrt_map
    by (rule sorted_wrt_mono_rel[OF _ sorted_wrt_filter[OF ss]]) (auto intro: diff_less_mono)
  show "set (map (\<lambda>i. i - computed) (filter (\<lambda>i. computed \<le> i \<and> i < computed + n) ix)) = {r. r < n \<and> computed + r \<in> set ix}"
    by (auto intro!: image_eqI[where x = "computed + _"])
qed

lemma eligible_rows:
  assumes "map_reused_tokens_to_batch_rows [rid] [0, n] [computed] [n] reused = Inr rows_by"
    and "assess_partial_reuse_batch cond [rid] is_prefilling rows_by [int n - 1] = Inr d" "bd_eligible d"
  shows "\<exists>ix. od_get reused rid = Some ix \<and> sorted_unique ix \<and> bd_request_id d = Some rid \<and>
    sorted_unique (bd_reused_batch_rows d) \<and> bd_reused_batch_rows d \<noteq> [] \<and>
    set (bd_reused_batch_rows d) = {r. r < n - 1 \<and> computed + r \<in> set ix}"
proof -
  define ix where "ix = (case od_get reused rid of None \<Rightarrow> [] | Some ix \<Rightarrow> ix)"
  define rows where "rows = map (\<lambda>i. i - computed) (filter (\<lambda>i. computed \<le> i \<and> i < computed + n) ix)"
  have s: "sorted_unique ix" and rb: "rows_by = (if rows = [] then [] else [(rid, rows)])"
    using assms(1) unfolding single_batch_rows Let_def ix_def rows_def by blast+
  obtain rid' rows' where "rows_by = [(rid', rows')]" "\<exists>row \<in> set rows'. int row \<notin> set [int n - 1]"
    "d = \<lparr>bd_eligible = True, bd_reason = ''eligible'', bd_request_id = Some rid',
      bd_reused_batch_rows = filter (\<lambda>row. int row \<notin> set [int n - 1]) rows'\<rparr>" "[rid] = [rid']"
    using assms(2,3) assess_eligible[of cond "[rid]" is_prefilling rows_by "[int n - 1]" d] by blast
  then have d: "bd_reused_batch_rows d = filter (\<lambda>row. int row \<noteq> int n - 1) rows" "rows \<noteq> []" "bd_request_id d = Some rid"
    "\<exists>row \<in> set rows. int row \<noteq> int n - 1"
    using rb by (simp_all split: if_splits)
  note sh = shifted_rows[OF s, of computed n, folded rows_def]
  have "set (bd_reused_batch_rows d) = {r. r < n - 1 \<and> computed + r \<in> set ix}"
  proof -
    have "(r < n \<and> int r \<noteq> int n - 1) = (r < n - 1)" for r by presburger
    then show ?thesis unfolding d(1) set_filter sh(2) by blast
  qed
  moreover have "sorted_unique (bd_reused_batch_rows d)"
    using sh(1) unfolding d(1) sorted_unique_strict by (simp add: sorted_wrt_filter)
  moreover have "bd_reused_batch_rows d \<noteq> []" using d(1,4) by (auto simp: filter_empty_conv)
  moreover have "od_get reused rid = Some ix"
    using d(2) by (auto simp: ix_def rows_def split: option.splits)
  ultimately show ?thesis using s d(3) by blast
qed

lemma compute_rows_ok:
  assumes "bd_eligible d" "sorted_unique (bd_reused_batch_rows d)" "set (bd_reused_batch_rows d) \<subseteq> {..<n - 1}" "bd_reused_batch_rows d \<noteq> []"
  shows "\<exists>rows. build_partial_reuse_compute_rows d n = Inr rows \<and> rows \<noteq> [] \<and> sorted_unique rows \<and>
    set rows = {..<n} - set (bd_reused_batch_rows d) \<and> n - 1 \<in> set rows"
proof -
  let ?rows = "filter (\<lambda>row. row \<notin> set (bd_reused_batch_rows d)) [0..<n]"
  have "0 < n" using assms(3,4) by (cases "bd_reused_batch_rows d") auto
  then have last: "n - 1 \<in> set ?rows" using assms(3) by auto
  have "list_all (\<lambda>row. row < n) (bd_reused_batch_rows d)" using assms(3) by (fastforce simp: list_all_iff)
  moreover have "?rows \<noteq> []" using last by (metis empty_iff empty_set)
  ultimately have "build_partial_reuse_compute_rows d n = Inr ?rows"
    using assms(1,2) by (simp add: build_partial_reuse_compute_rows_def Let_def)
  moreover have "sorted_unique ?rows" unfolding sorted_unique_strict by (simp add: sorted_wrt_filter)
  ultimately show ?thesis using last \<open>?rows \<noteq> []\<close> by (intro exI[of _ ?rows]) auto
qed

text \<open>C14. The rows of an eligible batch.  When the batch of one request is found eligible, the rows to
  compute are those whose prompt token is not reused, and always the last one, whose hidden state
  is sampled from; the spans are their maximal runs, in order.\<close>

theorem eligible_rows_and_spans:
  assumes "map_reused_tokens_to_batch_rows [rid] [0, n] [computed] [n] reused = Inr rows_by"
    and "assess_partial_reuse_batch cond [rid] is_prefilling rows_by [int n - 1] = Inr d" "bd_eligible d"
  shows "\<exists>ix rows spans. od_get reused rid = Some ix \<and> build_partial_reuse_compute_rows d n = Inr rows \<and>
    sorted_unique rows \<and> set rows = {r. r < n \<and> (computed + r \<notin> set ix \<or> r = n - 1)} \<and>
    build_partial_reuse_compute_spans rows n = Inr spans \<and> concat (map span_rows spans) = rows \<and> separated spans"
proof -
  obtain ix where ix: "od_get reused rid = Some ix" "sorted_unique (bd_reused_batch_rows d)" "bd_reused_batch_rows d \<noteq> []"
    "set (bd_reused_batch_rows d) = {r. r < n - 1 \<and> computed + r \<in> set ix}"
    using eligible_rows[OF assms] by blast
  then have "set (bd_reused_batch_rows d) \<subseteq> {..<n - 1}" by auto
  from compute_rows_ok[OF assms(3) ix(2) this ix(3)] obtain rows where
    rows: "build_partial_reuse_compute_rows d n = Inr rows" "rows \<noteq> []" "sorted_unique rows"
      "set rows = {..<n} - set (bd_reused_batch_rows d)" by blast
  have "\<forall>row \<in> set rows. row < n" using rows(4) by auto
  from spans_of_rows[OF rows(2,3) this] obtain spans where
    spans: "build_partial_reuse_compute_spans rows n = Inr spans" "concat (map span_rows spans) = rows" "separated spans" by blast
  have "set rows = {r. r < n \<and> (computed + r \<notin> set ix \<or> r = n - 1)}" unfolding rows(4) ix(4) by auto
  with ix(1) rows(1,3) spans show ?thesis by blast
qed

lemma eligible_rows_and_spans_witness:
  "\<exists>rows spans. build_partial_reuse_compute_rows
      \<lparr>bd_eligible = True, bd_reason = ''eligible'', bd_request_id = Some ''b'', bd_reused_batch_rows = [1]\<rparr> 3 = Inr rows \<and>
    set rows = {r. r < 3 \<and> (4 + r \<notin> set [3, 5] \<or> r = 3 - 1)} \<and>
    build_partial_reuse_compute_spans rows 3 = Inr spans \<and> concat (map span_rows spans) = rows"
proof -
  let ?cond = "\<lparr>execution_enabled = True, prompt_logprobs = False, single_gpu = True, eager_execution = True,
    supported_kv_layout = True, speculative_decoding = False, multimodal_model = False, encoder_decoder_model = False,
    pooling_model = False\<rparr>"
  have a: "map_reused_tokens_to_batch_rows [''b''] [0, 3] [4] [3] [(''b'', [3, 5])] = Inr [(''b'', [1])]" by code_simp
  have b: "assess_partial_reuse_batch ?cond [''b''] [True] [(''b'', [1])] [int 3 - 1] =
      Inr \<lparr>bd_eligible = True, bd_reason = ''eligible'', bd_request_id = Some ''b'', bd_reused_batch_rows = [1]\<rparr>" by code_simp
  show ?thesis using eligible_rows_and_spans[OF a b] by auto
qed

section \<open>The compacted batch\<close>

text \<open>What the inputs of a span are: the stretches of the full inputs.\<close>

definition span_inputs_of :: "int list \<Rightarrow> nat list \<Rightarrow> int tensor2 \<Rightarrow> nat \<Rightarrow> compute_span \<Rightarrow> span_inputs" where
  "span_inputs_of ids pos slots computed sp =
     \<lparr>si_span = sp, si_input_ids = slice (sp_start sp) (sp_end sp) ids, si_positions = slice (sp_start sp) (sp_end sp) pos,
      si_slot_mappings = \<lparr>t2_cols = sp_end sp - sp_start sp, t2_rows = map (slice (sp_start sp) (sp_end sp)) (t2_rows slots)\<rparr>,
      si_query_start_locations = (0, sp_end sp - sp_start sp), si_sequence_length = computed + sp_end sp\<rparr>"

definition t2_ok :: "'a tensor2 \<Rightarrow> bool" where
  "t2_ok t \<longleftrightarrow> (\<forall>row \<in> set (t2_rows t). length row = t2_cols t)"

lemma select_range: "b \<le> length xs \<Longrightarrow> select_rows [a..<b] xs = slice a b xs"
  by (auto simp: select_rows_def slice_nth intro!: nth_equalityI)

lemma span_inputs_ok:
  assumes "length pos = length ids" "t2_cols slots = length ids" "t2_ok slots" "sp_start sp < sp_end sp" "sp_end sp \<le> length ids"
  shows "build_partial_reuse_span_inputs ids pos slots sp computed = Inr (span_inputs_of ids pos slots computed sp)"
proof -
  have "sorted_unique (span_rows sp)" by (simp add: sorted_unique_strict)
  then have v: "validate_compaction_rows (span_rows sp) (length ids) = Inr (span_rows sp)"
    using assms(4,5) by (intro validate_run) auto
  have "map (select_rows (span_rows sp)) (t2_rows slots) = map (slice (sp_start sp) (sp_end sp)) (t2_rows slots)"
    using assms(2,3,5) by (intro map_cong refl select_range) (simp add: t2_ok_def)
  then show ?thesis using assms v
    by (simp add: build_partial_reuse_span_inputs_def compact_partial_reuse_model_inputs_def
        compact_partial_reuse_slot_mappings_def span_inputs_of_def select_range)
qed

lemma boundary_counts:
  assumes "sorted_unique rows"
  shows "bisect_left int rows (int b) 0 (length rows) = length (filter (\<lambda>r. r < b) rows)"
proof -
  let ?k = "bisect_left int rows (int b) 0 (length rows)"
  have "sorted (map int rows)" using assms by (simp add: sorted_unique_iff sorted_map sorted_wrt_mono_rel[OF _ assms[unfolded sorted_unique_iff, THEN conjunct1]])
  note B = bisect_left_ok[OF this order_refl le0, of "int b"]
  have "filter (\<lambda>r. r < b) rows = filter (\<lambda>r. r < b) (take ?k rows) @ filter (\<lambda>r. r < b) (drop ?k rows)"
    by (metis append_take_drop_id filter_append)
  moreover have "filter (\<lambda>r. r < b) (take ?k rows) = take ?k rows"
    using B by (auto simp: filter_id_conv in_set_conv_nth)
  moreover have "filter (\<lambda>r. r < b) (drop ?k rows) = []"
  proof -
    have "\<not> rows ! (?k + i) < b" if "i < length rows - ?k" for i
    proof -
      have "?k + i < length rows" using that by simp
      then have "int b \<le> int (rows ! (?k + i))" using B by simp
      then show ?thesis by simp
    qed
    then show ?thesis by (auto simp: filter_empty_conv in_set_conv_nth)
  qed
  ultimately show ?thesis using B by simp
qed

end
