(* ===== verification/ForwardProps.thy ===== *)
theory ForwardProps
  imports WorkerForward SpanProps
begin

text \<open>
  The span-wise forward pass against the full one: with a model that is causal in the KV cache, the
  spans give every computed row the hidden state of the full pass and leave the cache as the full
  pass leaves it; the whole step of an eligible batch runs without error, but a second chunk of a
  prefill can raise because the metrics of the request have left with the first.
\<close>

section \<open>Spans in order\<close>

lemma ordered_starts:
  "spans_ordered k spans \<Longrightarrow> \<forall>sp \<in> set spans. sp_start sp \<le> sp_end sp \<Longrightarrow> sp \<in> set spans \<Longrightarrow> k \<le> sp_start sp"
  by (induction spans arbitrary: k) fastforce+

text \<open>One step of a causal model: with the right entries below its span it yields the hidden states
  of its rows and writes their entries, and nothing else.\<close>

definition causal_step ::
  "nat list \<Rightarrow> (nat \<Rightarrow> 'h) \<Rightarrow> (nat \<Rightarrow> 'v) \<Rightarrow> ('s \<Rightarrow> nat \<Rightarrow> 'v) \<Rightarrow> ('meta execution_step \<Rightarrow> 's \<Rightarrow> ('h span_output \<times> 's) res) \<Rightarrow>
   'meta execution_step \<Rightarrow> bool" where
  "causal_step shape hid kv entry model st \<longleftrightarrow>
     (\<forall>s. (\<forall>r < sp_start (es_span st). entry s r = kv r) \<longrightarrow>
       (\<exists>out s'. model st s = Inr (out, s') \<and> so_trailing out = shape \<and> so_rows out = map hid (span_rows (es_span st)) \<and>
          (\<forall>r. entry s' r = (if r \<in> set (span_rows (es_span st)) then kv r else entry s r))))"

definition rows_of_steps :: "'meta execution_step list \<Rightarrow> nat set" where
  "rows_of_steps steps = (\<Union>st \<in> set steps. set (span_rows (es_span st)))"

definition step_result :: "nat list \<Rightarrow> (nat \<Rightarrow> 'h) \<Rightarrow> 'meta execution_step \<Rightarrow> 'h span_output \<Rightarrow> bool" where
  "step_result shape hid st out \<longleftrightarrow> so_trailing out = shape \<and> so_rows out = map hid (span_rows (es_span st))"

lemma run_steps_causal:
  assumes "spans_ordered previous (map es_span steps)" "\<forall>st \<in> set steps. sp_start (es_span st) \<le> sp_end (es_span st)"
    and "\<forall>st \<in> set steps. causal_step shape hid kv entry model st"
    and "\<forall>st \<in> set steps. sp_end (es_span st) \<le> n"
    and "\<forall>r < n. r \<notin> rows_of_steps steps \<longrightarrow> entry s r = kv r"
  shows "\<exists>outs s'. run_steps model previous steps s = Inr (outs, s') \<and> list_all2 (step_result shape hid) steps outs \<and>
    (\<forall>r < n. entry s' r = kv r)"
  using assms
proof (induction steps arbitrary: previous s)
  case Nil
  then show ?case by (simp add: rows_of_steps_def)
next
  case (Cons st steps)
  let ?sp = "es_span st"
  have later: "sp_end ?sp \<le> sp_start (es_span st')" if "st' \<in> set steps" for st'
    using ordered_starts[of "sp_end ?sp" "map es_span steps" "es_span st'"] Cons.prems(1,2) that by auto
  have "entry s r = kv r" if r: "r < sp_start ?sp" for r
  proof -
    have len: "sp_start ?sp \<le> sp_end ?sp" "sp_end ?sp \<le> n" using Cons.prems(2,4) by simp_all
    have "r \<notin> rows_of_steps (st # steps)" using r len later by (fastforce simp: rows_of_steps_def)
    then show ?thesis using Cons.prems(5) r len by auto
  qed
  then obtain out s1 where step: "model st s = Inr (out, s1)" "step_result shape hid st out"
      "\<forall>r. entry s1 r = (if r \<in> set (span_rows ?sp) then kv r else entry s r)"
  proof -
    have "causal_step shape hid kv entry model st" using Cons.prems(3) by simp
    then show thesis using that \<open>\<And>r. r < sp_start ?sp \<Longrightarrow> entry s r = kv r\<close>
      unfolding causal_step_def step_result_def by blast
  qed
  have "\<forall>r < n. r \<notin> rows_of_steps steps \<longrightarrow> entry s1 r = kv r"
    using step(3) Cons.prems(5) by (auto simp: rows_of_steps_def)
  then obtain outs s2 where rest: "run_steps model (sp_end ?sp) steps s1 = Inr (outs, s2)" "list_all2 (step_result shape hid) steps outs"
      "\<forall>r < n. entry s2 r = kv r"
    using Cons.IH[of "sp_end ?sp" s1] Cons.prems by auto
  have "run_steps model previous (st # steps) s = Inr (out # outs, s2)"
    using Cons.prems(1) step(1) rest(1) by simp
  with step(2) rest(2,3) show ?case by (intro exI[of _ "out # outs"] exI[of _ s2]) simp
qed

lemma stitch_rows:
  assumes "list_all2 (step_result shape hid) steps outs" "spans_ordered previous (map es_span steps)"
    and "\<forall>st \<in> set steps. sp_start (es_span st) \<le> sp_end (es_span st)" "\<forall>st \<in> set steps. sp_end (es_span st) \<le> total_rows"
    and "length acc = total_rows"
  shows "\<exists>rows. stitch_loop total_rows shape previous (zip steps outs) acc = Inr rows \<and> length rows = total_rows \<and>
    (\<forall>r < total_rows. rows ! r = (if r \<in> rows_of_steps steps then hid r else acc ! r))"
  using assms
proof (induction steps outs arbitrary: previous acc rule: list_all2_induct)
  case Nil
  then show ?case by (simp add: rows_of_steps_def)
next
  case (Cons st steps out outs)
  let ?sp = "es_span st"
  have out: "so_trailing out = shape" "so_rows out = map hid (span_rows ?sp)" using Cons.hyps(1) by (simp_all add: step_result_def)
  have len: "sp_start ?sp \<le> sp_end ?sp" "sp_end ?sp \<le> total_rows" using Cons.prems by simp_all
  let ?acc = "take (sp_start ?sp) acc @ so_rows out @ drop (sp_end ?sp) acc"
  have acc: "length ?acc = total_rows" using out(2) len Cons.prems(4) by simp
  obtain rows where rows: "stitch_loop total_rows shape (sp_end ?sp) (zip steps outs) ?acc = Inr rows" "length rows = total_rows"
      "\<forall>r < total_rows. rows ! r = (if r \<in> rows_of_steps steps then hid r else ?acc ! r)"
    using Cons.IH[OF _ _ _ acc, of "sp_end ?sp"] Cons.prems by auto
  have at: "?acc ! r = (if r \<in> set (span_rows ?sp) then hid r else acc ! r)" if "r < total_rows" for r
    using that len out(2) Cons.prems(4) by (auto simp: nth_append)
  have "stitch_loop total_rows shape previous (zip (st # steps) (out # outs)) acc = Inr rows"
    using Cons.prems(1) out len rows(1) by simp
  moreover have "rows ! r = (if r \<in> rows_of_steps (st # steps) then hid r else acc ! r)" if "r < total_rows" for r
    using rows(3) at[OF that] that by (auto simp: rows_of_steps_def)
  ultimately show ?case using rows(2) by blast
qed

lemma guarded_causal:
  assumes "causal_step shape hid kv entry model st" "sp_start (es_span st) < sp_end (es_span st)"
    and "t2_cols (es_slot_mappings st) = sp_end (es_span st) - sp_start (es_span st)"
  shows "causal_step shape hid kv entry (execute_span_step model) st"
proof -
  have "1 \<le> sp_end (es_span st) - sp_start (es_span st)" using assms(2) by linarith
  then have "execute_span_step model st s = model st s" for s using assms(3) by (simp add: execute_span_step_def)
  then show ?thesis using assms(1) by (simp add: causal_step_def)
qed

lemma execute_and_stitch_causal:
  assumes "wk_steps w \<noteq> []" "spans_ordered 0 (map es_span (wk_steps w))"
    and st: "\<forall>st \<in> set (wk_steps w). sp_start (es_span st) < sp_end (es_span st) \<and> sp_end (es_span st) \<le> n \<and>
      t2_cols (es_slot_mappings st) = sp_end (es_span st) - sp_start (es_span st) \<and> causal_step shape hid kv entry model st"
    and "\<forall>r < n. r \<notin> rows_of_steps (wk_steps w) \<longrightarrow> entry s r = kv r" "n \<le> total_rows"
  shows "\<exists>out s'. execute_and_stitch zero_row model total_rows w s = Inr (out, s') \<and> so_trailing out = shape \<and>
    length (so_rows out) = total_rows \<and>
    (\<forall>r < total_rows. so_rows out ! r = (if r \<in> rows_of_steps (wk_steps w) then hid r else zero_row shape)) \<and>
    (\<forall>r < n. entry s' r = kv r)"
proof -
  have le: "\<forall>st \<in> set (wk_steps w). sp_start (es_span st) \<le> sp_end (es_span st)"
    and fin: "\<forall>st \<in> set (wk_steps w). sp_end (es_span st) \<le> n" using st by (simp_all add: less_imp_le)
  have cs: "\<forall>st \<in> set (wk_steps w). causal_step shape hid kv entry (execute_span_step model) st"
    using st by (blast intro: guarded_causal)
  then obtain outs s' where run: "run_steps (execute_span_step model) 0 (wk_steps w) s = Inr (outs, s')"
      "list_all2 (step_result shape hid) (wk_steps w) outs" "\<forall>r < n. entry s' r = kv r"
    using run_steps_causal[where entry = entry and kv = kv and s = s, OF assms(2) le cs fin assms(4)] by blast
  have ends: "\<forall>st \<in> set (wk_steps w). sp_end (es_span st) \<le> total_rows" using st assms(5) by fastforce
  obtain rows where rows: "stitch_loop total_rows shape 0 (zip (wk_steps w) outs) (replicate total_rows (zero_row shape)) = Inr rows"
      "length rows = total_rows"
      "\<forall>r < total_rows. rows ! r = (if r \<in> rows_of_steps (wk_steps w) then hid r else replicate total_rows (zero_row shape) ! r)"
    using stitch_rows[OF run(2) assms(2) le ends length_replicate] by blast
  obtain st sts out outs' where s: "wk_steps w = st # sts" "outs = out # outs'"
    using assms(1) run(2) by (cases "wk_steps w"; cases outs) auto
  then have "so_trailing (hd outs) = shape" using run(2) by (simp add: step_result_def)
  moreover have "1 \<le> total_rows" using st s assms(5) by fastforce
  ultimately have "execute_and_stitch zero_row model total_rows w s = Inr (\<lparr>so_trailing = shape, so_rows = rows\<rparr>, s')"
    using run(1) rows(1) list_all2_lengthD[OF run(2)] assms(1)
    by (simp add: execute_and_stitch_def execute_partial_reuse_span_steps_def stitch_partial_reuse_span_outputs_def Let_def)
  then show ?thesis using rows(2,3) run(3) by simp
qed

section \<open>The compacted batch is built\<close>

definition model_inputs_of :: "span_inputs \<Rightarrow> model_inputs" where
  "model_inputs_of si = \<lparr>mi_input_ids = si_input_ids si, mi_positions = si_positions si\<rparr>"

definition attention_of :: "int tensor2 list \<Rightarrow> span_inputs \<Rightarrow> attention_inputs" where
  "attention_of tables si =
     \<lparr>ai_span = si_span si, ai_num_tokens = length (si_input_ids si), ai_query_start_loc = [0, length (si_input_ids si)],
      ai_seq_lens = [si_sequence_length si], ai_max_query_len = length (si_input_ids si), ai_max_seq_len = si_sequence_length si,
      ai_block_tables = map (\<lambda>t. t\<lparr>t2_rows := take 1 (t2_rows t)\<rparr>) tables, ai_slot_mappings = si_slot_mappings si,
      ai_positions = si_positions si\<rparr>"

definition inputs_fit :: "int list \<Rightarrow> nat list \<Rightarrow> int tensor2 \<Rightarrow> int tensor2 list \<Rightarrow> bool" where
  "inputs_fit ids pos slots tables \<longleftrightarrow> length pos = length ids \<and> t2_cols slots = length ids \<and> t2_ok slots \<and>
     tables \<noteq> [] \<and> (\<forall>t \<in> set tables. t2_rows t \<noteq> []) \<and> length (t2_rows slots) = length tables"

lemma span_stages_ok:
  assumes fit: "inputs_fit ids pos slots tables" and sp: "sp_start sp < sp_end sp" "sp_end sp \<le> length ids"
  shows "build_partial_reuse_span_inputs ids pos slots sp computed = Inr (span_inputs_of ids pos slots computed sp)"
    and "build_partial_reuse_span_model_inputs (span_inputs_of ids pos slots computed sp) =
      Inr (model_inputs_of (span_inputs_of ids pos slots computed sp))"
    and "build_partial_reuse_span_attention_inputs (span_inputs_of ids pos slots computed sp) tables =
      Inr (attention_of tables (span_inputs_of ids pos slots computed sp))"
proof -
  let ?si = "span_inputs_of ids pos slots computed sp"
  show "build_partial_reuse_span_inputs ids pos slots sp computed = Inr ?si"
    using fit sp by (intro span_inputs_ok) (simp_all add: inputs_fit_def)
  have len: "length (si_input_ids ?si) = sp_end sp - sp_start sp" "length (si_positions ?si) = sp_end sp - sp_start sp"
    using fit sp by (simp_all add: span_inputs_of_def inputs_fit_def)
  have n: "sp_end sp - sp_start sp \<noteq> 0" "sp_start sp + (sp_end sp - sp_start sp) = sp_end sp"
    "sp_end sp - sp_start sp \<le> computed + sp_end sp" using sp by simp_all
  have f: "si_span ?si = sp" "si_query_start_locations ?si = (0, sp_end sp - sp_start sp)" "si_sequence_length ?si = computed + sp_end sp"
    "length (t2_rows (si_slot_mappings ?si)) = length (t2_rows slots)" by (simp_all add: span_inputs_of_def)
  show "build_partial_reuse_span_model_inputs ?si = Inr (model_inputs_of ?si)"
    unfolding build_partial_reuse_span_model_inputs_def model_inputs_of_def using len n f(1) by simp
  show "build_partial_reuse_span_attention_inputs ?si tables = Inr (attention_of tables ?si)"
    unfolding build_partial_reuse_span_attention_inputs_def attention_of_def Let_def len f
    using fit n(3) by (simp add: inputs_fit_def list_all_iff)
qed

lemma compacted_ok:
  assumes fit: "inputs_fit ids pos slots tables" and n: "length ids = n"
    and rows: "rows \<noteq> []" "sorted_unique rows" "\<forall>r \<in> set rows. r < n"
    and spans: "build_partial_reuse_compute_spans rows n = Inr spans" "spans \<noteq> []" "concat (map span_rows spans) = rows" "separated spans"
  shows "\<exists>batch. build_partial_reuse_compacted_batch ids pos slots tables [0, n] rows computed = Inr batch \<and>
    cb_compute_spans batch = spans \<and>
    cb_span_model_inputs batch = map (\<lambda>sp. model_inputs_of (span_inputs_of ids pos slots computed sp)) spans \<and>
    cb_span_attention_inputs batch = map (\<lambda>sp. attention_of tables (span_inputs_of ids pos slots computed sp)) spans \<and>
    cb_query_start_locations batch = [0, length rows]"
proof -
  let ?si = "span_inputs_of ids pos slots computed"
  have valid: "validate_compaction_rows rows n = Inr rows" by (rule validate_run[OF rows])
  have within: "sp_start sp < sp_end sp \<and> sp_end sp \<le> length ids" if "sp \<in> set spans" for sp
  proof -
    have ne: "sp_start sp < sp_end sp" by (rule separated_nonempty[OF spans(4) that])
    then have "sp_end sp - 1 \<in> set (span_rows sp)" by auto
    then have "sp_end sp - 1 \<in> set rows" using that unfolding spans(3)[symmetric] by auto
    then have "sp_end sp - 1 < n" using rows(3) by blast
    then show ?thesis using ne n by linarith
  qed
  note ok = span_stages_ok[OF fit conjunct1[OF within] conjunct2[OF within]]
  have seq: "build_partial_reuse_span_input_sequence ids pos slots spans computed = Inr (map ?si spans)"
    using spans(2) separated_ordered[OF spans(4), of 0] map_res_total[of spans "\<lambda>sp. build_partial_reuse_span_inputs ids pos slots sp computed" ?si]
      ok(1) by (simp add: build_partial_reuse_span_input_sequence_def split: list.split)
  have models: "build_partial_reuse_span_model_input_sequence (map ?si spans) = Inr (map model_inputs_of (map ?si spans))"
    using spans(2) map_res_total[of "map ?si spans" build_partial_reuse_span_model_inputs model_inputs_of] ok(2)
    by (auto simp: build_partial_reuse_span_model_input_sequence_def)
  have attention: "build_partial_reuse_span_attention_input_sequence (map ?si spans) tables = Inr (map (attention_of tables) (map ?si spans))"
    using spans(2) map_res_total[of "map ?si spans" "\<lambda>si. build_partial_reuse_span_attention_inputs si tables" "attention_of tables"] ok(3)
    by (auto simp: build_partial_reuse_span_attention_input_sequence_def)
  have counts: "compact_partial_reuse_query_start_locations [0, n] rows = Inr [0, length rows]"
  proof -
    have "filter (\<lambda>r. r < n) rows = rows" using rows(3) by (simp add: filter_id_conv)
    then show ?thesis using valid boundary_counts[OF rows(2), of 0] boundary_counts[OF rows(2), of n]
      by (simp add: compact_partial_reuse_query_start_locations_def)
  qed
  show ?thesis
    unfolding build_partial_reuse_compacted_batch_def
    using fit n valid spans(1) seq models attention counts
    by (simp add: inputs_fit_def compact_partial_reuse_model_inputs_def compact_partial_reuse_slot_mappings_def comp_def)
qed

text \<open>The step of a span.\<close>

definition step_of ::
  "(attention_inputs \<Rightarrow> 'meta) \<Rightarrow> int list \<Rightarrow> nat list \<Rightarrow> int tensor2 \<Rightarrow> int tensor2 list \<Rightarrow> nat \<Rightarrow> compute_span \<Rightarrow> 'meta execution_step" where
  "step_of meta ids pos slots tables computed sp =
     (let si = span_inputs_of ids pos slots computed sp
      in \<lparr>es_span = sp, es_model_inputs = model_inputs_of si, es_attention_metadata = meta (attention_of tables si),
          es_slot_mappings = si_slot_mappings si\<rparr>)"

lemma steps_ok:
  assumes "cb_compute_spans batch = spans" "spans \<noteq> []"
    "cb_span_model_inputs batch = map (\<lambda>sp. model_inputs_of (span_inputs_of ids pos slots computed sp)) spans"
    "cb_span_attention_inputs batch = map (\<lambda>sp. attention_of tables (span_inputs_of ids pos slots computed sp)) spans"
    and meta: "\<forall>a. build_attn a = Inr (meta a)"
  shows "build_partial_reuse_span_attention_metadata build_attn (cb_span_attention_inputs batch) =
      Inr (map meta (cb_span_attention_inputs batch))"
    and "build_partial_reuse_span_execution_steps batch (map meta (cb_span_attention_inputs batch)) =
      Inr (map (step_of meta ids pos slots tables computed) spans)"
proof -
  show "build_partial_reuse_span_attention_metadata build_attn (cb_span_attention_inputs batch) =
      Inr (map meta (cb_span_attention_inputs batch))"
    using assms(2,4) meta map_res_total[of "cb_span_attention_inputs batch" build_attn meta]
    by (simp add: build_partial_reuse_span_attention_metadata_def)
  have z: "zip spans (zip (map f spans) (zip (map g spans) (map h spans))) = map (\<lambda>sp. (sp, f sp, g sp, h sp)) spans"
    for f :: "compute_span \<Rightarrow> model_inputs" and g :: "compute_span \<Rightarrow> attention_inputs" and h :: "compute_span \<Rightarrow> 'b"
    by (induction spans) auto
  show "build_partial_reuse_span_execution_steps batch (map meta (cb_span_attention_inputs batch)) =
      Inr (map (step_of meta ids pos slots tables computed) spans)"
    using assms(2) unfolding build_partial_reuse_span_execution_steps_def assms(1,3,4) Let_def map_map comp_def z
    by (simp add: step_of_def Let_def attention_of_def)
qed

section \<open>The step of an eligible batch\<close>

definition single_prefill :: "input_batch \<Rightarrow> string \<Rightarrow> nat \<Rightarrow> nat \<Rightarrow> bool" where
  "single_prefill ib rid computed n \<longleftrightarrow> ib_req_ids ib = [rid] \<and> ib_num_tokens ib = n \<and> take 2 (ib_query_start ib) = [0, n] \<and>
     ib_num_computed ib = [computed] \<and> ib_num_scheduled ib = [n] \<and> ib_is_prefilling ib = [True] \<and>
     n \<le> length (ib_input_ids ib) \<and> n \<le> length (ib_positions ib)"

text \<open>A batch with a reused token before its last row is found eligible.\<close>

lemma becomes_eligible:
  assumes "sorted_unique ix" "od_get reused rid = Some ix" "\<exists>r < n - 1. computed + r \<in> set ix" "batch_fits cond [rid] [True]"
  shows "\<exists>rows_by d. map_reused_tokens_to_batch_rows [rid] [0, n] [computed] [n] reused = Inr rows_by \<and>
    assess_partial_reuse_batch cond [rid] [True] rows_by [int n - 1] = Inr d \<and> bd_eligible d"
proof -
  define rows where "rows = map (\<lambda>i. i - computed) (filter (\<lambda>i. computed \<le> i \<and> i < computed + n) ix)"
  obtain r where r: "r < n - 1" "computed + r \<in> set ix" using assms(3) by blast
  then have "r \<in> set rows" unfolding rows_def shifted_rows(2)[OF assms(1)] by simp
  then have ne: "rows \<noteq> []" "\<exists>row \<in> set rows. int row \<notin> set [int n - 1]" using r(1) by (auto intro!: bexI[of _ r])
  have "map_reused_tokens_to_batch_rows [rid] [0, n] [computed] [n] reused = Inr [(rid, rows)]"
    unfolding single_batch_rows Let_def using assms(1,2) ne(1) by (simp add: rows_def)
  moreover have "\<exists>d. assess_partial_reuse_batch cond [rid] [True] [(rid, rows)] [int n - 1] = Inr d \<and> bd_eligible d"
    unfolding assess_eligible using ne(2) assms(4) by blast
  ultimately show ?thesis by blast
qed

text \<open>The metrics of the request after each part of the step.\<close>

definition decided_metrics :: "batch_decision \<Rightarrow> nat list \<Rightarrow> repair_metrics \<Rightarrow> repair_metrics" where
  "decided_metrics d rows m = m\<lparr>me_execution_eligible := True, me_execution_reason := bd_reason d,
     me_reused_batch_rows := length (bd_reused_batch_rows d), me_compute_batch_rows := length rows\<rparr>"

definition built_metrics :: "nat \<Rightarrow> rat \<Rightarrow> rat \<Rightarrow> repair_metrics \<Rightarrow> repair_metrics" where
  "built_metrics spans t u m = m\<lparr>me_compute_span_count := spans, me_compacted_batch_built := True, me_span_metadata_built := True,
     me_span_metadata_count := spans, me_preparation_time_ms := me_preparation_time_ms m + t + u\<rparr>"

lemma eligible_prepared:
  assumes ib: "single_prefill ib rid computed n" and reused: "od_get (wk_reused_tokens w) rid = Some ix" "sorted_unique ix"
      "\<exists>r < n - 1. computed + r \<in> set ix"
    and fits: "batch_fits cond [rid] [True]"
  shows "\<exists>rows_by d rows spans. (\<forall>pending. decision_metrics d rows [(rid, n)] (wk_metrics w) = Inr pending \<longrightarrow>
      prepare_reuse_rows cond ib w = Inr (w\<lparr>wk_reused_rows := rows_by, wk_decision := d, wk_compute_rows := rows,
        wk_metrics := pending\<rparr>)) \<and>
    (\<forall>m. od_get (wk_metrics w) rid = Some m \<longrightarrow>
      decision_metrics d rows [(rid, n)] (wk_metrics w) = Inr (od_set rid (decided_metrics d rows m) (wk_metrics w))) \<and>
    bd_eligible d \<and> bd_request_id d = Some rid \<and> rows \<noteq> [] \<and> sorted_unique rows \<and>
    set rows = {r. r < n \<and> (computed + r \<notin> set ix \<or> r = n - 1)} \<and>
    build_partial_reuse_compute_spans rows n = Inr spans \<and> spans \<noteq> [] \<and> concat (map span_rows spans) = rows \<and> separated spans"
proof -
  obtain rows_by d where d: "map_reused_tokens_to_batch_rows [rid] [0, n] [computed] [n] (wk_reused_tokens w) = Inr rows_by"
      "assess_partial_reuse_batch cond [rid] [True] rows_by [int n - 1] = Inr d" "bd_eligible d"
    using becomes_eligible[OF reused(2,1,3) fits] by blast
  have E: "bd_request_id d = Some rid" "sorted_unique (bd_reused_batch_rows d)" "bd_reused_batch_rows d \<noteq> []"
      "set (bd_reused_batch_rows d) = {r. r < n - 1 \<and> computed + r \<in> set ix}"
    using eligible_rows[OF d] reused(1) by auto
  then have "set (bd_reused_batch_rows d) \<subseteq> {..<n - 1}" by auto
  from compute_rows_ok[OF d(3) E(2) this E(3)] obtain rows where rows: "build_partial_reuse_compute_rows d n = Inr rows"
      "rows \<noteq> []" "sorted_unique rows" "set rows = {..<n} - set (bd_reused_batch_rows d)" by blast
  have set_rows: "set rows = {r. r < n \<and> (computed + r \<notin> set ix \<or> r = n - 1)}" unfolding rows(4) E(4) by auto
  have "\<forall>r \<in> set rows. r < n" using rows(4) by auto
  from spans_of_rows[OF rows(2,3) this] obtain spans where spans: "build_partial_reuse_compute_spans rows n = Inr spans" "spans \<noteq> []"
      "concat (map span_rows spans) = rows" "separated spans" by blast
  have "record_batch_execution_decision m True (bd_reason d) (length (bd_reused_batch_rows d)) (length rows) = Inr (decided_metrics d rows m)" for m
    using E(3) rows(2) by (simp add: record_batch_execution_decision_def decided_metrics_def)
  then have dm: "\<forall>m. od_get (wk_metrics w) rid = Some m \<longrightarrow>
      decision_metrics d rows [(rid, n)] (wk_metrics w) = Inr (od_set rid (decided_metrics d rows m) (wk_metrics w))"
    using d(3) E(1) by (simp add: Let_def)
  have q: "take (length [rid] + 1) (ib_query_start ib) = [0, n]" "slice 1 (length [rid] + 1) (ib_query_start ib) = [n]"
  proof -
    have "take 2 (ib_query_start ib) = [0, n]" using ib by (simp add: single_prefill_def)
    then obtain rest where "ib_query_start ib = [0, n] @ rest" by (metis append_take_drop_id)
    then show "take (length [rid] + 1) (ib_query_start ib) = [0, n]" "slice 1 (length [rid] + 1) (ib_query_start ib) = [n]"
      by (simp_all add: slice_def)
  qed
  have "\<forall>pending. decision_metrics d rows [(rid, n)] (wk_metrics w) = Inr pending \<longrightarrow>
      prepare_reuse_rows cond ib w = Inr (w\<lparr>wk_reused_rows := rows_by, wk_decision := d, wk_compute_rows := rows,
        wk_metrics := pending\<rparr>)"
    using ib q d(1,2) rows(1) by (simp add: prepare_reuse_rows_def single_prefill_def)
  with dm d(3) E(1) rows(2,3) set_rows spans show ?thesis by blast
qed

lemma eligible_steps:
  assumes ib: "single_prefill ib rid computed n"
    and fit: "inputs_fit (take n (ib_input_ids ib)) (take n (ib_positions ib)) (first_cols n slots) tables"
    and d: "bd_eligible (wk_decision w)" "bd_request_id (wk_decision w) = Some rid" and rows: "wk_compute_rows w = rows"
    and ok: "rows \<noteq> []" "sorted_unique rows" "\<forall>r \<in> set rows. r < n"
    and spans: "build_partial_reuse_compute_spans rows n = Inr spans" "spans \<noteq> []" "concat (map span_rows spans) = rows" "separated spans"
    and m: "od_get (wk_metrics w) rid = Some m" "me_compute_batch_rows m = length rows"
    and meta: "\<forall>a. build_attn a = Inr (meta a)" and clock: "0 \<le> t" "0 \<le> u"
  shows "\<exists>w2 w3. record_compacted_batch t ib tables slots w = Inr w2 \<and> record_span_attention_metadata build_attn u w2 = Inr w3 \<and>
    wk_decision w3 = wk_decision w \<and> wk_copy_events w3 = wk_copy_events w \<and>
    wk_steps w3 = map (step_of meta (take n (ib_input_ids ib)) (take n (ib_positions ib)) (first_cols n slots) tables computed) spans \<and>
    od_get (wk_metrics w3) rid = Some (built_metrics (length spans) t u m)"
proof -
  let ?ids = "take n (ib_input_ids ib)" and ?pos = "take n (ib_positions ib)" and ?slots = "first_cols n slots"
  have f: "ib_req_ids ib = [rid]" "ib_num_tokens ib = n" "take 2 (ib_query_start ib) = [0, n]" "ib_num_computed ib = [computed]"
    "length ?ids = n" using ib by (simp_all add: single_prefill_def)
  obtain batch where B: "build_partial_reuse_compacted_batch ?ids ?pos ?slots tables [0, n] rows computed = Inr batch"
      "cb_compute_spans batch = spans"
      "cb_span_model_inputs batch = map (\<lambda>sp. model_inputs_of (span_inputs_of ?ids ?pos ?slots computed sp)) spans"
      "cb_span_attention_inputs batch = map (\<lambda>sp. attention_of tables (span_inputs_of ?ids ?pos ?slots computed sp)) spans"
    using compacted_ok[OF fit f(5) ok spans] by blast
  note S = steps_ok[OF B(2) spans(2) B(3,4) meta]
  let ?n = "length spans"
  define m1 where "m1 = m\<lparr>me_compute_span_count := ?n, me_compacted_batch_built := True, me_preparation_time_ms := me_preparation_time_ms m + t\<rparr>"
  have pos: "1 \<le> length rows" "1 \<le> ?n" using ok(1) spans(2) by (simp_all add: Suc_le_eq)
  have r1: "bind_res (record_compacted_batch_construction m (length rows) ?n) (\<lambda>x. record_preparation_time x t) = Inr m1"
    using m(2) pos clock(1) by (simp add: record_compacted_batch_construction_def record_preparation_time_def m1_def)
  define w2 where "w2 = w\<lparr>wk_compacted := Some batch, wk_metrics := od_set rid m1 (wk_metrics w)\<rparr>"
  have s2: "record_compacted_batch t ib tables slots w = Inr w2"
    using d m(1) B(1,2) f r1 unfolding record_compacted_batch_def w2_def rows by (auto simp: numeral_2_eq_2)
  have r2: "bind_res (record_span_attention_metadata_construction m1 (length (map meta (cb_span_attention_inputs batch))))
      (\<lambda>x. record_preparation_time x u) = Inr (built_metrics ?n t u m)"
    using pos(2) clock(2) B(4)
    by (simp add: record_span_attention_metadata_construction_def record_preparation_time_def m1_def built_metrics_def)
  define w3 where "w3 = w2\<lparr>wk_metadata := map meta (cb_span_attention_inputs batch),
    wk_steps := map (step_of meta ?ids ?pos ?slots tables computed) spans, wk_metrics := od_set rid (built_metrics ?n t u m) (wk_metrics w2)\<rparr>"
  have "wk_compacted w2 = Some batch" "wk_decision w2 = wk_decision w" "od_get (wk_metrics w2) rid = Some m1" by (simp_all add: w2_def)
  then have s3: "record_span_attention_metadata build_attn u w2 = Inr w3"
    using d(2) S r2 unfolding record_span_attention_metadata_def w3_def by auto
  show ?thesis using s2 s3 by (intro exI[of _ w2] exI[of _ w3]) (simp add: w3_def w2_def)
qed

lemma step_of_simps [simp]:
  "es_span (step_of meta ids pos slots tables computed sp) = sp"
  "t2_cols (es_slot_mappings (step_of meta ids pos slots tables computed sp)) = sp_end sp - sp_start sp"
  by (simp_all add: step_of_def span_inputs_of_def Let_def)

lemma rows_of_spans: "rows_of_steps (map (step_of meta ids pos slots tables computed) spans) = set (concat (map span_rows spans))"
  by (auto simp: rows_of_steps_def)

lemma spans_forward:
  assumes d: "bd_eligible (wk_decision w)" "bd_request_id (wk_decision w) = Some rid"
    and steps: "wk_steps w \<noteq> []"
    and m: "od_get (wk_metrics w) rid = Some m" "me_compacted_batch_built m" "me_span_metadata_built m"
      "me_compute_span_count m = length (wk_steps w)"
    and clock: "0 \<le> v" "\<forall>t. od_get (wk_copy_events w) rid = Some t \<longrightarrow> 0 \<le> t"
    and run: "execute_and_stitch zero_row model total_rows (w\<lparr>wk_path := Spans\<rparr>) s = Inr (out, s')"
  shows "\<exists>w'. execute_selected_forward zero_row model execute_full v total_rows False w s = Inr (out, w', s') \<and> wk_path w' = Spans \<and>
    (\<exists>m'. od_get (wk_metrics w') rid = Some m' \<and> me_compacted_batch_executed m')"
proof -
  let ?w = "w\<lparr>wk_path := Spans\<rparr>"
  define m1 where "m1 = m\<lparr>me_compacted_batch_executed := True\<rparr>"
  obtain copy_time w1 where take: "take_copy_time rid ?w = (copy_time, w1)" by fastforce
  then have w1: "copy_time = od_get (wk_copy_events w) rid" "wk_metrics w1 = wk_metrics w" "wk_path w1 = Spans"
    by (auto simp: take_copy_time_def)
  have path: "select_partial_reuse_forward_path (wk_decision w) (wk_steps w) False = Inr Spans"
    using d(1) steps by (simp add: select_partial_reuse_forward_path_def)
  have r1: "record_compacted_batch_execution m (length (wk_steps w)) = Inr m1"
    using m(2-4) by (simp add: record_compacted_batch_execution_def m1_def)
  define m2 where "m2 = m1\<lparr>me_copy_time_ms := (case copy_time of None \<Rightarrow> me_copy_time_ms m1 | Some t \<Rightarrow> t), me_forward_time_ms := v\<rparr>"
  have r2: "record_gpu_execution_times m1 copy_time (Some v) = Inr m2"
    using clock w1(1) by (auto simp: record_gpu_execution_times_def m2_def split: option.splits)
  have "execute_selected_forward zero_row model execute_full v total_rows False w s =
      Inr (out, w1\<lparr>wk_metrics := od_set rid m2 (wk_metrics w1)\<rparr>, s')"
    using path d(2) m(1) run r1 r2 take by (simp add: execute_selected_forward_def Let_def)
  then show ?thesis using w1(3) by (intro exI[of _ "w1\<lparr>wk_metrics := od_set rid m2 (wk_metrics w1)\<rparr>"]) (simp add: m2_def m1_def)
qed

text \<open>C9. Reuse does not change the result.  Let a single request be prefilled under the supported
  conditions with a reused token before the last row, let the model be causal (each span reads the
  entries below it and its own rows), and let the entries of the reused rows be those of a full
  pass.  Then the step runs to its end over the spans without error, gives every row without
  reuse, and the last one, the hidden state of the full pass and the other rows the placeholder,
  and leaves in the cache what the full pass leaves.\<close>

theorem eligible_forward:
  assumes ib: "single_prefill ib rid computed n" and fits: "batch_fits cond [rid] [True]"
    and reused: "od_get (wk_reused_tokens w) rid = Some ix" "sorted_unique ix" "\<exists>r < n - 1. computed + r \<in> set ix"
    and m: "od_get (wk_metrics w) rid = Some m"
    and fit: "inputs_fit (take n (ib_input_ids ib)) (take n (ib_positions ib)) (first_cols n slots) tables" "n \<le> total_rows"
    and meta: "\<forall>a. build_attn a = Inr (meta a)"
    and clock: "0 \<le> t" "0 \<le> u" "0 \<le> v" "\<forall>t. od_get (wk_copy_events w) rid = Some t \<longrightarrow> 0 \<le> t"
    and causal: "\<forall>sp. sp_start sp < sp_end sp \<and> sp_end sp \<le> n \<longrightarrow> causal_step shape hid kv entry model
      (step_of meta (take n (ib_input_ids ib)) (take n (ib_positions ib)) (first_cols n slots) tables computed sp)"
    and entries: "\<forall>r < n - 1. computed + r \<in> set ix \<longrightarrow> entry s r = kv r"
  shows "\<exists>out w' s'. forward_step cond build_attn zero_row model execute_full (t, u, v) ib tables slots total_rows w s = Inr (out, w', s') \<and>
    length (so_rows out) = total_rows \<and>
    (\<forall>r < n. so_rows out ! r = (if computed + r \<notin> set ix \<or> r = n - 1 then hid r else zero_row shape)) \<and>
    (\<forall>r < n. entry s' r = kv r) \<and> wk_path w' = Spans \<and>
    (\<exists>m'. od_get (wk_metrics w') rid = Some m' \<and> me_compacted_batch_executed m')"
proof -
  let ?step = "step_of meta (take n (ib_input_ids ib)) (take n (ib_positions ib)) (first_cols n slots) tables computed"
  obtain rows_by d rows spans where
    p: "prepare_reuse_rows cond ib w = Inr (w\<lparr>wk_reused_rows := rows_by, wk_decision := d, wk_compute_rows := rows,
        wk_metrics := od_set rid (decided_metrics d rows m) (wk_metrics w)\<rparr>)" and
    d: "bd_eligible d" "bd_request_id d = Some rid" and rows: "rows \<noteq> []" "sorted_unique rows"
      "set rows = {r. r < n \<and> (computed + r \<notin> set ix \<or> r = n - 1)}" and
    spans: "build_partial_reuse_compute_spans rows n = Inr spans" "spans \<noteq> []" "concat (map span_rows spans) = rows" "separated spans"
    using eligible_prepared[OF ib reused fits] m by blast
  define w1 where "w1 = w\<lparr>wk_reused_rows := rows_by, wk_decision := d, wk_compute_rows := rows,
        wk_metrics := od_set rid (decided_metrics d rows m) (wk_metrics w)\<rparr>"
  have w1: "bd_eligible (wk_decision w1)" "bd_request_id (wk_decision w1) = Some rid" "wk_compute_rows w1 = rows"
    "od_get (wk_metrics w1) rid = Some (decided_metrics d rows m)" "wk_copy_events w1 = wk_copy_events w"
    using d by (simp_all add: w1_def)
  have in_batch: "\<forall>r \<in> set rows. r < n" using rows(3) by auto
  have cr: "me_compute_batch_rows (decided_metrics d rows m) = length rows" by (simp add: decided_metrics_def)
  obtain w2 w3 where
    s: "record_compacted_batch t ib tables slots w1 = Inr w2" "record_span_attention_metadata build_attn u w2 = Inr w3" and
    w3: "wk_decision w3 = wk_decision w1" "wk_copy_events w3 = wk_copy_events w1" "wk_steps w3 = map ?step spans"
      "od_get (wk_metrics w3) rid = Some (built_metrics (length spans) t u (decided_metrics d rows m))"
    using eligible_steps[OF ib fit(1) w1(1,2,3) rows(1,2) in_batch spans w1(4) cr meta clock(1,2)] by blast
  let ?w = "w3\<lparr>wk_path := Spans\<rparr>"
  have within: "sp_start sp < sp_end sp \<and> sp_end sp \<le> n" if "sp \<in> set spans" for sp
  proof -
    have ne: "sp_start sp < sp_end sp" by (rule separated_nonempty[OF spans(4) that])
    then have "sp_end sp - 1 \<in> set (span_rows sp)" by auto
    then have "sp_end sp - 1 \<in> set rows" using that unfolding spans(3)[symmetric] by auto
    then show ?thesis using ne in_batch by fastforce
  qed
  have R: "rows_of_steps (wk_steps ?w) = set rows"
  proof -
    have "wk_steps ?w = map ?step spans" by (simp add: w3(3))
    then show ?thesis unfolding spans(3)[symmetric] by (simp only: rows_of_spans)
  qed
  have entry_ok: "\<forall>r < n. r \<notin> rows_of_steps (wk_steps ?w) \<longrightarrow> entry s r = kv r"
    unfolding R rows(3) using entries by auto
  obtain out s' where run: "execute_and_stitch zero_row model total_rows ?w s = Inr (out, s')" "length (so_rows out) = total_rows"
      "\<forall>r < total_rows. so_rows out ! r = (if r \<in> rows_of_steps (wk_steps ?w) then hid r else zero_row shape)"
      "\<forall>r < n. entry s' r = kv r"
  proof -
    have ord: "spans_ordered 0 (map es_span (wk_steps ?w))"
      using separated_ordered[OF spans(4), of 0] by (simp add: w3(3) comp_def split: list.split)
    have "\<forall>st \<in> set (wk_steps ?w). sp_start (es_span st) < sp_end (es_span st) \<and> sp_end (es_span st) \<le> n \<and>
      t2_cols (es_slot_mappings st) = sp_end (es_span st) - sp_start (es_span st) \<and> causal_step shape hid kv entry model st"
      using within causal by (simp add: w3(3))
    note steps_ok = this
    have ne: "wk_steps ?w \<noteq> []" using spans(2) by (simp add: w3(3))
    from execute_and_stitch_causal[OF ne ord steps_ok entry_ok fit(2), of zero_row] show thesis using that by blast
  qed
  obtain w' where w': "execute_selected_forward zero_row model execute_full v total_rows False w3 s = Inr (out, w', s')" "wk_path w' = Spans"
      "\<exists>m'. od_get (wk_metrics w') rid = Some m' \<and> me_compacted_batch_executed m'"
    using spans_forward[OF _ _ _ w3(4) _ _ _ clock(3) _ run(1), of execute_full] w1(1,2) spans(2) clock(4)
    by (auto simp: w3(1,2,3) w1(5) built_metrics_def)
  have "forward_step cond build_attn zero_row model execute_full (t, u, v) ib tables slots total_rows w s = Inr (out, w', s')"
    using p s w'(1) by (simp add: forward_step_def w1_def[symmetric])
  moreover have "\<forall>r < n. so_rows out ! r = (if computed + r \<notin> set ix \<or> r = n - 1 then hid r else zero_row shape)"
    using run(3) fit(2) unfolding R rows(3) by auto
  ultimately show ?thesis using run(2,4) w'(2,3) by blast
qed

lemma take_metrics_gone: "rid \<in> set rids \<Longrightarrow> od_get (snd (take_metrics rids pending)) rid = None"
proof (induction rids arbitrary: pending)
  case (Cons r rids)
  have keeps: "od_get pending rid = None \<Longrightarrow> od_get (snd (take_metrics rids pending)) rid = None" for pending
    by (induction rids arbitrary: pending) (auto split: option.split prod.split simp: case_prod_unfold)
  show ?case using Cons keeps by (auto split: option.split simp: case_prod_unfold)
qed simp

lemma taken_state:
  "wk_reused_tokens (snd (take_repair_metrics rids w)) = wk_reused_tokens w"
  "rid \<in> set rids \<Longrightarrow> od_get (wk_metrics (snd (take_repair_metrics rids w))) rid = None"
  using take_metrics_gone[of rid rids "wk_metrics w"] by (simp_all add: take_repair_metrics_def case_prod_unfold)

text \<open>C15. A later chunk of a prefill can bring the worker down.  The metrics of a request leave with the
  output of its first step, its reused tokens stay.  If a later chunk, alone in its batch and under
  the supported conditions, has a reused token before its last row (a block that straddles the
  chunks), the compacted batch is built and its handler then raises because the metrics are gone.\<close>

theorem later_chunk_raises:
  assumes "rid \<in> set rids" "single_prefill ib rid computed n" "batch_fits cond [rid] [True]"
    and "od_get (wk_reused_tokens w) rid = Some ix" "sorted_unique ix" "\<exists>r < n - 1. computed + r \<in> set ix"
    and "inputs_fit (take n (ib_input_ids ib)) (take n (ib_positions ib)) (first_cols n slots) tables"
  shows "forward_step cond build_attn zero_row model execute_full (t, u, v) ib tables slots total_rows
      (snd (take_repair_metrics rids w)) s = Inl (ValueError ''eligible compact batch requires request metrics'')"
proof -
  let ?w = "snd (take_repair_metrics rids w)"
  have none: "od_get (wk_metrics ?w) rid = None" using taken_state(2)[OF assms(1)] .
  have tokens: "od_get (wk_reused_tokens ?w) rid = Some ix" using assms(4) by (simp add: taken_state(1))
  obtain rows_by d rows spans where
    p: "\<forall>pending. decision_metrics d rows [(rid, n)] (wk_metrics ?w) = Inr pending \<longrightarrow>
      prepare_reuse_rows cond ib ?w = Inr (?w\<lparr>wk_reused_rows := rows_by, wk_decision := d, wk_compute_rows := rows,
        wk_metrics := pending\<rparr>)" and
    d: "bd_eligible d" "bd_request_id d = Some rid" and rows: "rows \<noteq> []" "sorted_unique rows"
      "set rows = {r. r < n \<and> (computed + r \<notin> set ix \<or> r = n - 1)}" and
    spans: "build_partial_reuse_compute_spans rows n = Inr spans" "spans \<noteq> []" "concat (map span_rows spans) = rows" "separated spans"
    using eligible_prepared[OF assms(2) tokens assms(5,6,3)] by blast
  have f: "ib_req_ids ib = [rid]" "ib_num_tokens ib = n" "take 2 (ib_query_start ib) = [0, n]" "ib_num_computed ib = [computed]"
    "length (take n (ib_input_ids ib)) = n" using assms(2) by (simp_all add: single_prefill_def)
  have in_batch: "\<forall>r \<in> set rows. r < n" using rows(3) by auto
  obtain batch where "build_partial_reuse_compacted_batch (take n (ib_input_ids ib)) (take n (ib_positions ib)) (first_cols n slots)
      tables [0, n] rows computed = Inr batch"
    using compacted_ok[OF assms(7) f(5) rows(1,2) in_batch spans] by blast
  moreover have "decision_metrics d rows [(rid, n)] (wk_metrics ?w) = Inr (wk_metrics ?w)" using none by simp
  ultimately show ?thesis using p d none f
    by (simp add: forward_step_def record_compacted_batch_def Let_def numeral_2_eq_2)
qed

section \<open>An example\<close>

text \<open>The plan of two blocks of two tokens: block 1 is reused.  Its prompt has five tokens.\<close>

definition demo_conditions :: batch_conditions where
  "demo_conditions = \<lparr>execution_enabled = True, prompt_logprobs = False, single_gpu = True, eager_execution = True,
    supported_kv_layout = True, speculative_decoding = False, multimodal_model = False, encoder_decoder_model = False,
    pooling_model = False\<rparr>"

definition demo_batch :: "nat \<Rightarrow> nat \<Rightarrow> input_batch" where
  "demo_batch computed n = \<lparr>ib_req_ids = [''b''], ib_num_tokens = n, ib_query_start = [0, n], ib_num_computed = [computed],
    ib_num_scheduled = [n], ib_is_prefilling = [True], ib_input_ids = replicate n 0, ib_positions = [computed..<computed + n]\<rparr>"

definition demo_slots :: "nat \<Rightarrow> int tensor2" where
  "demo_slots n = \<lparr>t2_cols = n, t2_rows = [replicate n 0]\<rparr>"

definition demo_worker :: "attention_inputs worker" where
  "demo_worker = (case add_request_state (EditProximityRepair 0) ''edit_proximity'' 1 None ''b'' (Some demo_plan) [[10, 11]] 5 worker_init of
     Inr w \<Rightarrow> w | Inl _ \<Rightarrow> worker_init)"

text \<open>A model whose hidden state is the row and whose entry is ten times the row.\<close>

definition demo_model :: "attention_inputs execution_step \<Rightarrow> (nat \<Rightarrow> nat) \<Rightarrow> (nat span_output \<times> (nat \<Rightarrow> nat)) res" where
  "demo_model st s = Inr (\<lparr>so_trailing = [1], so_rows = map id (span_rows (es_span st))\<rparr>,
     \<lambda>r. if r \<in> set (span_rows (es_span st)) then 10 * r else s r)"

lemma demo_added:
  "od_get (wk_reused_tokens demo_worker) ''b'' = Some [2, 3] \<and> od_get (wk_metrics demo_worker) ''b'' \<noteq> None \<and> wk_copy_events demo_worker = []"
  by code_simp

lemma demo_fits: "batch_fits demo_conditions [''b''] [True]"
  by (simp add: batch_fits_def demo_conditions_def)

lemma demo_single: "single_prefill (demo_batch computed n) ''b'' computed n"
  by (simp add: single_prefill_def demo_batch_def)

lemma demo_inputs:
  "inputs_fit (take n (ib_input_ids (demo_batch computed n))) (take n (ib_positions (demo_batch computed n)))
    (first_cols n (demo_slots n)) [demo_slots n]"
  by (simp add: inputs_fit_def demo_batch_def demo_slots_def first_cols_def t2_ok_def)

lemma eligible_forward_witness:
  "\<exists>out w' s'. forward_step demo_conditions Inr (\<lambda>_. 99) demo_model (\<lambda>_. Inl StopIteration) (0, 0, 0) (demo_batch 0 5) [demo_slots 5]
      (demo_slots 5) 5 demo_worker (\<lambda>r. 10 * r) = Inr (out, w', s') \<and>
    so_rows out ! 1 = 1 \<and> so_rows out ! 2 = 99 \<and> so_rows out ! 4 = 4 \<and> s' 1 = 10"
proof -
  obtain m where m: "od_get (wk_metrics demo_worker) ''b'' = Some m" using demo_added by blast
  have tokens: "od_get (wk_reused_tokens demo_worker) ''b'' = Some [2, 3]" "wk_copy_events demo_worker = []" using demo_added by auto
  have ix: "sorted_unique [2, 3 :: nat]" "\<exists>r < 5 - 1. 0 + r \<in> set [2, 3 :: nat]"
    by (auto simp: sorted_unique_strict intro!: exI[of _ 2])
  have meta: "\<forall>a. Inr a = Inr (id a)" by simp
  have causal: "\<forall>sp. sp_start sp < sp_end sp \<and> sp_end sp \<le> 5 \<longrightarrow> causal_step [1] id (\<lambda>r. 10 * r) (\<lambda>s. s) demo_model
      (step_of id (take 5 (ib_input_ids (demo_batch 0 5))) (take 5 (ib_positions (demo_batch 0 5))) (first_cols 5 (demo_slots 5))
        [demo_slots 5] 0 sp)"
    by (simp add: causal_step_def demo_model_def)
  have run: "\<exists>out w' s'. forward_step demo_conditions Inr (\<lambda>_. 99) demo_model (\<lambda>_. Inl StopIteration) (0, 0, 0) (demo_batch 0 5)
      [demo_slots 5] (demo_slots 5) 5 demo_worker (\<lambda>r. 10 * r) = Inr (out, w', s') \<and>
    length (so_rows out) = 5 \<and>
    (\<forall>r < 5. so_rows out ! r = (if 0 + r \<notin> set [2, 3] \<or> r = 5 - 1 then id r else (\<lambda>_. 99) [1])) \<and>
    (\<forall>r < 5. s' r = 10 * r) \<and> wk_path w' = Spans \<and> (\<exists>m'. od_get (wk_metrics w') ''b'' = Some m' \<and> me_compacted_batch_executed m')"
    by (rule eligible_forward[OF demo_single demo_fits tokens(1) ix m demo_inputs order_refl meta _ _ _ _ causal])
      (simp_all add: tokens(2))
  then show ?thesis by auto
qed

lemma later_chunk_raises_witness:
  "forward_step demo_conditions Inr (\<lambda>_. 99) demo_model (\<lambda>_. Inl StopIteration) (0, 0, 0) (demo_batch 3 2) [demo_slots 2]
      (demo_slots 2) 2 (snd (take_repair_metrics [''b''] demo_worker)) (\<lambda>r. 10 * r) =
    Inl (ValueError ''eligible compact batch requires request metrics'')"
proof (rule later_chunk_raises[OF _ demo_single demo_fits _ _ _ demo_inputs])
  show "od_get (wk_reused_tokens demo_worker) ''b'' = Some [2, 3]" using demo_added by blast
  show "sorted_unique [2, 3 :: nat]" by (simp add: sorted_unique_strict)
  show "\<exists>r < 2 - 1. 3 + r \<in> set [2, 3 :: nat]" by simp
qed simp

end
