(* ===== verification/KvProps.thy ===== *)
theory KvProps
  imports KvCopies RepairProps
begin

text \<open>
  What the copies of a plan do to the KV cache: every target block gets the source window of its
  instruction, moved to its position, and no other block changes; for a plan of the locator the
  target blocks then hold the entries of the prompt's own tokens.
\<close>

section \<open>Indexed writes\<close>

lemma write_blocks_frame:
  "length (write_blocks ws bl) = length bl" "b \<notin> fst ` set ws \<Longrightarrow> write_blocks ws bl ! b = bl ! b"
proof -
  show "length (write_blocks ws bl) = length bl"
    unfolding write_blocks_def by (induction ws arbitrary: bl) auto
  show "b \<notin> fst ` set ws \<Longrightarrow> write_blocks ws bl ! b = bl ! b"
    unfolding write_blocks_def by (induction ws arbitrary: bl) (auto simp: nth_list_update_neq)
qed

lemma write_blocks_hit:
  assumes "distinct (map fst ws)" "(b, vs) \<in> set ws" "b < length bl"
  shows "write_blocks ws bl ! b = vs"
  using assms
proof (induction ws arbitrary: bl)
  case (Cons w ws)
  obtain b' vs' where w: "w = (b', vs')" by (cases w)
  have step: "write_blocks (w # ws) bl = write_blocks ws (bl[b' := vs'])" by (simp add: write_blocks_def w)
  show ?case
  proof (cases "(b, vs) \<in> set ws")
    case True
    then show ?thesis using Cons unfolding step by simp
  next
    case False
    then have b: "b' = b" "vs' = vs" using Cons.prems(2) w by auto
    then have "b \<notin> fst ` set ws" using Cons.prems(1) w by simp
    then show ?thesis using Cons.prems(3) b unfolding step by (simp add: write_blocks_frame(2))
  qed
qed simp

lemma block_in_length: "block_in (length bl) b \<Longrightarrow> \<forall>v \<in> set bl. length v = bs \<Longrightarrow> length (bl ! nat b) = bs"
  by (simp add: block_in_def nat_less_iff)

text \<open>Writing one block per instruction.\<close>

definition written :: "(copy_instruction \<Rightarrow> 'v list) \<Rightarrow> copy_instruction list \<Rightarrow> 'v list list \<Rightarrow> 'v list list" where
  "written f instrs bl = write_blocks (map (\<lambda>i. (nat (ci_target_block_id i), f i)) instrs) bl"

definition targets_in :: "nat \<Rightarrow> copy_instruction list \<Rightarrow> bool" where
  "targets_in n instrs \<longleftrightarrow> distinct (map ci_target_block_id instrs) \<and> (\<forall>i \<in> set instrs. block_in n (ci_target_block_id i))"

lemma targets_in_filter: "targets_in n instrs \<Longrightarrow> targets_in n (filter P instrs)"
  by (auto simp: targets_in_def distinct_map_filter)

lemma targets_in_nat:
  assumes "targets_in n instrs"
  shows "inj_on (\<lambda>i. nat (ci_target_block_id i)) (set instrs)" "distinct (map (\<lambda>i. nat (ci_target_block_id i)) instrs)"
proof -
  have inj: "inj_on ci_target_block_id (set instrs)" and d: "distinct instrs"
    using assms by (simp_all add: targets_in_def distinct_map)
  show "inj_on (\<lambda>i. nat (ci_target_block_id i)) (set instrs)"
  proof (rule inj_onI)
    fix i j assume ij: "i \<in> set instrs" "j \<in> set instrs" "nat (ci_target_block_id i) = nat (ci_target_block_id j)"
    then have "0 \<le> ci_target_block_id i" "0 \<le> ci_target_block_id j" using assms by (auto simp: targets_in_def block_in_def)
    then have "ci_target_block_id i = ci_target_block_id j" using ij(3) by linarith
    then show "i = j" using inj ij by (auto dest: inj_onD)
  qed
  then show "distinct (map (\<lambda>i. nat (ci_target_block_id i)) instrs)" using d by (simp add: distinct_map)
qed

lemma written_at:
  assumes "targets_in (length bl) instrs"
  shows "length (written f instrs bl) = length bl"
    and "i \<in> set instrs \<Longrightarrow> written f instrs bl ! nat (ci_target_block_id i) = f i"
    and "\<forall>i \<in> set instrs. nat (ci_target_block_id i) \<noteq> b \<Longrightarrow> written f instrs bl ! b = bl ! b"
proof -
  show "length (written f instrs bl) = length bl" by (simp add: written_def write_blocks_frame)
  show "written f instrs bl ! nat (ci_target_block_id i) = f i" if "i \<in> set instrs"
  proof -
    have "nat (ci_target_block_id i) < length bl" using assms that by (auto simp: targets_in_def block_in_def)
    then show ?thesis unfolding written_def
      using targets_in_nat(2)[OF assms] that by (intro write_blocks_hit) (auto simp: comp_def)
  qed
  show "written f instrs bl ! b = bl ! b" if "\<forall>i \<in> set instrs. nat (ci_target_block_id i) \<noteq> b"
    unfolding written_def using that by (intro write_blocks_frame(2)) auto
qed

section \<open>The copies of a step\<close>

text \<open>The source window of an instruction, as the cache was before.\<close>

definition instr_window :: "nat \<Rightarrow> 'v list list \<Rightarrow> copy_instruction \<Rightarrow> 'v list" where
  "instr_window bs bl i =
     map (\<lambda>p. let q = ci_source_block_offset i + p
              in bl ! nat (ci_physical_source_block_ids i ! (q div bs)) ! (q mod bs)) [0..<bs]"

definition copies_valid :: "nat \<Rightarrow> nat \<Rightarrow> copy_instruction list \<Rightarrow> bool" where
  "copies_valid bs n instrs \<longleftrightarrow> targets_in n instrs \<and>
     (\<forall>i \<in> set instrs. ci_source_block_offset i < bs \<and>
        length (ci_physical_source_block_ids i) = (if ci_source_block_offset i = 0 then 1 else 2) \<and>
        ci_source_block_id i = hd (ci_physical_source_block_ids i) \<and>
        (\<forall>s \<in> set (ci_physical_source_block_ids i). block_in n s \<and> s \<notin> ci_target_block_id ` set instrs))"

definition caches_ok :: "nat \<Rightarrow> nat \<Rightarrow> 'v kv_tensor list \<Rightarrow> bool" where
  "caches_ok bs n caches \<longleftrightarrow> caches \<noteq> [] \<and>
     (\<forall>c \<in> set caches. kt_block_size c = bs \<and> length (kt_blocks c) = n \<and> (\<forall>b \<in> set (kt_blocks c). length b = bs))"

lemma gather_is_window:
  assumes "ci_source_block_offset i < bs" "length (ci_physical_source_block_ids i) = 2"
  shows "gather_block bs bl i = instr_window bs bl i"
  unfolding gather_block_def instr_window_def
proof (rule map_cong[OF refl])
  fix p assume "p \<in> set [0..<bs]"
  then have p: "p < bs" by simp
  have "(ci_source_block_offset i + p) div bs = (if ci_source_block_offset i + p < bs then 0 else 1)"
    using p assms(1) by (auto intro!: div_nat_eqI)
  then show "(let q = ci_source_block_offset i + p;
        source = if q < bs then ci_physical_source_block_ids i ! 0 else ci_physical_source_block_ids i ! 1
      in bl ! nat source ! (q mod bs)) =
    (let q = ci_source_block_offset i + p in bl ! nat (ci_physical_source_block_ids i ! (q div bs)) ! (q mod bs))"
    by (auto simp: Let_def)
qed

lemma aligned_window:
  assumes "ci_source_block_offset i = 0" "ci_source_block_id i = hd (ci_physical_source_block_ids i)"
    "ci_physical_source_block_ids i \<noteq> []" "length (bl ! nat (ci_source_block_id i)) = bs"
  shows "instr_window bs bl i = bl ! nat (ci_source_block_id i)"
  using assms by (auto simp: instr_window_def hd_conv_nth intro!: nth_equalityI)

text \<open>The rotation by the distance moved, when it is switched on.\<close>

definition carry :: "(int \<Rightarrow> 'v \<Rightarrow> 'v) \<Rightarrow> bool \<Rightarrow> nat \<Rightarrow> copy_instruction \<Rightarrow> 'v \<Rightarrow> 'v" where
  "carry rot correct bs i = (if correct \<and> moved_by bs i \<noteq> 0 then rot (moved_by bs i) else id)"

definition landed :: "(int \<Rightarrow> 'v \<Rightarrow> 'v) \<Rightarrow> bool \<Rightarrow> nat \<Rightarrow> copy_instruction list \<Rightarrow> 'v kv_tensor \<Rightarrow> 'v kv_tensor \<Rightarrow> bool" where
  "landed rot correct bs instrs c c' \<longleftrightarrow> length (kt_blocks c') = length (kt_blocks c) \<and>
     (\<forall>i \<in> set instrs. kt_blocks c' ! nat (ci_target_block_id i) = map (carry rot correct bs i) (instr_window bs (kt_blocks c) i)) \<and>
     (\<forall>b. int b \<notin> ci_target_block_id ` set instrs \<longrightarrow> kt_blocks c' ! b = kt_blocks c ! b)"

definition copy_setup :: "copy_config \<Rightarrow> nat \<Rightarrow> (string, reuse_plan) odict \<Rightarrow> (string \<times> copy_instruction list) list \<Rightarrow> 'v kv_tensor list \<Rightarrow> bool" where
  "copy_setup cfg bs plans by_request caches \<longleftrightarrow> cache_block_size cfg = bs \<and>
     (\<forall>(rid, instrs) \<in> set by_request. instrs \<noteq> [] \<longrightarrow> (\<exists>plan. od_get plans rid = Some plan \<and> pp_block_size plan = bs)) \<and>
     (correct_kv_positions cfg \<longrightarrow> standard_qwen3_rope cfg \<and> 2 \<le> qwen3_head_size cfg \<and> qwen3_head_size cfg mod 2 = 0 \<and>
        0 < qwen3_rope_theta cfg \<and> (\<forall>c \<in> set caches. kt_width c = 2 * qwen3_head_size cfg))"

lemma repack_lands:
  assumes "copies_valid bs n instrs" "caches_ok bs n caches" "\<forall>i \<in> set instrs. ci_source_block_offset i \<noteq> 0"
  shows "repack_kv_cache_blocks_inplace instrs bs caches =
    Inr (map (\<lambda>c. c\<lparr>kt_blocks := written (instr_window bs (kt_blocks c)) instrs (kt_blocks c)\<rparr>) caches)"
proof (cases "instrs = []")
  case True
  then show ?thesis by (simp add: repack_kv_cache_blocks_inplace_def written_def write_blocks_def)
next
  case False
  have v: "ci_source_block_offset i < bs" "length (ci_physical_source_block_ids i) = 2" "repack_ok bs n i" if "i \<in> set instrs" for i
    using assms(1,3) that by (auto simp: copies_valid_def repack_ok_def targets_in_def list_all_iff)
  have "1 \<le> bs" using False v(1)[of "hd instrs"] by simp
  moreover have "length (kt_blocks (hd caches)) = n" "caches \<noteq> []" using assms(2) by (auto simp: caches_ok_def)
  moreover have "list_all (\<lambda>c. kt_block_size c = bs) caches" "list_all (\<lambda>c. length (kt_blocks c) = n) caches"
    using assms(2) by (auto simp: caches_ok_def list_all_iff)
  moreover have "list_all (repack_ok bs n) instrs" using v(3) by (simp add: list_all_iff)
  moreover have w: "map (\<lambda>i. (nat (ci_target_block_id i), gather_block bs bl i)) instrs =
      map (\<lambda>i. (nat (ci_target_block_id i), instr_window bs bl i)) instrs" for bl :: "'a list list"
    using v(1,2) by (auto intro!: gather_is_window)
  ultimately show ?thesis using False unfolding repack_kv_cache_blocks_inplace_def written_def w by simp
qed

lemma copy_lands:
  assumes "targets_in n instrs" "\<forall>i \<in> set instrs. block_in n (ci_source_block_id i)" "\<forall>c \<in> set caches. length (kt_blocks c) = n"
  shows "copy_kv_cache_blocks_inplace (map (\<lambda>i. (ci_source_block_id i, ci_target_block_id i)) instrs) caches =
    Inr (map (\<lambda>c. c\<lparr>kt_blocks := written (\<lambda>i. kt_blocks c ! nat (ci_source_block_id i)) instrs (kt_blocks c)\<rparr>) caches)"
proof (cases "instrs = [] \<or> caches = []")
  case True
  then show ?thesis by (auto simp: copy_kv_cache_blocks_inplace_def written_def write_blocks_def)
next
  case False
  have "list_all (\<lambda>(src, dst). block_in (length (kt_blocks c)) src \<and> block_in (length (kt_blocks c)) dst)
      (map (\<lambda>i. (ci_source_block_id i, ci_target_block_id i)) instrs)" if "c \<in> set caches" for c
    using assms that by (auto simp: targets_in_def list_all_iff)
  then have "map_res (\<lambda>c.
        bind_res (check_res (list_all (\<lambda>(src, dst). block_in (length (kt_blocks c)) src \<and> block_in (length (kt_blocks c)) dst)
            (map (\<lambda>i. (ci_source_block_id i, ci_target_block_id i)) instrs)) (IndexError ''index is out of bounds''))
          (\<lambda>_. Inr (c\<lparr>kt_blocks := write_blocks (map (\<lambda>(src, dst). (nat dst, kt_blocks c ! nat src))
              (map (\<lambda>i. (ci_source_block_id i, ci_target_block_id i)) instrs)) (kt_blocks c)\<rparr>))) caches =
      Inr (map (\<lambda>c. c\<lparr>kt_blocks := write_blocks (map (\<lambda>(src, dst). (nat dst, kt_blocks c ! nat src))
              (map (\<lambda>i. (ci_source_block_id i, ci_target_block_id i)) instrs)) (kt_blocks c)\<rparr>) caches)"
    by (intro map_res_total) simp
  then show ?thesis using False by (simp add: copy_kv_cache_blocks_inplace_def written_def comp_def)
qed

lemma correct_lands:
  assumes "targets_in n instrs" "caches_ok bs n caches"
    and "2 \<le> head_size" "head_size mod 2 = 0" "0 < theta" "\<forall>c \<in> set caches. kt_width c = 2 * head_size"
  shows "correct_qwen3_kv_positions_inplace rot instrs bs head_size theta caches =
    Inr (map (\<lambda>c. c\<lparr>kt_blocks := written (\<lambda>i. map (rot (moved_by bs i)) (kt_blocks c ! nat (ci_target_block_id i)))
        (filter (\<lambda>i. moved_by bs i \<noteq> 0) instrs) (kt_blocks c)\<rparr>) caches)"
proof -
  have m: "(ci_target_block_index i * bs \<noteq> ci_source_block_index i * bs + ci_source_block_offset i) = (moved_by bs i \<noteq> 0)" for i
    unfolding moved_by_def by linarith
  define moved where "moved = filter (\<lambda>i. moved_by bs i \<noteq> 0) instrs"
  have run: "correct_qwen3_kv_positions_inplace rot instrs bs head_size theta caches =
     (if moved = [] then Inr caches
         else bind_res (check_res (2 \<le> head_size \<and> head_size mod 2 = 0 \<and> 0 < theta) (ValueError ''invalid Qwen3 RoPE parameters'')) (\<lambda>_.
           bind_res (check_res (caches \<noteq> [] \<and> list_all (\<lambda>c. kt_block_size c = bs \<and> kt_width c = 2 * head_size) caches)
             (ValueError ''RoPE correction requires a floating-point Qwen3 KV cache'')) (\<lambda>_.
           bind_res (check_res (list_all (\<lambda>c. list_all (\<lambda>i. block_in (length (kt_blocks c)) (ci_target_block_id i)) moved) caches)
             (IndexError ''index is out of bounds'')) (\<lambda>_.
             Inr (map (\<lambda>c. c\<lparr>kt_blocks := written (\<lambda>i. map (rot (moved_by bs i)) (kt_blocks c ! nat (ci_target_block_id i)))
                moved (kt_blocks c)\<rparr>) caches)))))"
    unfolding correct_qwen3_kv_positions_inplace_def m moved_def written_def Let_def by (rule refl)
  show ?thesis
  proof (cases "moved = []")
    case True
    then show ?thesis unfolding run moved_def[symmetric] by (simp add: written_def write_blocks_def)
  next
    case False
    have "caches \<noteq> [] \<and> list_all (\<lambda>c. kt_block_size c = bs \<and> kt_width c = 2 * head_size) caches"
      using assms(2,6) by (auto simp: caches_ok_def list_all_iff)
    moreover have "list_all (\<lambda>c. list_all (\<lambda>i. block_in (length (kt_blocks c)) (ci_target_block_id i)) moved) caches"
      using assms(1,2) by (auto simp: caches_ok_def list_all_iff targets_in_def moved_def)
    ultimately show ?thesis using False assms(3,4,5) unfolding run moved_def[symmetric] by simp
  qed
qed

lemma stages_land:
  fixes bl :: "'v list list" and instrs :: "copy_instruction list" and rot :: "int \<Rightarrow> 'v \<Rightarrow> 'v" and bs :: nat and correct :: bool
  defines "bl1 \<equiv> written (instr_window bs bl) (filter ci_requires_repacking instrs) bl"
  defines "bl2 \<equiv> written (\<lambda>i. bl1 ! nat (ci_source_block_id i)) (filter (\<lambda>i. \<not> ci_requires_repacking i) instrs) bl1"
  defines "bl3 \<equiv> (if correct
      then written (\<lambda>i. map (rot (moved_by bs i)) (bl2 ! nat (ci_target_block_id i))) (filter (\<lambda>i. moved_by bs i \<noteq> 0) instrs) bl2
      else bl2)"
  assumes v: "copies_valid bs (length bl) instrs" and len: "\<forall>b \<in> set bl. length b = bs"
  shows "length bl3 = length bl"
    and "i \<in> set instrs \<Longrightarrow> bl3 ! nat (ci_target_block_id i) = map (carry rot correct bs i) (instr_window bs bl i)"
    and "int b \<notin> ci_target_block_id ` set instrs \<Longrightarrow> bl3 ! b = bl ! b"
proof -
  have T: "targets_in (length bl) instrs" using v by (simp add: copies_valid_def)
  note T1 = targets_in_filter[OF T, of ci_requires_repacking]
  note w1 = written_at[OF T1, where f = "instr_window bs bl", folded bl1_def]
  have T2: "targets_in (length bl1) (filter (\<lambda>i. \<not> ci_requires_repacking i) instrs)"
    using targets_in_filter[OF T] by (simp add: w1(1))
  note w2 = written_at[OF T2, where f = "\<lambda>i. bl1 ! nat (ci_source_block_id i)", folded bl2_def]
  have T3: "targets_in (length bl2) (filter (\<lambda>i. moved_by bs i \<noteq> 0) instrs)"
    using targets_in_filter[OF T] by (simp add: w1(1) w2(1))
  note w3 = written_at[OF T3, where f = "\<lambda>i. map (rot (moved_by bs i)) (bl2 ! nat (ci_target_block_id i))"]
  have other: "nat (ci_target_block_id j) \<noteq> nat (ci_target_block_id i)" if "i \<in> set instrs" "j \<in> set instrs" "j \<noteq> i" for i j
    using targets_in_nat(1)[OF T] that by (auto dest: inj_onD)
  have untouched: "nat (ci_target_block_id j) \<noteq> b" if "j \<in> set instrs" "int b \<notin> ci_target_block_id ` set instrs" for j b
  proof
    assume "nat (ci_target_block_id j) = b"
    moreover have "0 \<le> ci_target_block_id j" using T that(1) by (simp add: targets_in_def block_in_def)
    ultimately have "int b = ci_target_block_id j" by simp
    with that show False by auto
  qed
  have copied: "bl2 ! nat (ci_target_block_id i) = instr_window bs bl i" if i: "i \<in> set instrs" for i
  proof (cases "ci_requires_repacking i")
    case True
    have "\<forall>j \<in> set (filter (\<lambda>i. \<not> ci_requires_repacking i) instrs). nat (ci_target_block_id j) \<noteq> nat (ci_target_block_id i)"
      using other[OF i] True by auto
    then have "bl2 ! nat (ci_target_block_id i) = bl1 ! nat (ci_target_block_id i)" by (rule w2(3))
    then show ?thesis using w1(2)[of i] i True by simp
  next
    case False
    have phys: "ci_source_block_offset i = 0" "ci_source_block_id i = hd (ci_physical_source_block_ids i)"
      "\<forall>s \<in> set (ci_physical_source_block_ids i). block_in (length bl) s \<and> s \<notin> ci_target_block_id ` set instrs"
      "length (ci_physical_source_block_ids i) = (if ci_source_block_offset i = 0 then 1 else 2)"
      using v i False unfolding copies_valid_def ci_requires_repacking_def by blast+
    then have ne: "ci_physical_source_block_ids i \<noteq> []" by (auto split: if_splits)
    then have src: "block_in (length bl) (ci_source_block_id i)" "ci_source_block_id i \<notin> ci_target_block_id ` set instrs" using phys(2,3) ne by simp_all
    then have "int (nat (ci_source_block_id i)) \<notin> ci_target_block_id ` set instrs" by (simp add: block_in_def)
    then have "bl1 ! nat (ci_source_block_id i) = bl ! nat (ci_source_block_id i)"
      using untouched by (intro w1(3)) auto
    moreover have "instr_window bs bl i = bl ! nat (ci_source_block_id i)"
      by (rule aligned_window[OF phys(1,2) ne block_in_length[OF src(1) len]])
    ultimately show ?thesis using w2(2)[of i] i False by simp
  qed
  have same: "bl2 ! b = bl ! b" if "int b \<notin> ci_target_block_id ` set instrs" for b
    using w2(3)[of b] w1(3)[of b] untouched[OF _ that] by auto
  show "length bl3 = length bl" by (simp add: bl3_def w3(1) w2(1) w1(1))
  show "bl3 ! nat (ci_target_block_id i) = map (carry rot correct bs i) (instr_window bs bl i)" if i: "i \<in> set instrs"
  proof (cases "correct \<and> moved_by bs i \<noteq> 0")
    case True
    then show ?thesis using w3(2)[of i] i copied[OF i] by (simp add: bl3_def carry_def)
  next
    case False
    have "bl3 ! nat (ci_target_block_id i) = bl2 ! nat (ci_target_block_id i)"
    proof (cases correct)
      case True
      then have "\<forall>j \<in> set (filter (\<lambda>i. moved_by bs i \<noteq> 0) instrs). nat (ci_target_block_id j) \<noteq> nat (ci_target_block_id i)"
        using other[OF i] False by auto
      from w3(3)[OF this] True show ?thesis by (simp add: bl3_def)
    qed (simp add: bl3_def)
    moreover have "carry rot correct bs i = id" using False by (auto simp: carry_def)
    ultimately show ?thesis using copied[OF i] by simp
  qed
  show "bl3 ! b = bl ! b" if "int b \<notin> ci_target_block_id ` set instrs"
    using w3(3)[of b] same[OF that] untouched[OF _ that] by (auto simp: bl3_def)
qed

lemma plan_sizes_ok:
  assumes "\<forall>(rid, instrs) \<in> set by_request. instrs \<noteq> [] \<longrightarrow> (\<exists>plan. od_get plans rid = Some plan \<and> pp_block_size plan = bs)"
  shows "plan_sizes plans by_request = Inr (replicate (length (filter (\<lambda>(_, instrs). list_ex ci_requires_repacking instrs) by_request)) bs)"
proof -
  let ?l = "filter (\<lambda>(_ :: string, instrs). list_ex ci_requires_repacking instrs) by_request"
  have "map_res (\<lambda>(rid, _). case od_get plans rid of Some plan \<Rightarrow> Inr (pp_block_size plan) | None \<Rightarrow> Inl (KeyError rid)) ?l =
      Inr (map (\<lambda>_. bs) ?l)"
  proof (rule map_res_total)
    fix x assume x: "x \<in> set ?l"
    obtain rid instrs where p: "x = (rid, instrs)" by (cases x)
    then have "instrs \<noteq> []" "(rid, instrs) \<in> set by_request" using x by auto
    then show "(case x of (rid, _) \<Rightarrow> case od_get plans rid of Some plan \<Rightarrow> Inr (pp_block_size plan) | None \<Rightarrow> Inl (KeyError rid)) = Inr bs"
      using assms unfolding p by fastforce
  qed
  then show ?thesis by (simp add: plan_sizes_def map_replicate_const)
qed

lemma caches_ok_same:
  assumes "caches_ok bs n caches" "\<And>c. c \<in> set caches \<Longrightarrow> length (f c) = n \<and> (\<forall>b \<in> set (f c). length b = bs)"
  shows "caches_ok bs n (map (\<lambda>c. c\<lparr>kt_blocks := f c\<rparr>) caches)"
  using assms by (auto simp: caches_ok_def)

lemma written_lengths:
  assumes "targets_in (length bl) instrs" "\<forall>b \<in> set bl. length b = bs" "\<forall>i \<in> set instrs. length (f i) = bs"
  shows "\<forall>b \<in> set (written f instrs bl). length b = bs"
proof
  fix v assume "v \<in> set (written f instrs bl)"
  then obtain b where b: "b < length bl" "v = written f instrs bl ! b"
    by (auto simp: in_set_conv_nth written_at(1)[OF assms(1)])
  show "length v = bs"
  proof (cases "\<exists>i \<in> set instrs. nat (ci_target_block_id i) = b")
    case True
    then obtain i where i: "i \<in> set instrs" "nat (ci_target_block_id i) = b" by blast
    have "written f instrs bl ! nat (ci_target_block_id i) = f i" by (rule written_at(2)[OF assms(1) i(1)])
    then show ?thesis using assms(3) i b by simp
  next
    case False
    then have "written f instrs bl ! b = bl ! b" by (intro written_at(3)[OF assms(1)]) auto
    then show ?thesis using b assms(2) by simp
  qed
qed

lemma window_length [simp]: "length (instr_window bs bl i) = bs"
  by (simp add: instr_window_def)

theorem copies_land:
  assumes v: "copies_valid bs n (concat (map snd by_request))" and ok: "caches_ok bs n caches"
    and su: "copy_setup cfg bs plans by_request caches"
    and pairs: "block_copies = map (\<lambda>i. (ci_source_block_id i, ci_target_block_id i))
      (filter (\<lambda>i. \<not> ci_requires_repacking i) (concat (map snd by_request)))"
  shows "\<exists>caches'. copy_operation rot cfg plans by_request block_copies caches = Inr caches' \<and>
    list_all2 (landed rot (correct_kv_positions cfg) bs (concat (map snd by_request))) caches caches'"
proof -
  define instrs where "instrs = concat (map snd by_request)"
  let ?R = "filter ci_requires_repacking instrs" and ?A = "filter (\<lambda>i. \<not> ci_requires_repacking i) instrs"
  let ?M = "filter (\<lambda>i. moved_by bs i \<noteq> 0) instrs"
  define f1 where "f1 c = written (instr_window bs (kt_blocks c)) ?R (kt_blocks c)" for c :: "'a kv_tensor"
  define f2 where "f2 c = written (\<lambda>i. kt_blocks c ! nat (ci_source_block_id i)) ?A (kt_blocks c)" for c :: "'a kv_tensor"
  define f3 where "f3 c = written (\<lambda>i. map (rot (moved_by bs i)) (kt_blocks c ! nat (ci_target_block_id i))) ?M (kt_blocks c)" for c :: "'a kv_tensor"
  define c1 where "c1 = map (\<lambda>c. c\<lparr>kt_blocks := f1 c\<rparr>) caches"
  define c2 where "c2 = map (\<lambda>c. c\<lparr>kt_blocks := f2 c\<rparr>) c1"
  define c3 where "c3 = (if correct_kv_positions cfg then map (\<lambda>c. c\<lparr>kt_blocks := f3 c\<rparr>) c2 else c2)"
  have V: "copies_valid bs n instrs" using v by (simp add: instrs_def)
  have T: "targets_in n instrs" using V by (simp add: copies_valid_def)
  have VR: "copies_valid bs n ?R" using V by (auto simp: copies_valid_def targets_in_filter)
  have len: "length (kt_blocks c) = n" "\<forall>b \<in> set (kt_blocks c). length b = bs" if "c \<in> set caches" for c
    using ok that by (simp_all add: caches_ok_def)
  have ok1: "caches_ok bs n c1"
    unfolding c1_def f1_def using T len
    by (intro caches_ok_same[OF ok] conjI written_lengths) (simp_all add: written_at(1) targets_in_filter)
  have src: "block_in n (ci_source_block_id i)" if "i \<in> set instrs" for i
  proof -
    have i: "ci_source_block_id i = hd (ci_physical_source_block_ids i)" "\<forall>s \<in> set (ci_physical_source_block_ids i). block_in n s"
      "length (ci_physical_source_block_ids i) = (if ci_source_block_offset i = 0 then 1 else 2)"
      using V that unfolding copies_valid_def by blast+
    then have "ci_physical_source_block_ids i \<noteq> []" by (auto split: if_splits)
    with i show ?thesis by simp
  qed
  have len1: "length (kt_blocks c) = n" "\<forall>b \<in> set (kt_blocks c). length b = bs" if "c \<in> set c1" for c
    using ok1 that by (simp_all add: caches_ok_def)
  have ok2: "caches_ok bs n c2"
    unfolding c2_def f2_def using T len1 src
    by (intro caches_ok_same[OF ok1] conjI written_lengths)
      (simp_all add: written_at(1) targets_in_filter block_in_length)
  have s1: "(if ?R \<noteq> [] then bind_res (plan_sizes plans by_request) (\<lambda>sizes.
                 bind_res (check_res (card (set sizes) = 1) (RuntimeError ''KV repacking requires one block size''))
                   (\<lambda>_. repack_kv_cache_blocks_inplace ?R (hd sizes) caches)) else Inr caches) = Inr c1"
  proof (cases "?R = []")
    case True
    then show ?thesis by (simp add: c1_def f1_def written_def write_blocks_def)
  next
    case False
    then obtain i where "i \<in> set instrs" "ci_requires_repacking i" by (auto simp: filter_empty_conv)
    then obtain x where x: "x \<in> set by_request" "i \<in> set (snd x)" by (auto simp: instrs_def)
    then have "(fst x, snd x) \<in> set by_request" "list_ex ci_requires_repacking (snd x)"
      using \<open>ci_requires_repacking i\<close> by (auto simp: list_ex_iff)
    then obtain rid js where i: "(rid, js) \<in> set by_request" "list_ex ci_requires_repacking js" by blast
    then have "filter (\<lambda>(_, instrs). list_ex ci_requires_repacking instrs) by_request \<noteq> []" by (auto simp: filter_empty_conv)
    then obtain k where k: "length (filter (\<lambda>(_, instrs). list_ex ci_requires_repacking instrs) by_request) = Suc k"
      by (cases "length (filter (\<lambda>(_, instrs). list_ex ci_requires_repacking instrs) by_request)") auto
    have "plan_sizes plans by_request = Inr (replicate (Suc k) bs)"
      using plan_sizes_ok[of by_request plans bs] su k by (simp add: copy_setup_def)
    moreover have "card (insert bs (set (replicate k bs))) = 1" by (induction k) simp_all
    moreover have "repack_kv_cache_blocks_inplace ?R bs caches = Inr c1"
      unfolding c1_def f1_def by (rule repack_lands[OF VR ok]) (simp add: ci_requires_repacking_def)
    ultimately show ?thesis using False by simp
  qed
  have s2: "copy_kv_cache_blocks_inplace block_copies c1 = Inr c2"
    unfolding c2_def f2_def pairs instrs_def[symmetric]
    using T src len1(1) by (intro copy_lands[where n = n]) (simp_all add: targets_in_filter)
  have widths: "\<forall>c \<in> set c2. kt_width c = 2 * qwen3_head_size cfg" if "correct_kv_positions cfg"
    using su that by (simp add: copy_setup_def c2_def c1_def)
  have s3: "(if correct_kv_positions cfg
           then bind_res (check_res (standard_qwen3_rope cfg)
                  (RuntimeError ''CacheSelect position correction supports only standard Qwen3 RoPE'')) (\<lambda>_.
                correct_qwen3_kv_positions_inplace rot instrs (cache_block_size cfg) (qwen3_head_size cfg)
                  (qwen3_rope_theta cfg) c2)
           else Inr c2) = Inr c3"
  proof (cases "correct_kv_positions cfg")
    case True
    then show ?thesis using su correct_lands[OF T ok2 _ _ _ widths, of "qwen3_rope_theta cfg" rot]
      by (simp add: copy_setup_def c3_def f3_def)
  qed (simp add: c3_def)
  have run: "copy_operation rot cfg plans by_request block_copies caches = Inr c3"
    unfolding copy_operation_def instrs_def[symmetric] Let_def s1 bind_res.simps s2 s3 by (rule refl)
  have "landed rot (correct_kv_positions cfg) bs instrs c
      (if correct_kv_positions cfg then c\<lparr>kt_blocks := f3 (c\<lparr>kt_blocks := f2 (c\<lparr>kt_blocks := f1 c\<rparr>)\<rparr>)\<rparr>
       else c\<lparr>kt_blocks := f2 (c\<lparr>kt_blocks := f1 c\<rparr>)\<rparr>)" if c: "c \<in> set caches" for c
  proof -
    have Vc: "copies_valid bs (length (kt_blocks c)) instrs" using V len(1)[OF c] by simp
    note L = stages_land[OF Vc len(2)[OF c], where rot = rot and correct = "correct_kv_positions cfg"]
    show ?thesis
    proof (cases "correct_kv_positions cfg")
      case True
      then have n: "correct_kv_positions cfg = True" by simp
      show ?thesis unfolding landed_def n if_True
        by (intro conjI ballI allI impI) (simp_all add: f1_def f2_def f3_def L[unfolded n if_True])
    next
      case False
      have n: "correct_kv_positions cfg = False" using False by simp
      show ?thesis unfolding landed_def n if_False
        by (intro conjI ballI allI impI) (simp_all add: f1_def f2_def L[unfolded n if_False])
    qed
  qed
  then have "list_all2 (landed rot (correct_kv_positions cfg) bs instrs) caches c3"
    by (auto simp: list_all2_conv_all_nth c3_def c2_def c1_def)
  with run show ?thesis unfolding instrs_def by blast
qed

section \<open>Plans of the locator\<close>

text \<open>A window of a source: which source block a position of it lies in.\<close>

lemma window_blocks:
  assumes m: "source_match loc src toks w" and bs: "1 \<le> loc_block_size loc"
    and w: "fst w = k * loc_block_size loc + off" "off < loc_block_size loc"
  shows "length (snd w) = (if off = 0 then 1 else 2)"
    and "j < length (snd w) \<Longrightarrow> snd w ! j \<in> set (sr_blocks src) \<and> sb_block_index (snd w ! j) = k + j"
    and "p < loc_block_size loc \<Longrightarrow> (off + p) div loc_block_size loc < length (snd w)"
proof -
  let ?n = "loc_block_size loc"
  have start: "fst w div ?n = k" using w bs by simp
  have fin: "(fst w + ?n - 1) div ?n = k + (if off = 0 then 0 else 1)"
  proof -
    define x where "x = off + ?n - 1"
    have "fst w + ?n - 1 = k * ?n + x" using w(1) bs by (simp add: x_def)
    then have "(fst w + ?n - 1) div ?n = k + x div ?n" using bs by simp
    then have "(fst w + ?n - 1) div ?n = k + (off + ?n - 1) div ?n" by (simp add: x_def)
    moreover have "(off + ?n - 1) div ?n = (if off = 0 then 0 else 1)" using w(2) bs by (auto intro!: div_nat_eqI)
    ultimately show ?thesis by simp
  qed
  have C: "list_all2 (\<lambda>i b. b \<in> set (sr_blocks src) \<and> sb_block_index b = i)
      [k..<k + (if off = 0 then 0 else 1) + 1] (snd w)"
    using m unfolding source_match_def covers_def start fin by blast
  show len: "length (snd w) = (if off = 0 then 1 else 2)" using list_all2_lengthD[OF C] by (auto split: if_splits)
  show "snd w ! j \<in> set (sr_blocks src) \<and> sb_block_index (snd w ! j) = k + j" if "j < length (snd w)"
  proof -
    have "[k..<k + (if off = 0 then 0 else 1) + 1] ! j = k + j" using that len by (intro nth_upt) (auto split: if_splits)
    with list_all2_nthD2[OF C that] show ?thesis by simp
  qed
  show "(off + p) div ?n < length (snd w)" if "p < ?n"
    using that w(2) len bs by (auto simp: less_mult_imp_div_less div_less_iff_less_mult)
qed

text \<open>The entries of a source, layer by layer: entry \<open>enc k token position\<close> in cache \<open>k\<close>.\<close>

definition holds_source ::
  "(nat \<Rightarrow> int \<Rightarrow> nat \<Rightarrow> 'v) \<Rightarrow> nat \<Rightarrow> source_index \<Rightarrow> 'v kv_tensor list \<Rightarrow> bool" where
  "holds_source enc bs src caches \<longleftrightarrow> (\<forall>k < length caches. \<forall>b \<in> set (sr_blocks src). \<forall>p < bs.
     kt_blocks (caches ! k) ! nat (sb_block_id b) ! p =
       enc k (sr_prompt_token_ids src ! (sb_block_index b * bs + p)) (sb_block_index b * bs + p))"

text \<open>A candidate that stands for a window of \<open>src\<close> with the tokens of its target block.\<close>

definition windowed :: "nat \<Rightarrow> source_index \<Rightarrow> int list \<Rightarrow> reuse_candidate \<Rightarrow> bool" where
  "windowed bs src prompt c \<longleftrightarrow> (let start = pc_source_block_index c * bs + pc_source_block_offset c;
       t = pc_target_block_index c; ids = physical_source_block_ids c
     in pc_source_block_offset c < bs \<and> length ids = (if pc_source_block_offset c = 0 then 1 else 2) \<and>
        pc_source_block_id c = hd ids \<and> t * bs + bs \<le> length prompt \<and>
        (\<forall>p < bs. sr_prompt_token_ids src ! (start + p) = prompt ! (t * bs + p)) \<and>
        (\<forall>j < length ids. \<exists>b \<in> set (sr_blocks src). sb_block_index b = pc_source_block_index c + j \<and> sb_block_id b = ids ! j))"

lemma exact_windowed:
  assumes ex: "exact_candidates pool loc src prompt native cands" and bs: "1 \<le> loc_block_size loc" and c: "c \<in> set cands"
  shows "windowed (loc_block_size loc) src prompt c"
proof -
  let ?n = "loc_block_size loc" and ?t = "pc_target_block_index c"
  obtain w where w: "source_match loc src (target_tokens loc prompt ?t) w" "stands_for pool loc w c"
    using ex c unfolding exact_candidates_def best_match_def by blast
  have st: "fst w = pc_source_block_index c * ?n + pc_source_block_offset c" "pc_source_block_offset c < ?n"
    "physical_source_block_ids c = map sb_block_id (snd w)" "pc_source_block_id c = sb_block_id (hd (snd w))"
    using w(2) by (simp_all add: stands_for_def)
  note B = window_blocks[OF w(1) bs st(1,2)]
  have ne: "snd w \<noteq> []" using B(1) by (auto split: if_splits)
  have "?t \<in> set (map pc_target_block_index cands)" using c by simp
  then have "?t < length prompt div ?n"
    using ex unfolding exact_candidates_def by (metis atLeastLessThan_iff filter_is_subset set_upt subsetD)
  then have len: "?t * ?n + ?n \<le> length prompt"
    using bs by (metis Suc_eq_plus1 Suc_leI add.commute div_times_less_eq_dividend dual_order.trans mult_Suc mult_le_mono1)
  have toks: "sr_prompt_token_ids src ! (fst w + p) = prompt ! (?t * ?n + p)" if "p < ?n" for p
  proof -
    have "slice (fst w) (fst w + ?n) (sr_prompt_token_ids src) = slice (?t * ?n) (?t * ?n + ?n) prompt"
      "fst w + ?n \<le> length (sr_prompt_token_ids src)"
      using w(1) by (simp_all add: source_match_def target_tokens_def)
    then have "slice (?t * ?n) (?t * ?n + ?n) prompt ! p = slice (fst w) (fst w + ?n) (sr_prompt_token_ids src) ! p"
      and inside: "fst w + ?n \<le> length (sr_prompt_token_ids src)" by simp_all
    moreover have "slice (fst w) (fst w + ?n) (sr_prompt_token_ids src) ! p = sr_prompt_token_ids src ! (fst w + p)"
      using that inside by (intro slice_nth) simp_all
    moreover have "slice (?t * ?n) (?t * ?n + ?n) prompt ! p = prompt ! (?t * ?n + p)"
      using that len by (intro slice_nth) simp_all
    ultimately show ?thesis by simp
  qed
  have "\<exists>b \<in> set (sr_blocks src). sb_block_index b = pc_source_block_index c + j \<and> sb_block_id b = map sb_block_id (snd w) ! j"
    if "j < length (snd w)" for j
    using B(2)[OF that] that by (intro bexI[of _ "snd w ! j"]) auto
  moreover have "pc_source_block_id c = hd (map sb_block_id (snd w))" unfolding st(4) hd_map[OF ne] by (rule refl)
  ultimately show ?thesis
    unfolding windowed_def Let_def st(3) length_map st(1)[symmetric] using st(2) len toks B(1) by blast
qed

lemma window_entries:
  assumes "holds_source enc bs src caches" "windowed bs src prompt c" "k < length caches" "p < bs"
  shows "instr_window bs (kt_blocks (caches ! k)) (copy_of (resolved_at blocks c)) ! p =
    enc k (prompt ! (pc_target_block_index c * bs + p)) (pc_source_block_index c * bs + pc_source_block_offset c + p)"
proof -
  let ?q = "pc_source_block_offset c + p" and ?ids = "physical_source_block_ids c"
  have W: "pc_source_block_offset c < bs" "length ?ids = (if pc_source_block_offset c = 0 then 1 else 2)"
    "sr_prompt_token_ids src ! (pc_source_block_index c * bs + pc_source_block_offset c + p) = prompt ! (pc_target_block_index c * bs + p)"
    "\<forall>j < length ?ids. \<exists>b \<in> set (sr_blocks src). sb_block_index b = pc_source_block_index c + j \<and> sb_block_id b = ?ids ! j"
    using assms(2,4) by (simp_all add: windowed_def Let_def)
  have "?q div bs < length ?ids" using W(1,2) assms(4) by (auto simp: div_less_iff_less_mult)
  then obtain b where b: "b \<in> set (sr_blocks src)" "sb_block_index b = pc_source_block_index c + ?q div bs" "sb_block_id b = ?ids ! (?q div bs)"
    using W(4) by blast
  have at: "sb_block_index b * bs + ?q mod bs = pc_source_block_index c * bs + pc_source_block_offset c + p"
    unfolding b(2) add_mult_distrib by simp
  have "ci_physical_source_block_ids (copy_of (resolved_at blocks c)) = ?ids" "ci_source_block_offset (copy_of (resolved_at blocks c)) = pc_source_block_offset c"
    by (simp_all add: ci_physical_source_block_ids_def physical_source_block_ids_def copy_of_def resolved_at_def resolve_candidate_def)
  then have "instr_window bs (kt_blocks (caches ! k)) (copy_of (resolved_at blocks c)) ! p =
      kt_blocks (caches ! k) ! nat (sb_block_id b) ! (?q mod bs)"
    using assms(4) b(3) by (simp add: instr_window_def Let_def)
  also have "\<dots> = enc k (sr_prompt_token_ids src ! (sb_block_index b * bs + ?q mod bs)) (sb_block_index b * bs + ?q mod bs)"
    using assms(1,3,4) b(1) W(1) unfolding holds_source_def by auto
  finally show ?thesis unfolding at using W(3) by simp
qed

lemma retained_windowed:
  assumes "loc_reach h loc" "locate h pool loc req native = Some (Inr (Some plan, req'))"
    and "for_retained_source_ids ids plan = Some plan'" "prompt_token_ids req = Some prompt"
    and "od_get (loc_sources loc) (pp_source_request_id plan) = Some src" "c \<in> set (pp_candidates plan')"
  shows "windowed (pp_block_size plan') src prompt c" and "pp_block_size plan' = pp_block_size plan"
proof -
  have inv: "locator_inv loc" by (rule loc_reach_locator_inv[OF assms(1)])
  have ok: "plan_ok pool loc req native plan"
    using locate_located[OF inv, of pool req native h] assms(2) by (auto simp: located_ok_def)
  have c: "c \<in> set (pp_candidates plan)" and bs: "pp_block_size plan' = pp_block_size plan"
    using assms(3,6) by (auto simp: for_retained_source_ids_def Let_def split: if_splits)
  then have "exact_candidates pool loc src prompt native (pp_candidates plan)"
    using ok assms(4,5) by (auto simp: plan_ok_def)
  moreover have "1 \<le> loc_block_size loc" "pp_block_size plan = loc_block_size loc"
    using inv ok by (simp_all add: locator_inv_def plan_ok_def)
  ultimately show "windowed (pp_block_size plan') src prompt c" using c bs exact_windowed by simp
  show "pp_block_size plan' = pp_block_size plan" by (rule bs)
qed

lemma kept_copies_valid:
  assumes W: "\<forall>c \<in> set (pp_candidates plan). windowed (pp_block_size plan) src prompt c"
    and dist: "distinct (map pc_target_block_index (allocated blocks (pp_candidates plan)))"
    and blocks: "distinct blocks" "\<forall>b \<in> set blocks. block_in n b"
    and apart: "\<forall>b \<in> set (sr_blocks src). block_in n (sb_block_id b) \<and> sb_block_id b \<notin> set blocks"
  shows "copies_valid (pp_block_size plan) n (kept_copies plan blocks kept)"
proof -
  let ?cs = "filter (\<lambda>c. \<exists>t \<in> set kept. t div pp_block_size plan = pc_target_block_index c) (allocated blocks (pp_candidates plan))"
  let ?i = "\<lambda>c. copy_of (resolved_at blocks c)"
  have sel: "ci_target_block_id (?i c) = blocks ! pc_target_block_index c" "ci_source_block_offset (?i c) = pc_source_block_offset c"
    "ci_source_block_id (?i c) = pc_source_block_id c" "ci_physical_source_block_ids (?i c) = physical_source_block_ids c" for c
    by (simp_all add: ci_physical_source_block_ids_def physical_source_block_ids_def copy_of_def resolved_at_def resolve_candidate_def)
  have cs: "pc_target_block_index c < length blocks" "windowed (pp_block_size plan) src prompt c" if "c \<in> set ?cs" for c
    using that W by (auto simp: allocated_def)
  have inj: "inj_on pc_target_block_index (set ?cs)" and d: "distinct ?cs"
    using dist by (auto simp: distinct_map inj_on_def)
  have "inj_on (\<lambda>c. blocks ! pc_target_block_index c) (set ?cs)"
  proof (rule inj_onI)
    fix c e assume ce: "c \<in> set ?cs" "e \<in> set ?cs" "blocks ! pc_target_block_index c = blocks ! pc_target_block_index e"
    then have "pc_target_block_index c = pc_target_block_index e"
      using nth_eq_iff_index_eq[OF blocks(1) cs(1)[OF ce(1)] cs(1)[OF ce(2)]] by blast
    from inj_onD[OF inj this ce(1,2)] show "c = e" .
  qed
  then have T: "targets_in n (map ?i ?cs)"
    using d blocks(2) cs(1) by (auto simp: targets_in_def distinct_map comp_def sel)
  have src_ids: "block_in n s \<and> s \<notin> set blocks" if c: "c \<in> set ?cs" "s \<in> set (physical_source_block_ids c)" for c s
  proof -
    obtain j where j: "j < length (physical_source_block_ids c)" "s = physical_source_block_ids c ! j"
      using c(2) by (auto simp: in_set_conv_nth)
    then obtain b where "b \<in> set (sr_blocks src)" "sb_block_id b = s"
      using cs(2)[OF c(1)] unfolding windowed_def Let_def by blast
    then show ?thesis using apart by auto
  qed
  have in_blocks: "ci_target_block_id i \<in> set blocks" if "i \<in> set (map ?i ?cs)" for i
    using that by (auto simp: sel allocated_def)
  show ?thesis unfolding copies_valid_def kept_copies_def comp_def
  proof (intro conjI ballI)
    show "targets_in n (map ?i ?cs)" by (rule T)
  next
    fix i assume i: "i \<in> set (map ?i ?cs)"
    then obtain c where c: "c \<in> set ?cs" "i = ?i c" by auto
    note w = cs(2)[OF c(1), unfolded windowed_def Let_def]
    show "ci_source_block_offset i < pp_block_size plan"
      "length (ci_physical_source_block_ids i) = (if ci_source_block_offset i = 0 then 1 else 2)"
      "ci_source_block_id i = hd (ci_physical_source_block_ids i)"
      using w by (simp_all add: c(2) sel)
    fix s assume "s \<in> set (ci_physical_source_block_ids i)"
    then have "block_in n s \<and> s \<notin> set blocks" using src_ids[OF c(1)] by (simp add: c(2) sel)
    then show "block_in n s" "s \<notin> ci_target_block_id ` set (map ?i ?cs)" using in_blocks by auto
  qed
qed

lemma apply_copies_run:
  assumes "execute_partial_reuse cfg" "repack_partial_reuse cfg"
    and "copies_valid bs n copies" "caches_ok bs n caches" "copy_setup cfg bs plans [(rid, copies)] caches"
    and "od_get pending rid = Some m" "length copies * bs \<le> me_candidate_tokens m"
  shows "\<exists>pending' caches'. apply_cacheselect_block_copies rot cfg plans [(rid, copies)] (pending, caches) = Inr (pending', caches') \<and>
    list_all2 (\<lambda>c c'. copies \<noteq> [] \<longrightarrow> landed rot (correct_kv_positions cfg) bs copies c c') caches caches'"
proof (cases "copies = []")
  case True
  then show ?thesis using assms(1,2)
    by (simp add: apply_cacheselect_block_copies_def build_kv_cache_block_copies_def list_all2_refl)
next
  case False
  let ?pairs = "map (\<lambda>i. (ci_source_block_id i, ci_target_block_id i)) (filter (\<lambda>i. \<not> ci_requires_repacking i) copies)"
  obtain caches' where c: "copy_operation rot cfg plans [(rid, copies)] ?pairs caches = Inr caches'"
    "list_all2 (landed rot (correct_kv_positions cfg) bs copies) caches caches'"
    using copies_land[of bs n "[(rid, copies)]" caches cfg plans ?pairs rot] assms(3,4,5) by auto
  obtain plan where plan: "od_get plans rid = Some plan" "pp_block_size plan = bs"
    using assms(5) False by (auto simp: copy_setup_def)
  obtain i where "i \<in> set copies" using False by (cases copies) auto
  then have "1 \<le> bs" using assms(3) unfolding copies_valid_def by fastforce
  then obtain m' where "record_copy_execution m (length copies) (pp_block_size plan) = Inr m'"
    using assms(7) plan(2) by (simp add: record_copy_execution_def)
  then have rec: "record_copies plans [(rid, copies)] pending = Inr (od_set rid m' pending)"
    using False assms(6) plan(1) by simp
  have "build_kv_cache_block_copies (filter (\<lambda>i. \<not> ci_requires_repacking i) copies) = Inr ?pairs"
    by (simp add: build_kv_cache_block_copies_def list_ex_iff)
  then have "apply_cacheselect_block_copies rot cfg plans [(rid, copies)] (pending, caches) = Inr (od_set rid m' pending, caches')"
    using False assms(1,2) c(1) rec by (simp add: apply_cacheselect_block_copies_def Let_def)
  moreover have "list_all2 (\<lambda>c c'. copies \<noteq> [] \<longrightarrow> landed rot (correct_kv_positions cfg) bs copies c c') caches caches'"
    by (rule list_all2_mono[OF c(2)]) simp
  ultimately show ?thesis by blast
qed

lemma carry_entry:
  assumes "\<forall>k tok p q. rot (int q - int p) (enc k tok p) = enc k tok q" "moved_by bs i = int t - int u"
  shows "carry rot True bs i (enc k tok u) = enc k tok t"
proof (cases "t = u")
  case False
  then have "carry rot True bs i = rot (int t - int u)" using assms(2) by (simp add: carry_def)
  then show ?thesis using assms(1) by simp
qed (use assms(2) in \<open>simp add: carry_def\<close>)

text \<open>C10. Reused entries are the ones of the prompt.  Let the cache of every layer hold, for the source
  of a located plan, entries that depend on a token and its position only (as those of the first
  layer do), and let the rotation move an entry from one position to another.  If the target
  blocks are distinct and no source block is among them, then after the copies of a prepared
  plan every reused token of the prompt finds its own entry, at its own position, in its block.\<close>

theorem copied_kv_matches:
  assumes "loc_reach h loc" "locate h pool loc req native = Some (Inr (Some plan, req'))"
    and "for_retained_source_ids ids plan = Some plan'" "prompt_token_ids req = Some prompt"
    and "od_get (loc_sources loc) (pp_source_request_id plan) = Some src"
    and "prepare_reuse selector mn ro plan' [blocks] (length prompt) = Inr (copies, repairs, kept)"
    and "distinct blocks" "\<forall>b \<in> set blocks. block_in n b"
    and "\<forall>b \<in> set (sr_blocks src). block_in n (sb_block_id b) \<and> sb_block_id b \<notin> set blocks"
    and "caches_ok (pp_block_size plan') n caches" "holds_source enc (pp_block_size plan') src caches"
    and "execute_partial_reuse cfg" "repack_partial_reuse cfg" "correct_kv_positions cfg"
    and "copy_setup cfg (pp_block_size plan') plans [(rid, copies)] caches"
    and "od_get pending rid = Some m" "length copies * pp_block_size plan' \<le> me_candidate_tokens m"
    and "\<forall>k tok p q. rot (int q - int p) (enc k tok p) = enc k tok q"
  shows "\<exists>pending' caches'. apply_cacheselect_block_copies rot cfg plans [(rid, copies)] (pending, caches) = Inr (pending', caches') \<and>
    length caches' = length caches \<and>
    (\<forall>k < length caches. \<forall>t \<in> set kept.
       kt_blocks (caches' ! k) ! nat (blocks ! (t div pp_block_size plan')) ! (t mod pp_block_size plan') = enc k (prompt ! t) t)"
proof -
  let ?bs = "pp_block_size plan'"
  note ok = prepare_success[OF assms(6)]
  have copies: "copies = kept_copies plan' blocks kept" "kept = kept_tokens selector mn ro plan' blocks"
    using ok(2) prepare_resolved[OF ok(1) _ ok(3,4,5,6)] assms(6) by auto
  have W: "windowed ?bs src prompt c" if "c \<in> set (pp_candidates plan')" for c
    by (rule retained_windowed(1)[OF assms(1-5) that])
  have V: "copies_valid ?bs n copies"
    unfolding copies(1) using kept_copies_valid[OF _ ok(6) assms(7-9)] W by blast
  obtain pending' caches' where run: "apply_cacheselect_block_copies rot cfg plans [(rid, copies)] (pending, caches) = Inr (pending', caches')"
    "list_all2 (\<lambda>c c'. copies \<noteq> [] \<longrightarrow> landed rot (correct_kv_positions cfg) ?bs copies c c') caches caches'"
    using apply_copies_run[OF assms(12,13) V assms(10,15,16,17)] by blast
  have "kt_blocks (caches' ! k) ! nat (blocks ! (t div ?bs)) ! (t mod ?bs) = enc k (prompt ! t) t"
    if k: "k < length caches" and t: "t \<in> set kept" for k t
  proof -
    obtain c where c: "c \<in> set (allocated blocks (pp_candidates plan'))" "pc_target_block_index c = t div ?bs"
      using t kept_tokens_set(1)[OF ok(3)] unfolding copies(2) reusable_tokens_def allocated_def by auto
    let ?i = "copy_of (resolved_at blocks c)"
    have i: "?i \<in> set copies"
      unfolding copies(1) kept_copies_def using c t by (auto intro!: imageI bexI[of _ t])
    then have "copies \<noteq> []" by auto
    then have "landed rot True ?bs copies (caches ! k) (caches' ! k)"
      using list_all2_nthD[OF run(2) k] assms(14) by simp
    then have "kt_blocks (caches' ! k) ! nat (ci_target_block_id ?i) =
        map (carry rot True ?bs ?i) (instr_window ?bs (kt_blocks (caches ! k)) ?i)"
      using i by (simp add: landed_def)
    moreover have "ci_target_block_id ?i = blocks ! (t div ?bs)" by (simp add: copy_of_def c(2))
    moreover have p: "t mod ?bs < ?bs" using ok(3) by simp
    moreover have "c \<in> set (pp_candidates plan')" using c(1) by (simp add: allocated_def)
    then have "instr_window ?bs (kt_blocks (caches ! k)) ?i ! (t mod ?bs) =
        enc k (prompt ! t) (pc_source_block_index c * ?bs + pc_source_block_offset c + t mod ?bs)"
      using window_entries[OF assms(11) W k p, of c blocks] c(2) by simp
    moreover have "carry rot True ?bs ?i (enc k (prompt ! t) (pc_source_block_index c * ?bs + pc_source_block_offset c + t mod ?bs)) =
        enc k (prompt ! t) t"
    proof -
      have "moved_by ?bs ?i = int t - int (pc_source_block_index c * ?bs + pc_source_block_offset c + t mod ?bs)"
      proof -
        have "int t = int (t div ?bs * ?bs) + int (t mod ?bs)" unfolding of_nat_add[symmetric] by simp
        moreover have "moved_by ?bs ?i = int (t div ?bs * ?bs) - int (pc_source_block_index c * ?bs) - int (pc_source_block_offset c)"
          by (simp add: moved_by_def copy_of_def resolved_at_def resolve_candidate_def c(2))
        ultimately show ?thesis by simp
      qed
      then show ?thesis by (rule carry_entry[OF assms(18)])
    qed
    ultimately show ?thesis by simp
  qed
  moreover have "length caches' = length caches" using list_all2_lengthD[OF run(2)] by simp
  ultimately show ?thesis using run(1) by blast
qed

text \<open>Five blocks of one position; block 0 holds the source, block 4 becomes the target.\<close>

definition demo_cache :: "(int \<times> int) kv_tensor" where
  "demo_cache = \<lparr>kt_block_size = 1, kt_width = 4, kt_blocks = [[(7, 0)], [(0, 0)], [(0, 0)], [(0, 0)], [(0, 0)]]\<rparr>"

definition demo_copy_config :: copy_config where
  "demo_copy_config = \<lparr>execute_partial_reuse = True, repack_partial_reuse = True, correct_kv_positions = True,
     cache_block_size = 1, standard_qwen3_rope = True, qwen3_head_size = 2, qwen3_rope_theta = 1\<rparr>"

lemma demo_kept:
  assumes "pp_candidates plan = [c]" "pc_target_block_index c = 1" "pp_block_size plan = 1"
    "pp_counterfactual_reuse_block_index plan = None"
  shows "kept_tokens (MLPRepair (\<lambda>_. Inr False)) 1 None plan [3, 4] = [1]"
proof -
  have T: "reusable_tokens (MLPRepair (\<lambda>_. Inr False)) plan [3, 4] = {1}"
    using assms by (auto simp: reusable_tokens_def picked_def)
  have "run_of {1} 1 = {1}" using run_interval[of 1 1 "{1}" 1] by simp
  then show ?thesis by (simp add: kept_tokens_def T long_enough_def assms(3))
qed

lemma copied_kv_matches_witness:
  "\<exists>plan req' plan' copies repairs pending' caches'.
    locate hd demo_pool (demo_locator False) (demo_request ''b'' [5, 7] (Some ''a'')) 1 = Some (Inr (Some plan, req')) \<and>
    for_retained_source_ids {0} plan = Some plan' \<and>
    prepare_reuse (MLPRepair (\<lambda>_. Inr False)) 1 None plan' [[3, 4]] (length [5, 7 :: int]) = Inr (copies, repairs, [1]) \<and>
    apply_cacheselect_block_copies (\<lambda>d e. (fst e, snd e + d)) demo_copy_config [(''b'', plan')] [(''b'', copies)]
      ([(''b'', new_metrics ''mlp'' 1 0 1)], [demo_cache]) = Inr (pending', caches') \<and>
    kt_blocks (caches' ! 0) ! 4 ! 0 = (7, 1)"
proof -
  have req: "(demo_request ''b'' [5, 7] (Some ''a''))\<lparr>cs_counterfactual_index := None\<rparr> = demo_request ''b'' [5, 7] (Some ''a'')"
    by (simp add: demo_request_def)
  have fields: "prompt_token_ids (demo_request ''b'' [5, 7] (Some ''a'')) = Some [5, 7]"
    "cs_counterfactual_index (demo_request ''b'' [5, 7] (Some ''a'')) = None" by (simp_all add: demo_request_def)
  obtain plan req' plan' c where p: "locate hd demo_pool (demo_locator False) (demo_request ''b'' [5, 7] (Some ''a'')) 1 =
      Some (Inr (Some plan, req'))" "for_retained_source_ids {0} plan = Some plan'"
      "pp_candidates plan' = [c]" "pc_target_block_index c = 1" "pp_block_size plan' = 1" "pp_source_request_id plan = ''a''"
    using demo_retained[of None] unfolding req by blast
  have cf: "pp_counterfactual_reuse_block_index plan' = None"
    using retained_targets(2)[OF located_targets(1)[OF demo_reach p(1) fields(1)] p(2)]
      located_targets(2)[OF demo_reach p(1) fields(1)] fields(2) by simp
  obtain copies repairs where pr: "prepare_reuse (MLPRepair (\<lambda>_. Inr False)) 1 None plan' [[3, 4]] (length [5, 7 :: int]) =
      Inr (copies, repairs, [1])"
    using prepare_located[OF demo_reach p(1,2) fields, of "MLPRepair (\<lambda>_. Inr False)" 1 None "[3, 4]"]
    unfolding demo_kept[OF p(3-5) cf] by auto
  have src: "od_get (loc_sources (demo_locator False)) (pp_source_request_id plan) = Some demo_source"
    by (simp add: p(6) demo_locator_def)
  have "length copies \<le> 1"
  proof -
    have "copies = kept_copies plan' [3, 4] [1]"
      using prepare_success(2)[OF pr] prepare_resolved[OF prepare_success(1)[OF pr] _ prepare_success(3-6)[OF pr]] pr by auto
    then show ?thesis using p(3) by (simp add: kept_copies_def allocated_def)
  qed
  then have run: "\<exists>pending' caches'. apply_cacheselect_block_copies (\<lambda>d e. (fst e, snd e + d)) demo_copy_config [(''b'', plan')]
      [(''b'', copies)] ([(''b'', new_metrics ''mlp'' 1 0 1)], [demo_cache]) = Inr (pending', caches') \<and>
    length caches' = length [demo_cache] \<and>
    (\<forall>k < length [demo_cache]. \<forall>t \<in> set [1]. kt_blocks (caches' ! k) ! nat ([3, 4] ! (t div pp_block_size plan')) !
       (t mod pp_block_size plan') = (\<lambda>k tok p. (tok, int p)) k ([5, 7] ! t) t)"
    using copied_kv_matches[where pool = demo_pool and h = hd, OF demo_reach p(1,2) fields(1) src pr, of 5 "[demo_cache]" "\<lambda>k tok p. (tok, int p)" demo_copy_config "[(''b'', plan')]" "''b''"
        "[(''b'', new_metrics ''mlp'' 1 0 1)]" "new_metrics ''mlp'' 1 0 1" "\<lambda>d e. (fst e, snd e + d)"]
    by (auto simp: block_in_def demo_source_def caches_ok_def holds_source_def demo_cache_def demo_copy_config_def
        copy_setup_def new_metrics_def p(5))
  then show ?thesis using p(1,2,5) pr by auto
qed

end
