(* ===== verification/GdnIndex.thy ===== *)
theory GdnIndex
  imports Locator
begin

text \<open>
  The source index for recurrent (GDN) layers, \<^verbatim>\<open>vllm/v1/core/gdn_delta_reuse.py\<close>: chained
  hashes of the full blocks of a prompt inside a namespace of salt and adapter, a bounded
  least-recently-used table of indexed prompts, and the lookup of target blocks whose tokens
  occur in the named source.  SHA-256 is the parameter \<open>sha\<close>; a hash object is the bytes fed to
  it so far.
\<close>

section \<open>Contextual hashes\<close>

text \<open>\<open>n.to_bytes(8, ''big'', signed=False)\<close> for \<open>0 \<le> n\<close>.\<close>

definition to_bytes8 :: "int \<Rightarrow> bytes res" where
  "to_bytes8 n =
     (if n < 2 ^ 64 then Inr (map (\<lambda>k. word_of_int (n div 256 ^ (7 - k))) [0..<8])
      else Inl (OverflowError ''int too big to convert''))"

text \<open>UTF-8 for the code points a \<open>char\<close> can hold.\<close>

definition utf8_char :: "char \<Rightarrow> bytes" where
  "utf8_char c =
     (let n = (of_char c :: nat)
      in if n < 128 then [of_nat n] else [of_nat (192 + n div 64), of_nat (128 + n mod 64)])"

definition utf8 :: "string \<Rightarrow> bytes" where
  "utf8 s = concat (map utf8_char s)"

definition ascii :: "string \<Rightarrow> bytes" where
  "ascii s = map (\<lambda>c. of_nat (of_char c)) s"

definition gdn_domain :: bytes where
  "gdn_domain = ascii ''vllm-cacheselect-gdn-v1''"

definition gdn_namespace :: "string option \<Rightarrow> int option \<Rightarrow> bytes res" where
  "gdn_namespace salt adapter =
     (let prefix = gdn_domain @ utf8 (case salt of None \<Rightarrow> [] | Some s \<Rightarrow> s)
      in case adapter of
           None \<Rightarrow> Inr (prefix @ [0])
         | Some a \<Rightarrow>
             bind_res (check_res (0 \<le> a) (ValueError ''LoRA adapter ID must be nonnegative'')) (\<lambda>_.
             bind_res (to_bytes8 a) (\<lambda>bs. Inr (prefix @ [1] @ bs))))"

definition token_bytes :: "int \<Rightarrow> bytes res" where
  "token_bytes t =
     bind_res (check_res (0 \<le> t) (ValueError ''token IDs must be nonnegative'')) (\<lambda>_. to_bytes8 t)"

fun hash_blocks :: "(bytes \<Rightarrow> bytes) \<Rightarrow> nat \<Rightarrow> int list \<Rightarrow> bytes \<Rightarrow> nat list \<Rightarrow> bytes list res" where
  "hash_blocks sha bs toks parent [] = Inr []"
| "hash_blocks sha bs toks parent (start # starts) =
     bind_res (map_res token_bytes (slice start (start + bs) toks)) (\<lambda>bss.
       let digest = sha (parent @ concat bss)
       in bind_res (hash_blocks sha bs toks digest starts) (\<lambda>hs. Inr (digest # hs)))"

definition build_gdn_contextual_block_hashes ::
  "(bytes \<Rightarrow> bytes) \<Rightarrow> int list \<Rightarrow> nat \<Rightarrow> string option \<Rightarrow> int option \<Rightarrow> bytes list res" where
  "build_gdn_contextual_block_hashes sha toks bs salt adapter =
     bind_res (check_res (1 \<le> bs) (ValueError ''block_size must be positive'')) (\<lambda>_.
     bind_res (gdn_namespace salt adapter) (\<lambda>ns.
       hash_blocks sha bs toks (sha ns) (range_step 0 (length toks + 1 - bs) bs)))"

section \<open>The index\<close>

record gdn_source_block =
  gb_block_index :: nat
  gb_token_ids :: "int list"
  gb_contextual_hash :: bytes

record gdn_source =
  gs_request_id :: string
  gs_cache_salt :: "string option"
  gs_lora_adapter_id :: "int option"
  gs_blocks :: "gdn_source_block list"

record gdn_candidate =
  gc_source_block_index :: nat
  gc_target_block_index :: nat
  gc_source_contextual_hash :: bytes

record gdn_plan =
  gp_source_request_id :: string
  gp_target_request_id :: string
  gp_block_size :: nat
  gp_native_cached_tokens :: nat
  gp_reason :: string
  gp_candidates :: "gdn_candidate list"

record gdn_index =
  gi_block_size :: nat
  gi_max_source_requests :: nat
  gi_max_candidate_blocks :: "nat option"
  gi_sources :: "(string, gdn_source) odict"

definition gdn_index_init :: "int \<Rightarrow> int \<Rightarrow> int option \<Rightarrow> gdn_index res" where
  "gdn_index_init bs mx candidates =
     bind_res (check_res (1 \<le> bs) (ValueError ''block_size must be positive'')) (\<lambda>_.
     bind_res (check_res (1 \<le> mx) (ValueError ''max_source_requests must be positive'')) (\<lambda>_.
     bind_res (check_res (case candidates of None \<Rightarrow> True | Some n \<Rightarrow> 1 \<le> n)
         (ValueError ''max_candidate_blocks must be positive'')) (\<lambda>_.
       Inr \<lparr>gi_block_size = nat bs, gi_max_source_requests = nat mx,
            gi_max_candidate_blocks = map_option nat candidates, gi_sources = []\<rparr>)))"

fun drop_oldest :: "nat \<Rightarrow> ('k, 'v) odict \<Rightarrow> ('k, 'v) odict" where
  "drop_oldest mx [] = []"
| "drop_oldest mx (e # rest) = (if mx < length (e # rest) then drop_oldest mx rest else e # rest)"

definition gdn_source_blocks :: "nat \<Rightarrow> int list \<Rightarrow> bytes list \<Rightarrow> gdn_source_block list" where
  "gdn_source_blocks bs prompt hashes =
     map (\<lambda>i. \<lparr>gb_block_index = i, gb_token_ids = slice (i * bs) ((i + 1) * bs) prompt,
              gb_contextual_hash = hashes ! i\<rparr>)
       [0..<min (length prompt div bs) (length hashes)]"

definition gdn_index_request :: "(bytes \<Rightarrow> bytes) \<Rightarrow> request \<Rightarrow> gdn_index \<Rightarrow> gdn_index res" where
  "gdn_index_request sha req ix =
     (case prompt_token_ids req of
        None \<Rightarrow> Inr ix
      | Some prompt \<Rightarrow>
          bind_res (build_gdn_contextual_block_hashes sha prompt (gi_block_size ix)
              (cache_salt req) (request_adapter_id req)) (\<lambda>hashes.
            let rid = effective_request_id req;
                src = \<lparr>gs_request_id = rid, gs_cache_salt = cache_salt req,
                       gs_lora_adapter_id = request_adapter_id req,
                       gs_blocks = gdn_source_blocks (gi_block_size ix) prompt hashes\<rparr>
            in Inr (ix\<lparr>gi_sources := drop_oldest (gi_max_source_requests ix)
                        (od_move_to_end rid (od_set rid src (gi_sources ix)))\<rparr>)))"

definition gdn_get :: "string \<Rightarrow> gdn_index \<Rightarrow> gdn_source option \<times> gdn_index" where
  "gdn_get rid ix =
     (case od_get (gi_sources ix) rid of
        None \<Rightarrow> (None, ix)
      | Some src \<Rightarrow> (Some src, ix\<lparr>gi_sources := od_move_to_end rid (gi_sources ix)\<rparr>))"

definition gdn_clear :: "gdn_index \<Rightarrow> gdn_index" where
  "gdn_clear ix = ix\<lparr>gi_sources := []\<rparr>"

section \<open>Locating\<close>

definition gdn_make_plan ::
  "gdn_index \<Rightarrow> request \<Rightarrow> nat \<Rightarrow> string \<Rightarrow> gdn_candidate list \<Rightarrow> gdn_plan res" where
  "gdn_make_plan ix req native reason cs =
     (case cs_source_request_id req of
        None \<Rightarrow> Inl (AssertionError ''source_request_id is not None'')
      | Some sid \<Rightarrow> Inr \<lparr>gp_source_request_id = sid, gp_target_request_id = effective_request_id req,
          gp_block_size = gi_block_size ix, gp_native_cached_tokens = native,
          gp_reason = reason, gp_candidates = cs\<rparr>)"

definition last_blocks :: "nat option \<Rightarrow> 'a list \<Rightarrow> 'a list" where
  "last_blocks n xs = (case n of None \<Rightarrow> xs | Some k \<Rightarrow> drop (length xs - k) xs)"

definition gdn_by_content :: "gdn_source_block list \<Rightarrow> (int list, gdn_source_block list) odict" where
  "gdn_by_content bs =
     fold (\<lambda>b d. od_set (gb_token_ids b)
        ((case od_get d (gb_token_ids b) of None \<Rightarrow> [] | Some xs \<Rightarrow> xs) @ [b]) d) bs []"

definition gdn_distance :: "nat \<Rightarrow> gdn_source_block \<Rightarrow> int \<times> nat" where
  "gdn_distance t b = (\<bar>int (gb_block_index b) - int t\<bar>, gb_block_index b)"

definition gdn_candidate_at ::
  "(int list, gdn_source_block list) odict \<Rightarrow> int list \<Rightarrow> nat \<Rightarrow> nat \<Rightarrow> gdn_candidate option res" where
  "gdn_candidate_at by_content prompt bs t =
     (let start = t * bs
      in case od_get by_content (slice start (start + bs) prompt) of
           None \<Rightarrow> Inr None
         | Some [] \<Rightarrow> Inr None
         | Some (x # xs) \<Rightarrow>
             bind_res (py_min_by (gdn_distance t) (x # xs)) (\<lambda>b.
               Inr (Some \<lparr>gc_source_block_index = gb_block_index b, gc_target_block_index = t,
                          gc_source_contextual_hash = gb_contextual_hash b\<rparr>)))"

definition gdn_candidates :: "gdn_index \<Rightarrow> gdn_source \<Rightarrow> int list \<Rightarrow> nat \<Rightarrow> gdn_candidate list res" where
  "gdn_candidates ix src prompt native =
     (let bs = gi_block_size ix;
          by_content = gdn_by_content (last_blocks (gi_max_candidate_blocks ix) (gs_blocks src))
      in bind_res (map_res (gdn_candidate_at by_content prompt bs)
             [(native + bs - 1) div bs..<length prompt div bs]) (\<lambda>found.
           Inr (List.map_filter id found)))"

definition gdn_locate :: "request \<Rightarrow> nat \<Rightarrow> gdn_index \<Rightarrow> (gdn_plan option \<times> gdn_index) res" where
  "gdn_locate req native ix =
     (case cs_source_request_id req of
        None \<Rightarrow> Inr (None, ix)
      | Some sid \<Rightarrow>
          (let (source, ix') = gdn_get sid ix;
               finish = (\<lambda>reason cs. bind_res (gdn_make_plan ix' req native reason cs) (\<lambda>p. Inr (Some p, ix')))
           in case source of
                None \<Rightarrow> finish ''source_not_indexed'' []
              | Some src \<Rightarrow>
                  if gs_cache_salt src \<noteq> cache_salt req then finish ''cache_salt_mismatch'' []
                  else if gs_lora_adapter_id src \<noteq> request_adapter_id req then finish ''lora_mismatch'' []
                  else (case prompt_token_ids req of
                      None \<Rightarrow> finish ''token_ids_unavailable'' []
                    | Some prompt \<Rightarrow>
                        bind_res (gdn_candidates ix' src prompt native) (\<lambda>cs.
                          finish (if cs \<noteq> [] then ''aligned_candidates'' else ''no_aligned_candidates'') cs))))"

section \<open>Reachable indexes\<close>

inductive gdn_reach :: "(bytes \<Rightarrow> bytes) \<Rightarrow> gdn_index \<Rightarrow> bool" for sha :: "bytes \<Rightarrow> bytes" where
  init: "gdn_index_init bs mx candidates = Inr ix \<Longrightarrow> gdn_reach sha ix"
| index: "gdn_reach sha ix \<Longrightarrow> gdn_index_request sha req ix = Inr ix' \<Longrightarrow> gdn_reach sha ix'"
| locate: "gdn_reach sha ix \<Longrightarrow> gdn_locate req native ix = Inr (p, ix') \<Longrightarrow> gdn_reach sha ix'"
| get: "gdn_reach sha ix \<Longrightarrow> gdn_reach sha (snd (gdn_get rid ix))"
| clear: "gdn_reach sha ix \<Longrightarrow> gdn_reach sha (gdn_clear ix)"

end
