(* ===== verification/GdnIndexProps.thy ===== *)
theory GdnIndexProps
  imports GdnIndex
begin

text \<open>
  Properties of the GDN source index: what a contextual hash identifies, the invariant of the
  reachable indexes, and the exact content of a plan.
\<close>

section \<open>Dictionaries of blocks\<close>

lemma drop_oldest_eq: "drop_oldest mx d = drop (length d - mx) d"
  by (induction d) (auto simp: Suc_diff_le)

lemma fold_by_content:
  "od_get (fold (\<lambda>b d. od_set (gb_token_ids b)
        ((case od_get d (gb_token_ids b) of None \<Rightarrow> [] | Some xs \<Rightarrow> xs) @ [b]) d) bs d0) toks =
    (let xs = filter (\<lambda>b. gb_token_ids b = toks) bs
     in if xs = [] then od_get d0 toks
        else Some ((case od_get d0 toks of None \<Rightarrow> [] | Some ys \<Rightarrow> ys) @ xs))"
  by (induction bs arbitrary: d0) (auto simp: Let_def split: option.split)

lemma gdn_by_content_get:
  "od_get (gdn_by_content bs) toks =
    (let xs = filter (\<lambda>b. gb_token_ids b = toks) bs in if xs = [] then None else Some xs)"
  unfolding gdn_by_content_def fold_by_content by (simp add: Let_def)

section \<open>Hashes\<close>

lemma block_starts:
  assumes "1 \<le> bs"
  shows "range_step 0 (n + 1 - bs) bs = map (\<lambda>k. k * bs) [0..<n div bs]"
proof -
  have "(n + 1 - bs - 0 + bs - 1) div bs = n div bs"
  proof (cases "bs \<le> n + 1")
    case False
    then show ?thesis using assms by simp
  qed (use assms in simp)
  then show ?thesis by (simp add: range_step_def)
qed

lemma hash_blocks_length: "hash_blocks sha bs toks parent starts = Inr hs \<Longrightarrow> length hs = length starts"
  by (induction starts arbitrary: parent hs) (auto simp: Let_def)

lemma build_blocks:
  "build_gdn_contextual_block_hashes sha toks bs salt adapter = Inr hs \<longleftrightarrow>
    1 \<le> bs \<and> (\<exists>ns. gdn_namespace salt adapter = Inr ns \<and>
      hash_blocks sha bs toks (sha ns) (map (\<lambda>k. k * bs) [0..<length toks div bs]) = Inr hs)"
proof (cases "1 \<le> bs")
  case True
  show ?thesis
    unfolding build_gdn_contextual_block_hashes_def block_starts[OF True] using True by auto
qed (simp add: build_gdn_contextual_block_hashes_def)

lemma build_length:
  assumes "build_gdn_contextual_block_hashes sha toks bs salt adapter = Inr hs"
  shows "length hs = length toks div bs"
  using assms unfolding build_blocks by (auto dest: hash_blocks_length)

lemma base_digits:
  assumes "\<forall>j<m. (a::int) div 256 ^ j mod 256 = b div 256 ^ j mod 256"
  shows "a mod 256 ^ m = b mod 256 ^ m"
  using assms
proof (induction m)
  case (Suc m)
  have split: "n mod 256 ^ Suc m = 256 ^ m * (n div 256 ^ m mod 256) + n mod 256 ^ m" for n :: int
    using zmod_zmult2_eq[of 256 n "256 ^ m"] by (simp add: mult.commute)
  show ?case unfolding split using Suc by simp
qed simp

lemma to_bytes8_inj:
  assumes "to_bytes8 a = Inr x" "to_bytes8 b = Inr x" "0 \<le> a" "0 \<le> b"
  shows "a = b"
proof -
  have lt: "a < 2 ^ 64" "b < 2 ^ 64" using assms by (auto simp: to_bytes8_def split: if_splits)
  have x: "x = map (\<lambda>k. word_of_int (a div 256 ^ (7 - k))) [0..<8]"
    "x = map (\<lambda>k. word_of_int (b div 256 ^ (7 - k))) [0..<8]"
    using assms by (auto simp: to_bytes8_def split: if_splits)
  have w: "(word_of_int (a div 256 ^ (7 - k)) :: 8 word) = word_of_int (b div 256 ^ (7 - k))" if "k < 8" for k
    using arg_cong[of _ _ "\<lambda>l. l ! k", OF x(1)[symmetric, THEN trans, OF x(2)]] that by simp
  have "a div 256 ^ j mod 256 = b div 256 ^ j mod 256" if j: "j < 8" for j
  proof -
    have "7 - (7 - j) = j" "7 - j < 8" using j by auto
    with w[of "7 - j"] have "(word_of_int (a div 256 ^ j) :: 8 word) = word_of_int (b div 256 ^ j)" by metis
    then have "uint (word_of_int (a div 256 ^ j) :: 8 word) = uint (word_of_int (b div 256 ^ j) :: 8 word)" by simp
    then show ?thesis by (simp add: uint_word_of_int)
  qed
  then have "a mod 256 ^ 8 = b mod 256 ^ 8" by (intro base_digits) simp
  then show ?thesis using lt assms(3,4) by simp
qed

lemma to_bytes8_length: "to_bytes8 a = Inr x \<Longrightarrow> length x = 8"
  by (auto simp: to_bytes8_def split: if_splits)

lemma token_bytes_inj: "token_bytes a = Inr x \<Longrightarrow> token_bytes b = Inr x \<Longrightarrow> a = b"
  by (auto simp: token_bytes_def intro: to_bytes8_inj)

lemma token_bytes_length: "token_bytes a = Inr x \<Longrightarrow> length x = 8"
  by (auto simp: token_bytes_def dest: to_bytes8_length)

lemma tokens_bytes:
  assumes "map_res token_bytes as = Inr xs" "map_res token_bytes bs = Inr ys"
    "concat xs = concat ys" "length as = length bs"
  shows "as = bs"
  using assms(4,1,2,3)
proof (induction as bs arbitrary: xs ys rule: list_induct2)
  case (Cons a as b bs)
  from Cons.prems obtain x xs' y ys' where
    eq: "xs = x # xs'" "ys = y # ys'" "token_bytes a = Inr x" "token_bytes b = Inr y"
      "map_res token_bytes as = Inr xs'" "map_res token_bytes bs = Inr ys'" by auto
  have "length x = length y" using eq token_bytes_length by metis
  then have "x = y" "concat xs' = concat ys'" using Cons.prems(3) eq by simp_all
  then show ?case using eq Cons.IH token_bytes_inj by metis
qed simp

lemma tokens_bytes_length: "map_res token_bytes as = Inr xs \<Longrightarrow> length (concat xs) = 8 * length as"
  by (induction as arbitrary: xs) (auto dest: token_bytes_length)

lemma hash_blocks_prefix:
  assumes "hash_blocks sha bs toks parent (xs @ ys) = Inr hs"
  shows "hash_blocks sha bs toks parent xs = Inr (take (length xs) hs)"
  using assms
proof (induction xs arbitrary: parent hs)
  case (Cons x xs)
  then obtain bss hs' where h: "map_res token_bytes (slice x (x + bs) toks) = Inr bss"
    "hash_blocks sha bs toks (sha (parent @ concat bss)) (xs @ ys) = Inr hs'"
    "hs = sha (parent @ concat bss) # hs'"
    by (auto simp: Let_def)
  then show ?case using Cons.IH[OF h(2)] by (simp add: Let_def)
qed simp

text \<open>Equal hashes at the same place of two chains.\<close>

lemma hash_blocks_unique:
  assumes "inj sha" "hash_blocks sha bs A pa starts = Inr ha" "hash_blocks sha bs B pb starts = Inr hb"
    "\<forall>s\<in>set starts. s + bs \<le> length A \<and> s + bs \<le> length B"
    "k < length starts" "ha ! k = hb ! k"
  shows "pa = pb \<and> (\<forall>i\<le>k. slice (starts ! i) (starts ! i + bs) A = slice (starts ! i) (starts ! i + bs) B)"
  using assms(2-6)
proof (induction starts arbitrary: pa pb ha hb k)
  case (Cons s ss)
  let ?a = "slice s (s + bs) A" and ?b = "slice s (s + bs) B"
  from Cons.prems(1) obtain xs ha' where a: "map_res token_bytes ?a = Inr xs"
    "hash_blocks sha bs A (sha (pa @ concat xs)) ss = Inr ha'" "ha = sha (pa @ concat xs) # ha'"
    by (auto simp: Let_def)
  from Cons.prems(2) obtain ys hb' where b: "map_res token_bytes ?b = Inr ys"
    "hash_blocks sha bs B (sha (pb @ concat ys)) ss = Inr hb'" "hb = sha (pb @ concat ys) # hb'"
    by (auto simp: Let_def)
  have "s + bs \<le> length A" "s + bs \<le> length B" using Cons.prems(3) by simp_all
  then have len: "length ?a = length ?b" by simp
  have digest: "pa = pb \<and> ?a = ?b" if "sha (pa @ concat xs) = sha (pb @ concat ys)"
  proof -
    have "pa @ concat xs = pb @ concat ys" using that assms(1) by (simp add: inj_eq)
    moreover have "length (concat xs) = length (concat ys)"
      using tokens_bytes_length[OF a(1)] tokens_bytes_length[OF b(1)] len by simp
    ultimately have "pa = pb" "concat xs = concat ys" by simp_all
    then show ?thesis using tokens_bytes[OF a(1) b(1) _ len] by simp
  qed
  show ?case
  proof (cases k)
    case 0
    then show ?thesis using digest Cons.prems(5) a(3) b(3) by simp
  next
    case (Suc j)
    have "sha (pa @ concat xs) = sha (pb @ concat ys) \<and>
      (\<forall>i\<le>j. slice (ss ! i) (ss ! i + bs) A = slice (ss ! i) (ss ! i + bs) B)"
      by (rule Cons.IH[OF a(2) b(2)]) (use Cons.prems(3-5) Suc a(3) b(3) in simp_all)
    moreover have "slice ((s # ss) ! i) ((s # ss) ! i + bs) A = slice ((s # ss) ! i) ((s # ss) ! i + bs) B"
      if "i \<le> k" for i
      using calculation digest that Suc by (cases i) auto
    ultimately show ?thesis using digest by blast
  qed
qed simp

lemma take_by_blocks:
  assumes "\<forall>i<n. slice (i * bs) (i * bs + bs) A = slice (i * bs) (i * bs + bs) B"
  shows "take (n * bs) A = take (n * bs) B"
  using assms
proof (induction n)
  case (Suc n)
  have "take (Suc n * bs) X = take (n * bs) X @ slice (n * bs) (n * bs + bs) X" for X :: "'a list"
    using take_add[of "n * bs" bs X] by (simp add: slice_def add.commute)
  then show ?case using Suc by simp
qed simp

section \<open>What a contextual hash identifies\<close>

text \<open>Two prompts hashed under the same block size have the same hash for block \<open>k\<close> only if
  their first \<open>k + 1\<close> blocks and their namespaces (salt and adapter) agree, when SHA-256 has no
  collision.\<close>

theorem gdn_hash_unique:
  assumes "inj sha"
    and "build_gdn_contextual_block_hashes sha A bs salt_a adapter_a = Inr ha"
    and "build_gdn_contextual_block_hashes sha B bs salt_b adapter_b = Inr hb"
    and "k < length ha" "k < length hb" "ha ! k = hb ! k"
  shows "take ((k + 1) * bs) A = take ((k + 1) * bs) B \<and>
    gdn_namespace salt_a adapter_a = gdn_namespace salt_b adapter_b"
proof -
  from assms(2,3) obtain na nb where bs: "1 \<le> bs" and n: "gdn_namespace salt_a adapter_a = Inr na"
      "gdn_namespace salt_b adapter_b = Inr nb"
    and h: "hash_blocks sha bs A (sha na) (map (\<lambda>k. k * bs) [0..<length A div bs]) = Inr ha"
      "hash_blocks sha bs B (sha nb) (map (\<lambda>k. k * bs) [0..<length B div bs]) = Inr hb"
    unfolding build_blocks by blast
  define m where "m = k + 1"
  have m: "m \<le> length A div bs" "m \<le> length B div bs"
    using assms(4,5) build_length[OF assms(2)] build_length[OF assms(3)] by (simp_all add: m_def)
  have prefix: "hash_blocks sha bs X p (map (\<lambda>k. k * bs) [0..<m]) = Inr (take m hs)"
    if "hash_blocks sha bs X p (map (\<lambda>k. k * bs) [0..<n]) = Inr hs" "m \<le> n" for X p n hs
  proof -
    have "hash_blocks sha bs X p (map (\<lambda>k. k * bs) [0..<m] @ map (\<lambda>k. k * bs) [m..<n]) = Inr hs"
      using that by (simp add: upt_split[of 0 m n])
    from hash_blocks_prefix[OF this] show ?thesis by simp
  qed
  have "sha na = sha nb \<and> (\<forall>i\<le>k. slice ((map (\<lambda>k. k * bs) [0..<m]) ! i) ((map (\<lambda>k. k * bs) [0..<m]) ! i + bs) A =
      slice ((map (\<lambda>k. k * bs) [0..<m]) ! i) ((map (\<lambda>k. k * bs) [0..<m]) ! i + bs) B)"
  proof (rule hash_blocks_unique[OF assms(1) prefix[OF h(1) m(1)] prefix[OF h(2) m(2)]])
    have "i * bs + bs \<le> length A \<and> i * bs + bs \<le> length B" if "i < m" for i
      using that m div_block_le[of i "length A" bs] div_block_le[of i "length B" bs] by simp
    then show "\<forall>s\<in>set (map (\<lambda>k. k * bs) [0..<m]). s + bs \<le> length A \<and> s + bs \<le> length B" by simp
    show "k < length (map (\<lambda>k. k * bs) [0..<m])" by (simp add: m_def)
    show "take m ha ! k = take m hb ! k" using assms(6) by (simp add: m_def)
  qed
  note H = this
  have "slice (i * bs) (i * bs + bs) A = slice (i * bs) (i * bs + bs) B" if "i < m" for i
  proof -
    have "i \<le> k" "map (\<lambda>k. k * bs) [0..<m] ! i = i * bs" using that by (simp_all add: m_def del: upt_Suc)
    with H show ?thesis by metis
  qed
  with H have "sha na = sha nb" "\<forall>i<m. slice (i * bs) (i * bs + bs) A = slice (i * bs) (i * bs + bs) B" by blast+
  then show ?thesis using take_by_blocks[of m bs A B] n assms(1) by (simp add: m_def inj_eq)
qed

lemma gdn_hash_unique_witness:
  "case (build_gdn_contextual_block_hashes id [5, 7] 1 (Some ''salt'') (Some 3),
      build_gdn_contextual_block_hashes id [5, 9] 1 (Some ''salt'') (Some 3)) of
    (Inr ha, Inr hb) \<Rightarrow> ha ! 0 = hb ! 0 \<and> ha ! 1 \<noteq> hb ! 1 \<and> take 1 [5, 7] = take 1 [5, 9 :: int]
  | _ \<Rightarrow> False"
proof -
  have "case (build_gdn_contextual_block_hashes id [5, 7] 1 (Some ''salt'') (Some 3),
      build_gdn_contextual_block_hashes id [5, 9] 1 (Some ''salt'') (Some 3)) of
    (Inr ha, Inr hb) \<Rightarrow> ha ! 0 = hb ! 0 \<and> ha ! 1 \<noteq> hb ! 1 \<and> ha \<noteq> [] \<and> hb \<noteq> []
  | _ \<Rightarrow> False"
    by code_simp
  then obtain ha hb where h: "build_gdn_contextual_block_hashes id [5, 7] 1 (Some ''salt'') (Some 3) = Inr ha"
      "build_gdn_contextual_block_hashes id [5, 9] 1 (Some ''salt'') (Some 3) = Inr hb"
      "ha ! 0 = hb ! 0" "ha ! 1 \<noteq> hb ! 1" "ha \<noteq> []" "hb \<noteq> []"
    by (auto split: sum.splits)
  then have "0 < length ha" "0 < length hb" by simp_all
  from gdn_hash_unique[OF inj_on_id h(1,2) this h(3)] h(1-4) show ?thesis by simp
qed

text \<open>Salt and adapter are written one after the other: a request without adapter whose salt
  holds the bytes of an adapter id falls into the namespace of a request without salt that uses
  the adapter, and their prompts have the same hashes.\<close>

theorem gdn_namespace_collision:
  "build_gdn_contextual_block_hashes sha toks bs None (Some 256) =
   build_gdn_contextual_block_hashes sha toks bs
     (Some [CHR 0x01, CHR 0x00, CHR 0x00, CHR 0x00, CHR 0x00, CHR 0x00, CHR 0x00, CHR 0x01]) None"
proof -
  have "gdn_namespace None (Some 256) =
    gdn_namespace (Some [CHR 0x01, CHR 0x00, CHR 0x00, CHR 0x00, CHR 0x00, CHR 0x00, CHR 0x00, CHR 0x01]) None"
    by code_simp
  then show ?thesis by (simp add: build_gdn_contextual_block_hashes_def)
qed

section \<open>The reachable indexes\<close>

definition gdn_source_ok :: "(bytes \<Rightarrow> bytes) \<Rightarrow> nat \<Rightarrow> string \<Rightarrow> gdn_source \<Rightarrow> bool" where
  "gdn_source_ok sha bs rid src \<longleftrightarrow> gs_request_id src = rid \<and>
     (\<exists>prompt hashes.
        build_gdn_contextual_block_hashes sha prompt bs (gs_cache_salt src) (gs_lora_adapter_id src) = Inr hashes \<and>
        gs_blocks src = gdn_source_blocks bs prompt hashes)"

definition gdn_inv :: "(bytes \<Rightarrow> bytes) \<Rightarrow> gdn_index \<Rightarrow> bool" where
  "gdn_inv sha ix \<longleftrightarrow> 1 \<le> gi_block_size ix \<and> 1 \<le> gi_max_source_requests ix \<and>
     gi_max_candidate_blocks ix \<noteq> Some 0 \<and> distinct (od_keys (gi_sources ix)) \<and>
     length (gi_sources ix) \<le> gi_max_source_requests ix \<and>
     (\<forall>(rid, src) \<in> set (gi_sources ix). gdn_source_ok sha (gi_block_size ix) rid src)"

lemma move_to_end_subset: "set (od_move_to_end k d) \<subseteq> set d"
  by (auto simp: od_move_to_end_def AList.delete_eq dest: map_of_SomeD split: option.splits)

lemma gdn_get_inv: "gdn_inv sha ix \<Longrightarrow> gdn_inv sha (snd (gdn_get rid ix))"
  using move_to_end_subset[of rid "gi_sources ix"]
  by (auto simp: gdn_get_def gdn_inv_def split: option.splits)

lemma gdn_locate_state:
  assumes "gdn_locate req native ix = Inr (p, ix')"
  shows "ix' = ix \<or> (\<exists>sid. ix' = snd (gdn_get sid ix))"
proof (cases "cs_source_request_id req")
  case (Some sid)
  obtain source ix2 where g: "gdn_get sid ix = (source, ix2)" by fastforce
  have "ix' = ix2" using assms by (auto simp: gdn_locate_def Let_def Some g split: option.splits if_splits)
  then show ?thesis using g by (metis snd_conv)
qed (use assms in \<open>simp add: gdn_locate_def\<close>)

lemma gdn_index_request_inv:
  assumes inv: "gdn_inv sha ix" and step: "gdn_index_request sha req ix = Inr ix'"
  shows "gdn_inv sha ix'"
proof (cases "prompt_token_ids req")
  case (Some prompt)
  define rid where "rid = effective_request_id req"
  from Some step obtain hashes src where
    h: "build_gdn_contextual_block_hashes sha prompt (gi_block_size ix) (cache_salt req) (request_adapter_id req) = Inr hashes"
    and src: "src = \<lparr>gs_request_id = rid, gs_cache_salt = cache_salt req, gs_lora_adapter_id = request_adapter_id req,
      gs_blocks = gdn_source_blocks (gi_block_size ix) prompt hashes\<rparr>"
    and ix': "ix' = ix\<lparr>gi_sources := drop_oldest (gi_max_source_requests ix)
      (od_move_to_end rid (od_set rid src (gi_sources ix)))\<rparr>"
    by (auto simp: gdn_index_request_def Let_def rid_def)
  have "gdn_source_ok sha (gi_block_size ix) rid src"
    unfolding gdn_source_ok_def using h by (auto simp: src)
  moreover have "set (od_move_to_end rid (od_set rid src (gi_sources ix))) \<subseteq> insert (rid, src) (set (gi_sources ix))"
    using move_to_end_subset od_set_subset by fast
  ultimately have all: "\<forall>(r, s) \<in> set (od_move_to_end rid (od_set rid src (gi_sources ix))).
      gdn_source_ok sha (gi_block_size ix) r s"
    using inv by (auto simp: gdn_inv_def)
  have "distinct (od_keys (od_move_to_end rid (od_set rid src (gi_sources ix))))"
    using inv by (simp add: gdn_inv_def)
  with all inv show ?thesis
    by (auto simp: gdn_inv_def ix' drop_oldest_eq drop_map[symmetric] dest: in_set_dropD)
qed (use assms in \<open>simp add: gdn_index_request_def\<close>)

lemma gdn_reach_gdn_inv: "gdn_reach sha ix \<Longrightarrow> gdn_inv sha ix"
proof (induction rule: gdn_reach.induct)
  case (init bs mx candidates ix)
  then show ?case by (auto simp: gdn_index_init_def gdn_inv_def split: option.splits)
next
  case (locate ix req native p ix')
  then show ?case using gdn_locate_state gdn_get_inv by blast
next
  case (clear ix)
  then show ?case by (simp add: gdn_inv_def gdn_clear_def)
qed (blast intro: gdn_index_request_inv gdn_get_inv)+

section \<open>Plans\<close>

text \<open>What the candidate of a target block is: the nearest retained block with its tokens.\<close>

definition nearest_block :: "gdn_source_block list \<Rightarrow> int list \<Rightarrow> nat \<Rightarrow> gdn_source_block \<Rightarrow> bool" where
  "nearest_block blks toks t b \<longleftrightarrow> b \<in> set blks \<and> gb_token_ids b = toks \<and>
     (\<forall>b' \<in> set blks. gb_token_ids b' = toks \<longrightarrow> gdn_distance t b \<le> gdn_distance t b')"

lemma candidate_at_ok:
  "\<exists>r. gdn_candidate_at (gdn_by_content blks) prompt bs t = Inr r \<and>
    (r = None \<longleftrightarrow> slice (t * bs) (t * bs + bs) prompt \<notin> gb_token_ids ` set blks) \<and>
    (\<forall>c. r = Some c \<longrightarrow> gc_target_block_index c = t \<and>
      (\<exists>b. nearest_block blks (slice (t * bs) (t * bs + bs) prompt) t b \<and>
        gc_source_block_index c = gb_block_index b \<and> gc_source_contextual_hash c = gb_contextual_hash b))"
proof -
  define toks where "toks = slice (t * bs) (t * bs + bs) prompt"
  define same where "same = filter (\<lambda>b. gb_token_ids b = toks) blks"
  have get: "od_get (gdn_by_content blks) toks = (if same = [] then None else Some same)"
    by (simp add: gdn_by_content_get same_def Let_def)
  show ?thesis
  proof (cases same)
    case Nil
    then have "toks \<notin> gb_token_ids ` set blks" by (auto simp: same_def filter_empty_conv)
    then show ?thesis using get Nil by (simp add: gdn_candidate_at_def toks_def)
  next
    case (Cons x xs)
    then obtain b where b: "py_min_by (gdn_distance t) same = Inr b" by simp
    have near: "nearest_block blks toks t b"
      using py_min_by_ok[OF b] by (simp add: nearest_block_def same_def)
    then have hit: "toks \<in> gb_token_ids ` set blks" by (auto simp: nearest_block_def)
    define c where "c = \<lparr>gc_source_block_index = gb_block_index b, gc_target_block_index = t,
       gc_source_contextual_hash = gb_contextual_hash b\<rparr>"
    have at: "gdn_candidate_at (gdn_by_content blks) prompt bs t = Inr (Some c)"
      unfolding gdn_candidate_at_def Let_def toks_def[symmetric] get c_def using Cons b by simp
    have "gc_target_block_index c' = t \<and> (\<exists>b. nearest_block blks toks t b \<and>
        gc_source_block_index c' = gb_block_index b \<and> gc_source_contextual_hash c' = gb_contextual_hash b)"
      if "Some c = Some c'" for c'
      using that near by (auto simp: c_def)
    then show ?thesis unfolding toks_def[symmetric] using at hit by (intro exI[of _ "Some c"]) simp
  qed
qed

lemma candidates_ok:
  assumes "map_res (gdn_candidate_at (gdn_by_content blks) prompt bs) ts = Inr rs"
  shows "map gc_target_block_index (List.map_filter id rs) =
      filter (\<lambda>t. slice (t * bs) (t * bs + bs) prompt \<in> gb_token_ids ` set blks) ts \<and>
    (\<forall>c \<in> set (List.map_filter id rs).
      \<exists>b. nearest_block blks (slice (gc_target_block_index c * bs) (gc_target_block_index c * bs + bs) prompt)
          (gc_target_block_index c) b \<and>
        gc_source_block_index c = gb_block_index b \<and> gc_source_contextual_hash c = gb_contextual_hash b)"
  using assms
proof (induction ts arbitrary: rs)
  case (Cons t ts)
  from Cons.prems obtain q rs' where q: "gdn_candidate_at (gdn_by_content blks) prompt bs t = Inr q"
    "map_res (gdn_candidate_at (gdn_by_content blks) prompt bs) ts = Inr rs'" "rs = q # rs'" by auto
  note IH = Cons.IH[OF q(2)]
  from candidate_at_ok[of blks prompt bs t] q(1)
  have ok: "q = None \<longleftrightarrow> slice (t * bs) (t * bs + bs) prompt \<notin> gb_token_ids ` set blks"
    "\<forall>c. q = Some c \<longrightarrow> gc_target_block_index c = t \<and>
      (\<exists>b. nearest_block blks (slice (t * bs) (t * bs + bs) prompt) t b \<and>
        gc_source_block_index c = gb_block_index b \<and> gc_source_contextual_hash c = gb_contextual_hash b)"
    by auto
  show ?case
  proof (cases q)
    case None
    then show ?thesis using IH ok(1) by (simp add: q(3) map_filter_simps)
  next
    case (Some c)
    then show ?thesis using IH ok by (simp add: q(3) map_filter_simps)
  qed
qed (simp add: map_filter_simps)

lemma gdn_candidates_total: "\<exists>cs. gdn_candidates ix src prompt native = Inr cs"
proof -
  have "\<exists>rs. map_res (gdn_candidate_at (gdn_by_content blks) prompt bs) ts = Inr rs" for blks bs ts
    unfolding map_res_ok using candidate_at_ok by blast
  then show ?thesis unfolding gdn_candidates_def Let_def by simp
qed

text \<open>The four early answers and the located one.\<close>

definition gdn_plan_of :: "gdn_index \<Rightarrow> request \<Rightarrow> nat \<Rightarrow> string \<Rightarrow> string \<Rightarrow> gdn_candidate list \<Rightarrow> gdn_plan" where
  "gdn_plan_of ix req native sid reason cs =
     \<lparr>gp_source_request_id = sid, gp_target_request_id = effective_request_id req,
      gp_block_size = gi_block_size ix, gp_native_cached_tokens = native,
      gp_reason = reason, gp_candidates = cs\<rparr>"

lemma gdn_plan_of_fields [simp]:
  "gp_reason (gdn_plan_of ix req native sid reason cs) = reason"
  "gp_candidates (gdn_plan_of ix req native sid reason cs) = cs"
  by (simp_all add: gdn_plan_of_def)

lemma gdn_locate_eq:
  assumes "cs_source_request_id req = Some sid" "gdn_get sid ix = (source, ix')"
  shows "gdn_locate req native ix =
    (let P = \<lambda>reason cs. Inr (Some (gdn_plan_of ix' req native sid reason cs), ix')
     in case source of
          None \<Rightarrow> P ''source_not_indexed'' []
        | Some src \<Rightarrow>
            if gs_cache_salt src \<noteq> cache_salt req then P ''cache_salt_mismatch'' []
            else if gs_lora_adapter_id src \<noteq> request_adapter_id req then P ''lora_mismatch'' []
            else (case prompt_token_ids req of
                None \<Rightarrow> P ''token_ids_unavailable'' []
              | Some prompt \<Rightarrow>
                  (let cs = projr (gdn_candidates ix' src prompt native)
                   in P (if cs \<noteq> [] then ''aligned_candidates'' else ''no_aligned_candidates'') cs)))"
proof -
  have mk: "gdn_make_plan ix' req native reason cs = Inr (gdn_plan_of ix' req native sid reason cs)" for reason cs
    by (simp add: gdn_make_plan_def gdn_plan_of_def assms(1))
  have "bind_res (gdn_candidates ix' src prompt native) f = f (projr (gdn_candidates ix' src prompt native))"
    for src prompt and f :: "gdn_candidate list \<Rightarrow> (gdn_plan option \<times> gdn_index) res"
    using gdn_candidates_total[of ix' src prompt native] by auto
  then show ?thesis
    by (simp add: gdn_locate_def assms mk Let_def split: option.split)
qed

lemma gdn_locate_total:
  "\<exists>p ix'. gdn_locate req native ix = Inr (p, ix') \<and> (p = None \<longleftrightarrow> cs_source_request_id req = None)"
proof (cases "cs_source_request_id req")
  case (Some sid)
  obtain source ix2 where g: "gdn_get sid ix = (source, ix2)" by fastforce
  show ?thesis
    unfolding gdn_locate_eq[OF Some g] by (simp add: Let_def Some split: option.split)
qed (simp add: gdn_locate_def)

lemma gdn_get_fields:
  assumes "gdn_get sid ix = (source, ix')"
  shows "source = od_get (gi_sources ix) sid \<and> gi_block_size ix' = gi_block_size ix \<and>
    gi_max_candidate_blocks ix' = gi_max_candidate_blocks ix"
  using assms by (auto simp: gdn_get_def split: option.splits)

text \<open>The candidates as a relation between the two prompts: every full target block behind the hit
  whose tokens are those of a retained block of the source, with the nearest such block.\<close>

definition gdn_exact :: "nat \<Rightarrow> nat option \<Rightarrow> int list \<Rightarrow> bytes list \<Rightarrow> int list \<Rightarrow> nat \<Rightarrow> gdn_candidate list \<Rightarrow> bool" where
  "gdn_exact bs limit source_prompt hashes prompt native cs \<longleftrightarrow>
     (let n = length source_prompt div bs;
          first = (case limit of None \<Rightarrow> 0 | Some m \<Rightarrow> n - m);
          reuses = (\<lambda>t i. first \<le> i \<and> i < n \<and>
            slice (i * bs) (i * bs + bs) source_prompt = slice (t * bs) (t * bs + bs) prompt)
      in map gc_target_block_index cs =
           filter (\<lambda>t. \<exists>i. reuses t i) [(native + bs - 1) div bs..<length prompt div bs] \<and>
         (\<forall>c \<in> set cs.
            let t = gc_target_block_index c; i = gc_source_block_index c
            in reuses t i \<and> gc_source_contextual_hash c = hashes ! i \<and>
               (\<forall>j. reuses t j \<longrightarrow> (\<bar>int i - int t\<bar>, i) \<le> (\<bar>int j - int t\<bar>, j))))"

lemma gdn_candidates_exact:
  assumes h: "build_gdn_contextual_block_hashes sha source_prompt bs salt adapter = Inr hashes"
    and blocks: "gs_blocks src = gdn_source_blocks bs source_prompt hashes" and bs_def: "bs = gi_block_size ix"
    and cs: "gdn_candidates ix src prompt native = Inr cs"
  shows "gdn_exact bs (gi_max_candidate_blocks ix) source_prompt hashes prompt native cs"
proof -
  define n where "n = length hashes"
  define first where "first = (case gi_max_candidate_blocks ix of None \<Rightarrow> 0 | Some m \<Rightarrow> n - m)"
  define blk where "blk i = \<lparr>gb_block_index = i, gb_token_ids = slice (i * bs) (i * bs + bs) source_prompt,
      gb_contextual_hash = hashes ! i\<rparr>" for i
  define reuses where "reuses t i \<longleftrightarrow> first \<le> i \<and> i < n \<and>
    slice (i * bs) (i * bs + bs) source_prompt = slice (t * bs) (t * bs + bs) prompt" for t i
  define blks where "blks = last_blocks (gi_max_candidate_blocks ix) (gs_blocks src)"
  have "gs_blocks src = map blk [0..<n]"
    using build_length[OF h] by (simp add: blocks gdn_source_blocks_def blk_def n_def add.commute)
  then have blks: "blks = map blk [first..<n]"
    by (simp add: blks_def last_blocks_def first_def drop_map split: option.split)
  have same: "slice (t * bs) (t * bs + bs) prompt \<in> gb_token_ids ` set blks \<longleftrightarrow> (\<exists>i. reuses t i)" for t
    by (auto simp: blks blk_def reuses_def image_iff Bex_def)
  have near: "reuses t (gb_block_index b) \<and> gb_contextual_hash b = hashes ! gb_block_index b \<and>
      (\<forall>j. reuses t j \<longrightarrow> gdn_distance t b \<le> (\<bar>int j - int t\<bar>, j))"
    if "nearest_block blks (slice (t * bs) (t * bs + bs) prompt) t b" for t b
  proof -
    from that obtain i where i: "b = blk i" "reuses t i"
      by (auto simp: nearest_block_def blks blk_def reuses_def)
    have "gdn_distance t b \<le> gdn_distance t (blk j)" if "reuses t j" for j
      using that \<open>nearest_block _ _ _ _\<close> by (auto simp: nearest_block_def blks reuses_def blk_def)
    with i show ?thesis by (simp add: gdn_distance_def blk_def)
  qed
  obtain rs where rs: "map_res (gdn_candidate_at (gdn_by_content blks) prompt bs)
      [(native + bs - 1) div bs..<length prompt div bs] = Inr rs" "cs = List.map_filter id rs"
    using cs by (auto simp: gdn_candidates_def Let_def bs_def[symmetric] blks_def)
  note ok = candidates_ok[OF rs(1), folded rs(2), unfolded same]
  have each: "reuses (gc_target_block_index c) (gc_source_block_index c) \<and>
      gc_source_contextual_hash c = hashes ! gc_source_block_index c \<and>
      (\<forall>j. reuses (gc_target_block_index c) j \<longrightarrow>
        (\<bar>int (gc_source_block_index c) - int (gc_target_block_index c)\<bar>, gc_source_block_index c)
          \<le> (\<bar>int j - int (gc_target_block_index c)\<bar>, j))" if "c \<in> set (cs)" for c
  proof -
    from ok that obtain b where b: "nearest_block blks
        (slice (gc_target_block_index c * bs) (gc_target_block_index c * bs + bs) prompt) (gc_target_block_index c) b"
        "gc_source_block_index c = gb_block_index b" "gc_source_contextual_hash c = gb_contextual_hash b" by blast
    from near[OF b(1)] show ?thesis by (simp add: b(2,3) gdn_distance_def)
  qed
  have len: "n = length source_prompt div bs" using build_length[OF h] by (simp add: n_def)
  have targets: "map gc_target_block_index cs =
      filter (\<lambda>t. \<exists>i. reuses t i) [(native + bs - 1) div bs..<length prompt div bs]"
    by (rule ok[THEN conjunct1])
  show ?thesis
    unfolding gdn_exact_def Let_def len[symmetric] first_def[symmetric] reuses_def[symmetric]
    by (intro conjI ballI targets) (use each in blast)+
qed

lemma indexed_source:
  assumes "gdn_inv sha ix0" "gdn_index_request sha source ix0 = Inr ix" "prompt_token_ids source = Some source_prompt"
  shows "\<exists>src hashes. od_get (gi_sources ix) (effective_request_id source) = Some src \<and>
    gs_cache_salt src = cache_salt source \<and> gs_lora_adapter_id src = request_adapter_id source \<and>
    build_gdn_contextual_block_hashes sha source_prompt (gi_block_size ix) (cache_salt source)
      (request_adapter_id source) = Inr hashes \<and>
    gs_blocks src = gdn_source_blocks (gi_block_size ix) source_prompt hashes"
proof -
  define rid where "rid = effective_request_id source"
  from assms(2,3) obtain hashes src where
    h: "build_gdn_contextual_block_hashes sha source_prompt (gi_block_size ix0) (cache_salt source)
      (request_adapter_id source) = Inr hashes"
    and src: "src = \<lparr>gs_request_id = rid, gs_cache_salt = cache_salt source,
      gs_lora_adapter_id = request_adapter_id source,
      gs_blocks = gdn_source_blocks (gi_block_size ix0) source_prompt hashes\<rparr>"
    and ix: "ix = ix0\<lparr>gi_sources := drop_oldest (gi_max_source_requests ix0)
      (od_move_to_end rid (od_set rid src (gi_sources ix0)))\<rparr>"
    by (auto simp: gdn_index_request_def Let_def rid_def)
  define rest where "rest = od_pop rid (od_set rid src (gi_sources ix0))"
  define k where "k = length (rest @ [(rid, src)]) - gi_max_source_requests ix0"
  have "od_move_to_end rid (od_set rid src (gi_sources ix0)) = rest @ [(rid, src)]"
    by (simp add: od_move_to_end_def rest_def)
  moreover have "k \<le> length rest"
  proof -
    have "1 \<le> gi_max_source_requests ix0" using assms(1) by (simp add: gdn_inv_def)
    then show ?thesis unfolding k_def length_append list.size by linarith
  qed
  ultimately have kept: "gi_sources ix = drop k rest @ [(rid, src)]"
    by (simp add: ix drop_oldest_eq k_def)
  have "rid \<notin> od_dom rest" by (simp add: rest_def)
  then have "rid \<notin> od_dom (drop k rest)" using set_drop_subset[of k rest] by blast
  then have "od_get (drop k rest) rid = None" by (simp only: map_of_eq_None_iff) simp
  then have "od_get (gi_sources ix) rid = Some src"
    unfolding kept by (simp add: map_add_def)
  then show ?thesis using h by (intro exI[of _ src] exI[of _ hashes]) (simp add: rid_def src ix)
qed

text \<open>C40. A request that names the source just indexed gets a plan, and never an error.  With another
  salt or adapter the plan is empty.  Otherwise it holds one candidate for every full target block
  behind the native hit whose tokens are those of a full block of the source prompt (of the last
  \<open>max_candidate_blocks\<close> when that is set); the candidate names the nearest such block, the earlier
  of two, and the contextual hash which that block has in the source prompt.\<close>

theorem gdn_locate_exact:
  assumes "gdn_reach sha ix0" and "gdn_index_request sha source ix0 = Inr ix"
    and "prompt_token_ids source = Some source_prompt" and "prompt_token_ids req = Some prompt"
    and "cs_source_request_id req = Some (effective_request_id source)"
  shows "\<exists>p ix' hashes. gdn_locate req native ix = Inr (Some p, ix') \<and>
    gp_source_request_id p = effective_request_id source \<and> gp_block_size p = gi_block_size ix \<and>
    build_gdn_contextual_block_hashes sha source_prompt (gi_block_size ix) (cache_salt source)
      (request_adapter_id source) = Inr hashes \<and>
    (if cache_salt source \<noteq> cache_salt req then gp_reason p = ''cache_salt_mismatch'' \<and> gp_candidates p = []
     else if request_adapter_id source \<noteq> request_adapter_id req
     then gp_reason p = ''lora_mismatch'' \<and> gp_candidates p = []
     else gp_reason p = (if gp_candidates p = [] then ''no_aligned_candidates'' else ''aligned_candidates'') \<and>
       gdn_exact (gi_block_size ix) (gi_max_candidate_blocks ix) source_prompt hashes prompt native (gp_candidates p))"
proof -
  obtain src hashes where src: "od_get (gi_sources ix) (effective_request_id source) = Some src"
    "gs_cache_salt src = cache_salt source" "gs_lora_adapter_id src = request_adapter_id source"
    "build_gdn_contextual_block_hashes sha source_prompt (gi_block_size ix) (cache_salt source)
      (request_adapter_id source) = Inr hashes"
    "gs_blocks src = gdn_source_blocks (gi_block_size ix) source_prompt hashes"
    using indexed_source[OF gdn_reach_gdn_inv[OF assms(1)] assms(2,3)] by blast
  obtain ix2 where g: "gdn_get (effective_request_id source) ix = (Some src, ix2)"
    by (simp add: gdn_get_def src(1))
  note f = gdn_get_fields[OF g]
  have same: "gdn_candidates ix2 = gdn_candidates ix"
    using f by (simp add: fun_eq_iff gdn_candidates_def)
  obtain cs where cs: "gdn_candidates ix src prompt native = Inr cs" using gdn_candidates_total by blast
  have exact: "gdn_exact (gi_block_size ix) (gi_max_candidate_blocks ix) source_prompt hashes prompt native cs"
    by (rule gdn_candidates_exact[OF src(4,5) refl cs])
  have plan: "gp_source_request_id (gdn_plan_of ix2 req native sid reason l) = sid"
    "gp_block_size (gdn_plan_of ix2 req native sid reason l) = gi_block_size ix" for sid reason l
    using f by (simp_all add: gdn_plan_of_def)
  show ?thesis
    unfolding gdn_locate_eq[OF assms(5) g] Let_def option.case src(2,3) assms(4) same cs sum.sel
    using exact src(4) by (auto simp: plan)
qed

text \<open>A source of four blocks, of which the last two are retained, and a target that repeats one.\<close>

definition demo_gdn_request :: "string \<Rightarrow> int list \<Rightarrow> string option \<Rightarrow> request" where
  "demo_gdn_request rid toks source =
     (demo_waiting rid 0 0)\<lparr>prompt_token_ids := Some toks, cs_source_request_id := source\<rparr>"

definition demo_sha :: "bytes \<Rightarrow> bytes" where
  "demo_sha b = [of_nat (length b), foldr (+) b 0]"

lemma gdn_locate_exact_witness:
  "\<exists>ix0 ix p ix' hashes. gdn_reach demo_sha ix0 \<and>
    gdn_index_request demo_sha (demo_gdn_request ''a'' [1, 2, 3, 4, 5, 6, 7, 8] None) ix0 = Inr ix \<and>
    gdn_locate (demo_gdn_request ''b'' [9, 9, 5, 6, 1, 2] (Some ''a'')) 2 ix = Inr (Some p, ix') \<and>
    map gc_target_block_index (gp_candidates p) = [1] \<and>
    gdn_exact 2 (Some 2) [1, 2, 3, 4, 5, 6, 7, 8] hashes [9, 9, 5, 6, 1, 2] 2 (gp_candidates p)"
proof -
  let ?src = "demo_gdn_request ''a'' [1, 2, 3, 4, 5, 6, 7, 8] None"
  let ?req = "demo_gdn_request ''b'' [9, 9, 5, 6, 1, 2] (Some ''a'')"
  have c: "case bind_res (gdn_index_init 2 2 (Some 2)) (\<lambda>ix0. bind_res (gdn_index_request demo_sha ?src ix0) (\<lambda>ix.
      bind_res (gdn_locate ?req 2 ix) (\<lambda>out. Inr (ix0, ix, out)))) of
    Inr (ix0, ix, Some p, ix') \<Rightarrow> map gc_target_block_index (gp_candidates p) = [1] \<and>
      gi_max_candidate_blocks ix = Some 2 \<and> gi_block_size ix = 2
  | _ \<Rightarrow> False"
    by code_simp
  then obtain ix0 ix p ix' where s: "gdn_index_init 2 2 (Some 2) = Inr ix0" "gdn_index_request demo_sha ?src ix0 = Inr ix"
    "gdn_locate ?req 2 ix = Inr (Some p, ix')" "map gc_target_block_index (gp_candidates p) = [1]"
    "gi_max_candidate_blocks ix = Some 2" "gi_block_size ix = 2"
    by (auto split: sum.splits prod.splits option.splits)
  have reach: "gdn_reach demo_sha ix0" by (rule gdn_reach.init[OF s(1)])
  have r: "prompt_token_ids ?src = Some [1, 2, 3, 4, 5, 6, 7, 8]" "prompt_token_ids ?req = Some [9, 9, 5, 6, 1, 2]"
    "cs_source_request_id ?req = Some (effective_request_id ?src)"
    "cache_salt ?src = cache_salt ?req" "request_adapter_id ?src = request_adapter_id ?req"
    by code_simp+
  from gdn_locate_exact[OF reach s(2) r(1-3), of 2] s(3,5,6) r(4,5) obtain hashes where
    "gdn_exact 2 (Some 2) [1, 2, 3, 4, 5, 6, 7, 8] hashes [9, 9, 5, 6, 1, 2] 2 (gp_candidates p)" by auto
  with reach s(2-4) show ?thesis
    by (intro exI[of _ ix0] exI[of _ ix] exI[of _ p] exI[of _ ix'] exI[of _ hashes] conjI)
qed

end
