(* ===== verification/GdnOperators.thy ===== *)
theory GdnOperators
  imports Prelude
begin

text \<open>
  Affine operators of gated delta-net blocks, from
  \<^verbatim>\<open>vllm/model_executor/layers/mamba/gdn/delta_cache.py\<close>: the operator of an unchanged block
  built token by token, and its application to a new incoming state.  Tensors carry their shape
  and the entries inside it; the floating-point numbers are real numbers, so dtypes, rounding and
  devices are not modelled, and the number of dimensions of a tensor is its type.
\<close>

section \<open>Tensors\<close>

record ten2 =
  shape2 :: "nat \<times> nat"
  at2 :: "nat \<Rightarrow> nat \<Rightarrow> real"

record ten3 =
  shape3 :: "nat \<times> nat \<times> nat"
  at3 :: "nat \<Rightarrow> nat \<Rightarrow> nat \<Rightarrow> real"

definition mk2 :: "nat \<Rightarrow> nat \<Rightarrow> (nat \<Rightarrow> nat \<Rightarrow> real) \<Rightarrow> ten2" where
  "mk2 m n f = \<lparr>shape2 = (m, n), at2 = (\<lambda>i j. if i < m \<and> j < n then f i j else 0)\<rparr>"

definition mk3 :: "nat \<Rightarrow> nat \<Rightarrow> nat \<Rightarrow> (nat \<Rightarrow> nat \<Rightarrow> nat \<Rightarrow> real) \<Rightarrow> ten3" where
  "mk3 m n p f = \<lparr>shape3 = (m, n, p), at3 = (\<lambda>i j k. if i < m \<and> j < n \<and> k < p then f i j k else 0)\<rparr>"

text \<open>The first dimension sliced as \<open>x[i:j]\<close>.\<close>

definition slice2 :: "nat \<Rightarrow> nat \<Rightarrow> ten2 \<Rightarrow> ten2" where
  "slice2 i j x = (case shape2 x of (m, n) \<Rightarrow> mk2 (min j m - i) n (\<lambda>t. at2 x (i + t)))"

definition slice3 :: "nat \<Rightarrow> nat \<Rightarrow> ten3 \<Rightarrow> ten3" where
  "slice3 i j x = (case shape3 x of (m, n, p) \<Rightarrow> mk3 (min j m - i) n p (\<lambda>t. at3 x (i + t)))"

definition sumn :: "nat \<Rightarrow> (nat \<Rightarrow> real) \<Rightarrow> real" where
  "sumn n f = sum_list (map f [0..<n])"

lemma sumn_sum: "sumn n f = (\<Sum>k<n. f k)"
  by (simp add: sumn_def interv_sum_list_conv_sum_set_nat atLeast0LessThan)

lemma mk3_simps [simp]:
  "shape3 (mk3 m n p f) = (m, n, p)"
  "i < m \<Longrightarrow> j < n \<Longrightarrow> k < p \<Longrightarrow> at3 (mk3 m n p f) i j k = f i j k"
  by (simp_all add: mk3_def)

lemma mk2_simps [simp]:
  "shape2 (mk2 m n f) = (m, n)"
  "i < m \<Longrightarrow> j < n \<Longrightarrow> at2 (mk2 m n f) i j = f i j"
  by (simp_all add: mk2_def)

lemma mk3_cong:
  "(\<And>i j k. i < m \<Longrightarrow> j < n \<Longrightarrow> k < p \<Longrightarrow> f i j k = g i j k) \<Longrightarrow> mk3 m n p f = mk3 m n p g"
  by (auto simp: mk3_def fun_eq_iff)

lemma mk2_cong:
  "(\<And>i j. i < m \<Longrightarrow> j < n \<Longrightarrow> f i j = g i j) \<Longrightarrow> mk2 m n f = mk2 m n g"
  by (auto simp: mk2_def fun_eq_iff)

section \<open>Building an operator\<close>

record gdn_operator =
  op_transition :: ten3
  op_responses :: ten3
  op_state_bias :: ten3
  op_output_biases :: ten3

definition expand_heads :: "ten3 \<Rightarrow> nat \<Rightarrow> ten3 res" where
  "expand_heads x value_heads =
     (case shape3 x of (n, key_heads, w) \<Rightarrow>
        if key_heads = 0 then Inl ZeroDivisionError
        else if value_heads mod key_heads \<noteq> 0
        then Inl (ValueError ''value-head count must be divisible by key-head count'')
        else Inr (mk3 n value_heads w (\<lambda>t h. at3 x t (h div (value_heads div key_heads)))))"

text \<open>\<open>key_width**-0.5\<close>.\<close>

definition output_scale :: "nat \<Rightarrow> real res" where
  "output_scale w = (if w = 0 then Inl ZeroDivisionError else Inr (1 / sqrt (real w)))"

definition eye_heads :: "nat \<Rightarrow> nat \<Rightarrow> ten3" where
  "eye_heads heads w = mk3 heads w w (\<lambda>h i j. if i = j then 1 else 0)"

fun delta_loop ::
  "ten3 \<Rightarrow> ten3 \<Rightarrow> ten2 \<Rightarrow> ten2 \<Rightarrow> nat \<Rightarrow> nat \<Rightarrow> real \<Rightarrow> nat list \<Rightarrow> ten3 \<Rightarrow>
   ten3 \<times> ten2 list" where
  "delta_loop keys queries decays betas heads kw scale [] tr = (tr, [])"
| "delta_loop keys queries decays betas heads kw scale (t # ts) tr =
     (let read = (\<lambda>h i. sumn kw (\<lambda>l. at3 tr h i l * at3 keys t h l));
          tr' = mk3 heads kw kw (\<lambda>h i j.
            exp (at2 decays t h) * (at3 tr h i j - at2 betas t h * read h i * at3 keys t h j));
          response = mk2 heads kw (\<lambda>h i. sumn kw (\<lambda>l. at3 tr' h i l * at3 queries t h l) * scale);
          (tr'', rest) = delta_loop keys queries decays betas heads kw scale ts tr'
      in (tr'', response # rest))"

definition build_gdn_delta_operator ::
  "ten3 \<Rightarrow> ten3 \<Rightarrow> ten2 \<Rightarrow> ten2 \<Rightarrow> (ten3 \<times> ten3) res" where
  "build_gdn_delta_operator keys queries decays betas =
     bind_res (check_res (shape3 queries = shape3 keys)
       (ValueError ''keys and queries must have matching [T,H,K] shapes'')) (\<lambda>_.
     case shape3 keys of (n, _, kw) \<Rightarrow>
     bind_res (check_res (shape2 betas = shape2 decays)
       (ValueError ''log_decays and betas must have matching [T,HV] shapes'')) (\<lambda>_.
     bind_res (check_res (fst (shape2 decays) = n) (ValueError ''coefficient and token counts must agree'')) (\<lambda>_.
     let heads = snd (shape2 decays) in
     bind_res (expand_heads keys heads) (\<lambda>ks.
     bind_res (expand_heads queries heads) (\<lambda>qs.
     bind_res (output_scale kw) (\<lambda>scale.
       let (tr, rows) = delta_loop ks qs decays betas heads kw scale [0..<n] (eye_heads heads kw)
       in Inr (tr, mk3 n heads kw (\<lambda>t. at2 (rows ! t)))))))))"

text \<open>
  The state and output recurrence of a block: decay, read, innovation, output.  The code runs it
  from the zero state to get the biases; run from another state it is the recurrence of the
  layer itself.
\<close>

fun state_loop ::
  "ten3 \<Rightarrow> ten3 \<Rightarrow> ten3 \<Rightarrow> ten2 \<Rightarrow> ten2 \<Rightarrow> nat \<Rightarrow> nat \<Rightarrow> nat \<Rightarrow> real \<Rightarrow> nat list \<Rightarrow> ten3 \<Rightarrow>
   ten3 \<times> ten2 list" where
  "state_loop keys queries vals decays betas heads vw kw scale [] s = (s, [])"
| "state_loop keys queries vals decays betas heads vw kw scale (t # ts) s =
     (let s1 = mk3 heads vw kw (\<lambda>h i j. at3 s h i j * exp (at2 decays t h));
          prior = (\<lambda>h i. sumn kw (\<lambda>l. at3 s1 h i l * at3 keys t h l));
          innovation = (\<lambda>h i. at2 betas t h * (at3 vals t h i - prior h i));
          s2 = mk3 heads vw kw (\<lambda>h i j. at3 s1 h i j + innovation h i * at3 keys t h j);
          out = mk2 heads vw (\<lambda>h i. sumn kw (\<lambda>l. at3 s2 h i l * at3 queries t h l) * scale);
          (s3, rest) = state_loop keys queries vals decays betas heads vw kw scale ts s2
      in (s3, out # rest))"

definition zeros3 :: "nat \<Rightarrow> nat \<Rightarrow> nat \<Rightarrow> ten3" where
  "zeros3 m n p = mk3 m n p (\<lambda>_ _ _. 0)"

definition build_gdn_affine_operator ::
  "ten3 \<Rightarrow> ten3 \<Rightarrow> ten3 \<Rightarrow> ten2 \<Rightarrow> ten2 \<Rightarrow> gdn_operator res" where
  "build_gdn_affine_operator keys queries vals decays betas =
     bind_res (build_gdn_delta_operator keys queries decays betas) (\<lambda>(tr, responses).
     case shape3 keys of (n, _, kw) \<Rightarrow>
     let heads = snd (shape2 decays); (vn, vh, vw) = shape3 vals in
     bind_res (check_res ((vn, vh) = (n, heads)) (ValueError ''values must have shape [T,HV,V]'')) (\<lambda>_.
     bind_res (expand_heads keys heads) (\<lambda>ks.
     bind_res (expand_heads queries heads) (\<lambda>qs.
     bind_res (output_scale kw) (\<lambda>scale.
       let (bias, rows) = state_loop ks qs vals decays betas heads vw kw scale [0..<n] (zeros3 heads vw kw)
       in Inr \<lparr>op_transition = tr, op_responses = responses, op_state_bias = bias,
               op_output_biases = mk3 n heads vw (\<lambda>t. at2 (rows ! t))\<rparr>)))))"

section \<open>Applying an operator\<close>

definition apply_gdn_affine_operator :: "ten3 \<Rightarrow> gdn_operator \<Rightarrow> (ten3 \<times> ten3) res" where
  "apply_gdn_affine_operator s op =
     (case shape3 s of (heads, vw, kw) \<Rightarrow>
      case shape3 (op_responses op) of (n, rh, rk) \<Rightarrow>
      bind_res (check_res (shape3 (op_transition op) = (heads, kw, kw))
        (ValueError ''initial state and transition dimensions do not agree'')) (\<lambda>_.
      bind_res (check_res (shape3 (op_state_bias op) = shape3 s)
        (ValueError ''initial state and state bias dimensions do not agree'')) (\<lambda>_.
      bind_res (check_res ((rh, rk) = (heads, kw))
        (ValueError ''initial state and output response dimensions do not agree'')) (\<lambda>_.
      bind_res (check_res (shape3 (op_output_biases op) = (n, heads, vw))
        (ValueError ''output response and bias dimensions do not agree'')) (\<lambda>_.
        Inr (mk3 heads vw kw (\<lambda>h i j.
               sumn kw (\<lambda>l. at3 s h i l * at3 (op_transition op) h l j) + at3 (op_state_bias op) h i j),
             mk3 n heads vw (\<lambda>t h i.
               sumn kw (\<lambda>l. at3 s h i l * at3 (op_responses op) t h l) + at3 (op_output_biases op) t h i)))))))"

section \<open>An operator is the recurrence of its block\<close>

lemma delta_loop_length: "length (snd (delta_loop keys queries decays betas heads kw scale ts tr)) = length ts"
  by (induction ts arbitrary: tr) (simp_all add: Let_def case_prod_beta)

lemma state_loop_length:
  "length (snd (state_loop keys queries vals decays betas heads vw kw scale ts s)) = length ts"
  by (induction ts arbitrary: s) (simp_all add: Let_def case_prod_beta)

lemma delta_loop_shape:
  "shape3 tr = (heads, kw, kw) \<Longrightarrow>
    shape3 (fst (delta_loop keys queries decays betas heads kw scale ts tr)) = (heads, kw, kw)"
  by (induction ts arbitrary: tr) (simp_all add: Let_def case_prod_beta)

lemma state_loop_append:
  "state_loop keys queries vals decays betas heads vw kw scale (ts @ us) s =
    (let (s1, r1) = state_loop keys queries vals decays betas heads vw kw scale ts s;
         (s2, r2) = state_loop keys queries vals decays betas heads vw kw scale us s1
     in (s2, r1 @ r2))"
  by (induction ts arbitrary: s) (simp_all add: Let_def case_prod_beta)

text \<open>One token: the affine parts follow the recurrence of any incoming state.\<close>

lemma affine_step:
  fixes S :: "nat \<Rightarrow> real"
  assumes tr': "\<And>l j. l < n \<Longrightarrow> j < n \<Longrightarrow> tr' l j = e * (tr l j - b * (\<Sum>m<n. tr l m * k m) * k j)"
    and s: "\<And>j. j < n \<Longrightarrow> s j = (\<Sum>l<n. S l * tr l j) + B j" and j: "j < n"
  shows "s j * e + b * (v - (\<Sum>m<n. s m * e * k m)) * k j =
    (\<Sum>l<n. S l * tr' l j) + (B j * e + b * (v - (\<Sum>m<n. B m * e * k m)) * k j)"
proof -
  define c where "c = (\<Sum>m<n. (\<Sum>l<n. S l * tr l m) * k m)"
  have swap: "(\<Sum>l<n. S l * (\<Sum>m<n. tr l m * k m)) = c"
  proof -
    have "(\<Sum>l<n. S l * (\<Sum>m<n. tr l m * k m)) = (\<Sum>l<n. \<Sum>m<n. S l * tr l m * k m)"
      by (simp add: sum_distrib_left mult.assoc)
    also have "\<dots> = (\<Sum>m<n. \<Sum>l<n. S l * tr l m * k m)" by (rule sum.swap)
    finally show ?thesis by (simp add: c_def sum_distrib_right)
  qed
  have read: "(\<Sum>m<n. s m * e * k m) = e * c + (\<Sum>m<n. B m * e * k m)"
  proof -
    have "(\<Sum>m<n. s m * e * k m) = (\<Sum>m<n. e * ((\<Sum>l<n. S l * tr l m) * k m) + B m * e * k m)"
      by (rule sum.cong) (simp_all add: s algebra_simps)
    then show ?thesis by (simp add: sum.distrib sum_distrib_left c_def)
  qed
  have "(\<Sum>l<n. S l * tr' l j) = (\<Sum>l<n. e * (S l * tr l j) - e * b * k j * (S l * (\<Sum>m<n. tr l m * k m)))"
    by (rule sum.cong) (simp_all add: tr' j algebra_simps)
  then have "(\<Sum>l<n. S l * tr' l j) = e * (\<Sum>l<n. S l * tr l j) - e * b * k j * c"
    by (simp add: sum_subtractf flip: sum_distrib_left swap)
  then show ?thesis unfolding read s[OF j] by (simp add: algebra_simps)
qed

lemma affine_output:
  fixes S :: "nat \<Rightarrow> real"
  assumes "\<And>j. j < n \<Longrightarrow> s j = (\<Sum>l<n. S l * tr l j) + B j"
  shows "(\<Sum>j<n. s j * q j) * c = (\<Sum>l<n. S l * ((\<Sum>j<n. tr l j * q j) * c)) + (\<Sum>j<n. B j * q j) * c"
proof -
  have "(\<Sum>j<n. s j * q j) = (\<Sum>j<n. \<Sum>l<n. S l * tr l j * q j) + (\<Sum>j<n. B j * q j)"
    by (simp add: assms sum.distrib distrib_right sum_distrib_right)
  also have "(\<Sum>j<n. \<Sum>l<n. S l * tr l j * q j) = (\<Sum>l<n. \<Sum>j<n. S l * tr l j * q j)" by (rule sum.swap)
  also have "\<dots> = (\<Sum>l<n. S l * (\<Sum>j<n. tr l j * q j))" by (simp add: sum_distrib_left mult.assoc)
  finally show ?thesis by (simp add: algebra_simps sum_distrib_left sum_distrib_right)
qed

definition affine_in :: "nat \<Rightarrow> nat \<Rightarrow> nat \<Rightarrow> ten3 \<Rightarrow> ten3 \<Rightarrow> ten3 \<Rightarrow> ten3 \<Rightarrow> bool" where
  "affine_in heads vw kw S tr B s \<longleftrightarrow>
     (\<forall>h<heads. \<forall>i<vw. \<forall>j<kw. at3 s h i j = (\<Sum>l<kw. at3 S h i l * at3 tr h l j) + at3 B h i j)"

lemma affine_loop:
  assumes "affine_in heads vw kw S tr B s"
    and "delta_loop keys queries decays betas heads kw scale ts tr = (tr', rs)"
    and "state_loop keys queries vals decays betas heads vw kw scale ts B = (B', bs)"
    and "state_loop keys queries vals decays betas heads vw kw scale ts s = (s', os)"
  shows "affine_in heads vw kw S tr' B' s' \<and>
    (\<forall>t<length ts. \<forall>h<heads. \<forall>i<vw. at2 (os ! t) h i = (\<Sum>l<kw. at3 S h i l * at2 (rs ! t) h l) + at2 (bs ! t) h i)"
  using assms
proof (induction ts arbitrary: tr B s tr' rs B' bs s' os)
  case (Cons t ts)
  let ?e = "\<lambda>h. exp (at2 decays t h)" and ?b = "at2 betas t" and ?k = "at3 keys t" and ?q = "at3 queries t"
  define tr1 where "tr1 = mk3 heads kw kw (\<lambda>h i j. ?e h * (at3 tr h i j -
    ?b h * sumn kw (\<lambda>l. at3 tr h i l * ?k h l) * ?k h j))"
  define step where "step x = (let x1 = mk3 heads vw kw (\<lambda>h i j. at3 x h i j * ?e h)
    in mk3 heads vw kw (\<lambda>h i j. at3 x1 h i j +
      ?b h * (at3 vals t h i - sumn kw (\<lambda>l. at3 x1 h i l * ?k h l)) * ?k h j))" for x :: ten3
  define out where "out w x = mk2 heads w (\<lambda>h i. sumn kw (\<lambda>l. at3 x h i l * ?q h l) * scale)" for w and x :: ten3
  from Cons.prems(2) obtain rs' where r: "delta_loop keys queries decays betas heads kw scale ts tr1 = (tr', rs')"
    "rs = out kw tr1 # rs'"
    by (auto simp: Let_def tr1_def out_def case_prod_beta prod_eq_iff)
  have unfold: "state_loop keys queries vals decays betas heads vw kw scale (t # ts) x =
      (let (x3, rest) = state_loop keys queries vals decays betas heads vw kw scale ts (step x)
       in (x3, out vw (step x) # rest))" for x
    by (simp add: Let_def step_def out_def)
  from Cons.prems(3) obtain bs' where b: "state_loop keys queries vals decays betas heads vw kw scale ts (step B) = (B', bs')"
    "bs = out vw (step B) # bs'"
    unfolding unfold by (auto simp: Let_def case_prod_beta prod_eq_iff)
  from Cons.prems(4) obtain os' where o: "state_loop keys queries vals decays betas heads vw kw scale ts (step s) = (s', os')"
    "os = out vw (step s) # os'"
    unfolding unfold by (auto simp: Let_def case_prod_beta prod_eq_iff)
  have step_at: "at3 (step x) h i j = at3 x h i j * ?e h +
      ?b h * (at3 vals t h i - (\<Sum>m<kw. at3 x h i m * ?e h * ?k h m)) * ?k h j"
    if "h < heads" "i < vw" "j < kw" for x h i j
    using that by (simp add: step_def Let_def sumn_sum)
  have here: "affine_in heads vw kw S tr1 (step B) (step s)"
    unfolding affine_in_def
  proof (intro allI impI)
    fix h i j assume hij: "h < heads" "i < vw" "j < kw"
    have "at3 tr1 h l m = ?e h * (at3 tr h l m - ?b h * (\<Sum>p<kw. at3 tr h l p * ?k h p) * ?k h m)"
      if "l < kw" "m < kw" for l m
      using that hij by (simp add: tr1_def sumn_sum)
    moreover have "at3 s h i m = (\<Sum>l<kw. at3 S h i l * at3 tr h l m) + at3 B h i m" if "m < kw" for m
      using Cons.prems(1) hij that by (simp add: affine_in_def)
    ultimately show "at3 (step s) h i j = (\<Sum>l<kw. at3 S h i l * at3 tr1 h l j) + at3 (step B) h i j"
      unfolding step_at[OF hij] using hij(3) by (intro affine_step)
  qed
  have outs: "at2 (out vw (step s)) h i = (\<Sum>l<kw. at3 S h i l * at2 (out kw tr1) h l) + at2 (out vw (step B)) h i"
    if "h < heads" "i < vw" for h i
  proof -
    have "(\<Sum>j<kw. at3 (step s) h i j * ?q h j) * scale =
        (\<Sum>l<kw. at3 S h i l * ((\<Sum>j<kw. at3 tr1 h l j * ?q h j) * scale)) +
        (\<Sum>j<kw. at3 (step B) h i j * ?q h j) * scale"
      using here that by (intro affine_output) (simp add: affine_in_def)
    then show ?thesis using that by (simp add: out_def sumn_sum)
  qed
  note IH = Cons.IH[OF here r(1) b(1) o(1)]
  have "at2 (os ! u) h i = (\<Sum>l<kw. at3 S h i l * at2 (rs ! u) h l) + at2 (bs ! u) h i"
    if "u < length (t # ts)" "h < heads" "i < vw" for u h i
    using IH outs that by (cases u) (simp_all add: r(2) b(2) o(2))
  with IH show ?case by blast
qed simp

text \<open>A tensor whose entries outside its shape are zero is determined by its entries.\<close>

definition ten3_ok :: "ten3 \<Rightarrow> bool" where
  "ten3_ok x \<longleftrightarrow> (case shape3 x of (m, n, p) \<Rightarrow> x = mk3 m n p (at3 x))"

lemma ten3_ok_mk3 [simp]: "ten3_ok (mk3 m n p f)"
  by (auto simp: ten3_ok_def mk3_def fun_eq_iff)

lemma state_loop_ok:
  assumes "ten3_ok s" "shape3 s = (heads, vw, kw)"
  shows "ten3_ok (fst (state_loop keys queries vals decays betas heads vw kw scale ts s)) \<and>
    shape3 (fst (state_loop keys queries vals decays betas heads vw kw scale ts s)) = (heads, vw, kw)"
  using assms by (induction ts arbitrary: s) (simp_all add: Let_def case_prod_beta)

text \<open>The recurrence of a layer over the tokens \<open>ts\<close> of its inputs, from an incoming state.\<close>

definition gdn_recurrence ::
  "ten3 \<Rightarrow> ten3 \<Rightarrow> ten3 \<Rightarrow> ten2 \<Rightarrow> ten2 \<Rightarrow> nat list \<Rightarrow> ten3 \<Rightarrow> ten3 \<times> ten2 list" where
  "gdn_recurrence keys queries vals decays betas ts s =
     (case shape3 s of (heads, vw, kw) \<Rightarrow>
        state_loop (projr (expand_heads keys heads)) (projr (expand_heads queries heads)) vals decays betas
          heads vw kw (1 / sqrt (real kw)) ts s)"

lemma affine_exact:
  assumes build: "build_gdn_affine_operator keys queries vals decays betas = Inr op"
    and keys: "shape3 keys = (n, kh, kw)" and vals: "shape3 vals = (n, heads, vw)"
    and s: "shape3 s = (heads, vw, kw)" "ten3_ok s"
  shows "apply_gdn_affine_operator s op =
    (let (s', rows) = gdn_recurrence keys queries vals decays betas [0..<n] s
     in Inr (s', mk3 n heads vw (\<lambda>t. at2 (rows ! t))))"
proof -
  from build obtain tr responses where d: "build_gdn_delta_operator keys queries decays betas = Inr (tr, responses)"
    by (auto simp: build_gdn_affine_operator_def)
  have hd: "snd (shape2 decays) = heads"
    using build by (auto simp: build_gdn_affine_operator_def d keys vals Let_def)
  from build obtain ks qs scale where e: "expand_heads keys heads = Inr ks" "expand_heads queries heads = Inr qs"
    "output_scale kw = Inr scale"
    by (auto simp: build_gdn_affine_operator_def d keys vals Let_def hd)
  obtain tr' rs where tl: "delta_loop ks qs decays betas heads kw scale [0..<n] (eye_heads heads kw) = (tr', rs)" by fastforce
  obtain bias bs where bl: "state_loop ks qs vals decays betas heads vw kw scale [0..<n] (zeros3 heads vw kw) = (bias, bs)"
    by fastforce
  obtain s' os where sl: "state_loop ks qs vals decays betas heads vw kw scale [0..<n] s = (s', os)" by fastforce
  have scale: "scale = 1 / sqrt (real kw)" using e(3) by (auto simp: output_scale_def split: if_splits)
  have tr: "tr = tr'" "responses = mk3 n heads kw (\<lambda>t. at2 (rs ! t))"
    using d by (auto simp: build_gdn_delta_operator_def keys Let_def hd e tl)
  have op: "op = \<lparr>op_transition = tr, op_responses = responses, op_state_bias = bias,
      op_output_biases = mk3 n heads vw (\<lambda>t. at2 (bs ! t))\<rparr>"
    using build by (simp add: build_gdn_affine_operator_def d keys vals Let_def hd e bl)
  have "affine_in heads vw kw s (eye_heads heads kw) (zeros3 heads vw kw) s"
    by (auto simp: affine_in_def eye_heads_def zeros3_def if_distrib sum.delta' cong: if_cong)
  note A = affine_loop[OF this tl bl sl]
  have shapes: "shape3 tr' = (heads, kw, kw)" "shape3 bias = (heads, vw, kw)" "shape3 s' = (heads, vw, kw)" "ten3_ok s'"
    using delta_loop_shape[of "eye_heads heads kw" heads kw ks qs decays betas scale "[0..<n]"] tl
      state_loop_ok[of "zeros3 heads vw kw" heads vw kw ks qs vals decays betas scale "[0..<n]"] bl
      state_loop_ok[of s heads vw kw ks qs vals decays betas scale "[0..<n]"] sl s
    by (simp_all add: eye_heads_def zeros3_def)
  have "mk3 heads vw kw (\<lambda>h i j. sumn kw (\<lambda>l. at3 s h i l * at3 tr' h l j) + at3 bias h i j) = mk3 heads vw kw (at3 s')"
    using A by (intro mk3_cong) (simp add: sumn_sum affine_in_def)
  also have "\<dots> = s'" using shapes(3,4) by (simp add: ten3_ok_def)
  finally have fin: "mk3 heads vw kw (\<lambda>h i j. sumn kw (\<lambda>l. at3 s h i l * at3 tr' h l j) + at3 bias h i j) = s'" .
  have outs: "mk3 n heads vw (\<lambda>t h i. sumn kw (\<lambda>l. at3 s h i l * at3 (mk3 n heads kw (\<lambda>t. at2 (rs ! t))) t h l) +
      at3 (mk3 n heads vw (\<lambda>t. at2 (bs ! t))) t h i) = mk3 n heads vw (\<lambda>t. at2 (os ! t))"
    using A by (intro mk3_cong) (simp add: sumn_sum)
  show ?thesis
    by (simp add: apply_gdn_affine_operator_def gdn_recurrence_def s op tr shapes fin outs e sl scale[symmetric])
qed

text \<open>The operator built for a block of tokens maps every incoming state of its shape to the final
  state and the outputs of the recurrence over these tokens from that state.\<close>

theorem gdn_affine_exact:
  assumes build: "build_gdn_affine_operator keys queries vals decays betas = Inr op"
    and keys: "shape3 keys = (n, kh, kw)" and vals: "shape3 vals = (n, heads, vw)"
    and s: "shape3 s = (heads, vw, kw)" "ten3_ok s"
  shows "apply_gdn_affine_operator s op =
    (let (s', rows) = gdn_recurrence keys queries vals decays betas [0..<n] s
     in Inr (s', mk3 n heads vw (\<lambda>t. at2 (rows ! t))))"
  using assms by (rule affine_exact)

section \<open>Building succeeds on matching shapes\<close>

lemma build_affine_total:
  assumes "shape3 keys = (n, kh, kw)" "shape3 queries = (n, kh, kw)" "shape3 vals = (n, heads, vw)"
    "shape2 decays = (n, heads)" "shape2 betas = (n, heads)" "0 < kh" "heads mod kh = 0" "0 < kw"
  shows "\<exists>op. build_gdn_affine_operator keys queries vals decays betas = Inr op \<and>
    shape3 (op_transition op) = (heads, kw, kw) \<and> shape3 (op_responses op) = (n, heads, kw) \<and>
    shape3 (op_state_bias op) = (heads, vw, kw) \<and> shape3 (op_output_biases op) = (n, heads, vw)"
  using assms
    delta_loop_shape[of "eye_heads heads kw" heads kw _ _ decays betas _ "[0..<n]"]
    state_loop_ok[of "zeros3 heads vw kw" heads vw kw _ _ vals decays betas _ "[0..<n]"]
  by (simp add: build_gdn_affine_operator_def build_gdn_delta_operator_def expand_heads_def output_scale_def
      Let_def case_prod_beta eye_heads_def zeros3_def)

lemma gdn_affine_exact_witness:
  "\<exists>op. build_gdn_affine_operator (mk3 2 1 1 (\<lambda>_ _ _. 1)) (mk3 2 1 1 (\<lambda>_ _ _. 1)) (mk3 2 2 3 (\<lambda>t _ _. real t))
      (mk2 2 2 (\<lambda>_ _. 0)) (mk2 2 2 (\<lambda>_ _. 1 / 2)) = Inr op \<and>
    apply_gdn_affine_operator (mk3 2 3 1 (\<lambda>_ _ _. 8)) op =
      (let (s', rows) = gdn_recurrence (mk3 2 1 1 (\<lambda>_ _ _. 1)) (mk3 2 1 1 (\<lambda>_ _ _. 1)) (mk3 2 2 3 (\<lambda>t _ _. real t))
        (mk2 2 2 (\<lambda>_ _. 0)) (mk2 2 2 (\<lambda>_ _. 1 / 2)) [0..<2] (mk3 2 3 1 (\<lambda>_ _ _. 8))
       in Inr (s', mk3 2 2 3 (\<lambda>t. at2 (rows ! t))))"
proof -
  obtain op where op: "build_gdn_affine_operator (mk3 2 1 1 (\<lambda>_ _ _. 1)) (mk3 2 1 1 (\<lambda>_ _ _. 1)) (mk3 2 2 3 (\<lambda>t _ _. real t))
      (mk2 2 2 (\<lambda>_ _. 0)) (mk2 2 2 (\<lambda>_ _. 1 / 2)) = Inr op"
    using build_affine_total[of _ 2 1 1 _ _ 2 3] by (metis mk2_simps(1) mk3_simps(1) mod_by_1 zero_less_one)
  show ?thesis
    by (rule exI[of _ op], rule conjI[OF op], rule gdn_affine_exact[OF op]) simp_all
qed

section \<open>Slices\<close>

lemma state_loop_shift:
  assumes "\<And>t h l. t < m \<Longrightarrow> h < heads \<Longrightarrow> l < kw \<Longrightarrow>
      at3 keys' t h l = at3 keys (a + t) h l \<and> at3 queries' t h l = at3 queries (a + t) h l"
    and "\<And>t h i. t < m \<Longrightarrow> h < heads \<Longrightarrow> i < vw \<Longrightarrow> at3 vals' t h i = at3 vals (a + t) h i"
    and "\<And>t h. t < m \<Longrightarrow> h < heads \<Longrightarrow>
      at2 decays' t h = at2 decays (a + t) h \<and> at2 betas' t h = at2 betas (a + t) h"
    and "\<forall>t \<in> set ts. t < m"
  shows "state_loop keys' queries' vals' decays' betas' heads vw kw scale ts s =
    state_loop keys queries vals decays betas heads vw kw scale (map (\<lambda>t. a + t) ts) s"
  using assms(4)
proof (induction ts arbitrary: s)
  case (Cons t ts)
  then have t: "t < m" by simp
  have s1: "mk3 heads vw kw (\<lambda>h i j. at3 s h i j * exp (at2 decays' t h)) =
      mk3 heads vw kw (\<lambda>h i j. at3 s h i j * exp (at2 decays (a + t) h))"
    by (rule mk3_cong) (simp add: assms(3) t)
  have s2: "mk3 heads vw kw (\<lambda>h i j. at3 x h i j + at2 betas' t h *
        (at3 vals' t h i - sumn kw (\<lambda>l. at3 x h i l * at3 keys' t h l)) * at3 keys' t h j) =
      mk3 heads vw kw (\<lambda>h i j. at3 x h i j + at2 betas (a + t) h *
        (at3 vals (a + t) h i - sumn kw (\<lambda>l. at3 x h i l * at3 keys (a + t) h l)) * at3 keys (a + t) h j)" for x :: ten3
    by (rule mk3_cong) (simp add: assms(1-3) t sumn_sum)
  have out: "mk2 heads vw (\<lambda>h i. sumn kw (\<lambda>l. at3 x h i l * at3 queries' t h l) * scale) =
      mk2 heads vw (\<lambda>h i. sumn kw (\<lambda>l. at3 x h i l * at3 queries (a + t) h l) * scale)" for x :: ten3
    by (rule mk2_cong) (simp add: assms(1) t sumn_sum)
  show ?case
    using Cons by (simp add: s1 s2 out Let_def)
qed simp

end
