(* ===== verification/GdnSidecar.thy ===== *)
theory GdnSidecar
  imports GdnOperators
begin

text \<open>
  \<open>GDNDeltaOperatorSidecar\<close> of \<^verbatim>\<open>vllm/model_executor/layers/mamba/gdn/delta_cache.py\<close>: a
  table of block operators with a fixed number of slots and least-recently-used eviction, and the
  loop that stores the operators of the blocks a batch completes.  The four buffers of the code
  are one map from slots to operators; an entry carries the operator its views show when it is
  handed out.
\<close>

section \<open>The table\<close>

record gdn_sidecar =
  sc_capacity :: nat
  sc_block_size :: nat
  sc_value_heads :: nat
  sc_key_width :: nat
  sc_value_width :: nat
  sc_operators :: "nat \<Rightarrow> gdn_operator"
  sc_key_to_slot :: "(bytes, nat) odict"
  sc_free_slots :: "nat list"

record gdn_entry =
  ge_slot :: nat
  ge_operator :: gdn_operator

text \<open>\<open>memory\<close> is what the allocated buffers hold before the first store.\<close>

definition sidecar_init :: "(nat \<Rightarrow> gdn_operator) \<Rightarrow> int \<Rightarrow> int \<Rightarrow> int \<Rightarrow> int \<Rightarrow> int \<Rightarrow> gdn_sidecar res" where
  "sidecar_init memory capacity bs heads kw vw =
     bind_res (check_res (\<forall>d \<in> set [capacity, bs, heads, kw, vw]. 0 < d)
       (ValueError ''all GDN sidecar dimensions must be positive'')) (\<lambda>_.
       Inr \<lparr>sc_capacity = nat capacity, sc_block_size = nat bs, sc_value_heads = nat heads,
            sc_key_width = nat kw, sc_value_width = nat vw, sc_operators = memory,
            sc_key_to_slot = [], sc_free_slots = [0..<nat capacity]\<rparr>)"

definition sidecar_len :: "gdn_sidecar \<Rightarrow> nat" where
  "sidecar_len sc = length (sc_key_to_slot sc)"

definition resident_keys :: "gdn_sidecar \<Rightarrow> bytes list" where
  "resident_keys sc = od_keys (sc_key_to_slot sc)"

definition contains_many :: "gdn_sidecar \<Rightarrow> bytes list \<Rightarrow> bool" where
  "contains_many sc hs = list_all (\<lambda>h. h \<in> od_dom (sc_key_to_slot sc)) hs"

definition operator_fits :: "gdn_sidecar \<Rightarrow> gdn_operator \<Rightarrow> unit res" where
  "operator_fits sc op =
     (let n = sc_block_size sc; heads = sc_value_heads sc; kw = sc_key_width sc; vw = sc_value_width sc in
      bind_res (check_res (shape3 (op_transition op) = (heads, kw, kw)) (ValueError ''transition must have shape'')) (\<lambda>_.
      bind_res (check_res (shape3 (op_responses op) = (n, heads, kw)) (ValueError ''output_responses must have shape'')) (\<lambda>_.
      bind_res (check_res (shape3 (op_state_bias op) = (heads, vw, kw)) (ValueError ''state_bias must have shape'')) (\<lambda>_.
      check_res (shape3 (op_output_biases op) = (n, heads, vw)) (ValueError ''output_biases must have shape'')))))"

text \<open>The slot a key gets: its own, the first free one, or the slot of the least recent key.\<close>

definition take_slot :: "bytes \<Rightarrow> gdn_sidecar \<Rightarrow> (nat \<times> gdn_sidecar) res" where
  "take_slot h sc =
     (case od_get (sc_key_to_slot sc) h of
        Some slot \<Rightarrow> Inr (slot, sc\<lparr>sc_key_to_slot := od_pop h (sc_key_to_slot sc)\<rparr>)
      | None \<Rightarrow>
          (case sc_free_slots sc of
             slot # rest \<Rightarrow> Inr (slot, sc\<lparr>sc_free_slots := rest\<rparr>)
           | [] \<Rightarrow>
               (case sc_key_to_slot sc of
                  (_, slot) # rest \<Rightarrow> Inr (slot, sc\<lparr>sc_key_to_slot := rest\<rparr>)
                | [] \<Rightarrow> Inl (KeyError ''dictionary is empty''))))"

definition sidecar_store :: "bytes \<Rightarrow> gdn_operator \<Rightarrow> gdn_sidecar \<Rightarrow> (nat \<times> gdn_sidecar) res" where
  "sidecar_store h op sc =
     bind_res (check_res (h \<noteq> []) (ValueError ''block_hash must be non-empty'')) (\<lambda>_.
     bind_res (operator_fits sc op) (\<lambda>_.
     bind_res (take_slot h sc) (\<lambda>(slot, sc1).
       Inr (slot, sc1\<lparr>sc_operators := (sc_operators sc1)(slot := op),
                     sc_key_to_slot := od_set h slot (sc_key_to_slot sc1)\<rparr>))))"

definition sidecar_lookup :: "bytes \<Rightarrow> gdn_sidecar \<Rightarrow> gdn_entry option \<times> gdn_sidecar" where
  "sidecar_lookup h sc =
     (case od_get (sc_key_to_slot sc) h of
        None \<Rightarrow> (None, sc)
      | Some slot \<Rightarrow>
          (Some \<lparr>ge_slot = slot, ge_operator = sc_operators sc slot\<rparr>,
           sc\<lparr>sc_key_to_slot := od_set h slot (od_pop h (sc_key_to_slot sc))\<rparr>))"

text \<open>\<open>move_to_end\<close> of every hash in turn, with the slots looked up before.\<close>

fun entries_loop :: "(bytes \<times> nat) list \<Rightarrow> gdn_sidecar \<Rightarrow> gdn_entry list \<times> gdn_sidecar" where
  "entries_loop [] sc = ([], sc)"
| "entries_loop ((h, slot) # rest) sc =
     (let sc1 = sc\<lparr>sc_key_to_slot := od_move_to_end h (sc_key_to_slot sc)\<rparr>;
          (es, sc2) = entries_loop rest sc1
      in (\<lparr>ge_slot = slot, ge_operator = sc_operators sc1 slot\<rparr> # es, sc2))"

definition lookup_many :: "bytes list \<Rightarrow> gdn_sidecar \<Rightarrow> gdn_entry list option \<times> gdn_sidecar" where
  "lookup_many hs sc =
     (let slots = map (od_get (sc_key_to_slot sc)) hs
      in if None \<in> set slots then (None, sc)
         else (let (es, sc') = entries_loop (zip hs (map the slots)) sc in (Some es, sc')))"

definition sidecar_clear :: "gdn_sidecar \<Rightarrow> gdn_sidecar" where
  "sidecar_clear sc = sc\<lparr>sc_key_to_slot := [], sc_free_slots := [0..<sc_capacity sc]\<rparr>"

inductive sidecar_reach :: "gdn_sidecar \<Rightarrow> bool" where
  init: "sidecar_init memory capacity bs heads kw vw = Inr sc \<Longrightarrow> sidecar_reach sc"
| store: "sidecar_reach sc \<Longrightarrow> sidecar_store h op sc = Inr (slot, sc') \<Longrightarrow> sidecar_reach sc'"
| lookup: "sidecar_reach sc \<Longrightarrow> sidecar_reach (snd (sidecar_lookup h sc))"
| lookup_many: "sidecar_reach sc \<Longrightarrow> sidecar_reach (snd (lookup_many hs sc))"
| clear: "sidecar_reach sc \<Longrightarrow> sidecar_reach (sidecar_clear sc)"

section \<open>Storing the blocks a batch completes\<close>

text \<open>The coefficient tensors of a layer: keys, queries, values, log decays, betas.\<close>

record coefficients =
  co_keys :: ten3
  co_queries :: ten3
  co_values :: ten3
  co_decays :: ten2
  co_betas :: ten2

definition slice_operator :: "coefficients \<Rightarrow> nat \<Rightarrow> nat \<Rightarrow> gdn_operator res" where
  "slice_operator co a b =
     build_gdn_affine_operator (slice3 a b (co_keys co)) (slice3 a b (co_queries co)) (slice3 a b (co_values co))
       (slice2 a b (co_decays co)) (slice2 a b (co_betas co))"

definition store_block ::
  "coefficients \<Rightarrow> bytes list \<Rightarrow> nat \<Rightarrow> nat \<Rightarrow> int \<Rightarrow> nat \<Rightarrow> gdn_sidecar \<times> (nat \<times> nat) list \<Rightarrow> nat \<Rightarrow>
   (gdn_sidecar \<times> (nat \<times> nat) list) res" where
  "store_block co hashes sequence query_start scheduled computed acc block =
     (case acc of (sc, stored) \<Rightarrow>
        let bs = sc_block_size sc;
            local_start = int (block * bs) - int computed;
            local_end = local_start + int bs
        in if length hashes \<le> block then Inr acc
           else if local_start < 0 \<or> scheduled < local_end then Inr acc
           else
             bind_res (slice_operator co (query_start + nat local_start) (query_start + nat local_end)) (\<lambda>op.
             bind_res (sidecar_store (hashes ! block) op sc) (\<lambda>(_, sc').
               Inr (sc', stored @ [(sequence, block)]))))"

definition store_sequence ::
  "coefficients \<Rightarrow> nat list \<Rightarrow> nat list \<Rightarrow> bytes list list \<Rightarrow> nat \<Rightarrow> gdn_sidecar \<times> (nat \<times> nat) list \<Rightarrow>
   (gdn_sidecar \<times> (nat \<times> nat) list) res" where
  "store_sequence co query_starts computed_counts all_hashes sequence acc =
     (let query_start = query_starts ! sequence;
          scheduled = int (query_starts ! (sequence + 1)) - int query_start;
          computed = computed_counts ! sequence;
          bs = sc_block_size (fst acc);
          first = (computed + bs - 1) div bs;
          final = nat ((int computed + scheduled) div int bs)
      in fold_res (\<lambda>block acc. store_block co (all_hashes ! sequence) sequence query_start scheduled computed acc block)
           [first..<final] acc)"

definition store_completed_gdn_delta_operators ::
  "coefficients \<Rightarrow> nat list \<Rightarrow> nat list \<Rightarrow> bytes list list \<Rightarrow> gdn_sidecar \<Rightarrow>
   (gdn_sidecar \<times> (nat \<times> nat) list) res" where
  "store_completed_gdn_delta_operators co query_starts computed_counts all_hashes sc =
     bind_res (check_res (shape3 (co_queries co) = shape3 (co_keys co))
       (ValueError ''keys and queries must have matching [T,H,K] shapes'')) (\<lambda>_.
     bind_res (check_res (shape2 (co_betas co) = shape2 (co_decays co))
       (ValueError ''log_decays and betas must have matching [T,HV] shapes'')) (\<lambda>_.
     bind_res (check_res (fst (shape3 (co_keys co)) = fst (shape2 (co_decays co)))
       (ValueError ''token coefficient tensors must have the same length'')) (\<lambda>_.
     bind_res (check_res ((fst (shape3 (co_values co)), fst (snd (shape3 (co_values co)))) = shape2 (co_decays co))
       (ValueError ''values must have shape [T,HV,V]'')) (\<lambda>_.
     bind_res (check_res (int (length computed_counts) = int (length query_starts) - 1)
       (ValueError ''num_computed_tokens must contain one value per sequence'')) (\<lambda>_.
     bind_res (check_res (int (length all_hashes) = int (length query_starts) - 1)
       (ValueError ''contextual hashes must contain one tuple per sequence'')) (\<lambda>_.
     bind_res (check_res (hd query_starts = 0 \<and> last query_starts = fst (shape3 (co_keys co)))
       (ValueError ''query starts must span the flattened coefficient tensors'')) (\<lambda>_.
       fold_res (store_sequence co query_starts computed_counts all_hashes)
         [0..<length query_starts - 1] (sc, []))))))))"

end
