(* ===== verification/GdnExecution.thy ===== *)
theory GdnExecution
  imports GdnSidecar
begin

text \<open>
  Planning and running a prefill that reuses operators,
  \<^verbatim>\<open>vllm/model_executor/layers/mamba/gdn/delta_execution.py\<close>, and the worker's decision which
  requests may reuse, \<^verbatim>\<open>vllm/v1/worker/gpu/gdn_delta_reuse.py\<close>.  The callbacks of the layer
  (the recurrence kernel and the writing of checkpoints) are parameters that pass a world of their
  own along; the dtype the outputs are cast to is a function on tensors.
\<close>

section \<open>Admission\<close>

text \<open>The decision record is its reason; a batch is eligible when the reason is ``eligible''.\<close>

definition assess_gdn_delta_active_admission ::
  "string \<Rightarrow> string \<Rightarrow> string \<Rightarrow> nat \<Rightarrow> nat \<Rightarrow> nat \<Rightarrow> (int \<times> bytes) list list \<Rightarrow> bool \<times> string" where
  "assess_gdn_delta_active_admission mode cache_mode backend prefills decodes spec_decodes candidates =
     (if mode \<noteq> ''active'' then (False, ''shadow_mode'')
      else if cache_mode \<noteq> ''all'' then (False, ''checkpoint_mode_required'')
      else if backend \<noteq> ''triton'' then (False, ''triton_backend_required'')
      else if spec_decodes \<noteq> 0 then (False, ''speculative_decode_unsupported'')
      else if decodes \<noteq> 0 then (False, ''mixed_decode_unsupported'')
      else if prefills \<noteq> 1 \<or> length candidates \<noteq> 1 then (False, ''single_prefill_required'')
      else if hd candidates = [] then (False, ''no_candidates'')
      else (True, ''eligible''))"

section \<open>Plans\<close>

datatype span_mode = Recompute | Affine_Reuse

record exec_span =
  es_sequence :: nat
  es_start :: nat
  es_end :: nat
  es_mode :: span_mode
  es_block :: "nat option"
  es_hash :: "bytes option"

record exec_plan =
  ep_sequence :: nat
  ep_start :: nat
  ep_end :: nat
  ep_spans :: "exec_span list"
  ep_reused :: "nat list"
  ep_skipped :: "nat list"

definition recompute_span :: "nat \<Rightarrow> nat \<Rightarrow> nat \<Rightarrow> exec_span" where
  "recompute_span q a b =
     \<lparr>es_sequence = q, es_start = a, es_end = b, es_mode = Recompute, es_block = None, es_hash = None\<rparr>"

fun add_candidates :: "(int \<times> bytes) list \<Rightarrow> (nat, bytes) odict \<Rightarrow> (nat, bytes) odict res" where
  "add_candidates [] d = Inr d"
| "add_candidates ((b, h) # rest) d =
     bind_res (check_res (0 \<le> b) (ValueError ''candidate block indices must be nonnegative integers'')) (\<lambda>_.
     bind_res (check_res (h \<noteq> []) (ValueError ''candidate source hashes must be nonempty bytes'')) (\<lambda>_.
     bind_res (check_res (nat b \<notin> od_dom d) (ValueError ''candidate target block indices must be unique'')) (\<lambda>_.
       add_candidates rest (od_set (nat b) h d))))"

fun exec_spans :: "nat \<Rightarrow> nat \<Rightarrow> (nat, bytes) odict \<Rightarrow> nat \<Rightarrow> nat \<Rightarrow> nat list \<Rightarrow> exec_span list" where
  "exec_spans q bs by_block stop cursor [] =
     (if cursor < stop then [recompute_span q cursor stop] else [])"
| "exec_spans q bs by_block stop cursor (b # rest) =
     (let block_start = b * bs; block_end = block_start + bs
      in (if cursor < block_start then [recompute_span q cursor block_start] else []) @
         \<lparr>es_sequence = q, es_start = block_start, es_end = block_end, es_mode = Affine_Reuse,
          es_block = Some b, es_hash = od_get by_block b\<rparr> #
         exec_spans q bs by_block stop block_end rest)"

definition sequence_plan ::
  "int list \<Rightarrow> int list \<Rightarrow> nat \<Rightarrow> (int \<times> bytes) list list \<Rightarrow> nat \<Rightarrow> exec_plan res" where
  "sequence_plan computed_counts scheduled_counts bs candidates q =
     bind_res (check_res (0 \<le> computed_counts ! q \<and> 0 \<le> scheduled_counts ! q)
       (ValueError ''token counts must be nonnegative'')) (\<lambda>_.
     bind_res (add_candidates (candidates ! q) []) (\<lambda>by_block.
       let start = nat (computed_counts ! q);
           stop = start + nat (scheduled_counts ! q);
           inside = (\<lambda>b. start \<le> b * bs \<and> b * bs + bs \<le> stop);
           blocks = sort (od_keys by_block);
           reusable = filter inside blocks
       in Inr \<lparr>ep_sequence = q, ep_start = start, ep_end = stop,
               ep_spans = exec_spans q bs by_block stop start reusable,
               ep_reused = reusable, ep_skipped = filter (\<lambda>b. \<not> inside b) blocks\<rparr>))"

definition build_gdn_delta_execution_plans ::
  "int list \<Rightarrow> int list \<Rightarrow> int \<Rightarrow> (int \<times> bytes) list list \<Rightarrow> exec_plan list res" where
  "build_gdn_delta_execution_plans computed_counts scheduled_counts bs candidates =
     bind_res (check_res (1 \<le> bs) (ValueError ''block_size must be positive'')) (\<lambda>_.
     bind_res (check_res (length scheduled_counts = length computed_counts)
       (ValueError ''scheduled counts must contain one value per sequence'')) (\<lambda>_.
     bind_res (check_res (length candidates = length computed_counts)
       (ValueError ''reuse candidates must contain one tuple per sequence'')) (\<lambda>_.
       map_res (sequence_plan computed_counts scheduled_counts (nat bs) candidates)
         [0..<length computed_counts])))"

section \<open>Running a plan\<close>

record exec_result =
  er_outputs :: ten3
  er_final_state :: ten3
  er_recomputed_tokens :: nat
  er_reused_tokens :: nat

type_synonym 'w recompute = "nat \<Rightarrow> nat \<Rightarrow> ten3 \<Rightarrow> 'w \<Rightarrow> ((ten3 \<times> ten3) \<times> 'w) res"

type_synonym 'w complete = "exec_span \<Rightarrow> ten3 \<Rightarrow> 'w \<Rightarrow> 'w res"

definition append3 :: "ten3 \<Rightarrow> ten3 \<Rightarrow> ten3" where
  "append3 x y =
     (case shape3 x of (m, n, p) \<Rightarrow> case shape3 y of (m', _, _) \<Rightarrow>
        mk3 (m + m') n p (\<lambda>i. if i < m then at3 x i else at3 y (i - m)))"

definition cat3 :: "nat \<Rightarrow> nat \<Rightarrow> ten3 list \<Rightarrow> ten3" where
  "cat3 n p xs = foldr append3 xs (zeros3 0 n p)"

text \<open>The loop state: recurrent state, outputs, operators not yet consumed, token counts.\<close>

record run_state =
  rs_state :: ten3
  rs_outputs :: "ten3 list"
  rs_entries :: "gdn_entry list"
  rs_recomputed :: nat
  rs_reused :: nat

definition run_span ::
  "'w recompute \<Rightarrow> (ten3 \<Rightarrow> ten3) \<Rightarrow> 'w complete option \<Rightarrow> ten3 \<Rightarrow> exec_span \<Rightarrow> run_state \<times> 'w \<Rightarrow>
   (run_state \<times> 'w) res" where
  "run_span recompute cast on_complete initial sp rw =
     (case rw of (r, w) \<Rightarrow> case shape3 initial of (heads, vw, kw) \<Rightarrow>
        bind_res (check_res (es_start sp < es_end sp)
          (ValueError ''execution spans must contain at least one token'')) (\<lambda>_.
        let n = es_end sp - es_start sp in
        bind_res
          (case es_mode sp of
             Recompute \<Rightarrow>
               bind_res (recompute (es_start sp) (es_end sp) (rs_state r) w) (\<lambda>((s, out), w').
                 Inr (s, out, r\<lparr>rs_recomputed := rs_recomputed r + n\<rparr>, w'))
           | Affine_Reuse \<Rightarrow>
               (case rs_entries r of
                  [] \<Rightarrow> Inl (IndexError ''tuple index out of range'')
                | e # es \<Rightarrow>
                    bind_res (apply_gdn_affine_operator (rs_state r) (ge_operator e)) (\<lambda>(s, out).
                      Inr (s, out, r\<lparr>rs_entries := es, rs_reused := rs_reused r + n\<rparr>, w))))
          (\<lambda>(s, out, r', w').
        bind_res (check_res (shape3 s = shape3 initial)
          (ValueError ''span execution returned an incompatible recurrent state'')) (\<lambda>_.
        bind_res (check_res (shape3 out = (n, heads, vw))
          (ValueError ''span execution returned incompatible recurrent outputs'')) (\<lambda>_.
        bind_res (case on_complete of None \<Rightarrow> Inr w' | Some f \<Rightarrow> f sp s w') (\<lambda>w''.
          Inr (r'\<lparr>rs_state := s, rs_outputs := rs_outputs r' @ [cast out]\<rparr>, w'')))))))"

definition execute_gdn_delta_sequence_plan ::
  "exec_plan \<Rightarrow> ten3 \<Rightarrow> gdn_sidecar \<Rightarrow> 'w recompute \<Rightarrow> (ten3 \<Rightarrow> ten3) \<Rightarrow> 'w complete option \<Rightarrow> 'w \<Rightarrow>
   (exec_result option \<times> gdn_sidecar \<times> 'w) res" where
  "execute_gdn_delta_sequence_plan plan initial sc recompute cast on_complete w =
     (let hashes = map es_hash (filter (\<lambda>sp. es_mode sp = Affine_Reuse) (ep_spans plan)) in
      bind_res (check_res (None \<notin> set hashes)
        (ValueError ''affine reuse spans must name a source operator'')) (\<lambda>_.
      case lookup_many (map the hashes) sc of
        (None, sc') \<Rightarrow> Inr (None, sc', w)
      | (Some entries, sc') \<Rightarrow>
          bind_res (fold_res (run_span recompute cast on_complete initial) (ep_spans plan)
            (\<lparr>rs_state = initial, rs_outputs = [], rs_entries = entries, rs_recomputed = 0, rs_reused = 0\<rparr>, w))
            (\<lambda>(r, w').
          bind_res (check_res (rs_entries r = [])
            (RuntimeError ''not every resolved GDN operator was consumed'')) (\<lambda>_.
          case shape3 initial of (heads, vw, kw) \<Rightarrow>
          let combined = cat3 heads vw (rs_outputs r) in
          bind_res (check_res (fst (shape3 combined) = ep_end plan - ep_start plan)
            (RuntimeError ''execution plan did not cover its scheduled interval'')) (\<lambda>_.
            Inr (Some \<lparr>er_outputs = combined, er_final_state = rs_state r,
              er_recomputed_tokens = rs_recomputed r, er_reused_tokens = rs_reused r\<rparr>, sc', w'))))))"

end
