(* ===== verification/GdnSidecarProps.thy ===== *)
theory GdnSidecarProps
  imports GdnSidecar
begin

text \<open>
  The sidecar is a least-recently-used cache: its invariant, the refinement of the abstract cache,
  and what a client of such a cache may rely on, stated once in the locale \<open>operator_cache\<close>.
\<close>

section \<open>Ordered dictionaries and their values\<close>

lemma od_pop_mset:
  "distinct (od_keys d) \<Longrightarrow> od_get d k = Some v \<Longrightarrow> mset d = add_mset (k, v) (mset (od_pop k d))"
proof (induction d)
  case (Cons e d)
  obtain a b where e: "e = (a, b)" by fastforce
  show ?case
  proof (cases "a = k")
    case True
    then have "od_pop k d = d" using Cons.prems by (simp add: e delete_idem flip: set_map)
    then show ?thesis using True Cons.prems by (simp add: e)
  next
    case False
    then show ?thesis using Cons by (simp add: e)
  qed
qed simp

definition map_values :: "('a \<Rightarrow> 'b) \<Rightarrow> ('k, 'a) odict \<Rightarrow> ('k, 'b) odict" where
  "map_values f d = map (\<lambda>(k, v). (k, f v)) d"

lemma map_values_keys [simp]: "od_keys (map_values f d) = od_keys d"
  by (induction d) (auto simp: map_values_def)

lemma map_values_length [simp]: "length (map_values f d) = length d"
  by (simp add: map_values_def)

lemma map_values_append [simp]: "map_values f (d @ e) = map_values f d @ map_values f e"
  by (simp add: map_values_def)

lemma map_values_simps [simp]:
  "map_values f [] = []" "map_values f ((k, v) # d) = (k, f v) # map_values f d"
  by (simp_all add: map_values_def)

lemma map_values_get [simp]: "od_get (map_values f d) k = map_option f (od_get d k)"
  by (induction d) (auto simp: map_values_def)

lemma map_values_dom [simp]: "od_dom (map_values f d) = od_dom d"
  by (force simp: map_values_def)

lemma map_values_pop [simp]: "od_pop k (map_values f d) = map_values f (od_pop k d)"
  by (induction d) (auto simp: map_values_def)

lemma map_values_move [simp]: "od_move_to_end k (map_values f d) = map_values f (od_move_to_end k d)"
  by (auto simp: od_move_to_end_def map_values_def[of f "[_]"] split: option.split)

lemma map_values_cong: "(\<And>k v. (k, v) \<in> set d \<Longrightarrow> f v = g v) \<Longrightarrow> map_values f d = map_values g d"
  by (auto simp: map_values_def)

lemma od_pop_absent: "k \<notin> od_dom d \<Longrightarrow> od_pop k d = d"
  by (induction d) auto

lemma od_pop_subset: "set (od_pop k d) \<subseteq> set d"
  by (auto simp: AList.delete_eq)

section \<open>The abstract cache\<close>

definition keep_last :: "nat \<Rightarrow> 'a list \<Rightarrow> 'a list" where
  "keep_last n xs = drop (length xs - n) xs"

definition lru_store :: "nat \<Rightarrow> bytes \<Rightarrow> 'o \<Rightarrow> (bytes, 'o) odict \<Rightarrow> (bytes, 'o) odict" where
  "lru_store cap h op d = keep_last cap (od_pop h d @ [(h, op)])"

definition sidecar_view :: "gdn_sidecar \<Rightarrow> (bytes, gdn_operator) odict" where
  "sidecar_view sc = map_values (sc_operators sc) (sc_key_to_slot sc)"

definition sidecar_inv :: "gdn_sidecar \<Rightarrow> bool" where
  "sidecar_inv sc \<longleftrightarrow>
     0 < sc_capacity sc \<and> 0 < sc_block_size sc \<and> distinct (od_keys (sc_key_to_slot sc)) \<and>
     mset (map snd (sc_key_to_slot sc)) + mset (sc_free_slots sc) = mset [0..<sc_capacity sc] \<and>
     [] \<notin> od_dom (sc_key_to_slot sc) \<and>
     (\<forall>op \<in> snd ` set (sidecar_view sc). operator_fits sc op = Inr ())"

definition same_dims :: "gdn_sidecar \<Rightarrow> gdn_sidecar \<Rightarrow> bool" where
  "same_dims sc sc' \<longleftrightarrow> sc_capacity sc' = sc_capacity sc \<and> sc_block_size sc' = sc_block_size sc \<and>
     sc_value_heads sc' = sc_value_heads sc \<and> sc_key_width sc' = sc_key_width sc \<and>
     sc_value_width sc' = sc_value_width sc"

lemma same_dims_fits: "same_dims sc sc' \<Longrightarrow> operator_fits sc' = operator_fits sc"
  by (simp add: same_dims_def fun_eq_iff operator_fits_def)

lemma sidecar_lengths:
  assumes "sidecar_inv sc"
  shows "length (sc_key_to_slot sc) + length (sc_free_slots sc) = sc_capacity sc"
proof -
  have "size (mset (map snd (sc_key_to_slot sc)) + mset (sc_free_slots sc)) = size (mset [0..<sc_capacity sc])"
    using assms by (simp add: sidecar_inv_def)
  then show ?thesis by (simp del: mset_upt)
qed

text \<open>A slot outside the table holds nothing, so overwriting it does not show.\<close>

lemma fresh_slot:
  assumes "mset (map snd d) + add_mset slot rest = mset [0..<n]"
  shows "slot \<notin> snd ` set d"
proof
  assume "slot \<in> snd ` set d"
  then have "slot \<in># mset (map snd d)" by simp
  then obtain m where "mset (map snd d) = add_mset slot m" by (metis insert_DiffM)
  then have "count (mset [0..<n]) slot \<ge> 2" using assms by (simp flip: assms del: mset_upt)
  moreover have "count (mset [0..<n]) slot \<le> 1"
    using count_list_distinct[of "[0..<n]" slot] by (simp add: count_mset del: mset_upt)
  ultimately show False by simp
qed

lemma view_after_store:
  assumes "slot \<notin> snd ` set d" "h \<notin> od_dom d"
  shows "map_values (f(slot := op)) (od_set h slot d) = map_values f d @ [(h, op)]"
proof -
  have "map_values (f(slot := op)) d = map_values f d"
    using assms(1) by (intro map_values_cong) (auto simp: image_iff)
  then show ?thesis by (simp add: od_set_new[OF assms(2)] map_values_def[of _ "[_]"])
qed

lemma keep_last_all: "length xs \<le> n \<Longrightarrow> keep_last n xs = xs"
  by (simp add: keep_last_def)

lemma sidecar_store_ok:
  assumes inv: "sidecar_inv sc" and h: "h \<noteq> []" and fits: "operator_fits sc op = Inr ()"
  shows "\<exists>slot sc'. sidecar_store h op sc = Inr (slot, sc') \<and> slot < sc_capacity sc \<and> sidecar_inv sc' \<and>
    same_dims sc sc' \<and> sidecar_view sc' = lru_store (sc_capacity sc) h op (sidecar_view sc)"
proof -
  let ?d = "sc_key_to_slot sc"
  note lens = sidecar_lengths[OF inv]
  have dist: "distinct (od_keys ?d)" using inv by (simp add: sidecar_inv_def)
  obtain slot d rest where take: "take_slot h sc = Inr (slot, sc\<lparr>sc_key_to_slot := d, sc_free_slots := rest\<rparr>)"
    and d: "distinct (od_keys d)" "h \<notin> od_dom d" "set d \<subseteq> set ?d"
      "mset (map snd d) + add_mset slot (mset rest) = mset [0..<sc_capacity sc]"
    and view: "map_values (sc_operators sc) d @ [(h, op)] = lru_store (sc_capacity sc) h op (sidecar_view sc)"
  proof (cases "od_get ?d h")
    case (Some slot)
    have m: "mset ?d = add_mset (h, slot) (mset (od_pop h ?d))" by (rule od_pop_mset[OF dist Some])
    have len: "length ?d = Suc (length (od_pop h ?d))" using arg_cong[OF m, of size] by simp
    show ?thesis
    proof (rule that[where slot = slot and d = "od_pop h ?d" and rest = "sc_free_slots sc"])
      show "take_slot h sc = Inr (slot, sc\<lparr>sc_key_to_slot := od_pop h ?d, sc_free_slots := sc_free_slots sc\<rparr>)"
        by (simp add: take_slot_def Some)
      show "mset (map snd (od_pop h ?d)) + add_mset slot (mset (sc_free_slots sc)) = mset [0..<sc_capacity sc]"
        using inv arg_cong[OF m, of "image_mset snd"] by (simp add: sidecar_inv_def)
      show "map_values (sc_operators sc) (od_pop h ?d) @ [(h, op)] = lru_store (sc_capacity sc) h op (sidecar_view sc)"
        using lens len by (simp add: lru_store_def sidecar_view_def keep_last_all)
    qed (use dist od_pop_subset[of h ?d] in simp_all)
  next
    case None
    then have absent: "h \<notin> od_dom ?d" by (simp add: od_get_None_iff)
    show ?thesis
    proof (cases "sc_free_slots sc")
      case (Cons slot rest)
      show ?thesis
      proof (rule that[where slot = slot and d = ?d and rest = rest])
        show "take_slot h sc = Inr (slot, sc\<lparr>sc_key_to_slot := ?d, sc_free_slots := rest\<rparr>)"
          by (simp add: take_slot_def None Cons)
        show "mset (map snd ?d) + add_mset slot (mset rest) = mset [0..<sc_capacity sc]"
          using inv by (simp add: sidecar_inv_def Cons)
        show "map_values (sc_operators sc) ?d @ [(h, op)] = lru_store (sc_capacity sc) h op (sidecar_view sc)"
          using lens absent by (simp add: lru_store_def sidecar_view_def keep_last_all od_pop_absent Cons)
      qed (use dist absent in auto)
    next
      case Nil
      with lens inv obtain k slot rest where c: "?d = (k, slot) # rest"
        by (cases ?d) (auto simp: sidecar_inv_def)
      show ?thesis
      proof (rule that[where slot = slot and d = rest and rest = "[]"])
        show "take_slot h sc = Inr (slot, sc\<lparr>sc_key_to_slot := rest, sc_free_slots := []\<rparr>)"
          using None by (simp add: take_slot_def Nil c)
        show "mset (map snd rest) + add_mset slot (mset []) = mset [0..<sc_capacity sc]"
          using inv by (simp add: sidecar_inv_def Nil c)
        show "map_values (sc_operators sc) rest @ [(h, op)] = lru_store (sc_capacity sc) h op (sidecar_view sc)"
          using lens absent
          by (simp add: lru_store_def sidecar_view_def keep_last_def od_pop_absent Nil c)
      qed (use dist absent c in auto)
    qed
  qed
  define sc' where "sc' = sc\<lparr>sc_key_to_slot := od_set h slot d, sc_free_slots := rest,
    sc_operators := (sc_operators sc)(slot := op)\<rparr>"
  have store: "sidecar_store h op sc = Inr (slot, sc')"
    by (simp add: sidecar_store_def h fits take sc'_def)
  have fresh: "slot \<notin> snd ` set d" by (rule fresh_slot[OF d(4)])
  have v: "sidecar_view sc' = map_values (sc_operators sc) d @ [(h, op)]"
    using view_after_store[OF fresh d(2)] by (simp add: sidecar_view_def sc'_def)
  have dims: "same_dims sc sc'" by (simp add: same_dims_def sc'_def)
  have "slot \<in># mset [0..<sc_capacity sc]" by (simp flip: d(4) del: mset_upt)
  then have lt: "slot < sc_capacity sc" by simp
  have sub: "set (map_values (sc_operators sc) d) \<subseteq> set (sidecar_view sc)"
    using d(3) by (auto simp: sidecar_view_def map_values_def)
  have ops: "operator_fits sc' o' = Inr ()" if "o' \<in> snd ` set (sidecar_view sc')" for o'
  proof (cases "o' = op")
    case True
    then show ?thesis using fits same_dims_fits[OF dims] by simp
  next
    case False
    then have "o' \<in> snd ` set (sidecar_view sc)" using that sub v by auto
    then show ?thesis using inv same_dims_fits[OF dims] unfolding sidecar_inv_def by auto
  qed
  have keys: "od_keys (sc_key_to_slot sc') = od_keys d @ [h]" "map snd (sc_key_to_slot sc') = map snd d @ [slot]"
    "sc_free_slots sc' = rest"
    using d(2) by (simp_all add: sc'_def od_set_new)
  have "od_dom d \<subseteq> od_dom ?d" using d(3) by (rule image_mono)
  then have nonempty: "[] \<notin> od_dom (sc_key_to_slot sc')"
    using inv h by (auto simp: sc'_def sidecar_inv_def)
  have "sidecar_inv sc'"
    unfolding sidecar_inv_def keys using inv d(1,2,4) dims nonempty ops
    by (simp add: sidecar_inv_def same_dims_def del: mset_upt)
  with store lt dims v view show ?thesis by auto
qed

section \<open>Looking up\<close>

lemma move_inv:
  assumes inv: "sidecar_inv sc" and get: "od_get (sc_key_to_slot sc) h = Some slot"
  shows "sidecar_inv (sc\<lparr>sc_key_to_slot := od_move_to_end h (sc_key_to_slot sc)\<rparr>)"
proof -
  let ?d = "sc_key_to_slot sc" and ?sc = "sc\<lparr>sc_key_to_slot := od_move_to_end h (sc_key_to_slot sc)\<rparr>"
  have "mset ?d = add_mset (h, slot) (mset (od_pop h ?d))"
    using inv get by (intro od_pop_mset) (simp_all add: sidecar_inv_def)
  then have m: "mset (od_move_to_end h ?d) = mset ?d" by (simp add: od_move_to_end_def get)
  then have s: "set (od_move_to_end h ?d) = set ?d" by (metis set_mset_mset)
  have "mset (map snd (od_move_to_end h ?d)) = mset (map snd ?d)" using m by (simp add: mset_map)
  moreover have "set (sidecar_view ?sc) = set (sidecar_view sc)" by (simp add: sidecar_view_def map_values_def s)
  moreover have "operator_fits ?sc = operator_fits sc" by (intro same_dims_fits) (simp add: same_dims_def)
  ultimately show ?thesis using inv unfolding sidecar_inv_def by simp
qed

lemma sidecar_lookup_ok:
  assumes inv: "sidecar_inv sc" and res: "sidecar_lookup h sc = (e, sc')"
  shows "map_option ge_operator e = od_get (sidecar_view sc) h \<and> same_dims sc sc' \<and> sidecar_inv sc' \<and>
    sidecar_view sc' = od_move_to_end h (sidecar_view sc)"
proof (cases "od_get (sc_key_to_slot sc) h")
  case None
  then show ?thesis using assms
    by (auto simp: sidecar_lookup_def sidecar_view_def same_dims_def od_move_to_end_def)
next
  case (Some slot)
  let ?d = "sc_key_to_slot sc"
  have moved: "od_set h slot (od_pop h ?d) = od_move_to_end h ?d"
    by (simp add: od_set_new od_move_to_end_def Some)
  have e: "e = Some \<lparr>ge_slot = slot, ge_operator = sc_operators sc slot\<rparr>"
    and sc': "sc' = sc\<lparr>sc_key_to_slot := od_move_to_end h ?d\<rparr>"
    using res by (auto simp: sidecar_lookup_def Some moved)
  have "sidecar_inv sc'" using inv Some unfolding sc' by (rule move_inv)
  then show ?thesis by (simp add: e sc' sidecar_view_def same_dims_def Some)
qed

lemma fold_move_get: "od_get (fold od_move_to_end hs d) = od_get d"
  by (induction hs arbitrary: d) simp_all

lemma entries_loop_ok:
  assumes "sidecar_inv sc" "\<forall>(h, slot) \<in> set hs. od_get (sc_key_to_slot sc) h = Some slot"
    "entries_loop hs sc = (es, sc')"
  shows "map ge_operator es = map (\<lambda>(h, slot). sc_operators sc slot) hs \<and> map ge_slot es = map snd hs \<and>
    same_dims sc sc' \<and> sidecar_inv sc' \<and> sc_operators sc' = sc_operators sc \<and>
    sc_key_to_slot sc' = fold od_move_to_end (map fst hs) (sc_key_to_slot sc)"
  using assms
proof (induction hs arbitrary: sc es)
  case (Cons p hs)
  obtain h slot where p: "p = (h, slot)" by fastforce
  define sc1 where "sc1 = sc\<lparr>sc_key_to_slot := od_move_to_end h (sc_key_to_slot sc)\<rparr>"
  from Cons.prems(3) obtain es' where e: "entries_loop hs sc1 = (es', sc')"
    "es = \<lparr>ge_slot = slot, ge_operator = sc_operators sc1 slot\<rparr> # es'"
    by (auto simp: p sc1_def Let_def split: prod.splits)
  have inv1: "sidecar_inv sc1"
    using move_inv[OF Cons.prems(1)] Cons.prems(2) by (simp add: p sc1_def)
  have "\<forall>(h, slot) \<in> set hs. od_get (sc_key_to_slot sc1) h = Some slot"
    using Cons.prems(2) by (simp add: sc1_def)
  from Cons.IH[OF inv1 this e(1)] show ?case
    by (simp add: e(2) p sc1_def same_dims_def)
qed (simp add: same_dims_def)

lemma map_values_fold_move:
  "fold od_move_to_end hs (map_values f d) = map_values f (fold od_move_to_end hs d)"
  by (induction hs arbitrary: d) simp_all

lemma lookup_many_ok:
  assumes inv: "sidecar_inv sc" and res: "lookup_many hs sc = (r, sc')"
  shows "(r = None \<longleftrightarrow> \<not> contains_many sc hs) \<and> (r = None \<longrightarrow> sc' = sc) \<and>
    (\<forall>es. r = Some es \<longrightarrow> map (Some \<circ> ge_operator) es = map (od_get (sidecar_view sc)) hs) \<and>
    same_dims sc sc' \<and> sidecar_inv sc' \<and>
    (r \<noteq> None \<longrightarrow> sidecar_view sc' = fold od_move_to_end hs (sidecar_view sc))"
proof -
  let ?d = "sc_key_to_slot sc"
  have none: "None \<in> set (map (od_get ?d) hs) \<longleftrightarrow> \<not> contains_many sc hs"
    by (auto simp: contains_many_def list_all_iff od_get_None_iff image_iff eq_commute[of None])
  show ?thesis
  proof (cases "None \<in> set (map (od_get ?d) hs)")
    case True
    then show ?thesis using res inv none by (simp add: lookup_many_def same_dims_def)
  next
    case False
    obtain es where es: "entries_loop (zip hs (map the (map (od_get ?d) hs))) sc = (es, sc')" "r = Some es"
      using res False by (auto simp: lookup_many_def Let_def split: prod.splits)
    have slots: "\<forall>(h, slot) \<in> set (zip hs (map the (map (od_get ?d) hs))). od_get ?d h = Some slot"
    proof (clarify)
      fix h slot assume "(h, slot) \<in> set (zip hs (map the (map (od_get ?d) hs)))"
      then obtain i where "i < length hs" "h = hs ! i" "slot = the (od_get ?d h)"
        by (auto simp: set_zip)
      then show "od_get ?d h = Some slot" using False by (metis image_eqI list.set_map nth_mem option.collapse)
    qed
    note E = entries_loop_ok[OF inv slots es(1)]
    have "map ge_operator es = map (\<lambda>h. sc_operators sc (the (od_get ?d h))) hs"
      using E by (auto simp: zip_map2 zip_same_conv_map)
    then have "map Some (map ge_operator es) = map (\<lambda>h. Some (sc_operators sc (the (od_get ?d h)))) hs" by simp
    also have "\<dots> = map (od_get (sidecar_view sc)) hs"
    proof (rule map_cong[OF refl])
      fix h assume "h \<in> set hs"
      then obtain slot where "od_get ?d h = Some slot" using False by (cases "od_get ?d h") (auto simp: image_iff)
      then show "Some (sc_operators sc (the (od_get ?d h))) = od_get (sidecar_view sc) h" by (simp add: sidecar_view_def)
    qed
    finally have ops: "map (Some \<circ> ge_operator) es = map (od_get (sidecar_view sc)) hs" by simp
    have "sidecar_view sc' = fold od_move_to_end hs (sidecar_view sc)"
      using E by (simp add: sidecar_view_def map_values_fold_move)
    with ops E False none es(2) show ?thesis by simp
  qed
qed

section \<open>What the clients rely on\<close>

lemma length_keep_last: "length (keep_last n xs) \<le> n"
  by (simp add: keep_last_def)

lemma keep_last_append1: "0 < n \<Longrightarrow> keep_last n (xs @ [x]) = keep_last (n - 1) xs @ [x]"
  by (cases n) (auto simp: keep_last_def Suc_diff_le)

lemma keep_last_keep_last:
  assumes "m \<le> n"
  shows "keep_last m (keep_last n xs) = keep_last m xs"
proof -
  have "length xs - n + (length xs - (length xs - n) - m) = length xs - m" using assms by arith
  then show ?thesis by (simp add: keep_last_def add.commute)
qed

lemma set_keep_last: "set (keep_last n xs) \<subseteq> set xs"
  by (auto simp: keep_last_def dest: in_set_dropD)

lemma keep_last_filter: "set (filter P (keep_last n xs)) \<subseteq> set (keep_last n (filter P xs))"
proof -
  obtain ys where ys: "xs = ys @ keep_last n xs" "length (keep_last n xs) \<le> n"
    using append_take_drop_id[of "length xs - n" xs] length_keep_last[of n xs] by (metis keep_last_def)
  have "filter P xs = filter P ys @ filter P (keep_last n xs)" by (metis filter_append ys(1))
  moreover have "length (filter P (keep_last n xs)) \<le> n" using ys(2) length_filter_le le_trans by blast
  ultimately have "keep_last n (filter P xs) =
      drop (length (filter P ys) + length (filter P (keep_last n xs)) - n) (filter P ys) @ filter P (keep_last n xs)"
    by (simp add: keep_last_def)
  then show ?thesis by simp
qed

text \<open>After a sequence of stores the last \<open>n \<le> cap\<close> keys of the sequence are among the last \<open>n\<close> of
  the cache.\<close>

lemma lru_recent:
  assumes "n \<le> cap"
  shows "fst ` set (keep_last n xs) \<subseteq> od_dom (keep_last n (fold (\<lambda>(h, op) d. lru_store cap h op d) xs d))"
  using assms
proof (induction xs arbitrary: n rule: rev_induct)
  case (snoc x xs)
  obtain h op where x: "x = (h, op)" by fastforce
  define e where "e = fold (\<lambda>(h, op) d. lru_store cap h op d) xs d"
  show ?case
  proof (cases "n = 0")
    case False
    have k: "keep_last n (lru_store cap h op e) = keep_last (n - 1) (od_pop h e) @ [(h, op)]"
      using False snoc.prems by (simp add: lru_store_def keep_last_keep_last keep_last_append1)
    have "fst ` set (keep_last (n - 1) xs) \<subseteq> od_dom (keep_last (n - 1) e)"
      unfolding e_def using snoc.prems by (intro snoc.IH) simp
    moreover have "od_dom (keep_last (n - 1) e) - {h} \<subseteq> od_dom (keep_last (n - 1) (od_pop h e))"
      using keep_last_filter[of "\<lambda>(k, _). h \<noteq> k" "n - 1" e] by (force simp: AList.delete_eq)
    ultimately show ?thesis
      using False by (auto simp: x keep_last_append1 k e_def[symmetric])
  qed (simp add: keep_last_def)
qed (simp add: keep_last_def)

locale operator_cache =
  fixes inv :: "'s \<Rightarrow> bool" and view :: "'s \<Rightarrow> (bytes, 'o) odict" and capacity :: "'s \<Rightarrow> nat"
    and fits :: "'s \<Rightarrow> 'o \<Rightarrow> bool" and store :: "bytes \<Rightarrow> 'o \<Rightarrow> 's \<Rightarrow> 's res"
    and get_all :: "bytes list \<Rightarrow> 's \<Rightarrow> 'o list option \<times> 's"
  assumes store_ok: "inv s \<Longrightarrow> h \<noteq> [] \<Longrightarrow> fits s op \<Longrightarrow>
      \<exists>s'. store h op s = Inr s' \<and> inv s' \<and> capacity s' = capacity s \<and> fits s' = fits s \<and>
        view s' = lru_store (capacity s) h op (view s)"
    and view_size: "inv s \<Longrightarrow> length (view s) \<le> capacity s"
    and get_all_ok: "inv s \<Longrightarrow> get_all hs s = (r, s') \<Longrightarrow>
      inv s' \<and> (r = None \<longleftrightarrow> \<not> set hs \<subseteq> od_dom (view s)) \<and> (r = None \<longrightarrow> s' = s) \<and>
      (\<forall>ops. r = Some ops \<longrightarrow> map Some ops = map (od_get (view s)) hs)"
begin

lemma store_all:
  assumes "inv s" "\<forall>(h, op) \<in> set xs. h \<noteq> [] \<and> fits s op"
  shows "\<exists>s'. fold_res (\<lambda>(h, op). store h op) xs s = Inr s' \<and> inv s' \<and> capacity s' = capacity s \<and>
    view s' = fold (\<lambda>(h, op) d. lru_store (capacity s) h op d) xs (view s)"
  using assms
proof (induction xs arbitrary: s)
  case (Cons x xs)
  obtain h op where x: "x = (h, op)" by fastforce
  with Cons.prems obtain s1 where s1: "store h op s = Inr s1" "inv s1" "capacity s1 = capacity s" "fits s1 = fits s"
    "view s1 = lru_store (capacity s) h op (view s)"
    using store_ok[of s h op] by auto
  have "\<forall>(h, op) \<in> set xs. h \<noteq> [] \<and> fits s1 op" using Cons.prems(2) by (auto simp: s1(4))
  from Cons.IH[OF s1(2) this] s1(1,3,5) show ?case by (auto simp: x)
qed simp

lemma recent_resident:
  assumes "inv s" "\<forall>(h, op) \<in> set xs. h \<noteq> [] \<and> fits s op"
    and "fold_res (\<lambda>(h, op). store h op) xs s = Inr s'" "set hs \<subseteq> fst ` set (keep_last (capacity s) xs)"
  shows "\<exists>ops. fst (get_all hs s') = Some ops"
proof -
  from store_all[OF assms(1,2)] assms(3) have s': "inv s'"
    "view s' = fold (\<lambda>(h, op) d. lru_store (capacity s) h op d) xs (view s)" by auto
  have "fst ` set (keep_last (capacity s) xs) \<subseteq> od_dom (keep_last (capacity s) (view s'))"
    unfolding s'(2) by (rule lru_recent) simp
  also have "\<dots> \<subseteq> od_dom (view s')" using set_keep_last by fast
  finally have "set hs \<subseteq> od_dom (view s')" using assms(4) by blast
  moreover obtain r s2 where g: "get_all hs s' = (r, s2)" by fastforce
  ultimately show ?thesis using get_all_ok[OF s'(1) g] by auto
qed

lemma miss_keeps:
  assumes "inv s" "get_all hs s = (None, s')"
  shows "s' = s"
  using get_all_ok[OF assms] by simp

end

definition store_only :: "bytes \<Rightarrow> gdn_operator \<Rightarrow> gdn_sidecar \<Rightarrow> gdn_sidecar res" where
  "store_only h op sc = bind_res (sidecar_store h op sc) (\<lambda>(_, sc'). Inr sc')"

definition get_operators :: "bytes list \<Rightarrow> gdn_sidecar \<Rightarrow> gdn_operator list option \<times> gdn_sidecar" where
  "get_operators hs sc = (case lookup_many hs sc of (r, sc') \<Rightarrow> (map_option (map ge_operator) r, sc'))"

lemma contains_many_view: "contains_many sc hs \<longleftrightarrow> set hs \<subseteq> od_dom (sidecar_view sc)"
  by (auto simp: contains_many_def list_all_iff sidecar_view_def)

interpretation side: operator_cache sidecar_inv sidecar_view sc_capacity
  "\<lambda>sc op. operator_fits sc op = Inr ()" store_only get_operators
proof
  fix s :: gdn_sidecar and h :: bytes and op :: gdn_operator assume "sidecar_inv s" "h \<noteq> []" "operator_fits s op = Inr ()"
  from sidecar_store_ok[OF this] obtain slot sc' where "sidecar_store h op s = Inr (slot, sc')" "sidecar_inv sc'"
    "same_dims s sc'" "sidecar_view sc' = lru_store (sc_capacity s) h op (sidecar_view s)" by blast
  moreover have "store_only h op s = Inr sc'" "operator_fits sc' = operator_fits s" "sc_capacity sc' = sc_capacity s"
    using calculation(1,3) same_dims_fits[of s sc'] by (simp_all add: store_only_def same_dims_def)
  ultimately show "\<exists>s'. store_only h op s = Inr s' \<and> sidecar_inv s' \<and> sc_capacity s' = sc_capacity s \<and>
      (\<lambda>op. operator_fits s' op = Inr ()) = (\<lambda>op. operator_fits s op = Inr ()) \<and>
      sidecar_view s' = lru_store (sc_capacity s) h op (sidecar_view s)"
    by (intro exI[of _ sc']) simp
next
  fix s :: gdn_sidecar assume "sidecar_inv s"
  from sidecar_lengths[OF this] show "length (sidecar_view s) \<le> sc_capacity s" by (simp add: sidecar_view_def)
next
  fix s s' :: gdn_sidecar and hs r assume "sidecar_inv s" "get_operators hs s = (r, s')"
  then obtain q where q: "lookup_many hs s = (q, s')" "r = map_option (map ge_operator) q"
    by (auto simp: get_operators_def split: prod.splits)
  from lookup_many_ok[OF \<open>sidecar_inv s\<close> q(1)] q(2)
  show "sidecar_inv s' \<and> (r = None \<longleftrightarrow> \<not> set hs \<subseteq> od_dom (sidecar_view s)) \<and> (r = None \<longrightarrow> s' = s) \<and>
      (\<forall>ops. r = Some ops \<longrightarrow> map Some ops = map (od_get (sidecar_view s)) hs)"
    by (auto simp: contains_many_view)
qed

section \<open>Reachable sidecars\<close>

lemma sidecar_reach_sidecar_inv: "sidecar_reach sc \<Longrightarrow> sidecar_inv sc"
proof (induction rule: sidecar_reach.induct)
  case (init memory capacity bs heads kw vw sc)
  then show ?case
    by (auto simp: sidecar_init_def sidecar_inv_def sidecar_view_def map_values_def)
next
  case (store sc h op slot sc')
  then have "h \<noteq> []" "operator_fits sc op = Inr ()" by (auto simp: sidecar_store_def)
  from sidecar_store_ok[OF store.IH this] store.hyps(2) show ?case by auto
next
  case (lookup sc h)
  then show ?case using sidecar_lookup_ok[OF lookup.IH] by (metis prod.collapse)
next
  case (lookup_many sc hs)
  then show ?case using lookup_many_ok[OF lookup_many.IH] by (metis prod.collapse)
next
  case (clear sc)
  then show ?case
    by (simp add: sidecar_clear_def sidecar_inv_def sidecar_view_def map_values_def)
qed

text \<open>In every reachable sidecar each slot is either free or belongs to exactly one key, no key is
  empty, there are at most \<open>capacity\<close> keys, and every resident operator has the shapes the layer
  was built for.\<close>

theorem sidecar_slots:
  assumes "sidecar_reach sc"
  shows "distinct (map snd (sc_key_to_slot sc) @ sc_free_slots sc) \<and>
    set (map snd (sc_key_to_slot sc) @ sc_free_slots sc) = {..<sc_capacity sc} \<and>
    distinct (resident_keys sc) \<and> [] \<notin> set (resident_keys sc) \<and> sidecar_len sc \<le> sc_capacity sc \<and>
    (\<forall>(h, slot) \<in> set (sc_key_to_slot sc). operator_fits sc (sc_operators sc slot) = Inr ())"
proof -
  note inv = sidecar_reach_sidecar_inv[OF assms]
  have m: "mset (map snd (sc_key_to_slot sc) @ sc_free_slots sc) = mset [0..<sc_capacity sc]"
    using inv by (simp add: sidecar_inv_def del: mset_upt)
  have "distinct (map snd (sc_key_to_slot sc) @ sc_free_slots sc)"
    using mset_eq_imp_distinct_iff[OF m] by simp
  moreover have "set (map snd (sc_key_to_slot sc) @ sc_free_slots sc) = {..<sc_capacity sc}"
    using mset_eq_setD[OF m] by (simp add: atLeast0LessThan)
  moreover have "\<forall>(h, slot) \<in> set (sc_key_to_slot sc). operator_fits sc (sc_operators sc slot) = Inr ()"
    using inv by (auto simp: sidecar_inv_def sidecar_view_def map_values_def)
  ultimately show ?thesis
    using inv sidecar_lengths[OF inv] by (simp add: sidecar_inv_def resident_keys_def sidecar_len_def)
qed

text \<open>C39. The sidecar implements the abstract cache that lists keys with operators in order of use and
  keeps the last \<open>capacity\<close> of them: storing a fitting operator under a non-empty key succeeds and
  is the abstract store; a look-up returns the operator of the abstract cache and makes its key
  the most recent; looking up many keys either finds them all, and refreshes them in order, or
  changes nothing.\<close>

theorem sidecar_refines_lru:
  assumes "sidecar_reach sc"
  shows "(h \<noteq> [] \<longrightarrow> operator_fits sc op = Inr () \<longrightarrow>
      (\<exists>slot sc'. sidecar_store h op sc = Inr (slot, sc') \<and>
        sidecar_view sc' = lru_store (sc_capacity sc) h op (sidecar_view sc))) \<and>
    (h = [] \<longrightarrow> sidecar_store h op sc = Inl (ValueError ''block_hash must be non-empty'')) \<and>
    map_option ge_operator (fst (sidecar_lookup h sc)) = od_get (sidecar_view sc) h \<and>
    sidecar_view (snd (sidecar_lookup h sc)) = od_move_to_end h (sidecar_view sc) \<and>
    (case lookup_many hs sc of (r, sc') \<Rightarrow>
      if set hs \<subseteq> od_dom (sidecar_view sc)
      then map_option (map (Some \<circ> ge_operator)) r = Some (map (od_get (sidecar_view sc)) hs) \<and>
        sidecar_view sc' = fold od_move_to_end hs (sidecar_view sc)
      else r = None \<and> sc' = sc) \<and>
    sidecar_view (sidecar_clear sc) = []"
proof -
  note inv = sidecar_reach_sidecar_inv[OF assms]
  obtain r sc' where g: "lookup_many hs sc = (r, sc')" by fastforce
  have m: "if set hs \<subseteq> od_dom (sidecar_view sc)
      then map_option (map (Some \<circ> ge_operator)) r = Some (map (od_get (sidecar_view sc)) hs) \<and>
        sidecar_view sc' = fold od_move_to_end hs (sidecar_view sc)
      else r = None \<and> sc' = sc"
    using lookup_many_ok[OF inv g] by (cases r) (simp_all add: contains_many_view)
  obtain e sc1 where l: "sidecar_lookup h sc = (e, sc1)" by fastforce
  have "sidecar_view (sidecar_clear sc) = []" by (simp add: sidecar_clear_def sidecar_view_def map_values_def)
  with m sidecar_lookup_ok[OF inv l] sidecar_store_ok[OF inv, of h op] show ?thesis
    unfolding g prod.case l fst_conv snd_conv by (auto simp: sidecar_store_def)
qed

text \<open>A sidecar with one slot, for a layer with one head of width one.\<close>

definition tiny_sidecar :: gdn_sidecar where
  "tiny_sidecar = \<lparr>sc_capacity = 1, sc_block_size = 1, sc_value_heads = 1, sc_key_width = 1, sc_value_width = 1,
     sc_operators = (\<lambda>_. undefined), sc_key_to_slot = [], sc_free_slots = [0]\<rparr>"

definition tiny_operator :: "real \<Rightarrow> gdn_operator" where
  "tiny_operator x = \<lparr>op_transition = mk3 1 1 1 (\<lambda>_ _ _. x), op_responses = mk3 1 1 1 (\<lambda>_ _ _. x),
     op_state_bias = mk3 1 1 1 (\<lambda>_ _ _. x), op_output_biases = mk3 1 1 1 (\<lambda>_ _ _. x)\<rparr>"

lemma tiny_fits:
  "sc_block_size sc = 1 \<Longrightarrow> sc_value_heads sc = 1 \<Longrightarrow> sc_key_width sc = 1 \<Longrightarrow> sc_value_width sc = 1 \<Longrightarrow>
    operator_fits sc (tiny_operator x) = Inr ()"
  by (simp add: operator_fits_def tiny_operator_def check_res_def)

lemma tiny_reach: "sidecar_reach tiny_sidecar"
proof (rule sidecar_reach.init)
  show "sidecar_init (\<lambda>_. undefined) 1 1 1 1 1 = Inr tiny_sidecar"
    by (simp add: sidecar_init_def tiny_sidecar_def check_res_def)
qed

lemma tiny_stored:
  "\<exists>sc1 slot. sidecar_store [7] (tiny_operator 1) tiny_sidecar = Inr (slot, sc1) \<and> sidecar_reach sc1 \<and>
     sidecar_view sc1 = [([7], tiny_operator 1)] \<and> sc_capacity sc1 = 1 \<and> operator_fits sc1 (tiny_operator 2) = Inr ()"
proof -
  have f: "operator_fits tiny_sidecar (tiny_operator 1) = Inr ()"
    by (rule tiny_fits) (simp_all add: tiny_sidecar_def)
  have e: "sidecar_view tiny_sidecar = []" by (simp add: tiny_sidecar_def sidecar_view_def map_values_def)
  obtain slot sc1 where s: "sidecar_store [7] (tiny_operator 1) tiny_sidecar = Inr (slot, sc1)"
    "same_dims tiny_sidecar sc1" "sidecar_view sc1 = lru_store 1 [7] (tiny_operator 1) []"
    using sidecar_store_ok[OF sidecar_reach_sidecar_inv[OF tiny_reach] _ f, of "[7]"] e
    by (auto simp: tiny_sidecar_def)
  have "operator_fits sc1 (tiny_operator 2) = Inr ()"
    by (rule tiny_fits) (use s(2) in \<open>simp_all add: same_dims_def tiny_sidecar_def\<close>)
  with s sidecar_reach.store[OF tiny_reach s(1)] show ?thesis
    by (intro exI[of _ sc1] exI[of _ slot]) (simp add: same_dims_def tiny_sidecar_def lru_store_def keep_last_def)
qed

lemma sidecar_refines_lru_witness:
  "\<exists>sc sc' slot. sidecar_reach sc \<and> sidecar_view sc = [([7], tiny_operator 1)] \<and>
     map_option ge_operator (fst (sidecar_lookup [7] sc)) = Some (tiny_operator 1) \<and>
     lookup_many [[7], [8]] sc = (None, sc) \<and>
     sidecar_store [8] (tiny_operator 2) sc = Inr (slot, sc') \<and> sidecar_view sc' = [([8], tiny_operator 2)]"
proof -
  obtain sc where sc: "sidecar_reach sc" "sidecar_view sc = [([7], tiny_operator 1)]" "sc_capacity sc = 1"
    "operator_fits sc (tiny_operator 2) = Inr ()" using tiny_stored by blast
  note store = sidecar_refines_lru[OF sc(1), of "[8]" "tiny_operator 2" "[]", THEN conjunct1]
  obtain slot sc' where s: "sidecar_store [8] (tiny_operator 2) sc = Inr (slot, sc')"
    "sidecar_view sc' = lru_store 1 [8] (tiny_operator 2) [([7], tiny_operator 1)]"
    using store sc(2-4) by auto
  have look: "map_option ge_operator (fst (sidecar_lookup [7] sc)) = Some (tiny_operator 1)"
    "lookup_many [[7], [8]] sc = (None, sc)"
    using sidecar_refines_lru[OF sc(1), of "[7]" "tiny_operator 2" "[[7], [8]]"] by (simp_all add: sc(2) split: prod.splits)
  have "sidecar_view sc' = [([8], tiny_operator 2)]" by (simp add: s(2) lru_store_def keep_last_def)
  with sc(1,2) s(1) look show ?thesis
    by (intro exI[of _ sc] exI[of _ sc'] exI[of _ slot] conjI)
qed

end
