(* ===== verification/GdnStoreProps.thy ===== *)
theory GdnStoreProps
  imports GdnSidecarProps
begin

text \<open>
  The operators a prefill step stores: exactly the prompt blocks the step computes completely, in
  order, each built from the coefficients of its own tokens.
\<close>

section \<open>Shapes of a batch\<close>

definition coefficients_ok :: "gdn_sidecar \<Rightarrow> nat \<Rightarrow> nat \<Rightarrow> coefficients \<Rightarrow> bool" where
  "coefficients_ok sc kh n co \<longleftrightarrow>
     (let heads = sc_value_heads sc; kw = sc_key_width sc; vw = sc_value_width sc
      in 0 < kh \<and> heads mod kh = 0 \<and> 0 < kw \<and> shape3 (co_keys co) = (n, kh, kw) \<and>
         shape3 (co_queries co) = (n, kh, kw) \<and> shape3 (co_values co) = (n, heads, vw) \<and>
         shape2 (co_decays co) = (n, heads) \<and> shape2 (co_betas co) = (n, heads))"

lemma slice_shapes:
  "shape3 x = (n, p, q) \<Longrightarrow> shape3 (slice3 i j x) = (min j n - i, p, q)"
  "shape2 y = (n, p) \<Longrightarrow> shape2 (slice2 i j y) = (min j n - i, p)"
  by (simp_all add: slice3_def slice2_def)

lemma slice_operator_fits:
  assumes "coefficients_ok sc kh n co" "a + sc_block_size sc \<le> n"
  shows "\<exists>op. slice_operator co a (a + sc_block_size sc) = Inr op \<and> operator_fits sc op = Inr ()"
proof -
  let ?b = "a + sc_block_size sc"
  from assms have s: "shape3 (slice3 a ?b (co_keys co)) = (sc_block_size sc, kh, sc_key_width sc)"
    "shape3 (slice3 a ?b (co_queries co)) = (sc_block_size sc, kh, sc_key_width sc)"
    "shape3 (slice3 a ?b (co_values co)) = (sc_block_size sc, sc_value_heads sc, sc_value_width sc)"
    "shape2 (slice2 a ?b (co_decays co)) = (sc_block_size sc, sc_value_heads sc)"
    "shape2 (slice2 a ?b (co_betas co)) = (sc_block_size sc, sc_value_heads sc)"
    by (simp_all add: coefficients_ok_def Let_def slice_shapes min_def)
  from build_affine_total[OF s] assms(1) show ?thesis
    by (auto simp: slice_operator_def coefficients_ok_def Let_def operator_fits_def)
qed

lemma same_dims_refl [simp]: "same_dims sc sc"
  by (simp add: same_dims_def)

lemma same_dims_trans: "same_dims a b \<Longrightarrow> same_dims b c \<Longrightarrow> same_dims a c"
  by (simp add: same_dims_def)

lemma coefficients_ok_dims: "same_dims sc sc' \<Longrightarrow> coefficients_ok sc' = coefficients_ok sc"
  by (simp add: same_dims_def fun_eq_iff coefficients_ok_def)

section \<open>The loops\<close>

text \<open>The coefficients of block \<open>b\<close> of a sequence that starts at \<open>query_start\<close> with \<open>computed\<close> tokens.\<close>

definition block_operator :: "coefficients \<Rightarrow> nat \<Rightarrow> nat \<Rightarrow> nat \<Rightarrow> nat \<Rightarrow> gdn_operator" where
  "block_operator co bs query_start computed b =
     projr (slice_operator co (query_start + (b * bs - computed)) (query_start + (b * bs - computed) + bs))"

abbreviation store_seq :: "nat \<Rightarrow> (bytes \<times> gdn_operator) list \<Rightarrow> (bytes, gdn_operator) odict \<Rightarrow> (bytes, gdn_operator) odict" where
  "store_seq cap xs d \<equiv> fold (\<lambda>(h, op) d. lru_store cap h op d) xs d"

definition after_stores :: "gdn_sidecar \<Rightarrow> (bytes \<times> gdn_operator) list \<Rightarrow> gdn_sidecar \<Rightarrow> bool" where
  "after_stores sc xs sc' \<longleftrightarrow> sidecar_inv sc' \<and> same_dims sc sc' \<and>
     sidecar_view sc' = store_seq (sc_capacity sc) xs (sidecar_view sc)"

lemma after_stores_append:
  "after_stores sc xs sc1 \<Longrightarrow> after_stores sc1 ys sc2 \<Longrightarrow> after_stores sc (xs @ ys) sc2"
  by (auto simp: after_stores_def same_dims_def)

lemma nat_offsets:
  assumes "(c :: nat) \<le> m"
  shows "nat (int m - int c) = m - c" "nat (int m - int c + int d) = m - c + d"
  using assms by auto

lemma store_block_step:
  assumes inv: "sidecar_inv sc" and co: "coefficients_ok sc kh n co"
    and block: "computed \<le> b * bs" "int (b * bs + bs) - int computed \<le> scheduled"
    and span: "int query_start + scheduled \<le> int n" and bs: "bs = sc_block_size sc"
    and hashes: "[] \<notin> set hashes"
  shows "if length hashes \<le> b
    then store_block co hashes q query_start scheduled computed (sc, acc) b = Inr (sc, acc)
    else \<exists>sc'. store_block co hashes q query_start scheduled computed (sc, acc) b = Inr (sc', acc @ [(q, b)]) \<and>
      after_stores sc [(hashes ! b, block_operator co bs query_start computed b)] sc'"
proof (cases "length hashes \<le> b")
  case False
  let ?a = "query_start + (b * bs - computed)"
  have pos: "nat (int (b * bs) - int computed) = b * bs - computed"
    "nat (int (b * bs) - int computed + int bs) = b * bs - computed + bs"
    by (rule nat_offsets[OF block(1)])+
  have "?a + bs \<le> n" using block span by linarith
  then obtain op where op: "slice_operator co ?a (?a + bs) = Inr op" "operator_fits sc op = Inr ()"
    using slice_operator_fits[OF co, of ?a] bs by auto
  have "hashes ! b \<noteq> []" using hashes False by (metis not_le nth_mem)
  from sidecar_store_ok[OF inv this op(2)] obtain slot sc' where s: "sidecar_store (hashes ! b) op sc = Inr (slot, sc')"
    "sidecar_inv sc'" "same_dims sc sc'" "sidecar_view sc' = lru_store (sc_capacity sc) (hashes ! b) op (sidecar_view sc)"
    by blast
  have le: "int computed \<le> int (b * bs)" using block(1) by (simp only: of_nat_le_iff)
  have guard: "\<not> (int (b * bs) - int computed < 0 \<or> scheduled < int (b * bs) - int computed + int bs)"
    using block(2) le unfolding of_nat_add by linarith
  have "store_block co hashes q query_start scheduled computed (sc, acc) b = Inr (sc', acc @ [(q, b)])"
    unfolding store_block_def prod.case Let_def bs[symmetric] pos using False guard op(1) s(1)
    by (simp add: add.assoc)
  moreover have "after_stores sc [(hashes ! b, block_operator co bs query_start computed b)] sc'"
    using s by (simp add: after_stores_def block_operator_def op(1))
  ultimately show ?thesis using False by auto
qed (simp add: store_block_def)

lemma store_blocks:
  assumes "sidecar_inv sc" "coefficients_ok sc kh n co" "bs = sc_block_size sc" "[] \<notin> set hashes"
    "int query_start + scheduled \<le> int n"
    "\<forall>b \<in> set bl. computed \<le> b * bs \<and> int (b * bs + bs) - int computed \<le> scheduled"
  shows "\<exists>sc'. fold_res (\<lambda>b acc. store_block co hashes q query_start scheduled computed acc b) bl (sc, acc) =
      Inr (sc', acc @ map (Pair q) (filter (\<lambda>b. b < length hashes) bl)) \<and>
    after_stores sc (map (\<lambda>b. (hashes ! b, block_operator co bs query_start computed b))
      (filter (\<lambda>b. b < length hashes) bl)) sc'"
  using assms
proof (induction bl arbitrary: sc acc)
  case (Cons b bl)
  note step = store_block_step[OF Cons.prems(1,2) _ _ Cons.prems(5,3,4), of computed b q acc]
  show ?case
  proof (cases "length hashes \<le> b")
    case True
    then have "store_block co hashes q query_start scheduled computed (sc, acc) b = Inr (sc, acc)"
      using step Cons.prems(6) by simp
    then show ?thesis using Cons.IH[OF Cons.prems(1-5), of acc] Cons.prems(6) True by simp
  next
    case False
    then obtain sc1 where s1: "store_block co hashes q query_start scheduled computed (sc, acc) b = Inr (sc1, acc @ [(q, b)])"
      "after_stores sc [(hashes ! b, block_operator co bs query_start computed b)] sc1"
      using step Cons.prems(6) by auto
    then have d: "sidecar_inv sc1" "same_dims sc sc1" by (simp_all add: after_stores_def)
    have "coefficients_ok sc1 kh n co" using Cons.prems(2) by (simp add: coefficients_ok_dims[OF d(2)])
    moreover have "bs = sc_block_size sc1" using Cons.prems(3) d(2) by (simp add: same_dims_def)
    ultimately have co1: "coefficients_ok sc1 kh n co" "bs = sc_block_size sc1" by simp_all
    from Cons.IH[OF d(1) co1 Cons.prems(4,5), of "acc @ [(q, b)]"] Cons.prems(6) obtain sc' where
      "fold_res (\<lambda>b acc. store_block co hashes q query_start scheduled computed acc b) bl (sc1, acc @ [(q, b)]) =
        Inr (sc', acc @ [(q, b)] @ map (Pair q) (filter (\<lambda>b. b < length hashes) bl))"
      "after_stores sc1 (map (\<lambda>b. (hashes ! b, block_operator co bs query_start computed b))
        (filter (\<lambda>b. b < length hashes) bl)) sc'"
      by auto
    note s' = this
    have f: "filter (\<lambda>b. b < length hashes) (b # bl) = b # filter (\<lambda>b. b < length hashes) bl"
      using False by simp
    show ?thesis
    proof (intro exI conjI)
      show "fold_res (\<lambda>b acc. store_block co hashes q query_start scheduled computed acc b) (b # bl) (sc, acc) =
          Inr (sc', acc @ map (Pair q) (filter (\<lambda>b. b < length hashes) (b # bl)))"
        unfolding f fold_res.simps s1(1) bind_res.simps s'(1) by simp
      show "after_stores sc (map (\<lambda>b. (hashes ! b, block_operator co bs query_start computed b))
          (filter (\<lambda>b. b < length hashes) (b # bl))) sc'"
        using after_stores_append[OF s1(2) s'(2)] unfolding f by simp
    qed
  qed
qed (simp add: after_stores_def)

section \<open>A batch\<close>

definition query_starts_ok :: "nat list \<Rightarrow> nat \<Rightarrow> nat \<Rightarrow> bool" where
  "query_starts_ok qs sequences n \<longleftrightarrow> length qs = sequences + 1 \<and> hd qs = 0 \<and> last qs = n \<and> sorted qs"

text \<open>The blocks of sequence \<open>q\<close> that have a hash and lie completely in the scheduled tokens.\<close>

definition completed_blocks :: "nat \<Rightarrow> nat list \<Rightarrow> nat list \<Rightarrow> bytes list list \<Rightarrow> nat \<Rightarrow> nat list" where
  "completed_blocks bs qs cs hs q =
     filter (\<lambda>b. b < length (hs ! q) \<and> cs ! q \<le> b * bs \<and> b * bs + bs \<le> cs ! q + (qs ! (q + 1) - qs ! q))
       [0..<length (hs ! q)]"

definition stored_in :: "coefficients \<Rightarrow> nat \<Rightarrow> nat list \<Rightarrow> nat list \<Rightarrow> bytes list list \<Rightarrow> nat \<Rightarrow> (bytes \<times> gdn_operator) list" where
  "stored_in co bs qs cs hs q =
     map (\<lambda>b. (hs ! q ! b, block_operator co bs (qs ! q) (cs ! q) b)) (completed_blocks bs qs cs hs q)"

lemma filter_blocks:
  fixes c s len bs :: nat
  assumes "0 < bs"
  shows "filter (\<lambda>b. b < len) [(c + bs - 1) div bs..<(c + s) div bs] =
    filter (\<lambda>b. b < len \<and> c \<le> b * bs \<and> b * bs + bs \<le> c + s) [0..<len]"
proof (rule sorted_distinct_set_unique)
  have "b < (c + s) div bs \<longleftrightarrow> b * bs + bs \<le> c + s" for b
    using div_block_le[of b "c + s" bs] div_block_less[of b bs "c + s"] assms by blast
  then show "set (filter (\<lambda>b. b < len) [(c + bs - 1) div bs..<(c + s) div bs]) =
      set (filter (\<lambda>b. b < len \<and> c \<le> b * bs \<and> b * bs + bs \<le> c + s) [0..<len])"
    using ceil_div_le[OF assms, of c] by auto
qed (simp_all add: sorted_filter_upt del: ceil_div_le)

lemma store_sequence_ok:
  assumes inv: "sidecar_inv sc" and co: "coefficients_ok sc kh n co" and qs: "query_starts_ok qs sequences n"
    and q: "q < sequences" and hashes: "[] \<notin> set (hs ! q)" and bs: "bs = sc_block_size sc"
  shows "\<exists>sc'. store_sequence co qs cs hs q (sc, acc) =
      Inr (sc', acc @ map (Pair q) (completed_blocks bs qs cs hs q)) \<and>
    after_stores sc (stored_in co bs qs cs hs q) sc'"
proof -
  define c where "c = cs ! q"
  define e where "e = qs ! (q + 1) - qs ! q"
  have pos: "0 < bs" using inv bs by (simp add: sidecar_inv_def)
  have mono: "qs ! i \<le> qs ! j" if "i \<le> j" "j \<le> sequences" for i j
    using qs that by (auto simp: query_starts_ok_def sorted_iff_nth_mono)
  have "qs ! sequences = n" using qs last_conv_nth[of qs] by (cases "qs = []") (auto simp: query_starts_ok_def)
  then have en: "qs ! (q + 1) \<le> n" using mono[of "q + 1" sequences] q by simp
  have sched: "int (qs ! (q + 1)) - int (qs ! q) = int e"
    using mono[of q "q + 1"] q by (simp add: e_def)
  have final: "nat ((int c + int e) div int bs) = (c + e) div bs"
    by (metis nat_int of_nat_add zdiv_int)
  have span: "int (qs ! q) + int e \<le> int n" using en sched by linarith
  let ?bl = "[(c + bs - 1) div bs..<(c + e) div bs]"
  have blocks: "\<forall>b \<in> set ?bl. c \<le> b * bs \<and> int (b * bs + bs) - int c \<le> int e"
  proof
    fix b assume "b \<in> set ?bl"
    then have "c \<le> b * bs" "b * bs + bs \<le> c + e"
      using ceil_div_le[OF pos, of c b] div_block_le[of b "c + e" bs] by auto
    then show "c \<le> b * bs \<and> int (b * bs + bs) - int c \<le> int e" by linarith
  qed
  have f: "filter (\<lambda>b. b < length (hs ! q)) ?bl = completed_blocks bs qs cs hs q"
    unfolding completed_blocks_def c_def[symmetric] e_def[symmetric] by (rule filter_blocks[OF pos])
  have "store_sequence co qs cs hs q (sc, acc) =
      fold_res (\<lambda>b acc. store_block co (hs ! q) q (qs ! q) (int e) c acc b) ?bl (sc, acc)"
    by (simp only: store_sequence_def Let_def fst_conv bs[symmetric] c_def[symmetric] sched final)
  with store_blocks[OF inv co bs hashes span blocks, of q acc, unfolded f] show ?thesis
    by (simp add: stored_in_def c_def)
qed

lemma store_sequences:
  assumes "sidecar_inv sc" "coefficients_ok sc kh n co" "query_starts_ok qs sequences n"
    "\<forall>h \<in> set hs. [] \<notin> set h" "length hs = sequences" "bs = sc_block_size sc" "set ql \<subseteq> {..<sequences}"
  shows "\<exists>sc'. fold_res (store_sequence co qs cs hs) ql (sc, acc) =
      Inr (sc', acc @ concat (map (\<lambda>q. map (Pair q) (completed_blocks bs qs cs hs q)) ql)) \<and>
    after_stores sc (concat (map (stored_in co bs qs cs hs) ql)) sc'"
  using assms
proof (induction ql arbitrary: sc acc)
  case (Cons q ql)
  have q: "q < sequences" "[] \<notin> set (hs ! q)" using Cons.prems(4,5,7) by auto
  from store_sequence_ok[OF Cons.prems(1-3) q Cons.prems(6), of cs acc] obtain sc1 where
    s1: "store_sequence co qs cs hs q (sc, acc) = Inr (sc1, acc @ map (Pair q) (completed_blocks bs qs cs hs q))"
      "after_stores sc (stored_in co bs qs cs hs q) sc1" by blast
  then have d: "sidecar_inv sc1" "same_dims sc sc1" by (simp_all add: after_stores_def)
  have co1: "coefficients_ok sc1 kh n co" using Cons.prems(2) by (simp add: coefficients_ok_dims[OF d(2)])
  have bs1: "bs = sc_block_size sc1" using Cons.prems(6) d(2) by (simp add: same_dims_def)
  have ql: "set ql \<subseteq> {..<sequences}" using Cons.prems(7) by simp
  from Cons.IH[OF d(1) co1 Cons.prems(3-5) bs1 ql] obtain sc' where s': "fold_res (store_sequence co qs cs hs) ql
        (sc1, acc @ map (Pair q) (completed_blocks bs qs cs hs q)) =
      Inr (sc', (acc @ map (Pair q) (completed_blocks bs qs cs hs q)) @
        concat (map (\<lambda>q. map (Pair q) (completed_blocks bs qs cs hs q)) ql))"
      "after_stores sc1 (concat (map (stored_in co bs qs cs hs) ql)) sc'"
    by blast
  show ?case
  proof (intro exI conjI)
    show "fold_res (store_sequence co qs cs hs) (q # ql) (sc, acc) =
        Inr (sc', acc @ concat (map (\<lambda>q. map (Pair q) (completed_blocks bs qs cs hs q)) (q # ql)))"
      unfolding fold_res.simps s1(1) bind_res.simps s'(1) by simp
    show "after_stores sc (concat (map (stored_in co bs qs cs hs) (q # ql))) sc'"
      using after_stores_append[OF s1(2) s'(2)] by simp
  qed
qed (simp add: after_stores_def)

lemma store_completed:
  assumes "sidecar_inv sc" "coefficients_ok sc kh n co" "query_starts_ok qs sequences n"
    "length cs = sequences" "length hs = sequences" "\<forall>h \<in> set hs. [] \<notin> set h"
  shows "\<exists>sc'. store_completed_gdn_delta_operators co qs cs hs sc =
      Inr (sc', concat (map (\<lambda>q. map (Pair q) (completed_blocks (sc_block_size sc) qs cs hs q)) [0..<sequences])) \<and>
    after_stores sc (concat (map (stored_in co (sc_block_size sc) qs cs hs) [0..<sequences])) sc'"
proof -
  have "set [0..<sequences] \<subseteq> {..<sequences}" by auto
  from store_sequences[OF assms(1-3,6,5) refl this, of cs "[]"] obtain sc' where
    "fold_res (store_sequence co qs cs hs) [0..<sequences] (sc, []) =
      Inr (sc', concat (map (\<lambda>q. map (Pair q) (completed_blocks (sc_block_size sc) qs cs hs q)) [0..<sequences]))"
    "after_stores sc (concat (map (stored_in co (sc_block_size sc) qs cs hs) [0..<sequences])) sc'" by auto
  then show ?thesis
    using assms(2-5)
    by (auto simp: store_completed_gdn_delta_operators_def coefficients_ok_def query_starts_ok_def Let_def)
qed

text \<open>A prefill step with coefficients of the layer's shapes stores exactly the prompt blocks whose
  tokens it computes completely, sequence by sequence and in order, each under its contextual hash
  with the operator built from its own tokens; the cache is then what these stores make of it in
  this order, and the last \<open>capacity\<close> of the stored hashes are resident.\<close>

theorem store_completed_exact:
  assumes "sidecar_reach sc" "coefficients_ok sc kh n co" "query_starts_ok qs sequences n"
    "length cs = sequences" "length hs = sequences" "\<forall>h \<in> set hs. [] \<notin> set h"
  shows "\<exists>sc' xs. xs = concat (map (stored_in co (sc_block_size sc) qs cs hs) [0..<sequences]) \<and>
    store_completed_gdn_delta_operators co qs cs hs sc =
      Inr (sc', concat (map (\<lambda>q. map (Pair q) (completed_blocks (sc_block_size sc) qs cs hs q)) [0..<sequences])) \<and>
    sidecar_view sc' = store_seq (sc_capacity sc) xs (sidecar_view sc) \<and>
    contains_many sc' (map fst (keep_last (sc_capacity sc) xs))"
proof -
  define xs where "xs = concat (map (stored_in co (sc_block_size sc) qs cs hs) [0..<sequences])"
  from store_completed[OF sidecar_reach_sidecar_inv[OF assms(1)] assms(2-6)] obtain sc' where
    r: "store_completed_gdn_delta_operators co qs cs hs sc =
      Inr (sc', concat (map (\<lambda>q. map (Pair q) (completed_blocks (sc_block_size sc) qs cs hs q)) [0..<sequences]))"
      "sidecar_view sc' = store_seq (sc_capacity sc) xs (sidecar_view sc)"
    by (auto simp: after_stores_def xs_def)
  have "fst ` set (keep_last (sc_capacity sc) xs) \<subseteq> od_dom (keep_last (sc_capacity sc) (sidecar_view sc'))"
    unfolding r(2) by (rule lru_recent) simp
  also have "\<dots> \<subseteq> od_dom (sidecar_view sc')" by (rule image_mono[OF set_keep_last])
  finally have "contains_many sc' (map fst (keep_last (sc_capacity sc) xs))" by (simp add: contains_many_view)
  with r show ?thesis by (auto simp: xs_def)
qed

end
