(* ===== verification/GdnExecutionProps.thy ===== *)
theory GdnExecutionProps
  imports GdnExecution GdnStoreProps
begin

text \<open>
  The plan of a prefill covers its tokens once, and running it gives the recurrence over all of
  them whenever the reused operators are those of the tokens they stand for.
\<close>

section \<open>Plans\<close>

fun spans_tile :: "nat \<Rightarrow> exec_span list \<Rightarrow> nat \<Rightarrow> bool" where
  "spans_tile a [] b \<longleftrightarrow> a = b"
| "spans_tile a (sp # sps) b \<longleftrightarrow> es_start sp = a \<and> a < es_end sp \<and> spans_tile (es_end sp) sps b"

definition affine_span :: "nat \<Rightarrow> nat \<Rightarrow> (nat, bytes) odict \<Rightarrow> nat \<Rightarrow> exec_span" where
  "affine_span q bs by_block b =
     \<lparr>es_sequence = q, es_start = b * bs, es_end = b * bs + bs, es_mode = Affine_Reuse,
      es_block = Some b, es_hash = od_get by_block b\<rparr>"

lemma exec_spans_ok:
  assumes "0 < bs" "cursor \<le> stop" "sorted_wrt (<) bl" "\<forall>b \<in> set bl. cursor \<le> b * bs \<and> b * bs + bs \<le> stop"
  shows "spans_tile cursor (exec_spans q bs by_block stop cursor bl) stop \<and>
    filter (\<lambda>sp. es_mode sp = Affine_Reuse) (exec_spans q bs by_block stop cursor bl) =
      map (affine_span q bs by_block) bl"
  using assms(2-4)
proof (induction bl arbitrary: cursor)
  case Nil
  then show ?case by (auto simp: recompute_span_def)
next
  case (Cons b bl)
  have "b * bs + bs \<le> b' * bs" if "b' \<in> set bl" for b'
  proof -
    have "Suc b \<le> b'" using Cons.prems(2) that by auto
    then have "Suc b * bs \<le> b' * bs" by (rule mult_le_mono1)
    then show ?thesis by simp
  qed
  with Cons.IH[of "b * bs + bs"] Cons.prems have
    "spans_tile (b * bs + bs) (exec_spans q bs by_block stop (b * bs + bs) bl) stop"
    "filter (\<lambda>sp. es_mode sp = Affine_Reuse) (exec_spans q bs by_block stop (b * bs + bs) bl) =
      map (affine_span q bs by_block) bl"
    by auto
  then show ?case using Cons.prems(3) assms(1)
    by (auto simp: Let_def recompute_span_def affine_span_def)
qed

lemma add_candidates_ok:
  assumes "add_candidates cs d = Inr d'" "distinct (od_keys d)"
  shows "distinct (od_keys d') \<and> set d' = set d \<union> (\<lambda>(b, h). (nat b, h)) ` set cs \<and>
    (\<forall>(b, h) \<in> set cs. 0 \<le> b \<and> h \<noteq> [])"
  using assms
proof (induction cs arbitrary: d)
  case (Cons x cs)
  obtain b h where x: "x = (b, h)" by fastforce
  from Cons.prems(1) have c: "0 \<le> b" "h \<noteq> []" "nat b \<notin> od_dom d" "add_candidates cs (od_set (nat b) h d) = Inr d'"
    by (auto simp: x)
  from Cons.IH[OF c(4)] Cons.prems(2) c(1-3) show ?case
    by (auto simp: x od_set_new[OF c(3)])
qed simp

text \<open>The candidates of a sequence as a map, and the blocks inside its interval.\<close>

definition exec_plan_ok :: "nat \<Rightarrow> nat \<Rightarrow> nat \<Rightarrow> nat \<Rightarrow> (int \<times> bytes) list \<Rightarrow> exec_plan \<Rightarrow> bool" where
  "exec_plan_ok q bs start stop cs p \<longleftrightarrow>
     (let inside = (\<lambda>b. start \<le> b * bs \<and> b * bs + bs \<le> stop); blocks = nat ` fst ` set cs
      in ep_sequence p = q \<and> ep_start p = start \<and> ep_end p = stop \<and> spans_tile start (ep_spans p) stop \<and>
         sorted_wrt (<) (ep_reused p) \<and> set (ep_reused p) = {b \<in> blocks. inside b} \<and>
         sorted_wrt (<) (ep_skipped p) \<and> set (ep_skipped p) = {b \<in> blocks. \<not> inside b} \<and>
         list_all2 (\<lambda>b sp. es_start sp = b * bs \<and> es_end sp = b * bs + bs \<and> es_block sp = Some b \<and>
             (\<exists>h. es_hash sp = Some h \<and> (int b, h) \<in> set cs))
           (ep_reused p) (filter (\<lambda>sp. es_mode sp = Affine_Reuse) (ep_spans p)))"

lemma sequence_plan_ok:
  assumes "sequence_plan cs ss bs candidates q = Inr p" "0 < bs"
  shows "0 \<le> cs ! q \<and> 0 \<le> ss ! q \<and>
    exec_plan_ok q bs (nat (cs ! q)) (nat (cs ! q) + nat (ss ! q)) (candidates ! q) p"
proof -
  from assms(1) obtain d where nonneg: "0 \<le> cs ! q" "0 \<le> ss ! q" and d: "add_candidates (candidates ! q) [] = Inr d"
    by (auto simp: sequence_plan_def)
  define start where "start = nat (cs ! q)"
  define stop where "stop = start + nat (ss ! q)"
  define inside where "inside b \<longleftrightarrow> start \<le> b * bs \<and> b * bs + bs \<le> stop" for b
  define reusable where "reusable = filter inside (sort (od_keys d))"
  have p: "p = \<lparr>ep_sequence = q, ep_start = start, ep_end = stop, ep_spans = exec_spans q bs d stop start reusable,
      ep_reused = reusable, ep_skipped = filter (\<lambda>b. \<not> inside b) (sort (od_keys d))\<rparr>"
    using assms(1) d nonneg
    by (simp add: sequence_plan_def Let_def start_def stop_def inside_def[abs_def] reusable_def)
  have distinct_nil: "distinct (od_keys ([] :: (nat, bytes) odict))" by simp
  note D0 = add_candidates_ok[OF d distinct_nil]
  have D: "distinct (od_keys d)" "set d = (\<lambda>(b, h). (nat b, h)) ` set (candidates ! q)"
    "\<forall>(b, h) \<in> set (candidates ! q). 0 \<le> b \<and> h \<noteq> []"
    by (rule D0[THEN conjunct1], rule D0[THEN conjunct2, THEN conjunct1, unfolded list.set Un_empty_left],
        rule D0[THEN conjunct2, THEN conjunct2])
  have dom: "od_dom d = nat ` fst ` set (candidates ! q)" by (force simp: D(2))
  have strict: "sorted_wrt (<) (filter P (sort (od_keys d)))" for P
    using D(1) by (simp add: strict_sorted_iff sorted_filter[of id, simplified])
  have sorted: "sorted_wrt (<) reusable" unfolding reusable_def by (rule strict)
  have within: "\<forall>b \<in> set reusable. start \<le> b * bs \<and> b * bs + bs \<le> stop"
    by (simp add: reusable_def inside_def)
  have "start \<le> stop" by (simp add: stop_def)
  note S = exec_spans_ok[OF assms(2) this sorted within, of q d]
  have spans: "spans_tile start (ep_spans p) stop"
    "filter (\<lambda>sp. es_mode sp = Affine_Reuse) (ep_spans p) = map (affine_span q bs d) reusable"
    using S by (simp_all add: p)
  have hash: "\<exists>h. od_get d b = Some h \<and> (int b, h) \<in> set (candidates ! q)" if "b \<in> set reusable" for b
  proof -
    have "b \<in> od_dom d" using that by (simp add: reusable_def)
    then obtain h where h: "(b, h) \<in> set d" by force
    then obtain b' where "(b', h) \<in> set (candidates ! q)" "b = nat b'" by (auto simp: D(2))
    moreover have "0 \<le> b'" using D(3) calculation(1) by auto
    ultimately show ?thesis using h D(1) by auto
  qed
  have "list_all2 (\<lambda>b sp. es_start sp = b * bs \<and> es_end sp = b * bs + bs \<and> es_block sp = Some b \<and>
      (\<exists>h. es_hash sp = Some h \<and> (int b, h) \<in> set (candidates ! q))) reusable (map (affine_span q bs d) reusable)"
    using hash by (auto simp: list_all2_conv_all_nth affine_span_def)
  note L = this
  have sets: "set reusable = {b \<in> nat ` fst ` set (candidates ! q). inside b}"
    "set (filter (\<lambda>b. \<not> inside b) (sort (od_keys d))) = {b \<in> nat ` fst ` set (candidates ! q). \<not> inside b}"
    by (simp_all add: reusable_def Int_def conj_commute flip: dom)
  have fields: "ep_sequence p = q" "ep_start p = start" "ep_end p = stop" "ep_reused p = reusable"
    "ep_skipped p = filter (\<lambda>b. \<not> inside b) (sort (od_keys d))"
    by (simp_all add: p)
  have "exec_plan_ok q bs start stop (candidates ! q) p"
    unfolding exec_plan_ok_def Let_def spans(2) fields
    by (intro conjI refl spans(1) sorted strict L) (use sets in \<open>simp_all only: inside_def\<close>)
  then show ?thesis using nonneg by (simp add: start_def stop_def)
qed

text \<open>The plans of a batch cover every scheduled token exactly once: the spans of a sequence follow
  one another without gap from its first to its last scheduled token and none is empty; the reused
  spans are exactly the candidate blocks that lie inside the interval, in order and with their
  hashes, and every other candidate is reported as skipped.\<close>

theorem execution_plans_tile:
  assumes "build_gdn_delta_execution_plans cs ss bs candidates = Inr plans"
  shows "length plans = length cs \<and>
    (\<forall>q<length cs. exec_plan_ok q (nat bs) (nat (cs ! q)) (nat (cs ! q) + nat (ss ! q)) (candidates ! q) (plans ! q))"
proof -
  from assms have bs: "0 < nat bs"
    and m: "map_res (sequence_plan cs ss (nat bs) candidates) [0..<length cs] = Inr plans"
    by (auto simp: build_gdn_delta_execution_plans_def)
  have len: "length plans = length cs" using map_res_length[OF m] by simp
  have "sequence_plan cs ss (nat bs) candidates q = Inr (plans ! q)" if "q < length cs" for q
    using m that by (auto simp: map_res_Inr_iff list_all2_conv_all_nth)
  with len sequence_plan_ok[OF _ bs] show ?thesis by blast
qed

lemma execution_plans_tile_witness:
  "case build_gdn_delta_execution_plans [3] [9] 2 [[(9, [3]), (4, [1]), (2, [2])]] of
    Inr plans \<Rightarrow> exec_plan_ok 0 2 3 12 [(9, [3]), (4, [1]), (2, [2])] (plans ! 0) \<and> ep_reused (plans ! 0) = [2, 4]
  | Inl _ \<Rightarrow> False"
proof -
  have "case build_gdn_delta_execution_plans [3] [9] 2 [[(9, [3]), (4, [1]), (2, [2])]] of
    Inr plans \<Rightarrow> ep_reused (plans ! 0) = [2, 4] | Inl _ \<Rightarrow> False" by code_simp
  then obtain plans where p: "build_gdn_delta_execution_plans [3] [9] 2 [[(9, [3]), (4, [1]), (2, [2])]] = Inr plans"
    "ep_reused (plans ! 0) = [2, 4]" by (auto split: sum.splits)
  from execution_plans_tile[OF p(1)] p show ?thesis by simp
qed

section \<open>The recurrence in pieces\<close>

definition layer_recurrence :: "coefficients \<Rightarrow> nat list \<Rightarrow> ten3 \<Rightarrow> ten3 \<times> ten2 list" where
  "layer_recurrence co ts s =
     gdn_recurrence (co_keys co) (co_queries co) (co_values co) (co_decays co) (co_betas co) ts s"

definition rows_tensor :: "nat \<Rightarrow> nat \<Rightarrow> ten2 list \<Rightarrow> ten3" where
  "rows_tensor heads vw rows = mk3 (length rows) heads vw (\<lambda>t. at2 (rows ! t))"

lemma recurrence_ok:
  assumes "ten3_ok s" "shape3 s = (heads, vw, kw)"
  shows "ten3_ok (fst (layer_recurrence co ts s))" "shape3 (fst (layer_recurrence co ts s)) = (heads, vw, kw)"
    "length (snd (layer_recurrence co ts s)) = length ts"
  using state_loop_ok[OF assms] state_loop_length assms
  by (simp_all add: layer_recurrence_def gdn_recurrence_def)

lemma recurrence_append:
  assumes "ten3_ok s" "shape3 s = (heads, vw, kw)"
  shows "layer_recurrence co (ts @ us) s =
    (let (s1, r1) = layer_recurrence co ts s; (s2, r2) = layer_recurrence co us s1 in (s2, r1 @ r2))"
proof -
  obtain s1 r1 where r: "layer_recurrence co ts s = (s1, r1)" by fastforce
  then have "shape3 s1 = (heads, vw, kw)" using recurrence_ok(2)[OF assms, of co ts] by simp
  with r show ?thesis
    by (simp add: layer_recurrence_def gdn_recurrence_def assms(2) state_loop_append)
qed

lemma slice_exact:
  assumes co: "coefficients_ok sc kh n co" and a: "a + bs \<le> n"
    and op: "slice_operator co a (a + bs) = Inr op"
    and s: "shape3 s = (sc_value_heads sc, sc_value_width sc, sc_key_width sc)" "ten3_ok s"
  shows "apply_gdn_affine_operator s op =
    (let (s', rows) = layer_recurrence co [a..<a + bs] s
     in Inr (s', rows_tensor (sc_value_heads sc) (sc_value_width sc) rows))"
proof -
  let ?h = "sc_value_heads sc" and ?vw = "sc_value_width sc" and ?kw = "sc_key_width sc"
  have shapes: "shape3 (co_keys co) = (n, kh, ?kw)" "shape3 (co_queries co) = (n, kh, ?kw)"
    "shape3 (co_values co) = (n, ?h, ?vw)" "shape2 (co_decays co) = (n, ?h)" "shape2 (co_betas co) = (n, ?h)"
    "0 < kh" "?h mod kh = 0"
    using co by (simp_all add: coefficients_ok_def Let_def)
  have m: "min (a + bs) n - a = bs" using a by simp
  have sl: "shape3 (slice3 a (a + bs) (co_keys co)) = (bs, kh, ?kw)"
    "shape3 (slice3 a (a + bs) (co_queries co)) = (bs, kh, ?kw)"
    "shape3 (slice3 a (a + bs) (co_values co)) = (bs, ?h, ?vw)"
    using slice_shapes(1)[OF shapes(1)] slice_shapes(1)[OF shapes(2)] slice_shapes(1)[OF shapes(3)] m by simp_all
  have group: "h div (?h div kh) < kh" if "h < ?h" for h
  proof -
    have h: "?h = ?h div kh * kh" using shapes(7) by (metis div_mult_mod_eq add.right_neutral)
    then have "0 < ?h div kh" using that by (cases "?h div kh") auto
    then show ?thesis using that h by (metis div_less_iff_less_mult mult.commute)
  qed
  have inner: "at3 (slice3 a (a + bs) x) t i j = at3 x (a + t) i j"
    if "shape3 x = (n, p, q)" "t < bs" "i < p" "j < q" for x t i j p q
    using that m by (simp add: slice3_def)
  have inner2: "at2 (slice2 a (a + bs) x) t i = at2 x (a + t) i"
    if "shape2 x = (n, p)" "t < bs" "i < p" for x t i p
    using that m by (simp add: slice2_def)
  have ex: "at3 (projr (expand_heads (slice3 a (a + bs) x) ?h)) t h l = at3 (projr (expand_heads x ?h)) (a + t) h l"
    if "shape3 x = (n, kh, ?kw)" "t < bs" "h < ?h" "l < ?kw" for x t h l
  proof -
    have "a + t < n" using a that(2) by simp
    moreover have "shape3 (slice3 a (a + bs) x) = (bs, kh, ?kw)" using slice_shapes(1)[OF that(1)] m by simp
    ultimately show ?thesis
      using that shapes(6,7) inner[OF that(1,2) group[OF that(3)] that(4)] by (simp add: expand_heads_def)
  qed
  have "gdn_recurrence (slice3 a (a + bs) (co_keys co)) (slice3 a (a + bs) (co_queries co))
      (slice3 a (a + bs) (co_values co)) (slice2 a (a + bs) (co_decays co)) (slice2 a (a + bs) (co_betas co)) [0..<bs] s =
    layer_recurrence co (map (\<lambda>t. a + t) [0..<bs]) s"
    unfolding layer_recurrence_def gdn_recurrence_def s(1) prod.case
    by (rule state_loop_shift[where m = bs])
      (simp_all add: ex shapes inner[OF shapes(3)] inner2[OF shapes(4)] inner2[OF shapes(5)])
  moreover have "map (\<lambda>t. a + t) [0..<bs] = [a..<a + bs]"
    by (rule nth_equalityI) simp_all
  ultimately have rec: "gdn_recurrence (slice3 a (a + bs) (co_keys co)) (slice3 a (a + bs) (co_queries co))
      (slice3 a (a + bs) (co_values co)) (slice2 a (a + bs) (co_decays co)) (slice2 a (a + bs) (co_betas co)) [0..<bs] s =
    layer_recurrence co [a..<a + bs] s" by simp
  have len: "length (snd (layer_recurrence co [a..<a + bs] s)) = bs"
    using recurrence_ok(3)[OF s(2,1), of co "[a..<a + bs]"] by simp
  from affine_exact[OF op[unfolded slice_operator_def] sl(1,3) s] rec len show ?thesis
    by (simp add: rows_tensor_def case_prod_beta)
qed

section \<open>Running the spans\<close>

lemma spans_tile_le: "spans_tile a sps b \<Longrightarrow> a \<le> b"
  by (induction sps arbitrary: a) (auto dest: order.trans[OF less_imp_le])

lemma rows_tensor_shape [simp]: "shape3 (rows_tensor h v rows) = (length rows, h, v)"
  by (simp add: rows_tensor_def)

lemma append_rows: "append3 (rows_tensor h v r1) (rows_tensor h v r2) = rows_tensor h v (r1 @ r2)"
  by (auto simp: append3_def rows_tensor_def nth_append intro!: mk3_cong)

lemma cat3_Nil: "cat3 h v [] = rows_tensor h v []"
  by (auto simp: cat3_def zeros3_def rows_tensor_def intro!: mk3_cong)

lemma cat3_Cons: "cat3 h v (x # xs) = append3 x (cat3 h v xs)"
  by (simp add: cat3_def)

text \<open>What the callbacks are taken to do: the kernel computes the recurrence over the tokens of a span,
  and writing checkpoints does not fail.\<close>

definition recomputes ::
  "coefficients \<Rightarrow> nat \<Rightarrow> nat \<Rightarrow> (nat \<times> nat \<times> nat) \<Rightarrow> 'w recompute \<Rightarrow> bool" where
  "recomputes co c n dims recompute \<longleftrightarrow>
     (\<forall>a b s w. c \<le> a \<longrightarrow> a < b \<longrightarrow> b \<le> c + n \<longrightarrow> ten3_ok s \<longrightarrow> shape3 s = dims \<longrightarrow>
       (\<exists>w'. recompute a b s w =
         (let (s', rows) = layer_recurrence co [a - c..<b - c] s
          in Inr ((s', rows_tensor (fst dims) (fst (snd dims)) rows), w'))))"

definition completes :: "'w complete option \<Rightarrow> bool" where
  "completes on_complete \<longleftrightarrow> (\<forall>f sp s w. on_complete = Some f \<longrightarrow> (\<exists>w'. f sp s w = Inr w'))"

text \<open>The operator of a reused span is that of the span's own tokens.\<close>

definition span_operator :: "coefficients \<Rightarrow> nat \<Rightarrow> nat \<Rightarrow> exec_span \<Rightarrow> gdn_operator \<Rightarrow> bool" where
  "span_operator co c bs sp op \<longleftrightarrow> es_end sp = es_start sp + bs \<and>
     slice_operator co (es_start sp - c) (es_start sp - c + bs) = Inr op"

lemma run_span_exact:
  fixes sc :: gdn_sidecar
  defines "h \<equiv> sc_value_heads sc" and "v \<equiv> sc_value_width sc" and "k \<equiv> sc_key_width sc"
  assumes co: "coefficients_ok sc kh n co" and rec: "recomputes co c n (h, v, k) recompute"
    and comp: "completes on_complete" and initial: "shape3 initial = (h, v, k)"
    and s: "ten3_ok (rs_state r)" "shape3 (rs_state r) = (h, v, k)"
    and span: "c \<le> es_start sp" "es_start sp < es_end sp" "es_end sp \<le> c + n"
    and entry: "es_mode sp = Affine_Reuse \<Longrightarrow> rs_entries r = e # es \<and> span_operator co c bs sp (ge_operator e)"
  shows "\<exists>w' s' rows. layer_recurrence co [es_start sp - c..<es_end sp - c] (rs_state r) = (s', rows) \<and>
    run_span recompute (\<lambda>x. x) on_complete initial sp (r, w) =
      Inr (r\<lparr>rs_state := s', rs_outputs := rs_outputs r @ [rows_tensor h v rows],
        rs_entries := (if es_mode sp = Affine_Reuse then es else rs_entries r),
        rs_recomputed := rs_recomputed r + (if es_mode sp = Affine_Reuse then 0 else es_end sp - es_start sp),
        rs_reused := rs_reused r + (if es_mode sp = Affine_Reuse then es_end sp - es_start sp else 0)\<rparr>, w')"
proof -
  obtain s' rows where r: "layer_recurrence co [es_start sp - c..<es_end sp - c] (rs_state r) = (s', rows)" by fastforce
  have shapes: "shape3 s' = (h, v, k)" "length rows = es_end sp - es_start sp"
    using recurrence_ok(2,3)[OF s, of co "[es_start sp - c..<es_end sp - c]"] r span(1) by simp_all
  have fin: "\<exists>w''. (case on_complete of None \<Rightarrow> Inr w' | Some f \<Rightarrow> f sp s' w') = Inr w''" for w'
    using comp by (cases on_complete) (simp_all add: completes_def)
  show ?thesis
  proof (cases "es_mode sp")
    case Recompute
    obtain w' where w': "recompute (es_start sp) (es_end sp) (rs_state r) w = Inr ((s', rows_tensor h v rows), w')"
      using rec[unfolded recomputes_def, rule_format, OF span s] r by (auto simp: Let_def)
    obtain w'' where "(case on_complete of None \<Rightarrow> Inr w' | Some f \<Rightarrow> f sp s' w') = Inr w''" using fin by blast
    then show ?thesis
      using r shapes span(2) by (simp add: run_span_def initial Recompute w' Let_def)
  next
    case Affine_Reuse
    from entry[OF Affine_Reuse] have e: "rs_entries r = e # es" "es_end sp = es_start sp + bs"
      "slice_operator co (es_start sp - c) (es_start sp - c + bs) = Inr (ge_operator e)"
      by (simp_all add: span_operator_def)
    have cut: "es_end sp - c = es_start sp - c + bs" using e(2) span(1) by simp
    have "es_start sp - c + bs \<le> n" using span e(2) by simp
    from slice_exact[OF co this e(3)] s r cut have
      ap: "apply_gdn_affine_operator (rs_state r) (ge_operator e) = Inr (s', rows_tensor h v rows)"
      by (simp add: h_def v_def k_def)
    obtain w'' where "(case on_complete of None \<Rightarrow> Inr w | Some f \<Rightarrow> f sp s' w) = Inr w''" using fin by blast
    then show ?thesis
      using r shapes span(2) by (simp add: run_span_def initial Affine_Reuse e(1) ap Let_def)
  qed
qed

lemma run_spans_exact:
  fixes sc :: gdn_sidecar
  defines "h \<equiv> sc_value_heads sc" and "v \<equiv> sc_value_width sc" and "k \<equiv> sc_key_width sc"
  assumes co: "coefficients_ok sc kh n co" and rec: "recomputes co c n (h, v, k) recompute"
    and comp: "completes on_complete" and initial: "shape3 initial = (h, v, k)"
    and s: "ten3_ok (rs_state r)" "shape3 (rs_state r) = (h, v, k)"
    and span: "c \<le> a" "spans_tile a sps (c + n)"
    and entries: "list_all2 (\<lambda>sp e. span_operator co c bs sp (ge_operator e))
      (filter (\<lambda>sp. es_mode sp = Affine_Reuse) sps) (rs_entries r)"
  shows "\<exists>r' w' s' rows outs. layer_recurrence co [a - c..<n] (rs_state r) = (s', rows) \<and>
    fold_res (run_span recompute (\<lambda>x. x) on_complete initial) sps (r, w) = Inr (r', w') \<and>
    rs_state r' = s' \<and> rs_entries r' = [] \<and> rs_outputs r' = rs_outputs r @ outs \<and>
    cat3 h v outs = rows_tensor h v rows \<and>
    rs_reused r' = rs_reused r + bs * length (filter (\<lambda>sp. es_mode sp = Affine_Reuse) sps) \<and>
    rs_recomputed r' + rs_reused r' = rs_recomputed r + rs_reused r + (c + n - a)"
  using s span entries
proof (induction sps arbitrary: r w a)
  case Nil
  then have "layer_recurrence co [a - c..<n] (rs_state r) = (rs_state r, [])"
    by (simp add: layer_recurrence_def gdn_recurrence_def case_prod_beta)
  moreover have "rs_entries r = []" using Nil.prems(5) by simp
  ultimately show ?case using Nil.prems(4)
    by (intro exI[of _ r] exI[of _ w] exI[of _ "rs_state r"] exI[of _ "[]"]) (simp add: cat3_Nil)
next
  case (Cons sp sps)
  have t: "es_start sp = a" "a < es_end sp" "spans_tile (es_end sp) sps (c + n)" using Cons.prems(4) by simp_all
  have le: "es_end sp \<le> c + n" by (rule spans_tile_le[OF t(3)])
  have entry: "es_mode sp = Affine_Reuse \<Longrightarrow> rs_entries r = hd (rs_entries r) # tl (rs_entries r) \<and>
      span_operator co c bs sp (ge_operator (hd (rs_entries r)))"
    using Cons.prems(5) by (auto simp: list_all2_Cons1)
  obtain w1 s1 rows1 where one: "layer_recurrence co [es_start sp - c..<es_end sp - c] (rs_state r) = (s1, rows1)"
    "run_span recompute (\<lambda>x. x) on_complete initial sp (r, w) =
      Inr (r\<lparr>rs_state := s1, rs_outputs := rs_outputs r @ [rows_tensor h v rows1],
        rs_entries := (if es_mode sp = Affine_Reuse then tl (rs_entries r) else rs_entries r),
        rs_recomputed := rs_recomputed r + (if es_mode sp = Affine_Reuse then 0 else es_end sp - es_start sp),
        rs_reused := rs_reused r + (if es_mode sp = Affine_Reuse then es_end sp - es_start sp else 0)\<rparr>, w1)"
    using run_span_exact[OF co, folded h_def v_def k_def, OF rec comp initial Cons.prems(1,2) _ _ le entry,
        of w] t Cons.prems(3) by auto
  define r1 where "r1 = r\<lparr>rs_state := s1, rs_outputs := rs_outputs r @ [rows_tensor h v rows1],
        rs_entries := (if es_mode sp = Affine_Reuse then tl (rs_entries r) else rs_entries r),
        rs_recomputed := rs_recomputed r + (if es_mode sp = Affine_Reuse then 0 else es_end sp - es_start sp),
        rs_reused := rs_reused r + (if es_mode sp = Affine_Reuse then es_end sp - es_start sp else 0)\<rparr>"
  have ok1: "ten3_ok (rs_state r1)" "shape3 (rs_state r1) = (h, v, k)" "rs_state r1 = s1"
    using recurrence_ok(1,2)[OF Cons.prems(1,2), of co "[es_start sp - c..<es_end sp - c]"] one(1)
    by (simp_all add: r1_def)
  have c1: "c \<le> es_end sp" using Cons.prems(3) t by simp
  have e1: "list_all2 (\<lambda>sp e. span_operator co c bs sp (ge_operator e))
      (filter (\<lambda>sp. es_mode sp = Affine_Reuse) sps) (rs_entries r1)"
    using Cons.prems(5) by (auto simp: r1_def list_all2_Cons1)
  from Cons.IH[OF ok1(1,2) c1 t(3) e1, of w1] obtain r' w' s' rows outs where
    rest: "layer_recurrence co [es_end sp - c..<n] (rs_state r1) = (s', rows)"
      "fold_res (run_span recompute (\<lambda>x. x) on_complete initial) sps (r1, w1) = Inr (r', w')"
      "rs_state r' = s'" "rs_entries r' = []" "rs_outputs r' = rs_outputs r1 @ outs"
      "cat3 h v outs = rows_tensor h v rows"
      "rs_reused r' = rs_reused r1 + bs * length (filter (\<lambda>sp. es_mode sp = Affine_Reuse) sps)"
      "rs_recomputed r' + rs_reused r' = rs_recomputed r1 + rs_reused r1 + (c + n - es_end sp)" by blast
  have "[a - c..<n] = [a - c..<es_end sp - c] @ [es_end sp - c..<n]"
  proof -
    have "a - c \<le> es_end sp - c" "n = es_end sp - c + (c + n - es_end sp)" using t(2) le Cons.prems(3) by linarith+
    then show ?thesis using upt_add_eq_append[of "a - c" "es_end sp - c" "c + n - es_end sp"] by simp
  qed
  then have all: "layer_recurrence co [a - c..<n] (rs_state r) = (s', rows1 @ rows)"
    using recurrence_append[OF Cons.prems(1,2), of co "[a - c..<es_end sp - c]" "[es_end sp - c..<n]"]
      one(1) rest(1) ok1(3) t(1) by simp
  show ?case
  proof (intro exI conjI)
    show "layer_recurrence co [a - c..<n] (rs_state r) = (s', rows1 @ rows)" by (rule all)
    show "fold_res (run_span recompute (\<lambda>x. x) on_complete initial) (sp # sps) (r, w) = Inr (r', w')"
      unfolding fold_res.simps one(2) bind_res.simps r1_def[symmetric] by (rule rest(2))
    show "rs_state r' = s'" "rs_entries r' = []" by (rule rest(3,4))+
    show "rs_outputs r' = rs_outputs r @ (rows_tensor h v rows1 # outs)" using rest(5) by (simp add: r1_def)
    show "cat3 h v (rows_tensor h v rows1 # outs) = rows_tensor h v (rows1 @ rows)"
      by (simp add: cat3_Cons rest(6) append_rows)
    show "rs_reused r' = rs_reused r + bs * length (filter (\<lambda>sp. es_mode sp = Affine_Reuse) (sp # sps))"
      using rest(7) entry by (auto simp: r1_def span_operator_def)
    show "rs_recomputed r' + rs_reused r' = rs_recomputed r + rs_reused r + (c + n - a)"
      using rest(8) t(1,2) le by (auto simp: r1_def)
  qed
qed

text \<open>A resident operator under the hash of a reusable candidate is that of the candidate's own tokens.\<close>

definition operators_match :: "gdn_sidecar \<Rightarrow> coefficients \<Rightarrow> nat \<Rightarrow> nat \<Rightarrow> (int \<times> bytes) list \<Rightarrow> bool" where
  "operators_match sc co c n cands \<longleftrightarrow>
     (\<forall>(b, h) \<in> set cands. \<forall>op. c \<le> nat b * sc_block_size sc \<longrightarrow> nat b * sc_block_size sc + sc_block_size sc \<le> c + n \<longrightarrow>
        od_get (sidecar_view sc) h = Some op \<longrightarrow>
        slice_operator co (nat b * sc_block_size sc - c) (nat b * sc_block_size sc - c + sc_block_size sc) = Inr op)"

definition reuse_hashes :: "exec_plan \<Rightarrow> bytes list" where
  "reuse_hashes p = map (the \<circ> es_hash) (filter (\<lambda>sp. es_mode sp = Affine_Reuse) (ep_spans p))"

lemma execute_plan:
  fixes sc :: gdn_sidecar and w :: 'w
  defines "h \<equiv> sc_value_heads sc" and "v \<equiv> sc_value_width sc" and "k \<equiv> sc_key_width sc"
  assumes inv: "sidecar_inv sc" and p: "exec_plan_ok q (sc_block_size sc) c (c + n) cands p"
    and co: "coefficients_ok sc kh n co" and rec: "recomputes co c n (h, v, k) recompute"
    and comp: "completes on_complete" and s: "ten3_ok initial" "shape3 initial = (h, v, k)"
    and match: "operators_match sc co c n cands"
  shows "if set (reuse_hashes p) \<subseteq> od_dom (sidecar_view sc)
    then \<exists>r sc' w' s' rows. execute_gdn_delta_sequence_plan p initial sc recompute (\<lambda>x. x) on_complete w =
        Inr (Some r, sc', w') \<and>
      layer_recurrence co [0..<n] initial = (s', rows) \<and> er_outputs r = rows_tensor h v rows \<and> er_final_state r = s' \<and>
      er_reused_tokens r = sc_block_size sc * length (ep_reused p) \<and>
      er_recomputed_tokens r + er_reused_tokens r = n \<and>
      sidecar_view sc' = fold od_move_to_end (reuse_hashes p) (sidecar_view sc)
    else execute_gdn_delta_sequence_plan p initial sc recompute (\<lambda>x. x) on_complete w = Inr (None, sc, w)"
proof -
  let ?bs = "sc_block_size sc"
  let ?aff = "filter (\<lambda>sp. es_mode sp = Affine_Reuse) (ep_spans p)"
  define spans where "spans = ?aff"
  have P: "ep_start p = c" "ep_end p = c + n" "spans_tile c (ep_spans p) (c + n)"
    "set (ep_reused p) \<subseteq> {b. c \<le> b * ?bs \<and> b * ?bs + ?bs \<le> c + n}"
    "list_all2 (\<lambda>b sp. es_start sp = b * ?bs \<and> es_end sp = b * ?bs + ?bs \<and> es_block sp = Some b \<and>
       (\<exists>h. es_hash sp = Some h \<and> (int b, h) \<in> set cands)) (ep_reused p) spans"
    using p by (auto simp: exec_plan_ok_def Let_def spans_def)
  have len: "length (ep_reused p) = length spans" using list_all2_lengthD[OF P(5)] .
  have sp: "\<exists>b h. es_start sp = b * ?bs \<and> es_end sp = b * ?bs + ?bs \<and> es_hash sp = Some h \<and> (int b, h) \<in> set cands \<and>
      c \<le> b * ?bs \<and> b * ?bs + ?bs \<le> c + n" if "sp \<in> set spans" for sp
  proof -
    from that obtain i where i: "i < length spans" "sp = spans ! i" by (metis in_set_conv_nth)
    then have "ep_reused p ! i \<in> set (ep_reused p)" using len by simp
    with P(4) list_all2_nthD2[OF P(5) i(1)] i(2) show ?thesis by blast
  qed
  have hashes: "None \<notin> set (map es_hash spans)" "map the (map es_hash spans) = reuse_hashes p"
    using sp by (force, simp add: reuse_hashes_def spans_def)
  obtain res sc' where look: "lookup_many (reuse_hashes p) sc = (res, sc')" by fastforce
  note L = lookup_many_ok[OF inv look]
  show ?thesis
  proof (cases "set (reuse_hashes p) \<subseteq> od_dom (sidecar_view sc)")
    case False
    then have "res = None" "sc' = sc" using L by (simp_all add: contains_many_view)
    then show ?thesis using False look hashes
      by (simp add: execute_gdn_delta_sequence_plan_def Let_def spans_def[symmetric] check_res_def)
  next
    case True
    then obtain es where res: "res = Some es" using L by (auto simp: contains_many_view)
    with L have es: "map (Some \<circ> ge_operator) es = map (od_get (sidecar_view sc)) (reuse_hashes p)"
      and view: "sidecar_view sc' = fold od_move_to_end (reuse_hashes p) (sidecar_view sc)" by blast+
    have hs: "reuse_hashes p = map (the \<circ> es_hash) spans" by (simp add: reuse_hashes_def spans_def)
    have elen: "length es = length spans" using arg_cong[OF es, of length] by (simp add: hs)
    have entries: "list_all2 (\<lambda>sp e. span_operator co c ?bs sp (ge_operator e)) spans es"
      unfolding list_all2_conv_all_nth
    proof (intro conjI allI impI)
      fix i assume i: "i < length spans"
      then have "spans ! i \<in> set spans" by simp
      from sp[OF this] obtain b hh where b: "es_start (spans ! i) = b * ?bs" "es_end (spans ! i) = b * ?bs + ?bs"
        "es_hash (spans ! i) = Some hh" "(int b, hh) \<in> set cands" "c \<le> b * ?bs" "b * ?bs + ?bs \<le> c + n" by blast
      have "od_get (sidecar_view sc) hh = Some (ge_operator (es ! i))"
        using arg_cong[OF es, of "\<lambda>l. l ! i"] i elen b(3) by (simp add: hs)
      with match b(4-6) have "slice_operator co (b * ?bs - c) (b * ?bs - c + ?bs) = Inr (ge_operator (es ! i))"
        unfolding operators_match_def by fastforce
      with b(1,2) show "span_operator co c ?bs (spans ! i) (ge_operator (es ! i))" by (simp add: span_operator_def)
    qed (simp add: elen)
    define r0 where "r0 = \<lparr>rs_state = initial, rs_outputs = [], rs_entries = es, rs_recomputed = 0, rs_reused = 0\<rparr>"
    have r0: "ten3_ok (rs_state r0)" "shape3 (rs_state r0) = (h, v, k)" "rs_entries r0 = es" "rs_outputs r0 = []"
      "rs_reused r0 = 0" "rs_recomputed r0 = 0" "rs_state r0 = initial"
      using s by (simp_all add: r0_def)
    obtain r' w' s' rows outs where run: "layer_recurrence co [0..<n] initial = (s', rows)"
      "fold_res (run_span recompute (\<lambda>x. x) on_complete initial) (ep_spans p) (r0, w) = Inr (r', w')"
      "rs_state r' = s'" "rs_entries r' = []" "rs_outputs r' = outs" "cat3 h v outs = rows_tensor h v rows"
      "rs_reused r' = ?bs * length spans" "rs_recomputed r' + rs_reused r' = n"
      using run_spans_exact[OF co, folded h_def v_def k_def, OF rec comp s(2) r0(1,2) order_refl P(3), of ?bs w]
        entries r0 by (auto simp: spans_def)
    have rows: "length rows = n" using recurrence_ok(3)[OF s, of co "[0..<n]"] run(1) by simp
    have "execute_gdn_delta_sequence_plan p initial sc recompute (\<lambda>x. x) on_complete w =
        Inr (Some \<lparr>er_outputs = rows_tensor h v rows, er_final_state = s',
          er_recomputed_tokens = rs_recomputed r', er_reused_tokens = rs_reused r'\<rparr>, sc', w')"
      using hashes look res run(2-6) rows
      by (simp add: execute_gdn_delta_sequence_plan_def Let_def spans_def[symmetric] check_res_def r0_def[symmetric] s(2) P(1,2))
    with True run(1,7,8) view len show ?thesis by auto
  qed
qed

section \<open>Running the plan of a prefill\<close>

lemma add_candidates_distinct:
  assumes "add_candidates cs d = Inr d'"
  shows "distinct (map (nat \<circ> fst) cs) \<and> (\<forall>(b, h) \<in> set cs. 0 \<le> b) \<and> (nat \<circ> fst) ` set cs \<inter> od_dom d = {}"
  using assms
proof (induction cs arbitrary: d)
  case (Cons x cs)
  obtain b h where x: "x = (b, h)" by fastforce
  from Cons.prems have c: "0 \<le> b" "nat b \<notin> od_dom d" "add_candidates cs (od_set (nat b) h d) = Inr d'"
    by (auto simp: x)
  have "od_dom (od_set (nat b) h d) = insert (nat b) (od_dom d)" by (simp add: od_set_new[OF c(2)])
  with Cons.IH[OF c(3)] c(1,2) show ?case unfolding x by auto
qed simp

definition reusable_candidates :: "nat \<Rightarrow> nat \<Rightarrow> nat \<Rightarrow> (int \<times> bytes) list \<Rightarrow> (int \<times> bytes) set" where
  "reusable_candidates bs c n cands =
     {(b, h). (b, h) \<in> set cands \<and> c \<le> nat b * bs \<and> nat b * bs + bs \<le> c + n}"

lemma plan_reuses:
  assumes p: "exec_plan_ok q bs c (c + n) cands p" and add: "add_candidates cands [] = Inr d"
  shows "set (reuse_hashes p) = snd ` reusable_candidates bs c n cands"
    and "length (ep_reused p) = card (reusable_candidates bs c n cands)"
proof -
  define spans where "spans = filter (\<lambda>sp. es_mode sp = Affine_Reuse) (ep_spans p)"
  define R where "R = reusable_candidates bs c n cands"
  note D = add_candidates_distinct[OF add]
  have uniq: "x = y" if "x \<in> set cands" "y \<in> set cands" "nat (fst x) = nat (fst y)" for x y
  proof -
    have "inj_on (nat \<circ> fst) (set cands)" using D[THEN conjunct1] by (simp add: distinct_map)
    from inj_onD[OF this, of x y] that show ?thesis by simp
  qed
  have nonneg: "0 \<le> b" if "(b, h) \<in> set cands" for b h using D that by blast
  have P: "set (ep_reused p) = {b \<in> nat ` fst ` set cands. c \<le> b * bs \<and> b * bs + bs \<le> c + n}"
    "sorted_wrt (<) (ep_reused p)"
    "list_all2 (\<lambda>b sp. es_start sp = b * bs \<and> es_end sp = b * bs + bs \<and> es_block sp = Some b \<and>
       (\<exists>h. es_hash sp = Some h \<and> (int b, h) \<in> set cands)) (ep_reused p) spans"
    using p by (simp_all add: exec_plan_ok_def Let_def spans_def)
  have dom: "set (ep_reused p) = (nat \<circ> fst) ` R"
    unfolding P(1) R_def reusable_candidates_def by force
  have "inj_on (nat \<circ> fst) R" using uniq by (auto simp: inj_on_def R_def reusable_candidates_def)
  then have "card (set (ep_reused p)) = card R" unfolding dom by (rule card_image)
  then show "length (ep_reused p) = card (reusable_candidates bs c n cands)"
    using P(2) by (simp add: R_def strict_sorted_iff distinct_card)
  have hs: "reuse_hashes p = map (the \<circ> es_hash) spans" by (simp add: reuse_hashes_def spans_def)
  have each: "i < length spans \<Longrightarrow> \<exists>h. es_hash (spans ! i) = Some h \<and> (int (ep_reused p ! i), h) \<in> R" for i
  proof -
    assume i: "i < length spans"
    then have "ep_reused p ! i \<in> set (ep_reused p)" using list_all2_lengthD[OF P(3)] by simp
    with list_all2_nthD2[OF P(3) i] show ?thesis unfolding P(1) by (auto simp: R_def reusable_candidates_def)
  qed
  show "set (reuse_hashes p) = snd ` reusable_candidates bs c n cands"
  proof
    show "set (reuse_hashes p) \<subseteq> snd ` reusable_candidates bs c n cands"
    proof
      fix h assume "h \<in> set (reuse_hashes p)"
      then obtain i where "i < length spans" "h = the (es_hash (spans ! i))" by (auto simp: hs in_set_conv_nth)
      with each[of i] show "h \<in> snd ` reusable_candidates bs c n cands" by (force simp: R_def)
    qed
    show "snd ` reusable_candidates bs c n cands \<subseteq> set (reuse_hashes p)"
    proof
      fix h assume "h \<in> snd ` reusable_candidates bs c n cands"
      then obtain b where b: "(b, h) \<in> R" by (auto simp: R_def)
      then have "nat b \<in> set (ep_reused p)" unfolding dom by force
      then obtain i where i: "i < length (ep_reused p)" "nat b = ep_reused p ! i" by (metis in_set_conv_nth)
      have ilen: "i < length spans" using i(1) list_all2_lengthD[OF P(3)] by simp
      from each[OF this] obtain h' where h': "es_hash (spans ! i) = Some h'" "(int (nat b), h') \<in> R" using i(2) by auto
      have "(int (nat b), h') = (b, h)" by (rule uniq) (use h'(2) b in \<open>auto simp: R_def reusable_candidates_def\<close>)
      then have "the (es_hash (spans ! i)) = h" using h'(1) by simp
      with ilen show "h \<in> set (reuse_hashes p)" by (force simp: hs in_set_conv_nth)
    qed
  qed
qed

text \<open>C35. Running the plan of a prefill with reused operators gives the same result as computing every
  token.  Let the kernel compute the layer's recurrence, and let every operator that is resident
  under the hash of a reusable candidate (a candidate block inside the scheduled interval) be the
  one built from the candidate's own tokens.  If all these hashes are resident, the plan runs to
  its end without error: the outputs and the final state are those of the recurrence over all
  scheduled tokens, the reused tokens are those of the reusable candidates, every other token is
  recomputed, and the keys become the most recent ones; if any is missing, nothing is run and
  nothing changes.\<close>

theorem execute_plan_exact:
  fixes sc :: gdn_sidecar and w :: 'w and co :: coefficients
  defines "h \<equiv> sc_value_heads sc" and "v \<equiv> sc_value_width sc" and "k \<equiv> sc_key_width sc" and "bs \<equiv> sc_block_size sc"
  assumes "sidecar_reach sc" "coefficients_ok sc kh n co"
    and "build_gdn_delta_execution_plans cs ss (int bs) candidates = Inr plans" "q < length cs" "ss ! q = int n"
    and "recomputes co (nat (cs ! q)) n (h, v, k) recompute" "completes on_complete"
    and "ten3_ok initial" "shape3 initial = (h, v, k)"
    and "operators_match sc co (nat (cs ! q)) n (candidates ! q)"
  shows "if snd ` reusable_candidates bs (nat (cs ! q)) n (candidates ! q) \<subseteq> od_dom (sidecar_view sc)
    then \<exists>r sc' w' s' rows. execute_gdn_delta_sequence_plan (plans ! q) initial sc recompute (\<lambda>x. x) on_complete w =
        Inr (Some r, sc', w') \<and>
      layer_recurrence co [0..<n] initial = (s', rows) \<and> er_outputs r = rows_tensor h v rows \<and> er_final_state r = s' \<and>
      er_reused_tokens r = bs * card (reusable_candidates bs (nat (cs ! q)) n (candidates ! q)) \<and>
      er_recomputed_tokens r + er_reused_tokens r = n \<and>
      sidecar_view sc' = fold od_move_to_end (reuse_hashes (plans ! q)) (sidecar_view sc)
    else execute_gdn_delta_sequence_plan (plans ! q) initial sc recompute (\<lambda>x. x) on_complete w = Inr (None, sc, w)"
proof -
  from assms(7) have m: "map_res (sequence_plan cs ss bs candidates) [0..<length cs] = Inr plans"
    and pos: "0 < bs" by (auto simp: build_gdn_delta_execution_plans_def)
  have one: "sequence_plan cs ss bs candidates q = Inr (plans ! q)"
    using m assms(8) by (auto simp: map_res_Inr_iff list_all2_conv_all_nth)
  then obtain d where d: "add_candidates (candidates ! q) [] = Inr d" by (auto simp: sequence_plan_def)
  have p: "exec_plan_ok q bs (nat (cs ! q)) (nat (cs ! q) + n) (candidates ! q) (plans ! q)"
    using sequence_plan_ok[OF one pos] assms(9) by simp
  note E = execute_plan[OF sidecar_reach_sidecar_inv[OF assms(5)] p[unfolded bs_def] assms(6) assms(10)[unfolded h_def v_def k_def]
      assms(11,12) assms(13)[unfolded h_def v_def k_def] assms(14), of w]
  show ?thesis using E unfolding plan_reuses[OF p d] bs_def[symmetric] h_def[symmetric] v_def[symmetric]
    unfolding plan_reuses[OF p d, unfolded bs_def] bs_def h_def v_def .
qed

text \<open>A layer with one head of width one; a source prefill of one token has stored its operator, and
  a prefill of three tokens reuses it for the last.\<close>

definition demo_coefficients :: "nat \<Rightarrow> coefficients" where
  "demo_coefficients n =
     \<lparr>co_keys = mk3 n 1 1 (\<lambda>_ _ _. 1), co_queries = mk3 n 1 1 (\<lambda>_ _ _. 2), co_values = mk3 n 1 1 (\<lambda>_ _ _. 3),
      co_decays = mk2 n 1 (\<lambda>_ _. 0), co_betas = mk2 n 1 (\<lambda>_ _. 1 / 2)\<rparr>"

definition demo_sidecar :: gdn_sidecar where
  "demo_sidecar = \<lparr>sc_capacity = 2, sc_block_size = 1, sc_value_heads = 1, sc_key_width = 1, sc_value_width = 1,
     sc_operators = (\<lambda>_. undefined), sc_key_to_slot = [], sc_free_slots = [0, 1]\<rparr>"

lemma demo_sidecar_reach: "sidecar_reach demo_sidecar"
proof (rule sidecar_reach.init)
  show "sidecar_init (\<lambda>_. undefined) 2 1 1 1 1 = Inr demo_sidecar"
    by (simp add: sidecar_init_def demo_sidecar_def check_res_def upt_rec numeral_2_eq_2)
qed

lemma demo_coefficients_ok:
  "sc_value_heads sc = 1 \<Longrightarrow> sc_key_width sc = 1 \<Longrightarrow> sc_value_width sc = 1 \<Longrightarrow>
    coefficients_ok sc 1 n (demo_coefficients n)"
  by (simp add: coefficients_ok_def demo_coefficients_def)

lemma demo_stored:
  "\<exists>sc op. sidecar_reach sc \<and> same_dims demo_sidecar sc \<and> sidecar_view sc = [([7], op)] \<and>
     slice_operator (demo_coefficients 3) 2 3 = Inr op"
proof -
  have co: "coefficients_ok demo_sidecar 1 3 (demo_coefficients 3)"
    by (rule demo_coefficients_ok) (simp_all add: demo_sidecar_def)
  have dims: "sc_block_size demo_sidecar = 1" "sc_capacity demo_sidecar = 2" "sidecar_view demo_sidecar = []"
    by (simp_all add: demo_sidecar_def sidecar_view_def map_values_def)
  obtain op where op: "slice_operator (demo_coefficients 3) 2 3 = Inr op" "operator_fits demo_sidecar op = Inr ()"
    using slice_operator_fits[OF co, of 2] by (auto simp: dims)
  obtain slot sc where s: "sidecar_store [7] op demo_sidecar = Inr (slot, sc)" "same_dims demo_sidecar sc"
    "sidecar_view sc = lru_store 2 [7] op []"
    using sidecar_store_ok[OF sidecar_reach_sidecar_inv[OF demo_sidecar_reach] _ op(2), of "[7]"] dims by auto
  from sidecar_reach.store[OF demo_sidecar_reach s(1)] s(2,3) op(1) show ?thesis
    by (intro exI[of _ sc] exI[of _ op]) (simp add: lru_store_def keep_last_def)
qed

definition demo_recompute :: "unit recompute" where
  "demo_recompute a b s w =
     (let (s', rows) = layer_recurrence (demo_coefficients 3) [a..<b] s in Inr ((s', rows_tensor 1 1 rows), w))"

lemma execute_plan_exact_witness:
  "\<exists>sc plans r sc' s' rows. sidecar_reach sc \<and>
     build_gdn_delta_execution_plans [0] [3] 1 [[(2, [7])]] = Inr plans \<and>
     execute_gdn_delta_sequence_plan (plans ! 0) (mk3 1 1 1 (\<lambda>_ _ _. 5)) sc demo_recompute (\<lambda>x. x) None () =
       Inr (Some r, sc', ()) \<and>
     layer_recurrence (demo_coefficients 3) [0..<3] (mk3 1 1 1 (\<lambda>_ _ _. 5)) = (s', rows) \<and>
     er_outputs r = rows_tensor 1 1 rows \<and> er_final_state r = s' \<and>
     er_reused_tokens r = 1 \<and> er_recomputed_tokens r = 2"
proof -
  obtain sc op where sc: "sidecar_reach sc" "same_dims demo_sidecar sc" "sidecar_view sc = [([7], op)]"
    "slice_operator (demo_coefficients 3) 2 3 = Inr op" using demo_stored by blast
  have dims: "sc_value_heads sc = 1" "sc_key_width sc = 1" "sc_value_width sc = 1" "sc_block_size sc = 1"
    using sc(2) by (simp_all add: same_dims_def demo_sidecar_def)
  have "case build_gdn_delta_execution_plans [0] [3] 1 [[(2, [7])]] of Inr plans \<Rightarrow> True | Inl _ \<Rightarrow> False" by code_simp
  then obtain plans where plans: "build_gdn_delta_execution_plans [0] [3] 1 [[(2, [7])]] = Inr plans"
    by (auto split: sum.splits)
  have R: "reusable_candidates 1 0 3 [(2, [7])] = {(2, [7])}" by (auto simp: reusable_candidates_def)
  have rec: "recomputes (demo_coefficients 3) 0 3 (1, 1, 1) demo_recompute"
    by (simp add: recomputes_def demo_recompute_def Let_def case_prod_beta)
  have match: "operators_match sc (demo_coefficients 3) 0 3 [(2, [7])]"
    using sc(3,4) by (simp add: operators_match_def dims)
  note E = execute_plan_exact[where sc = sc and q = 0 and w = "()" and cs = "[0]" and ss = "[3]" and n = 3 and
      candidates = "[[(2, [7])]]" and initial = "mk3 1 1 1 (\<lambda>_ _ _. 5)" and on_complete = None and
      recompute = demo_recompute and co = "demo_coefficients 3",
      OF sc(1) demo_coefficients_ok[OF dims(1-3)], unfolded dims]
  from E[OF _ _ _ _ _ _ _ _, of plans] plans rec match R sc(1,3)
  show ?thesis by (auto simp: completes_def)
qed

end
