(* ===== verification/GdnPreflight.thy ===== *)
theory GdnPreflight
  imports GdnIndex GdnSidecar
begin

text \<open>
  The worker's side of GDN reuse, \<^verbatim>\<open>vllm/v1/worker/gpu/gdn_delta_reuse.py\<close>: the sidecars of the
  model's layers, the all-layer decision for a plan, the candidates of a batch and the summary of
  what the layers executed.  A layer is a named module of the model; the attributes the code reads
  from it are a field each.
\<close>

section \<open>Layers\<close>

text \<open>What \<open>getattr\<close> finds: no attribute, \<open>None\<close>, an object of the expected class, or another one.\<close>

datatype 'a attribute = Missing | NoneValue | Object 'a | Foreign

fun collect_gdn_delta_sidecars ::
  "(string \<times> gdn_sidecar attribute) list \<Rightarrow> (string \<times> gdn_sidecar option) list res" where
  "collect_gdn_delta_sidecars [] = Inr []"
| "collect_gdn_delta_sidecars ((name, a) # rest) =
     (case a of
        Missing \<Rightarrow> collect_gdn_delta_sidecars rest
      | Foreign \<Rightarrow> Inl (TypeError (name @ ''.gdn_delta_operator_sidecar has an invalid type''))
      | NoneValue \<Rightarrow> bind_res (collect_gdn_delta_sidecars rest) (\<lambda>ls. Inr ((name, None) # ls))
      | Object sc \<Rightarrow> bind_res (collect_gdn_delta_sidecars rest) (\<lambda>ls. Inr ((name, Some sc) # ls)))"

section \<open>Preflight\<close>

record gdn_preflight =
  gf_eligible :: bool
  gf_reason :: string
  gf_candidate_count :: nat
  gf_layers :: "(string \<times> gdn_entry list) list"

definition rejected :: "string \<Rightarrow> nat \<Rightarrow> gdn_preflight" where
  "rejected reason n = \<lparr>gf_eligible = False, gf_reason = reason, gf_candidate_count = n, gf_layers = []\<rparr>"

text \<open>The first loop: the reason to reject, if any.\<close>

fun check_layers :: "nat \<Rightarrow> bytes list \<Rightarrow> (string \<times> gdn_sidecar option) list \<Rightarrow> string option" where
  "check_layers bs hs [] = None"
| "check_layers bs hs ((_, side) # rest) =
     (case side of
        None \<Rightarrow> Some ''sidecar_unavailable''
      | Some sc \<Rightarrow>
          if sc_block_size sc \<noteq> bs then Some ''block_size_mismatch''
          else if \<not> contains_many sc hs then Some ''operator_not_resident''
          else check_layers bs hs rest)"

text \<open>The second loop returns the resolved layers, or nothing when a look-up misses, and the layers
  with their sidecars after the look-ups made so far.\<close>

fun resolve_layers ::
  "bytes list \<Rightarrow> (string \<times> gdn_sidecar option) list \<Rightarrow>
   ((string \<times> gdn_entry list) list option \<times> (string \<times> gdn_sidecar option) list) res" where
  "resolve_layers hs [] = Inr (Some [], [])"
| "resolve_layers hs ((name, side) # rest) =
     (case side of
        None \<Rightarrow> Inl (AssertionError ''sidecar is not None'')
      | Some sc \<Rightarrow>
          (case lookup_many hs sc of
             (None, sc') \<Rightarrow> Inr (None, (name, Some sc') # rest)
           | (Some es, sc') \<Rightarrow>
               bind_res (resolve_layers hs rest) (\<lambda>(r, rest').
                 Inr (map_option (\<lambda>ls. (name, es) # ls) r, (name, Some sc') # rest'))))"

definition preflight_gdn_delta_reuse ::
  "gdn_plan \<Rightarrow> (string \<times> gdn_sidecar option) list \<Rightarrow>
   (gdn_preflight \<times> (string \<times> gdn_sidecar option) list) res" where
  "preflight_gdn_delta_reuse plan layers =
     (let hs = map gc_source_contextual_hash (gp_candidates plan); n = length hs
      in if n = 0 then Inr (rejected ''no_candidates'' 0, layers)
         else if layers = [] then Inr (rejected ''no_gdn_layers'' n, layers)
         else case check_layers (gp_block_size plan) hs layers of
             Some reason \<Rightarrow> Inr (rejected reason n, layers)
           | None \<Rightarrow>
               bind_res (resolve_layers hs layers) (\<lambda>(r, layers').
                 case r of
                   None \<Rightarrow> Inr (rejected ''operator_evicted_during_preflight'' n, layers')
                 | Some ls \<Rightarrow> Inr (\<lparr>gf_eligible = True, gf_reason = ''eligible'', gf_candidate_count = n,
                     gf_layers = ls\<rparr>, layers')))"

section \<open>Batches\<close>

definition build_gdn_delta_reuse_candidates ::
  "string list \<Rightarrow> (string \<rightharpoonup> gdn_plan) \<Rightarrow> (string \<rightharpoonup> gdn_preflight) \<Rightarrow> (nat \<times> bytes) list list" where
  "build_gdn_delta_reuse_candidates req_ids plans preflights =
     map (\<lambda>rid. case (plans rid, preflights rid) of
         (Some plan, Some pre) \<Rightarrow>
           if gf_eligible pre
           then map (\<lambda>c. (gc_target_block_index c, gc_source_contextual_hash c)) (gp_candidates plan)
           else []
       | _ \<Rightarrow> []) req_ids"

record active_summary =
  as_executed :: bool
  as_reason :: string
  as_recomputed :: nat
  as_reused :: nat

record active_totals =
  at_results :: nat
  at_executed :: nat
  at_recomputed :: nat
  at_reused :: nat
  at_layers :: "(string \<times> active_summary) list"

fun active_layers :: "(string \<times> active_summary attribute) list \<Rightarrow> (string \<times> active_summary) list res" where
  "active_layers [] = Inr []"
| "active_layers ((name, a) # rest) =
     (case a of
        Missing \<Rightarrow> active_layers rest
      | NoneValue \<Rightarrow> active_layers rest
      | Foreign \<Rightarrow> Inl (TypeError (name @ ''.last_gdn_delta_active_summary has an invalid type''))
      | Object s \<Rightarrow> bind_res (active_layers rest) (\<lambda>ls. Inr ((name, s) # ls)))"

definition summarize_gdn_delta_active_results ::
  "(string \<times> active_summary attribute) list \<Rightarrow> active_totals res" where
  "summarize_gdn_delta_active_results modules =
     bind_res (active_layers modules) (\<lambda>ls.
       let executed = filter (\<lambda>(_, s). as_executed s) ls
       in Inr \<lparr>at_results = length ls, at_executed = length executed,
               at_recomputed = sum_list (map (\<lambda>(_, s). as_recomputed s) executed),
               at_reused = sum_list (map (\<lambda>(_, s). as_reused s) executed), at_layers = ls\<rparr>)"

section \<open>A request reaches the worker\<close>

text \<open>The part of \<open>GPUModelRunner\<close> that keeps plans, decisions and the evidence of a request.\<close>

record gdn_metrics =
  gm_plan :: gdn_plan
  gm_eligible :: bool
  gm_reason :: string
  gm_candidate_count :: nat
  gm_layer_count :: nat
  gm_active :: "active_totals option"
  gm_active_complete :: "bool option"

record gdn_worker =
  gw_plans :: "string \<rightharpoonup> gdn_plan"
  gw_preflights :: "string \<rightharpoonup> gdn_preflight"
  gw_metrics :: "string \<rightharpoonup> gdn_metrics"
  gw_layers :: "(string \<times> gdn_sidecar attribute) list"

definition put_back :: "(string \<times> gdn_sidecar attribute) list \<Rightarrow> (string \<times> gdn_sidecar option) list \<Rightarrow>
    (string \<times> gdn_sidecar attribute) list" where
  "put_back modules layers =
     map (\<lambda>(name, a). (name, case a of
         Object _ \<Rightarrow> (case map_of layers name of Some (Some sc) \<Rightarrow> Object sc | _ \<Rightarrow> a)
       | _ \<Rightarrow> a)) modules"

definition add_gdn_plan :: "string \<Rightarrow> gdn_plan \<Rightarrow> gdn_worker \<Rightarrow> gdn_worker res" where
  "add_gdn_plan rid plan wk =
     bind_res (collect_gdn_delta_sidecars (gw_layers wk)) (\<lambda>layers.
     bind_res (preflight_gdn_delta_reuse plan layers) (\<lambda>(pre, layers').
       Inr (wk\<lparr>gw_plans := (gw_plans wk)(rid \<mapsto> plan), gw_preflights := (gw_preflights wk)(rid \<mapsto> pre),
               gw_metrics := (gw_metrics wk)(rid \<mapsto> \<lparr>gm_plan = plan, gm_eligible = gf_eligible pre,
                 gm_reason = gf_reason pre, gm_candidate_count = gf_candidate_count pre,
                 gm_layer_count = length (gf_layers pre), gm_active = None, gm_active_complete = None\<rparr>),
               gw_layers := put_back (gw_layers wk) layers'\<rparr>)))"

definition remove_gdn_plan :: "string \<Rightarrow> gdn_worker \<Rightarrow> gdn_worker" where
  "remove_gdn_plan rid wk =
     wk\<lparr>gw_plans := (gw_plans wk)(rid := None), gw_preflights := (gw_preflights wk)(rid := None),
        gw_metrics := (gw_metrics wk)(rid := None)\<rparr>"

definition record_gdn_delta_active_metrics ::
  "string list \<Rightarrow> (string \<times> active_summary attribute) list \<Rightarrow> gdn_worker \<Rightarrow> gdn_worker res" where
  "record_gdn_delta_active_metrics req_ids modules wk =
     bind_res (summarize_gdn_delta_active_results modules) (\<lambda>s.
       Inr (wk\<lparr>gw_metrics := fold (\<lambda>rid ms. case ms rid of
           None \<Rightarrow> ms
         | Some m \<Rightarrow> ms(rid \<mapsto> m\<lparr>gm_active := Some s,
             gm_active_complete := Some (0 < gm_layer_count m \<and> at_results s = gm_layer_count m \<and>
               at_executed s = gm_layer_count m)\<rparr>)) req_ids (gw_metrics wk)\<rparr>))"

text \<open>Handing out the evidence: every request once.\<close>

definition take_gdn_delta_reuse_metrics ::
  "string list \<Rightarrow> gdn_worker \<Rightarrow> (string, gdn_metrics) odict option \<times> gdn_worker" where
  "take_gdn_delta_reuse_metrics req_ids wk =
     (let (taken, left) = fold (\<lambda>rid (d, ms). case ms rid of
            None \<Rightarrow> (d, ms) | Some m \<Rightarrow> (od_set rid m d, ms(rid := None))) req_ids ([], gw_metrics wk)
      in (if taken = [] then None else Some taken, wk\<lparr>gw_metrics := left\<rparr>))"

end
