(* ===== verification/Spec2Isabelle.thy ===== *)
theory Spec2Isabelle
  imports ReusePlans Planner RequestQueue EncoderScheduling ForwardProps KvProps
    GdnIndexProps GdnExecutionProps GdnPreflight
begin

text \<open>
  CacheSelect: prefix caching and partial KV reuse in a vLLM fork.

  \<^bold>\<open>The program.\<close>  A request brings a prompt (\<^verbatim>\<open>vllm/v1/request.py\<close>).  Its full
  blocks are hashed in a chain (\<^verbatim>\<open>vllm/v1/core/kv_cache_utils.py\<close>), and the block pool
  (\<^verbatim>\<open>vllm/v1/core/block_pool.py\<close>) hands out KV blocks from a doubly linked free queue and
  remembers cached blocks by hash.  Waiting requests sit in the queues of
  \<^verbatim>\<open>vllm/v1/core/sched/request_queue.py\<close>; outputs of the multimodal encoder are shared between
  requests by \<^verbatim>\<open>vllm/v1/core/encoder_cache_manager.py\<close> and scheduled by
  \<^verbatim>\<open>vllm/v1/core/sched/scheduler.py\<close>.  On top of the native prefix hits, CacheSelect plans the
  reuse of blocks behind a changed region: \<^verbatim>\<open>vllm/v1/core/partial_reuse.py\<close> indexes the blocks of
  earlier prompts and locates, for a new prompt, blocks with the same tokens; the selector sees
  the features computed by the package \<^verbatim>\<open>cacheselect\<close> (\<^verbatim>\<open>features.py\<close>,
  \<^verbatim>\<open>reuse_opportunity.py\<close>, \<^verbatim>\<open>block_features.py\<close>, \<^verbatim>\<open>context_features.py\<close>,
  \<^verbatim>\<open>planner.py\<close>, \<^verbatim>\<open>selector_features.py\<close>).  The worker
  (\<^verbatim>\<open>vllm/v1/worker/gpu/partial_reuse.py\<close> and the CacheSelect handlers of
  \<^verbatim>\<open>vllm/v1/worker/gpu/model_runner.py\<close>) turns a plan into block copies, position corrections
  and reused tokens, and computes only the spans of rows that are not reused.  For recurrent (gated
  delta-net) layers a second index (\<^verbatim>\<open>vllm/v1/core/gdn_delta_reuse.py\<close>) finds blocks whose
  affine operators a layer has cached (\<^verbatim>\<open>layers/mamba/gdn/delta_cache.py\<close>); the worker checks
  that every layer has them (\<^verbatim>\<open>worker/gpu/gdn_delta_reuse.py\<close>) and a layer then applies the
  operators instead of running the recurrence (\<^verbatim>\<open>layers/mamba/gdn/delta_execution.py\<close>).

  \<^bold>\<open>The theories.\<close>
    \<^item> \<open>Prelude\<close>: exceptions and results, slices and ranges, ordered dictionaries.
    \<^item> \<open>FreeQueue\<close>, \<open>BlockHashMap\<close>: the free queue as a linked list in an explicit heap, the
      hash map, each with the contract the pool uses as a locale (\<open>free_list\<close>, \<open>block_cache\<close>)
      interpreted on the model of the code.
    \<^item> \<open>BlockPool\<close>, \<open>PoolProps\<close>: every operation of \<open>BlockPool\<close>, its reachable states and
      invariant; allocation, freeing order, lookup and moving of hashes.
    \<^item> \<open>Request\<close>, \<open>BlockHash\<close>: construction of requests with the CacheSelect metadata, the
      chained hasher, group keys and the coarse view of a hash list.
    \<^item> \<open>Heapq\<close>, \<open>RequestQueue\<close>: the standard library heap and the two waiting queues, which
      refine the list of waiting requests (locales \<open>heap_order\<close>, \<open>waiting_queue\<close>).
    \<^item> \<open>EncoderCache\<close>, \<open>EncoderProps\<close>, \<open>EncoderScheduling\<close>: the encoder cache manager, its
      reachable states, and the planning of encoder inputs inside a token budget.
    \<^item> \<open>Tokens\<close>, \<open>Opportunity\<close>, \<open>Features\<close>, \<open>ContextFeatures\<close>, \<open>Selector\<close>, \<open>Planner\<close>: the
      \<^verbatim>\<open>cacheselect\<close> package (locale \<open>reuse_planner\<close> for the two planners).
    \<^item> \<open>Locator\<close>, \<open>LocatorProps\<close>, \<open>ReusePlans\<close>: the source index, its invariant, and what the
      plans contain.
    \<^item> \<open>Repair\<close>, \<open>RepairProps\<close>: the candidates of a plan with the blocks of the request, the
      repair selectors, the reused tokens and the copies.
    \<^item> \<open>Spans\<close>, \<open>SpanProps\<close>: the rows of a batch to compute, their spans, the inputs of each span
      and the stitched output.
    \<^item> \<open>KvCopies\<close>, \<open>KvProps\<close>: repacking, copying and position correction on the cache tensors, and
      the metrics of a request.
    \<^item> \<open>WorkerForward\<close>, \<open>ForwardProps\<close>: the CacheSelect state of the worker, its handlers, and the
      step that runs either the full forward pass or the spans.
    \<^item> \<open>GdnIndex\<close>, \<open>GdnIndexProps\<close>: contextual hashes and the source index of recurrent layers.
    \<^item> \<open>GdnOperators\<close>: affine operators of token blocks over the real numbers; an operator is the
      recurrence of its block for every incoming state.
    \<^item> \<open>GdnSidecar\<close>, \<open>GdnSidecarProps\<close>, \<open>GdnStoreProps\<close>: the slot table with least-recently-used
      eviction, which refines a bounded list (locale \<open>operator_cache\<close>), and the storing of the
      blocks a batch completes.
    \<^item> \<open>GdnExecution\<close>, \<open>GdnExecutionProps\<close>, \<open>GdnPreflight\<close>: plans of recomputed and reused spans,
      their execution, and the worker's all-layer decision.

  \<^bold>\<open>What is shown.\<close>  For every stateful component (pool, encoder cache, source index, request
  queues) the reachable states are an inductive predicate and an invariant holds in all of them.
  For every operation that decides something the result is characterised on each branch, the
  errors included: which blocks are allocated, hit, evicted, located, prepared, copied, computed.
  Components are put together: a plan of the locator is prepared without error by the worker, the
  copies of a prepared plan put every reused entry where the worker reads it, and for a causal
  model the spans of an eligible batch give the output of the full forward pass; running a plan
  with cached operators gives the recurrence over all tokens.  Some theorems
  describe inputs on which the code raises; they are the findings of the development.

  \<^bold>\<open>Conventions.\<close>  A Python object that is shared and mutated lives in an explicit heap (KV
  blocks); other objects are records passed along.  Errors are values of \<open>py_exc + 'a\<close>; a function
  that recurses without a bound in the source (\<open>locate\<close>, the opcode matcher) is a
  \<open>partial_function\<close> or a \<open>function\<close> whose return is proved.  Python integers are \<open>int\<close> or, where the
  code keeps them non-negative, \<open>nat\<close>; bytes are 8-bit words; float ratios and times are
  rationals.  No fuel is used.

  \<^bold>\<open>Parameters.\<close>  Hash functions (SHA-256, the interpreter's \<open>hash\<close>), where a property needs
  them to be injective it says so; the forward pass of the model, of which
  \<open>eligible_forward\<close> assumes that a row depends only on earlier cache entries and rows; the
  attention backends' metadata builder; the rotation of a cache entry by a distance; the MLP
  repair model, which answers or raises; the clocks; the recurrence kernel of a layer and the
  callback that writes its checkpoints, neither of which changes the layer's operators.  Tensors of
  recurrent layers hold real numbers, so the equality of reused and computed results is that of
  exact arithmetic; \<open>execute_plan_exact\<close> assumes that a reused operator is the one built from the
  coefficients of the target's own tokens.

  \<^bold>\<open>Not modelled.\<close>  Tensor arithmetic (kernels, model execution, sampling), the rest of the GPU
  worker, the scheduling loop with connectors and statistics, engine, entry points, configuration
  and distributed parts of vLLM are upstream code that CacheSelect only calls or passes options
  through; benchmarks, training scripts and the request recorder read and write files.  Inside the
  modelled files, serialisation for logs is left out.
\<close>

end
